(* ===== verification/Prelude.thy ===== *)
theory Prelude
  imports Complex_Main "HOL-Library.Multiset" "HOL-Library.AList"
begin

text \<open>
  The prelude of the development: the exceptions Python raises in the modelled code, the
  error monad every operation that may raise is written in, its total-correctness
  predicate \<open>okE\<close> with the rules collected under \<open>okE_simps\<close>, and the fragments of the
  Python language the sources use (indexing, slicing, \<open>range\<close>, floor division rounded up,
  dictionaries as association lists, JSON values).
\<close>

named_theorems okE_simps "rules that evaluate okE over the combinators of the error monad"
named_theorems py_simps "evaluation rules of the Python fragments"

section \<open>Exceptions and the error monad\<close>

datatype py_error =
    AssertionError
  | IndexError
  | KeyError
  | ValueError
  | TypeError
  | DuplicateRequestId string
  | InvalidRequest string
  | OverflowError
  | RuntimeError string
  | EngineDeadError string
  | CancelledError

type_synonym 'a res = "py_error + 'a"

fun bindE :: "'a res \<Rightarrow> ('a \<Rightarrow> 'b res) \<Rightarrow> 'b res" where
  "bindE (Inl e) f = Inl e"
| "bindE (Inr x) f = f x"

definition assertE :: "bool \<Rightarrow> unit res" where
  "assertE b = (if b then Inr () else Inl AssertionError)"

text \<open>A \<open>for\<close> loop whose body may raise.\<close>

fun foldE :: "('x \<Rightarrow> 's \<Rightarrow> 's res) \<Rightarrow> 'x list \<Rightarrow> 's \<Rightarrow> 's res" where
  "foldE f [] s = Inr s"
| "foldE f (x # xs) s = bindE (f x s) (foldE f xs)"

text \<open>A comprehension whose element may raise.\<close>

fun mapE :: "('a \<Rightarrow> 'b res) \<Rightarrow> 'a list \<Rightarrow> 'b list res" where
  "mapE f [] = Inr []"
| "mapE f (x # xs) = bindE (f x) (\<lambda>y. bindE (mapE f xs) (\<lambda>ys. Inr (y # ys)))"

text \<open>
  \<open>okE m P\<close>: the computation returns (it raises nothing) and its result satisfies
  \<open>P\<close>.  A theorem stated with it says that the code returns, not only that a returned
  value would be right.
\<close>

fun okE :: "'a res \<Rightarrow> ('a \<Rightarrow> bool) \<Rightarrow> bool" where
  "okE (Inl e) P = False"
| "okE (Inr x) P = P x"

lemma bindE_eq_Inr [simp]: "bindE m f = Inr y \<longleftrightarrow> (\<exists>x. m = Inr x \<and> f x = Inr y)"
  by (cases m) auto

lemma bindE_assoc: "bindE (bindE m f) g = bindE m (\<lambda>x. bindE (f x) g)"
  by (cases m) auto

lemma okE_iff: "okE m P \<longleftrightarrow> (\<exists>x. m = Inr x \<and> P x)"
  by (cases m) auto

lemma okE_Inr [okE_simps]: "okE (Inr x) P = P x"
  by simp

lemma okE_bind [okE_simps]: "okE (bindE m f) P = okE m (\<lambda>x. okE (f x) P)"
  by (cases m) auto

lemma okE_assert [okE_simps]: "okE (assertE b) P = (b \<and> P ())"
  by (simp add: assertE_def)

lemma okE_if [okE_simps]: "okE (if b then m else n) P = (if b then okE m P else okE n P)"
  by simp

lemma okE_let [okE_simps]: "okE (let x = a in f x) P = (let x = a in okE (f x) P)"
  by simp

lemma okE_mono: "okE m P \<Longrightarrow> (\<And>x. m = Inr x \<Longrightarrow> P x \<Longrightarrow> Q x) \<Longrightarrow> okE m Q"
  by (cases m) auto

lemma okE_conj: "okE m P \<Longrightarrow> okE m Q \<Longrightarrow> okE m (\<lambda>x. P x \<and> Q x)"
  by (cases m) auto

lemma okE_bindI: "okE m Q \<Longrightarrow> (\<And>x. m = Inr x \<Longrightarrow> Q x \<Longrightarrow> okE (f x) P) \<Longrightarrow> okE (bindE m f) P"
  by (cases m) auto

lemma okE_D: "okE m P \<Longrightarrow> m = Inr x \<Longrightarrow> P x"
  by simp

lemma foldE_append: "foldE f (xs @ ys) s = bindE (foldE f xs s) (foldE f ys)"
proof (induction xs arbitrary: s)
  case (Cons x xs)
  then show ?case by (cases "f x s") auto
qed simp

text \<open>The loop rule: an invariant over the part of the list already visited.\<close>

lemma okE_foldE:
  assumes "I [] s"
    and "\<And>ys x zs s. xs = ys @ x # zs \<Longrightarrow> I ys s \<Longrightarrow> okE (f x s) (I (ys @ [x]))"
  shows "okE (foldE f xs s) (I xs)"
proof -
  have "okE (foldE f zs s) (I (ys @ zs))" if "xs = ys @ zs" and "I ys s" for ys zs s
    using that
  proof (induction zs arbitrary: ys s)
    case (Cons x zs)
    have "okE (f x s) (I (ys @ [x]))"
      using assms(2) Cons.prems by blast
    moreover have "okE (foldE f zs s') (I (ys @ x # zs))" if "I (ys @ [x]) s'" for s'
      using Cons.IH [of "ys @ [x]" s'] Cons.prems that by simp
    ultimately show ?case
      by (auto simp: okE_bind intro: okE_mono)
  qed simp
  from this [of "[]" xs s] assms(1) show ?thesis by simp
qed

text \<open>The same rule for an invariant that does not mention the position.\<close>

lemma okE_foldE_inv:
  assumes "I s" and "\<And>x s. x \<in> set xs \<Longrightarrow> I s \<Longrightarrow> okE (f x s) I"
  shows "okE (foldE f xs s) I"
  using assms by (intro okE_foldE [where I = "\<lambda>_. I"]) auto

lemma length_mapE: "mapE f xs = Inr ys \<Longrightarrow> length ys = length xs"
  by (induction xs arbitrary: ys) (auto simp: bindE_eq_Inr)

lemma mapE_total: "(\<And>x. x \<in> set xs \<Longrightarrow> f x = Inr (g x)) \<Longrightarrow> mapE f xs = Inr (map g xs)"
  by (induction xs) auto

lemma mapE_ok: "(\<And>x. x \<in> set xs \<Longrightarrow> \<exists>y. f x = Inr y) \<Longrightarrow> \<exists>ys. mapE f xs = Inr ys"
proof (induction xs)
  case (Cons x xs)
  then obtain y ys where "f x = Inr y" "mapE f xs = Inr ys" by (metis list.set_intros)
  then show ?case by simp
qed simp

lemma mapE_map: "mapE f (map g xs) = mapE (\<lambda>x. f (g x)) xs"
  by (induction xs) auto

lemma mapE_ex:
  assumes "\<And>i. i < length xs \<Longrightarrow> \<exists>y. f (xs ! i) = Inr y \<and> P i y"
  shows "\<exists>ys. mapE f xs = Inr ys \<and> length ys = length xs \<and> (\<forall>i < length xs. P i (ys ! i))"
proof -
  obtain g where g: "\<And>i. i < length xs \<Longrightarrow> f (xs ! i) = Inr (g i) \<and> P i (g i)" using assms by metis
  have "mapE f xs = mapE (\<lambda>i. f (xs ! i)) [0..<length xs]" by (metis map_nth mapE_map)
  also have "\<dots> = Inr (map g [0..<length xs])" using g by (intro mapE_total) auto
  finally show ?thesis using g by auto
qed

section \<open>Indexing, slicing and ranges\<close>

definition py_len :: "'a list \<Rightarrow> int" where
  "py_len xs = int (length xs)"

text \<open>\<open>xs[i]\<close>: negative indices count from the end, and any other miss raises IndexError.\<close>

definition py_get :: "'a list \<Rightarrow> int \<Rightarrow> 'a res" where
  "py_get xs i = (let j = (if i < 0 then int (length xs) + i else i)
     in if 0 \<le> j \<and> j < int (length xs) then Inr (xs ! nat j) else Inl IndexError)"

text \<open>A slice bound: clipped into the list, a negative one taken from the end.\<close>

definition py_clip :: "nat \<Rightarrow> int \<Rightarrow> nat" where
  "py_clip n i = (if i < 0 then nat (int n + i) else min (nat i) n)"

definition py_slice :: "'a list \<Rightarrow> int \<Rightarrow> int \<Rightarrow> 'a list" where
  "py_slice xs a b = (let i = py_clip (length xs) a; j = py_clip (length xs) b in take (j - i) (drop i xs))"

definition slice_to :: "'a list \<Rightarrow> int \<Rightarrow> 'a list" where
  "slice_to xs b = take (py_clip (length xs) b) xs"

definition slice_from :: "'a list \<Rightarrow> int \<Rightarrow> 'a list" where
  "slice_from xs a = drop (py_clip (length xs) a) xs"

definition py_range :: "int \<Rightarrow> int \<Rightarrow> int list" where
  "py_range a b = map (\<lambda>k. a + int k) [0..<nat (b - a)]"

text \<open>\<open>(a + b - 1) // b\<close>, the number of blocks that hold \<open>a\<close> tokens.\<close>

definition ceil_div :: "int \<Rightarrow> int \<Rightarrow> int" where
  "ceil_div a b = (a + b - 1) div b"

lemma okE_get [okE_simps]:
  "okE (py_get xs i) P \<longleftrightarrow>
     (let j = (if i < 0 then int (length xs) + i else i)
      in 0 \<le> j \<and> j < int (length xs) \<and> P (xs ! nat j))"
  by (simp add: py_get_def Let_def)

lemma py_get_nonneg [py_simps]:
  "0 \<le> i \<Longrightarrow> i < int (length xs) \<Longrightarrow> py_get xs i = Inr (xs ! nat i)"
  by (simp add: py_get_def)

lemma py_get_last [py_simps]: "xs \<noteq> [] \<Longrightarrow> py_get xs (-1) = Inr (last xs)"
  by (simp add: py_get_def last_conv_nth Let_def nat_diff_distrib Suc_le_eq)

lemma py_get_int [simp]: "i < length xs \<Longrightarrow> py_get xs (int i) = Inr (xs ! i)"
  by (simp add: py_get_def)

lemma length_py_range [simp]: "length (py_range a b) = nat (b - a)"
  by (simp add: py_range_def)

lemma set_py_range [simp]: "set (py_range a b) = {a..<b}"
proof -
  have "i \<in> (\<lambda>k. a + int k) ` {0..<nat (b - a)}" if "a \<le> i" "i < b" for i
    using that by (intro image_eqI [where x = "nat (i - a)"]) auto
  then show ?thesis by (auto simp: py_range_def)
qed

lemma nth_py_range [simp]: "k < nat (b - a) \<Longrightarrow> py_range a b ! k = a + int k"
  by (simp add: py_range_def)

lemma py_range_empty [simp]: "b \<le> a \<Longrightarrow> py_range a b = []"
  by (simp add: py_range_def)

lemma py_range_Cons: "a < b \<Longrightarrow> py_range a b = a # py_range (a + 1) b"
proof -
  assume "a < b"
  then have "nat (b - a) = Suc (nat (b - (a + 1)))" by simp
  then show ?thesis
    by (simp add: py_range_def upt_conv_Cons comp_def ac_simps flip: map_Suc_upt del: upt_Suc)
qed

lemma py_range_snoc: "a \<le> b \<Longrightarrow> py_range a (b + 1) = py_range a b @ [b]"
proof -
  assume "a \<le> b"
  then have "nat (b + 1 - a) = Suc (nat (b - a))" by simp
  then show ?thesis using \<open>a \<le> b\<close> by (simp add: py_range_def)
qed

lemma py_range_split:
  assumes "py_range a b = ys @ x # zs"
  shows "x = a + int (length ys)" and "length ys < nat (b - a)" and "ys = py_range a x"
proof -
  have l: "length ys < length (py_range a b)" using assms by simp
  then show "length ys < nat (b - a)" by simp
  have "x = py_range a b ! length ys" using assms by simp
  with l show x: "x = a + int (length ys)" by simp
  have "ys = take (length ys) (py_range a b)" using assms by simp
  with x show "ys = py_range a x"
    using l by (simp add: py_range_def take_map)
qed

lemma py_slice_nonneg:
  "0 \<le> a \<Longrightarrow> a \<le> b \<Longrightarrow> py_slice xs a b = take (nat (b - a)) (drop (nat a) xs)"
  by (cases "nat a \<le> length xs") (auto simp: py_slice_def py_clip_def Let_def min_def nat_diff_distrib)

lemma slice_to_nonneg: "0 \<le> b \<Longrightarrow> slice_to xs b = take (nat b) xs"
  by (auto simp: slice_to_def py_clip_def min_def)

lemma slice_from_nonneg: "0 \<le> a \<Longrightarrow> slice_from xs a = drop (nat a) xs"
  by (auto simp: slice_from_def py_clip_def min_def)

lemma length_slice_to: "0 \<le> b \<Longrightarrow> length (slice_to xs b) = min (length xs) (nat b)"
  by (simp add: slice_to_nonneg)

subsection \<open>Rounded-up division\<close>

lemma ceil_div_le_iff: "0 < b \<Longrightarrow> ceil_div a b \<le> k \<longleftrightarrow> a \<le> k * b"
proof -
  assume b: "0 < b"
  define q r where "q = (a + b - 1) div b" and "r = (a + b - 1) mod b"
  then have d: "a + b - 1 = q * b + r" and r: "0 \<le> r" "r < b"
    using b by simp_all
  show ?thesis
  proof
    assume "ceil_div a b \<le> k"
    then have "q * b \<le> k * b" using b q_def by (simp add: ceil_div_def mult_right_mono)
    with d r show "a \<le> k * b" by linarith
  next
    assume "a \<le> k * b"
    with d r have "q * b < k * b + b" by linarith
    then have "q * b < (k + 1) * b" by (simp add: algebra_simps)
    then show "ceil_div a b \<le> k" using b q_def by (simp add: ceil_div_def)
  qed
qed

lemma ceil_div_ge: "0 < b \<Longrightarrow> a \<le> ceil_div a b * b"
  using ceil_div_le_iff by blast

lemma ceil_div_mono: "0 < b \<Longrightarrow> a \<le> c \<Longrightarrow> ceil_div a b \<le> ceil_div c b"
  by (simp add: ceil_div_def zdiv_mono1)

lemma ceil_div_nonneg: "0 < b \<Longrightarrow> 0 \<le> a \<Longrightarrow> 0 \<le> ceil_div a b"
  by (simp add: ceil_div_def pos_imp_zdiv_nonneg_iff)

lemma ceil_div_pos: "0 < b \<Longrightarrow> 0 < a \<Longrightarrow> 0 < ceil_div a b"
  by (simp add: ceil_div_def pos_imp_zdiv_pos_iff)

lemma ceil_div_pred_div: "0 < b \<Longrightarrow> ceil_div a b - 1 = (a - 1) div b"
  using div_add_self2 [of b "a - 1"] by (simp add: ceil_div_def algebra_simps)

lemma div_le_ceil_div: "0 < b \<Longrightarrow> a div b \<le> ceil_div a b"
  by (simp add: ceil_div_def zdiv_mono1)

lemma div_le_of_le_mult: "0 < b \<Longrightarrow> a \<le> k * b \<Longrightarrow> a div b \<le> (k :: int)"
  using ceil_div_le_iff [of b a k] div_le_ceil_div [of b a] by simp

lemma le_div_iff_mult: "0 < b \<Longrightarrow> k \<le> a div b \<longleftrightarrow> k * b \<le> (a :: int)"
proof -
  assume b: "0 < b"
  have "a div b < k \<longleftrightarrow> a < k * b"
    using b ceil_div_le_iff [of b "a + 1" k] div_add_self2 [of b a] by (simp add: ceil_div_def add1_zle_eq)
  then show ?thesis by linarith
qed

section \<open>Dictionaries\<close>

text \<open>
  A \<open>dict\<close> is an association list with distinct keys, in insertion order: \<open>AList.update\<close>
  keeps the place of an existing key, as Python does.
\<close>

type_synonym ('k, 'v) dict = "('k \<times> 'v) list"

definition dict_get :: "('k, 'v) dict \<Rightarrow> 'k \<Rightarrow> 'v res" where
  "dict_get d k = (case map_of d k of None \<Rightarrow> Inl KeyError | Some v \<Rightarrow> Inr v)"

abbreviation dict_put :: "('k, 'v) dict \<Rightarrow> 'k \<Rightarrow> 'v \<Rightarrow> ('k, 'v) dict" where
  "dict_put d k v \<equiv> AList.update k v d"

abbreviation dict_del :: "('k, 'v) dict \<Rightarrow> 'k \<Rightarrow> ('k, 'v) dict" where
  "dict_del d k \<equiv> AList.delete k d"

abbreviation dict_keys :: "('k, 'v) dict \<Rightarrow> 'k set" where
  "dict_keys d \<equiv> fst ` set d"

abbreviation dict_vals :: "('k, 'v) dict \<Rightarrow> 'v list" where
  "dict_vals d \<equiv> map snd d"

abbreviation wf_dict :: "('k, 'v) dict \<Rightarrow> bool" where
  "wf_dict d \<equiv> distinct (map fst d)"

lemma okE_dict_get [okE_simps]: "okE (dict_get d k) P \<longleftrightarrow> (\<exists>v. map_of d k = Some v \<and> P v)"
  by (auto simp: dict_get_def split: option.splits)

lemma wf_dict_put [simp]: "wf_dict d \<Longrightarrow> wf_dict (dict_put d k v)"
  by (rule distinct_update)

lemma wf_dict_del [simp]: "wf_dict d \<Longrightarrow> wf_dict (dict_del d k)"
  by (rule distinct_delete)

lemma dict_put_new: "k \<notin> dict_keys d \<Longrightarrow> dict_put d k v = d @ [(k, v)]"
  by (induction d) auto

lemma dict_del_vals:
  assumes "wf_dict d" and "map_of d k = Some v"
  shows "mset (dict_vals d) = add_mset v (mset (dict_vals (dict_del d k)))"
  using assms
proof (induction d)
  case (Cons p d)
  then show ?case
    by (cases p; cases "fst p = k") (auto simp: delete_keys image_iff rev_image_eqI)
qed simp

lemma map_of_SomeD_key: "map_of d k = Some v \<Longrightarrow> k \<in> dict_keys d"
  by (metis domI dom_map_of_conv_image_fst)

section \<open>JSON values\<close>

text \<open>What a request body carries before it is validated; \<open>truthy\<close> is Python's \<open>bool()\<close>.\<close>

datatype json =
    JNull
  | JBool bool
  | JInt int
  | JFloat rat
  | JStr string
  | JList "json list"
  | JObj "(string \<times> json) list"

fun truthy :: "json \<Rightarrow> bool" where
  "truthy JNull = False"
| "truthy (JBool b) = b"
| "truthy (JInt i) = (i \<noteq> 0)"
| "truthy (JFloat f) = (f \<noteq> 0)"
| "truthy (JStr s) = (s \<noteq> [])"
| "truthy (JList xs) = (xs \<noteq> [])"
| "truthy (JObj kvs) = (kvs \<noteq> [])"

text \<open>\<open>params.get(key)\<close> used as a condition.\<close>

definition get_truthy :: "(string, json) dict \<Rightarrow> string \<Rightarrow> bool" where
  "get_truthy params key = (case map_of params key of None \<Rightarrow> False | Some v \<Rightarrow> truthy v)"

end
