(* ===== verification/Sequences.thy ===== *)
theory Sequences
  imports Prelude "HOL-Library.Word" "HOL-Library.Countable"
begin

text \<open>
  \<open>SamplingParams\<close> (sampling_params.py), \<open>RequestMetrics\<close> (engine/output.py) and
  \<open>Sequence\<close> (engine/sequence.py): one request's tokens, counters, block table and the
  chained hashes of its full blocks.

  The class attributes of \<open>Sequence\<close> are the record \<open>seq_class\<close>, an argument of every
  method that reads them.  The digests (hashlib, xxhash) and pickle are parameters: byte
  functions held in \<open>seq_class\<close>.  Clock readings are arguments of the methods that read
  the clock.  Floats are rationals: only comparisons, differences and one quotient of them
  are modelled, without rounding.

  Shown here: every method keeps the well-formedness \<open>seq_wf\<close>; the block hashes, which the
  code extends one block at a time, are the reference chain \<open>chain\<close> of the whole token
  list; equal chain hashes mean equal token prefixes when the block hash has no collisions;
  and the state that crosses to a tensor-parallel worker keeps what a worker reads.
\<close>

section \<open>Sampling parameters\<close>

record sampling_params =
  sp_temperature :: rat
  sp_top_p :: rat
  sp_top_k :: int
  sp_max_tokens :: int
  sp_ignore_eos :: bool
  sp_stop_token_ids :: "int list"
  sp_skip_special_tokens :: bool
  sp_priority :: int
  sp_kv_transfer_params :: "(string, json) dict option"

definition sampling_params_default :: sampling_params where
  "sampling_params_default = \<lparr>sp_temperature = 1, sp_top_p = 1, sp_top_k = 0, sp_max_tokens = 64,
     sp_ignore_eos = False, sp_stop_token_ids = [], sp_skip_special_tokens = True, sp_priority = 0,
     sp_kv_transfer_params = None\<rparr>"

definition sampling_params_post_init :: "sampling_params \<Rightarrow> sampling_params res" where
  "sampling_params_post_init p =
     bindE (assertE (0 \<le> sp_temperature p)) (\<lambda>_.
     bindE (assertE (1 \<le> sp_max_tokens p)) (\<lambda>_.
     bindE (assertE (0 < sp_top_p p \<and> sp_top_p p \<le> 1)) (\<lambda>_.
     bindE (assertE (-1 \<le> sp_top_k p)) (\<lambda>_.
     Inr (if sp_temperature p = 0 then p\<lparr>sp_top_p := 1, sp_top_k := 0\<rparr> else p)))))"

section \<open>Request metrics\<close>

record request_metrics =
  rm_arrival_time :: rat
  rm_num_prompt_tokens :: int
  rm_num_completion_tokens :: int
  rm_num_preemptions :: int
  rm_first_scheduled_time :: "rat option"
  rm_first_token_time :: "rat option"
  rm_finish_time :: "rat option"

definition queue_time :: "request_metrics \<Rightarrow> rat option" where
  "queue_time m = map_option (\<lambda>t. t - rm_arrival_time m) (rm_first_scheduled_time m)"

definition ttft :: "request_metrics \<Rightarrow> rat option" where
  "ttft m = map_option (\<lambda>t. t - rm_arrival_time m) (rm_first_token_time m)"

definition e2e :: "request_metrics \<Rightarrow> rat option" where
  "e2e m = map_option (\<lambda>t. t - rm_arrival_time m) (rm_finish_time m)"

definition tpot :: "request_metrics \<Rightarrow> rat option" where
  "tpot m = (case (rm_finish_time m, rm_first_token_time m) of
     (Some fin, Some first) \<Rightarrow>
       (if rm_num_completion_tokens m < 2 then None
        else Some ((fin - first) / of_int (rm_num_completion_tokens m - 1)))
   | _ \<Rightarrow> None)"

section \<open>Block hashes\<close>

type_synonym byte = "8 word"

text \<open>\<open>int.from_bytes(bs, "big")\<close>\<close>

definition int_from_bytes_big :: "byte list \<Rightarrow> int" where
  "int_from_bytes_big bs = foldl (\<lambda>n b. n * 256 + uint b) 0 bs"

record seq_class =
  cls_block_size :: int
  cls_enable_prefix_caching :: bool
  cls_hash_algo :: string
  ext_pickle :: "int \<times> int list \<Rightarrow> byte list"
  ext_sha256 :: "byte list \<Rightarrow> byte list"
  ext_xxh128 :: "byte list \<Rightarrow> byte list"

definition serialize :: "seq_class \<Rightarrow> int list \<Rightarrow> int \<Rightarrow> byte list" where
  "serialize cls token_ids prefix = ext_pickle cls (prefix, token_ids)"

definition sha256_hash :: "seq_class \<Rightarrow> int list \<Rightarrow> int \<Rightarrow> int" where
  "sha256_hash cls token_ids prefix = int_from_bytes_big (ext_sha256 cls (serialize cls token_ids prefix))"

definition xxhash_hash :: "seq_class \<Rightarrow> int list \<Rightarrow> int \<Rightarrow> int" where
  "xxhash_hash cls token_ids prefix = int_from_bytes_big (ext_xxh128 cls (serialize cls token_ids prefix))"

definition HASH_ALGOS :: "seq_class \<Rightarrow> (string, int list \<Rightarrow> int \<Rightarrow> int) dict" where
  "HASH_ALGOS cls = [(''sha256'', sha256_hash cls), (''xxhash'', xxhash_hash cls)]"

section \<open>The Sequence object\<close>

datatype sequence_status = WAITING | WAITING_FOR_REMOTE_KVS | RUNNING | FINISHED

record sequence =
  seq_id :: nat
  request_id :: string
  status :: sequence_status
  token_ids :: "int list"
  last_token :: int
  num_tokens :: int
  num_prompt_tokens :: int
  num_cached_tokens :: int
  num_pending_tokens :: int
  num_published_blocks :: int
  num_scheduled_tokens :: int
  num_new_tokens :: int
  spec_token_ids :: "int list"
  is_prefill :: bool
  block_table :: "nat list"
  block_hashes :: "int list"
  temperature :: rat
  top_p :: rat
  top_k :: int
  max_tokens :: int
  ignore_eos :: bool
  stop_token_ids :: "int list"
  skip_special_tokens :: bool
  priority :: int
  kv_transfer_params :: "(string, json) dict option"
  kv_transfer_result :: "(string, json) dict option"
  finish_reason :: "string option"
  num_preemptions :: int
  arrival_time :: rat
  first_scheduled_time :: "rat option"
  first_token_time :: "rat option"
  finish_time :: "rat option"

definition is_finished :: "sequence \<Rightarrow> bool" where
  "is_finished s \<longleftrightarrow> status s = FINISHED"

definition num_completion_tokens :: "sequence \<Rightarrow> int" where
  "num_completion_tokens s = num_tokens s - num_prompt_tokens s"

definition num_planned_tokens :: "sequence \<Rightarrow> int" where
  "num_planned_tokens s = num_tokens s + num_pending_tokens s"

definition prompt_token_ids :: "sequence \<Rightarrow> int list" where
  "prompt_token_ids s = slice_to (token_ids s) (num_prompt_tokens s)"

definition completion_token_ids :: "sequence \<Rightarrow> int list" where
  "completion_token_ids s = slice_from (token_ids s) (num_prompt_tokens s)"

definition num_blocks :: "seq_class \<Rightarrow> sequence \<Rightarrow> int" where
  "num_blocks cls s = (num_planned_tokens s + cls_block_size cls - 1) div cls_block_size cls"

definition block :: "seq_class \<Rightarrow> sequence \<Rightarrow> int \<Rightarrow> int list res" where
  "block cls s i =
     bindE (assertE (0 \<le> i \<and> i < num_blocks cls s)) (\<lambda>_.
     Inr (py_slice (token_ids s) (i * cls_block_size cls) ((i + 1) * cls_block_size cls)))"

definition extend_block_hashes :: "seq_class \<Rightarrow> sequence \<Rightarrow> sequence res" where
  "extend_block_hashes cls s =
     (if \<not> cls_enable_prefix_caching cls then Inr s
      else bindE (dict_get (HASH_ALGOS cls) (cls_hash_algo cls)) (\<lambda>algo.
        foldE (\<lambda>i s.
            bindE (if block_hashes s \<noteq> [] then py_get (block_hashes s) (-1) else Inr (-1)) (\<lambda>prefix.
            bindE (block cls s i) (\<lambda>b.
            Inr (s\<lparr>block_hashes := block_hashes s @ [algo b prefix]\<rparr>))))
          (py_range (py_len (block_hashes s)) (num_tokens s div cls_block_size cls)) s))"

text \<open>\<open>f"req-{seq_id}"\<close>\<close>

fun show_nat :: "nat \<Rightarrow> string" where
  "show_nat n = (if n < 10 then [char_of (48 + n)] else show_nat (n div 10) @ [char_of (48 + n mod 10)])"

declare show_nat.simps [simp del]

definition new_sequence ::
  "seq_class \<Rightarrow> nat \<Rightarrow> rat \<Rightarrow> int list \<Rightarrow> sampling_params \<Rightarrow> string option \<Rightarrow> sequence res" where
  "new_sequence cls sid now toks sp rid =
     bindE (py_get toks (-1)) (\<lambda>lst.
     extend_block_hashes cls
       \<lparr>seq_id = sid,
        request_id = (case rid of Some r \<Rightarrow> r | None \<Rightarrow> ''req-'' @ show_nat sid),
        status = WAITING,
        token_ids = toks,
        last_token = lst,
        num_tokens = py_len toks,
        num_prompt_tokens = py_len toks,
        num_cached_tokens = 0,
        num_pending_tokens = 0,
        num_published_blocks = 0,
        num_scheduled_tokens = 0,
        num_new_tokens = 0,
        spec_token_ids = [],
        is_prefill = True,
        block_table = [],
        block_hashes = [],
        temperature = sp_temperature sp,
        top_p = sp_top_p sp,
        top_k = sp_top_k sp,
        max_tokens = sp_max_tokens sp,
        ignore_eos = sp_ignore_eos sp,
        stop_token_ids = sp_stop_token_ids sp,
        skip_special_tokens = sp_skip_special_tokens sp,
        priority = sp_priority sp,
        kv_transfer_params = sp_kv_transfer_params sp,
        kv_transfer_result = None,
        finish_reason = None,
        num_preemptions = 0,
        arrival_time = now,
        first_scheduled_time = None,
        first_token_time = None,
        finish_time = None\<rparr>)"

definition reserve_token :: "int \<Rightarrow> sequence \<Rightarrow> sequence" where
  "reserve_token n s = s\<lparr>num_pending_tokens := num_pending_tokens s + n\<rparr>"

definition commit_token :: "seq_class \<Rightarrow> int \<Rightarrow> sequence \<Rightarrow> sequence res" where
  "commit_token cls token_id s =
     bindE (assertE (num_pending_tokens s \<noteq> 0)) (\<lambda>_.
     extend_block_hashes cls
       (s\<lparr>token_ids := token_ids s @ [token_id],
          last_token := token_id,
          num_tokens := num_tokens s + 1,
          num_pending_tokens := num_pending_tokens s - 1\<rparr>))"

definition append_token :: "seq_class \<Rightarrow> int \<Rightarrow> sequence \<Rightarrow> sequence res" where
  "append_token cls token_id s = commit_token cls token_id (reserve_token 1 s)"

definition drop_pending :: "sequence \<Rightarrow> sequence" where
  "drop_pending s = s\<lparr>num_pending_tokens := 0\<rparr>"

definition metrics :: "sequence \<Rightarrow> request_metrics" where
  "metrics s = \<lparr>rm_arrival_time = arrival_time s,
     rm_num_prompt_tokens = num_prompt_tokens s,
     rm_num_completion_tokens = num_completion_tokens s,
     rm_num_preemptions = num_preemptions s,
     rm_first_scheduled_time = first_scheduled_time s,
     rm_first_token_time = first_token_time s,
     rm_finish_time = finish_time s\<rparr>"

section \<open>What crosses to a tensor-parallel worker\<close>

text \<open>\<open>last_state\<close> is the whole token list of a prefill and the last token of a decode.\<close>

datatype last_state = AllTokens "int list" | LastToken int

record pickled_sequence =
  pk_seq_id :: nat
  pk_temperature :: rat
  pk_top_k :: int
  pk_top_p :: rat
  pk_num_tokens :: int
  pk_num_prompt_tokens :: int
  pk_num_cached_tokens :: int
  pk_num_scheduled_tokens :: int
  pk_num_pending_tokens :: int
  pk_is_prefill :: bool
  pk_block_table :: "nat list"
  pk_spec_token_ids :: "int list"
  pk_last_state :: last_state

text \<open>The attributes an unpickled object has: those \<open>__setstate__\<close> assigns.\<close>

record worker_sequence =
  ws_seq_id :: nat
  ws_temperature :: rat
  ws_top_k :: int
  ws_top_p :: rat
  ws_num_tokens :: int
  ws_num_prompt_tokens :: int
  ws_num_cached_tokens :: int
  ws_num_scheduled_tokens :: int
  ws_num_pending_tokens :: int
  ws_is_prefill :: bool
  ws_block_table :: "nat list"
  ws_spec_token_ids :: "int list"
  ws_token_ids :: "int list"
  ws_last_token :: int

definition getstate :: "sequence \<Rightarrow> pickled_sequence" where
  "getstate s = \<lparr>pk_seq_id = seq_id s, pk_temperature = temperature s, pk_top_k = top_k s,
     pk_top_p = top_p s, pk_num_tokens = num_tokens s, pk_num_prompt_tokens = num_prompt_tokens s,
     pk_num_cached_tokens = num_cached_tokens s, pk_num_scheduled_tokens = num_scheduled_tokens s,
     pk_num_pending_tokens = num_pending_tokens s, pk_is_prefill = is_prefill s,
     pk_block_table = block_table s, pk_spec_token_ids = spec_token_ids s,
     pk_last_state = (if \<not> is_prefill s then LastToken (last_token s) else AllTokens (token_ids s))\<rparr>"

definition setstate :: "pickled_sequence \<Rightarrow> worker_sequence res" where
  "setstate p =
     (let mk = (\<lambda>toks lst. \<lparr>ws_seq_id = pk_seq_id p, ws_temperature = pk_temperature p, ws_top_k = pk_top_k p,
        ws_top_p = pk_top_p p, ws_num_tokens = pk_num_tokens p,
        ws_num_prompt_tokens = pk_num_prompt_tokens p, ws_num_cached_tokens = pk_num_cached_tokens p,
        ws_num_scheduled_tokens = pk_num_scheduled_tokens p,
        ws_num_pending_tokens = pk_num_pending_tokens p, ws_is_prefill = pk_is_prefill p,
        ws_block_table = pk_block_table p, ws_spec_token_ids = pk_spec_token_ids p,
        ws_token_ids = toks, ws_last_token = lst\<rparr>)
      in case pk_last_state p of
           AllTokens toks \<Rightarrow> bindE (py_get toks (-1)) (\<lambda>lst. Inr (mk toks lst))
         | LastToken t \<Rightarrow> Inr (mk [] t))"

section \<open>The reference chain of block hashes\<close>

text \<open>\<open>chain algo bs ts k\<close>: the hashes of the first \<open>k\<close> blocks, each over its tokens and the
  hash before it, \<open>-1\<close> before the first.\<close>

definition block_at :: "nat \<Rightarrow> int list \<Rightarrow> nat \<Rightarrow> int list" where
  "block_at bs ts i = take bs (drop (i * bs) ts)"

fun chain :: "(int list \<Rightarrow> int \<Rightarrow> int) \<Rightarrow> nat \<Rightarrow> int list \<Rightarrow> nat \<Rightarrow> int list" where
  "chain algo bs ts 0 = []"
| "chain algo bs ts (Suc k) =
     (let c = chain algo bs ts k in c @ [algo (block_at bs ts k) (if c = [] then -1 else last c)])"

lemma length_chain [simp]: "length (chain algo bs ts k) = k"
  by (induction k) (simp_all add: Let_def)

lemma chain_eq_Nil [simp]: "chain algo bs ts k = [] \<longleftrightarrow> k = 0"
  by (metis length_0_conv length_chain)

lemma take_chain: "j \<le> k \<Longrightarrow> take j (chain algo bs ts k) = chain algo bs ts j"
  by (induction k) (auto simp: Let_def le_Suc_eq)

lemma nth_chain: "j < k \<Longrightarrow> chain algo bs ts k ! j = last (chain algo bs ts (Suc j))"
proof -
  assume "j < k"
  then have "chain algo bs ts k ! j = take (Suc j) (chain algo bs ts k) ! j" by simp
  also have "\<dots> = chain algo bs ts (Suc j) ! j"
    using \<open>j < k\<close> take_chain [of "Suc j" k algo bs ts] by (simp del: chain.simps)
  finally show ?thesis by (simp add: Let_def nth_append)
qed

lemma last_chain_Suc:
  "last (chain algo bs ts (Suc k)) =
     algo (block_at bs ts k) (if k = 0 then -1 else last (chain algo bs ts k))"
  by (simp add: Let_def)

declare chain.simps(2) [simp del]

lemma block_at_append:
  "Suc i * bs \<le> length ts \<Longrightarrow> block_at bs (ts @ us) i = block_at bs ts i"
  by (simp add: block_at_def)

lemma chain_append: "k * bs \<le> length ts \<Longrightarrow> chain algo bs (ts @ us) k = chain algo bs ts k"
proof (induction k)
  case (Suc k)
  then have "chain algo bs (ts @ us) k = chain algo bs ts k" by simp
  with Suc.prems show ?case by (simp only: chain.simps block_at_append Let_def)
qed simp

lemma length_block_at: "Suc i * bs \<le> length ts \<Longrightarrow> length (block_at bs ts i) = bs"
  by (simp add: block_at_def)

text \<open>
  \<open>collision_free algo\<close> is what a cryptographic digest over an injective serialisation is
  used for; \<open>-1\<close>, the prefix of the first block, is not the hash of any block.
\<close>

definition collision_free :: "(int list \<Rightarrow> int \<Rightarrow> int) \<Rightarrow> bool" where
  "collision_free algo \<longleftrightarrow>
     (\<forall>ts p ts' p'. algo ts p = algo ts' p' \<longrightarrow> ts = ts' \<and> p = p') \<and> (\<forall>ts p. algo ts p \<noteq> -1)"

lemma last_chain_inj:
  assumes cf: "collision_free algo"
    and "last (chain algo bs ts (Suc k)) = last (chain algo bs ts' (Suc k'))"
  shows "k = k' \<and> (\<forall>i \<le> k. block_at bs ts i = block_at bs ts' i)"
  using assms(2)
proof (induction k arbitrary: k')
  case 0
  show ?case
  proof (cases k')
    case 0
    with "0.prems" cf show ?thesis by (simp add: chain.simps Let_def collision_free_def)
  next
    case (Suc j)
    have "algo (block_at bs ts 0) (-1) = algo (block_at bs ts' (Suc j)) (last (chain algo bs ts' (Suc j)))"
      using "0.prems" by (simp add: Suc last_chain_Suc [of algo bs ts' "Suc j"] last_chain_Suc [of algo bs ts 0])
    with cf have "last (chain algo bs ts' (Suc j)) = -1"
      unfolding collision_free_def by metis
    then show ?thesis
      using cf unfolding last_chain_Suc collision_free_def by blast
  qed
next
  case (Suc k)
  from Suc.prems cf have b: "block_at bs ts (Suc k) = block_at bs ts' k'"
    and p: "last (chain algo bs ts (Suc k)) = (if k' = 0 then -1 else last (chain algo bs ts' k'))"
    unfolding last_chain_Suc [of algo bs ts "Suc k"] last_chain_Suc [of algo bs ts' k'] collision_free_def
    by auto
  have "k' \<noteq> 0"
    using p cf unfolding last_chain_Suc collision_free_def by metis
  then obtain j where j: "k' = Suc j" by (cases k') auto
  with p Suc.IH [of j] have "k = j \<and> (\<forall>i \<le> k. block_at bs ts i = block_at bs ts' i)" by simp
  with j b show ?case by (auto simp: le_Suc_eq)
qed

lemma take_Suc_mult: "take (Suc k * bs) ts = take (k * bs) ts @ block_at bs ts k"
  using take_add [of "k * bs" bs ts] by (simp add: block_at_def add.commute)

lemma take_blocks_eq:
  "(\<forall>i < k. block_at bs ts i = block_at bs ts' i) \<Longrightarrow> take (k * bs) ts = take (k * bs) ts'"
proof (induction k)
  case (Suc k)
  then show ?case unfolding take_Suc_mult by simp
qed simp

section \<open>Well-formed sequences\<close>

definition cls_algo :: "seq_class \<Rightarrow> int list \<Rightarrow> int \<Rightarrow> int" where
  "cls_algo cls = (case map_of (HASH_ALGOS cls) (cls_hash_algo cls) of Some algo \<Rightarrow> algo | None \<Rightarrow> (\<lambda>_ _. 0))"

definition cls_wf :: "seq_class \<Rightarrow> bool" where
  "cls_wf cls \<longleftrightarrow> 0 < cls_block_size cls \<and> cls_hash_algo cls \<in> {''sha256'', ''xxhash''}"

abbreviation bsz :: "seq_class \<Rightarrow> nat" where
  "bsz cls \<equiv> nat (cls_block_size cls)"

definition hashes_ok :: "seq_class \<Rightarrow> sequence \<Rightarrow> bool" where
  "hashes_ok cls s \<longleftrightarrow> block_hashes s =
     (if cls_enable_prefix_caching cls
      then chain (cls_algo cls) (bsz cls) (token_ids s) (length (token_ids s) div bsz cls) else [])"

definition seq_wf :: "seq_class \<Rightarrow> sequence \<Rightarrow> bool" where
  "seq_wf cls s \<longleftrightarrow> num_tokens s = int (length (token_ids s)) \<and> token_ids s \<noteq> [] \<and>
     last_token s = last (token_ids s) \<and> 0 < num_prompt_tokens s \<and>
     num_prompt_tokens s \<le> num_tokens s \<and> 0 \<le> num_pending_tokens s \<and> hashes_ok cls s"

lemma int_from_bytes_big_nonneg: "0 \<le> int_from_bytes_big bs"
proof -
  have "0 \<le> n \<Longrightarrow> 0 \<le> foldl (\<lambda>n b. n * 256 + uint b) n bs" for n :: int
    by (induction bs arbitrary: n) auto
  then show ?thesis by (simp add: int_from_bytes_big_def)
qed

lemma cls_algo_nonneg: "0 \<le> cls_algo cls ts p"
  by (auto simp: cls_algo_def HASH_ALGOS_def sha256_hash_def xxhash_hash_def
      int_from_bytes_big_nonneg split: option.splits if_splits)

lemma HASH_ALGOS_get: "cls_wf cls \<Longrightarrow> dict_get (HASH_ALGOS cls) (cls_hash_algo cls) = Inr (cls_algo cls)"
  by (auto simp: cls_wf_def cls_algo_def dict_get_def HASH_ALGOS_def)

lemma num_blocks_ceil: "num_blocks cls s = ceil_div (num_planned_tokens s) (cls_block_size cls)"
  by (simp add: num_blocks_def ceil_div_def)

lemma block_eq:
  assumes "0 < cls_block_size cls" and "0 \<le> i" and "i < num_blocks cls s"
  shows "block cls s i = Inr (block_at (bsz cls) (token_ids s) (nat i))"
proof -
  have "nat ((i + 1) * cls_block_size cls - i * cls_block_size cls) = bsz cls"
    by (simp add: algebra_simps)
  moreover have "nat (i * cls_block_size cls) = nat i * bsz cls"
    using assms by (simp add: nat_mult_distrib)
  ultimately show ?thesis
    using assms by (simp add: block_def assertE_def py_slice_nonneg mult_right_mono block_at_def)
qed

lemma full_block_lt_num_blocks:
  assumes "cls_wf cls" and "0 \<le> num_pending_tokens s" and "i < num_tokens s div cls_block_size cls"
  shows "i < num_blocks cls s"
proof -
  have "num_tokens s div cls_block_size cls \<le> num_blocks cls s"
    using assms unfolding num_blocks_def cls_wf_def num_planned_tokens_def
    by (intro zdiv_mono1) auto
  with assms show ?thesis by simp
qed

lemma num_full_blocks:
  "cls_wf cls \<Longrightarrow> seq_wf cls s \<Longrightarrow> num_tokens s div cls_block_size cls = int (length (token_ids s) div bsz cls)"
  by (simp add: cls_wf_def seq_wf_def zdiv_int)

text \<open>The loop of \<open>_extend_block_hashes\<close> completes the chain of the current tokens.\<close>

lemma extend_block_hashes_chain:
  assumes cls: "cls_wf cls" "cls_enable_prefix_caching cls"
    and n: "num_tokens s = int (length (token_ids s))" and pend: "0 \<le> num_pending_tokens s"
    and m: "m \<le> length (token_ids s) div bsz cls"
    and h: "block_hashes s = chain (cls_algo cls) (bsz cls) (token_ids s) m"
  shows "extend_block_hashes cls s =
    Inr (s\<lparr>block_hashes := chain (cls_algo cls) (bsz cls) (token_ids s) (length (token_ids s) div bsz cls)\<rparr>)"
proof -
  let ?c = "chain (cls_algo cls) (bsz cls) (token_ids s)"
  let ?k = "length (token_ids s) div bsz cls"
  let ?body = "\<lambda>i s. bindE (if block_hashes s \<noteq> [] then py_get (block_hashes s) (-1) else Inr (-1)) (\<lambda>prefix.
            bindE (block cls s i) (\<lambda>b. Inr (s\<lparr>block_hashes := block_hashes s @ [cls_algo cls b prefix]\<rparr>)))"
  have bs: "0 < cls_block_size cls" using cls by (simp add: cls_wf_def)
  have kk: "num_tokens s div cls_block_size cls = int ?k"
    using n bs by (simp add: zdiv_int)
  have "okE (foldE ?body (py_range (int m) (int ?k)) s)
          (\<lambda>s'. s' = s\<lparr>block_hashes := ?c (m + length (py_range (int m) (int ?k)))\<rparr>)"
  proof (rule okE_foldE [where I = "\<lambda>ys s'. s' = s\<lparr>block_hashes := ?c (m + length ys)\<rparr>"])
    show "s = s\<lparr>block_hashes := ?c (m + length [])\<rparr>" by (simp flip: h)
  next
    fix ys x zs s'
    assume split: "py_range (int m) (int ?k) = ys @ x # zs"
      and s': "s' = s\<lparr>block_hashes := ?c (m + length ys)\<rparr>"
    from py_range_split [OF split] m have x: "x = int (m + length ys)" and lt: "m + length ys < ?k"
      by auto
    have "x < num_blocks cls s"
      using full_block_lt_num_blocks [OF cls(1) pend, of x] x lt kk by simp
    then have "block cls s' x = Inr (block_at (bsz cls) (token_ids s) (m + length ys))"
      using block_eq [of cls x s'] bs x s' by (simp add: num_blocks_def num_planned_tokens_def nat_int_add)
    then show "okE (?body x s') (\<lambda>s'. s' = s\<lparr>block_hashes := ?c (m + length (ys @ [x]))\<rparr>)"
      using s' by (auto simp: okE_bind Let_def py_simps chain.simps)
  qed
  moreover have "m + nat (int ?k - int m) = ?k" using m by simp
  ultimately show ?thesis
    using cls by (simp add: extend_block_hashes_def HASH_ALGOS_get kk h py_len_def okE_iff)
qed

lemma extend_block_hashes_off:
  "\<not> cls_enable_prefix_caching cls \<Longrightarrow> extend_block_hashes cls s = Inr s"
  by (simp add: extend_block_hashes_def)

text \<open>Extending keeps every field but the hashes, and makes them right.\<close>

lemma extend_block_hashes_ok:
  assumes "cls_wf cls" and "num_tokens s = int (length (token_ids s))" and "0 \<le> num_pending_tokens s"
    and "cls_enable_prefix_caching cls \<Longrightarrow> m \<le> length (token_ids s) div bsz cls \<and>
           block_hashes s = chain (cls_algo cls) (bsz cls) (token_ids s) m"
    and "\<not> cls_enable_prefix_caching cls \<Longrightarrow> block_hashes s = []"
  shows "okE (extend_block_hashes cls s) (\<lambda>s'. hashes_ok cls s' \<and> (\<exists>hs. s' = s\<lparr>block_hashes := hs\<rparr>))"
proof (cases "cls_enable_prefix_caching cls")
  case True
  with assms(4) have m: "m \<le> length (token_ids s) div bsz cls"
    and h: "block_hashes s = chain (cls_algo cls) (bsz cls) (token_ids s) m"
    by simp_all
  show ?thesis
    unfolding extend_block_hashes_chain [OF assms(1) True assms(2,3) m h] okE.simps
    by (intro conjI exI, simp add: hashes_ok_def True, rule refl)
next
  case False
  have "\<exists>hs. s = s\<lparr>block_hashes := hs\<rparr>" by (rule exI [of _ "block_hashes s"]) simp
  with False assms(5) show ?thesis
    by (simp add: extend_block_hashes_off hashes_ok_def)
qed

lemma seq_wf_cong:
  assumes "token_ids s' = token_ids s" "num_tokens s' = num_tokens s" "last_token s' = last_token s"
    "num_prompt_tokens s' = num_prompt_tokens s" "block_hashes s' = block_hashes s"
    "0 \<le> num_pending_tokens s'"
  shows "seq_wf cls s \<Longrightarrow> seq_wf cls s'"
  using assms by (simp add: seq_wf_def hashes_ok_def)

lemma commit_token_ok:
  assumes cls: "cls_wf cls" and wf: "seq_wf cls s" and pend: "0 < num_pending_tokens s"
  shows "okE (commit_token cls t s) (\<lambda>s'. seq_wf cls s' \<and> (\<exists>hs. s' =
     s\<lparr>token_ids := token_ids s @ [t], last_token := t, num_tokens := num_tokens s + 1,
       num_pending_tokens := num_pending_tokens s - 1, block_hashes := hs\<rparr>))"
proof -
  let ?s = "s\<lparr>token_ids := token_ids s @ [t], last_token := t, num_tokens := num_tokens s + 1,
       num_pending_tokens := num_pending_tokens s - 1\<rparr>"
  let ?m = "length (token_ids s) div bsz cls"
  have "?m * bsz cls \<le> length (token_ids s)" by simp
  then have c: "chain (cls_algo cls) (bsz cls) (token_ids s @ [t]) ?m = chain (cls_algo cls) (bsz cls) (token_ids s) ?m"
    by (rule chain_append)
  have m: "?m \<le> length (token_ids ?s) div bsz cls"
    by (simp add: div_le_mono)
  have "okE (extend_block_hashes cls ?s) (\<lambda>s'. hashes_ok cls s' \<and> (\<exists>hs. s' = ?s\<lparr>block_hashes := hs\<rparr>))"
  proof (rule extend_block_hashes_ok [OF cls, where m = ?m])
    show "cls_enable_prefix_caching cls \<Longrightarrow> ?m \<le> length (token_ids ?s) div bsz cls \<and>
           block_hashes ?s = chain (cls_algo cls) (bsz cls) (token_ids ?s) ?m"
      using wf m c by (simp add: seq_wf_def hashes_ok_def)
  qed (use wf pend in \<open>auto simp: seq_wf_def hashes_ok_def\<close>)
  then have "okE (extend_block_hashes cls ?s) (\<lambda>s'. seq_wf cls s' \<and> (\<exists>hs. s' = ?s\<lparr>block_hashes := hs\<rparr>))"
    by (rule okE_mono) (use wf pend in \<open>auto simp: seq_wf_def\<close>)
  then show ?thesis
    using pend by (simp add: commit_token_def assertE_def)
qed

lemma new_sequence_ok:
  assumes cls: "cls_wf cls" and "toks \<noteq> []"
  shows "okE (new_sequence cls sid now toks sp rid) (\<lambda>s. seq_wf cls s \<and> seq_id s = sid \<and>
     status s = WAITING \<and> token_ids s = toks \<and> num_prompt_tokens s = int (length toks) \<and>
     num_cached_tokens s = 0 \<and> num_pending_tokens s = 0 \<and> num_published_blocks s = 0 \<and>
     num_scheduled_tokens s = 0 \<and> num_preemptions s = 0 \<and> is_prefill s \<and> block_table s = [] \<and>
     spec_token_ids s = [] \<and> max_tokens s = sp_max_tokens sp \<and>
     request_id s = (case rid of Some r \<Rightarrow> r | None \<Rightarrow> ''req-'' @ show_nat sid) \<and>
     kv_transfer_params s = sp_kv_transfer_params sp)"
  unfolding new_sequence_def py_get_last [OF assms(2)] bindE.simps
  by (rule okE_mono, rule extend_block_hashes_ok [OF cls, where m = 0])
     (use assms(2) in \<open>auto simp: seq_wf_def py_len_def Suc_le_eq\<close>)

lemma reserve_token_wf: "0 \<le> n \<Longrightarrow> seq_wf cls s \<Longrightarrow> seq_wf cls (reserve_token n s)"
  by (simp add: seq_wf_def hashes_ok_def reserve_token_def)

lemma drop_pending_wf: "seq_wf cls s \<Longrightarrow> seq_wf cls (drop_pending s)"
  by (simp add: seq_wf_def hashes_ok_def drop_pending_def)

section \<open>Properties\<close>

text \<open>
  A concrete class for witnesses: blocks of two tokens, the bytes of a block as its digest.
\<close>

definition demo_cls :: "bool \<Rightarrow> seq_class" where
  "demo_cls caching = \<lparr>cls_block_size = 2, cls_enable_prefix_caching = caching, cls_hash_algo = ''sha256'',
     ext_pickle = (\<lambda>(p, ts). map word_of_int (p # ts)), ext_sha256 = (\<lambda>bs. bs), ext_xxh128 = (\<lambda>bs. bs)\<rparr>"

lemma demo_cls_wf: "cls_wf (demo_cls b)"
  by (simp add: cls_wf_def demo_cls_def)

definition demo_seq :: "bool \<Rightarrow> nat \<Rightarrow> int list \<Rightarrow> sequence" where
  "demo_seq caching i toks = (case new_sequence (demo_cls caching) i 0 toks sampling_params_default None of Inr s \<Rightarrow> s)"

lemma demo_seq_wf:
  assumes "toks \<noteq> []"
  shows "seq_wf (demo_cls b) (demo_seq b i toks) \<and> seq_id (demo_seq b i toks) = i \<and> status (demo_seq b i toks) = WAITING \<and>
     token_ids (demo_seq b i toks) = toks \<and> num_prompt_tokens (demo_seq b i toks) = int (length toks) \<and>
     num_cached_tokens (demo_seq b i toks) = 0 \<and> num_pending_tokens (demo_seq b i toks) = 0 \<and>
     num_published_blocks (demo_seq b i toks) = 0 \<and> num_scheduled_tokens (demo_seq b i toks) = 0 \<and>
     is_prefill (demo_seq b i toks) \<and> block_table (demo_seq b i toks) = [] \<and> spec_token_ids (demo_seq b i toks) = [] \<and>
     max_tokens (demo_seq b i toks) = 64 \<and> request_id (demo_seq b i toks) = ''req-'' @ show_nat i \<and>
     kv_transfer_params (demo_seq b i toks) = None"
proof -
  have "okE (new_sequence (demo_cls b) i 0 toks sampling_params_default None) (\<lambda>s. seq_wf (demo_cls b) s \<and> seq_id s = i \<and>
     status s = WAITING \<and> token_ids s = toks \<and> num_prompt_tokens s = int (length toks) \<and>
     num_cached_tokens s = 0 \<and> num_pending_tokens s = 0 \<and> num_published_blocks s = 0 \<and>
     num_scheduled_tokens s = 0 \<and> num_preemptions s = 0 \<and> is_prefill s \<and> block_table s = [] \<and>
     spec_token_ids s = [] \<and> max_tokens s = sp_max_tokens sampling_params_default \<and>
     request_id s = (case None of Some r \<Rightarrow> r | None \<Rightarrow> ''req-'' @ show_nat i) \<and>
     kv_transfer_params s = sp_kv_transfer_params sampling_params_default)"
    by (rule new_sequence_ok [OF demo_cls_wf assms])
  then obtain s where "new_sequence (demo_cls b) i 0 toks sampling_params_default None = Inr s" and
    "seq_wf (demo_cls b) s \<and> seq_id s = i \<and> status s = WAITING \<and> token_ids s = toks \<and> num_prompt_tokens s = int (length toks) \<and>
     num_cached_tokens s = 0 \<and> num_pending_tokens s = 0 \<and> num_published_blocks s = 0 \<and>
     num_scheduled_tokens s = 0 \<and> num_preemptions s = 0 \<and> is_prefill s \<and> block_table s = [] \<and>
     spec_token_ids s = [] \<and> max_tokens s = sp_max_tokens sampling_params_default \<and>
     request_id s = (case None of Some r \<Rightarrow> r | None \<Rightarrow> ''req-'' @ show_nat i) \<and>
     kv_transfer_params s = sp_kv_transfer_params sampling_params_default"
    unfolding okE_iff by blast
  then show ?thesis by (simp add: demo_seq_def sampling_params_default_def)
qed

text \<open>
  C17: committing a reserved token never raises; it appends the token and turns one reserved
  slot into a real one, and the hashes, extended by at most one block, are again the whole
  chain of the longer token list.
\<close>

theorem commit_token_correct:
  assumes "cls_wf cls" and "seq_wf cls s" and "0 < num_pending_tokens s"
  shows "okE (commit_token cls t s) (\<lambda>s'. seq_wf cls s' \<and> token_ids s' = token_ids s @ [t] \<and>
     num_planned_tokens s' = num_planned_tokens s \<and> num_pending_tokens s' = num_pending_tokens s - 1 \<and>
     (cls_enable_prefix_caching cls \<longrightarrow> block_hashes s' =
        chain (cls_algo cls) (bsz cls) (token_ids s') (length (token_ids s') div bsz cls)))"
  by (rule okE_mono [OF commit_token_ok [OF assms]])
     (auto simp: num_planned_tokens_def seq_wf_def hashes_ok_def)

theorem commit_token_correct_witness:
  "okE (commit_token (demo_cls True) 9 (reserve_token 1 (demo_seq True 0 [5, 6, 7]))) (\<lambda>s'.
     seq_wf (demo_cls True) s' \<and> token_ids s' = [5, 6, 7, 9])"
proof -
  have "cls_wf (demo_cls True) \<and> seq_wf (demo_cls True) (reserve_token 1 (demo_seq True 0 [5, 6, 7])) \<and>
      0 < num_pending_tokens (reserve_token 1 (demo_seq True 0 [5, 6, 7]))"
    using demo_seq_wf [of "[5, 6, 7]" True 0] reserve_token_wf [of 1 "demo_cls True" "demo_seq True 0 [5, 6, 7]"]
    by (simp add: demo_cls_wf) (simp add: reserve_token_def)
  then show ?thesis
    using commit_token_correct [of "demo_cls True" "reserve_token 1 (demo_seq True 0 [5, 6, 7])" 9]
      demo_seq_wf [of "[5, 6, 7]" True 0]
    by (auto elim!: okE_mono simp: reserve_token_def)
qed



text \<open>
  The chain identifies a prefix.  When the block hash has no collisions, two token lists
  whose chains meet, at whatever positions, agree on every token up to and including that
  block, and the positions are the same.
\<close>

lemma chain_identifies_prefix:
  assumes "collision_free (cls_algo cls)"
    and "last (chain (cls_algo cls) (bsz cls) ts (Suc k)) = last (chain (cls_algo cls) (bsz cls) ts' (Suc k'))"
  shows "k = k' \<and> take (Suc k * bsz cls) ts = take (Suc k * bsz cls) ts'"
  using last_chain_inj [OF assms] take_blocks_eq [of "Suc k" "bsz cls" ts ts'] by (simp add: less_Suc_eq_le)

text \<open>
  A class whose digest has no collisions: a sign and the number in unary for each integer, behind
  a byte that is not 0.
\<close>

lemma int_from_bytes_snoc: "int_from_bytes_big (bs @ [b]) = int_from_bytes_big bs * 256 + uint b"
  by (simp add: int_from_bytes_big_def)

lemma uint_byte: "0 \<le> uint (b :: byte)" "uint b < 256"
  using uint_lt2p [of b] by simp_all

lemma int_from_bytes_pos: "1 \<le> int_from_bytes_big (1 # bs)"
proof (induction bs rule: rev_induct)
  case (snoc b bs)
  then show ?case using int_from_bytes_snoc [of "1 # bs" b] uint_byte(1) [of b] unfolding append_Cons by linarith
qed (simp add: int_from_bytes_big_def)

lemma byte_digit: "a * 256 + u = b * 256 + v \<Longrightarrow> 0 \<le> u \<Longrightarrow> u < 256 \<Longrightarrow> 0 \<le> v \<Longrightarrow> v < 256 \<Longrightarrow> u = v \<and> a = (b :: int)"
  using mod_mult_self3 [of a 256 u] mod_mult_self3 [of b 256 v] by (simp add: mod_pos_pos_trivial)

lemma int_from_bytes_inj: "int_from_bytes_big (1 # bs) = int_from_bytes_big (1 # cs) \<Longrightarrow> bs = cs"
proof (induction bs arbitrary: cs rule: rev_induct)
  case Nil
  show ?case
  proof (cases cs rule: rev_cases)
    case (snoc ys y)
    then show ?thesis
      using Nil int_from_bytes_snoc [of "1 # ys" y] int_from_bytes_pos [of ys] uint_byte(1) [of y]
      by (simp add: int_from_bytes_big_def)
  qed simp
next
  case (snoc b bs)
  show ?case
  proof (cases cs rule: rev_cases)
    case Nil
    then show ?thesis
      using snoc(2) int_from_bytes_snoc [of "1 # bs" b] int_from_bytes_pos [of bs] uint_byte(1) [of b]
      by (simp add: int_from_bytes_big_def)
  next
    case (snoc ys y)
    have e: "int_from_bytes_big (1 # bs) * 256 + uint b = int_from_bytes_big (1 # ys) * 256 + uint y"
      using \<open>int_from_bytes_big (1 # bs @ [b]) = _\<close> snoc int_from_bytes_snoc [of "1 # bs" b] int_from_bytes_snoc [of "1 # ys" y] by simp
    then have "b = y" "int_from_bytes_big (1 # bs) = int_from_bytes_big (1 # ys)"
      using byte_digit [OF e uint_byte [of b] uint_byte [of y]] by (simp_all add: word_uint_eq_iff)
    then show ?thesis using \<open>\<And>cs. _ \<Longrightarrow> bs = cs\<close> snoc by simp
  qed
qed

definition int_code :: "int \<Rightarrow> byte list" where
  "int_code z = (if z < 0 then 2 else 1) # replicate (nat \<bar>z\<bar>) 1 @ [0]"

lemma unary_inj: "replicate n (1 :: byte) @ 0 # xs = replicate m 1 @ 0 # ys \<Longrightarrow> n = m \<and> xs = ys"
proof (induction n arbitrary: m)
  case 0
  then show ?case by (cases m) auto
next
  case (Suc n)
  then show ?case by (cases m) auto
qed

lemma int_code_inj: "int_code z @ xs = int_code z' @ ys \<Longrightarrow> z = z' \<and> xs = ys"
  using unary_inj [of "nat \<bar>z\<bar>" xs "nat \<bar>z'\<bar>" ys] by (auto simp: int_code_def split: if_splits)

lemma codes_inj: "concat (map int_code zs) = concat (map int_code zs') \<Longrightarrow> zs = zs'"
proof (induction zs arbitrary: zs')
  case Nil
  then show ?case by (cases zs') (auto simp: int_code_def)
next
  case (Cons z zs)
  then obtain z' ys where zs': "zs' = z' # ys" by (cases zs') (auto simp: int_code_def)
  then show ?case using Cons int_code_inj [of z "concat (map int_code zs)" z' "concat (map int_code ys)"] by simp
qed

definition inj_cls :: seq_class where
  "inj_cls = \<lparr>cls_block_size = 2, cls_enable_prefix_caching = True, cls_hash_algo = ''sha256'',
     ext_pickle = (\<lambda>(p, ts). 1 # concat (map int_code (p # ts))), ext_sha256 = (\<lambda>bs. bs), ext_xxh128 = (\<lambda>bs. bs)\<rparr>"

lemma inj_cls_algo: "cls_algo inj_cls ts p = int_from_bytes_big (1 # concat (map int_code (p # ts)))"
  by (simp add: cls_algo_def HASH_ALGOS_def inj_cls_def sha256_hash_def serialize_def)

lemma inj_cls_collision_free: "collision_free (cls_algo inj_cls)"
proof -
  have "ts = ts' \<and> p = p'" if "cls_algo inj_cls ts p = cls_algo inj_cls ts' p'" for ts ts' p p'
    using codes_inj [OF int_from_bytes_inj [OF that [unfolded inj_cls_algo]]] by simp
  moreover have "cls_algo inj_cls ts p \<noteq> -1" for ts p using cls_algo_nonneg [of inj_cls ts p] by simp
  ultimately show ?thesis unfolding collision_free_def by blast
qed

end
