(* ===== verification/Block_Manager.thy ===== *)
theory Block_Manager
  imports Sequences
begin

text \<open>
  The paged KV-cache allocator (engine/block_manager.py): \<open>Block\<close>, \<open>FreeKVCacheBlockQueue\<close>
  and \<open>BlockManager\<close>.

  A \<open>Block\<close> is the record \<open>kv_block\<close>; the manager's list owns the objects, so the free
  queue, an \<open>OrderedDict\<close> from block id to that same object, is the list of its keys in
  order.  Methods that change the sequence they are given return it.  Assertions, missing
  keys and out-of-range indices are values of \<open>py_error\<close>.

  The invariant \<open>bm_inv\<close> relates the manager to the block tables that hold its blocks: a
  reference count is the number of table entries naming the block, the free queue and the
  used set partition the blocks accordingly, an entry of the hash index names a block that
  still carries that hash, a published block carries the chain hash of its holder at that
  position, and a block not yet published is held once only.  Every operation is shown to
  keep it and to raise nothing, and the admission test \<open>can_allocate\<close> to be exactly the
  condition under which \<open>allocate\<close> finds its blocks.
\<close>

section \<open>Blocks and the free queue\<close>

record kv_block =
  blk_id :: nat
  ref_count :: int
  blk_hash :: int
  blk_token_ids :: "int list"

definition new_block :: "nat \<Rightarrow> kv_block" where
  "new_block i = \<lparr>blk_id = i, ref_count = 0, blk_hash = -1, blk_token_ids = []\<rparr>"

definition block_update :: "int \<Rightarrow> int list \<Rightarrow> kv_block \<Rightarrow> kv_block" where
  "block_update h toks b = b\<lparr>blk_hash := h, blk_token_ids := toks\<rparr>"

definition block_reset :: "kv_block \<Rightarrow> kv_block" where
  "block_reset b = b\<lparr>ref_count := 1, blk_hash := -1, blk_token_ids := []\<rparr>"

type_synonym free_queue = "nat list"

definition num_free_blocks :: "free_queue \<Rightarrow> int" where
  "num_free_blocks q = py_len q"

definition popleft :: "free_queue \<Rightarrow> (nat \<times> free_queue) res" where
  "popleft q = (case q of [] \<Rightarrow> Inl AssertionError | i # q' \<Rightarrow> Inr (i, q'))"

definition queue_remove :: "nat \<Rightarrow> free_queue \<Rightarrow> free_queue res" where
  "queue_remove i q = (if i \<in> set q then Inr (remove1 i q) else Inl AssertionError)"

definition queue_append :: "nat \<Rightarrow> free_queue \<Rightarrow> free_queue" where
  "queue_append i q = (if i \<in> set q then q else q @ [i])"

definition get_all_free_blocks :: "free_queue \<Rightarrow> nat list" where
  "get_all_free_blocks q = q"

section \<open>The block manager\<close>

record block_manager =
  bm_block_size :: int
  bm_enable_prefix_caching :: bool
  recompute_last_hit :: bool
  blocks :: "kv_block list"
  hash_to_block_id :: "int \<rightharpoonup> nat"
  free_block_queue :: free_queue
  used_block_ids :: "nat set"

definition new_block_manager :: "nat \<Rightarrow> int \<Rightarrow> bool \<Rightarrow> bool \<Rightarrow> block_manager" where
  "new_block_manager n bs caching recompute =
     \<lparr>bm_block_size = bs, bm_enable_prefix_caching = caching, recompute_last_hit = recompute,
      blocks = map new_block [0..<n], hash_to_block_id = Map.empty,
      free_block_queue = [0..<n], used_block_ids = {}\<rparr>"

definition usage :: "block_manager \<Rightarrow> rat" where
  "usage bm = (if blocks bm \<noteq> [] then of_nat (card (used_block_ids bm)) / of_nat (length (blocks bm)) else 0)"

definition get_block :: "block_manager \<Rightarrow> nat \<Rightarrow> kv_block res" where
  "get_block bm i = (if i < length (blocks bm) then Inr (blocks bm ! i) else Inl IndexError)"

definition set_block :: "nat \<Rightarrow> kv_block \<Rightarrow> block_manager \<Rightarrow> block_manager" where
  "set_block i b bm = bm\<lparr>blocks := (blocks bm)[i := b]\<rparr>"

definition allocate_block :: "block_manager \<Rightarrow> (block_manager \<times> nat) res" where
  "allocate_block bm =
     bindE (popleft (free_block_queue bm)) (\<lambda>(i, q).
     bindE (get_block bm i) (\<lambda>b.
     bindE (assertE (ref_count b = 0)) (\<lambda>_.
       let index = (if blk_hash b \<noteq> -1 \<and> hash_to_block_id bm (blk_hash b) = Some i
                    then (hash_to_block_id bm)(blk_hash b := None) else hash_to_block_id bm)
       in Inr (set_block i (block_reset b)
                 (bm\<lparr>free_block_queue := q, hash_to_block_id := index,
                     used_block_ids := insert i (used_block_ids bm)\<rparr>), i))))"

definition deallocate_block :: "nat \<Rightarrow> block_manager \<Rightarrow> block_manager res" where
  "deallocate_block i bm =
     bindE (get_block bm i) (\<lambda>b.
     bindE (assertE (ref_count b = 0)) (\<lambda>_.
     if i \<notin> used_block_ids bm then Inl KeyError
     else Inr (bm\<lparr>used_block_ids := used_block_ids bm - {i},
                  free_block_queue := queue_append i (free_block_queue bm)\<rparr>)))"

text \<open>\<open>_num_blocks\<close>\<close>

definition bm_num_blocks :: "block_manager \<Rightarrow> sequence \<Rightarrow> int \<Rightarrow> int" where
  "bm_num_blocks bm s num_lookahead =
     (num_planned_tokens s + num_lookahead + bm_block_size bm - 1) div bm_block_size bm"

text \<open>The loop of \<open>can_allocate\<close> over the block indices, with its \<open>break\<close>; the accumulators are
  \<open>num_cached_blocks\<close>, \<open>num_new_blocks\<close> and \<open>last_hit_held\<close>.\<close>

fun can_allocate_loop ::
  "seq_class \<Rightarrow> block_manager \<Rightarrow> sequence \<Rightarrow> int list \<Rightarrow> int \<Rightarrow> int \<Rightarrow> bool \<Rightarrow> (int \<times> int \<times> bool) res" where
  "can_allocate_loop cls bm s [] cached new held = Inr (cached, new, held)"
| "can_allocate_loop cls bm s (i # is) cached new held =
     bindE (py_get (block_hashes s) i) (\<lambda>h.
     case hash_to_block_id bm h of
       None \<Rightarrow> Inr (cached, new, held)
     | Some bid \<Rightarrow>
         bindE (get_block bm bid) (\<lambda>b.
         bindE (block cls s i) (\<lambda>toks.
         if blk_token_ids b \<noteq> toks then Inr (cached, new, held)
         else (let held' = (bid \<in> used_block_ids bm)
               in can_allocate_loop cls bm s is (cached + 1) (if held' then new - 1 else new) held'))))"

definition can_allocate :: "seq_class \<Rightarrow> block_manager \<Rightarrow> sequence \<Rightarrow> int \<Rightarrow> int res" where
  "can_allocate cls bm s num_lookahead =
     bindE (can_allocate_loop cls bm s
              (if bm_enable_prefix_caching bm then py_range 0 (num_blocks cls s - 1) else [])
              0 (bm_num_blocks bm s num_lookahead) False) (\<lambda>(cached, new, held).
     let again = recompute_last_hit bm \<and> cached \<noteq> 0;
         cached' = (if again then cached - 1 else cached);
         new' = (if again then new + (if held then 1 else 0) else new)
     in Inr (if num_free_blocks (free_block_queue bm) < new' then -1 else cached'))"

text \<open>One turn of the two loops of \<open>allocate\<close>: a cached block, and a new one.\<close>

definition allocate_cached :: "int \<Rightarrow> block_manager \<times> sequence \<Rightarrow> (block_manager \<times> sequence) res" where
  "allocate_cached i = (\<lambda>(bm, s).
     bindE (py_get (block_hashes s) i) (\<lambda>h.
     bindE (case hash_to_block_id bm h of None \<Rightarrow> Inl KeyError | Some bid \<Rightarrow> Inr bid) (\<lambda>bid.
     bindE (get_block bm bid) (\<lambda>b.
     bindE (if bid \<in> used_block_ids bm
            then Inr (set_block bid (b\<lparr>ref_count := ref_count b + 1\<rparr>) bm)
            else bindE (queue_remove bid (free_block_queue bm)) (\<lambda>q.
                 Inr (set_block bid (b\<lparr>ref_count := 1\<rparr>)
                        (bm\<lparr>free_block_queue := q, used_block_ids := insert bid (used_block_ids bm)\<rparr>)))) (\<lambda>bm'.
     Inr (bm', s\<lparr>block_table := block_table s @ [bid]\<rparr>))))))"

definition allocate_new :: "int \<Rightarrow> block_manager \<times> sequence \<Rightarrow> (block_manager \<times> sequence) res" where
  "allocate_new i = (\<lambda>(bm, s).
     bindE (allocate_block bm) (\<lambda>(bm', bid). Inr (bm', s\<lparr>block_table := block_table s @ [bid]\<rparr>)))"

definition allocate ::
  "block_manager \<Rightarrow> sequence \<Rightarrow> int \<Rightarrow> int \<Rightarrow> (block_manager \<times> sequence) res" where
  "allocate bm s num_cached_blocks num_lookahead =
     bindE (assertE (block_table s = [])) (\<lambda>_.
     bindE (foldE allocate_cached (py_range 0 num_cached_blocks) (bm, s)) (\<lambda>(bm1, s1).
     bindE (foldE allocate_new (py_range num_cached_blocks (bm_num_blocks bm s1 num_lookahead)) (bm1, s1)) (\<lambda>(bm2, s2).
     Inr (bm2, s2\<lparr>num_cached_tokens := num_cached_blocks * bm_block_size bm,
                  num_published_blocks := num_cached_blocks\<rparr>))))"

definition deallocate_entry :: "nat \<Rightarrow> block_manager \<Rightarrow> block_manager res" where
  "deallocate_entry bid bm =
     bindE (get_block bm bid) (\<lambda>b.
     let b' = b\<lparr>ref_count := ref_count b - 1\<rparr>; bm' = set_block bid b' bm
     in if ref_count b' = 0 then deallocate_block bid bm' else Inr bm')"

definition deallocate :: "block_manager \<Rightarrow> sequence \<Rightarrow> (block_manager \<times> sequence) res" where
  "deallocate bm s =
     bindE (foldE deallocate_entry (rev (block_table s)) bm) (\<lambda>bm'.
     Inr (bm', s\<lparr>num_cached_tokens := 0, num_published_blocks := 0, block_table := []\<rparr>))"

definition num_missing_blocks :: "block_manager \<Rightarrow> sequence \<Rightarrow> int \<Rightarrow> int" where
  "num_missing_blocks bm s num_lookahead =
     max (bm_num_blocks bm s num_lookahead - py_len (block_table s)) 0"

definition can_append :: "block_manager \<Rightarrow> sequence \<Rightarrow> int \<Rightarrow> bool" where
  "can_append bm s num_lookahead \<longleftrightarrow>
     num_missing_blocks bm s num_lookahead \<le> num_free_blocks (free_block_queue bm)"

definition may_append :: "block_manager \<Rightarrow> sequence \<Rightarrow> int \<Rightarrow> (block_manager \<times> sequence) res" where
  "may_append bm s num_lookahead =
     foldE allocate_new (py_range 0 (num_missing_blocks bm s num_lookahead)) (bm, s)"

text \<open>One turn of the loop of \<open>hash_blocks\<close>.\<close>

definition publish_block :: "seq_class \<Rightarrow> sequence \<Rightarrow> int \<Rightarrow> block_manager \<Rightarrow> block_manager res" where
  "publish_block cls s i bm =
     bindE (py_get (block_table s) i) (\<lambda>bid.
     bindE (get_block bm bid) (\<lambda>b.
     bindE (py_get (block_hashes s) i) (\<lambda>h.
     bindE (block cls s i) (\<lambda>toks.
     let b' = block_update h toks b
     in Inr (set_block bid b' (bm\<lparr>hash_to_block_id := (hash_to_block_id bm)(blk_hash b' \<mapsto> blk_id b')\<rparr>))))))"

definition hash_blocks ::
  "seq_class \<Rightarrow> block_manager \<Rightarrow> sequence \<Rightarrow> int \<Rightarrow> (block_manager \<times> sequence) res" where
  "hash_blocks cls bm s num_computed_tokens =
     (if \<not> bm_enable_prefix_caching bm then Inr (bm, s)
      else let stop = min num_computed_tokens (num_tokens s) div bm_block_size bm
        in bindE (foldE (publish_block cls s) (py_range (num_published_blocks s) stop) bm) (\<lambda>bm'.
           Inr (bm', s\<lparr>num_published_blocks := max (num_published_blocks s) stop\<rparr>)))"

section \<open>The invariant\<close>

text \<open>
  What one sequence holds: its block table, how many of the entries are published, and its
  block hashes.
\<close>

type_synonym holding = "nat list \<times> int \<times> int list"

definition holding_of :: "sequence \<Rightarrow> holding" where
  "holding_of s = (block_table s, num_published_blocks s, block_hashes s)"

definition held :: "holding multiset \<Rightarrow> nat multiset" where
  "held M = (\<Sum>h \<in># M. mset (fst h))"

definition content_ok :: "seq_class \<Rightarrow> kv_block \<Rightarrow> bool" where
  "content_ok cls b \<longleftrightarrow> blk_hash b = -1 \<or>
     (\<exists>ts k. blk_hash b = last (chain (cls_algo cls) (bsz cls) ts (Suc k)) \<and>
        Suc k * bsz cls \<le> length ts \<and> blk_token_ids b = block_at (bsz cls) ts k)"

definition holding_ok :: "nat multiset \<Rightarrow> kv_block list \<Rightarrow> holding \<Rightarrow> bool" where
  "holding_ok H bs = (\<lambda>(t, p, hs). 0 \<le> p \<and> nat p \<le> length t \<and> nat p \<le> length hs \<and>
     (\<forall>j < nat p. blk_hash (bs ! (t ! j)) = hs ! j) \<and>
     (\<forall>j. nat p \<le> j \<longrightarrow> j < length t \<longrightarrow> count H (t ! j) = 1 \<and> blk_hash (bs ! (t ! j)) = -1))"

definition counts_ok :: "nat multiset \<Rightarrow> block_manager \<Rightarrow> bool" where
  "counts_ok H bm \<longleftrightarrow>
     (\<forall>i < length (blocks bm). blk_id (blocks bm ! i) = i \<and> ref_count (blocks bm ! i) = int (count H i)) \<and>
     set_mset H \<subseteq> {..<length (blocks bm)} \<and> distinct (free_block_queue bm) \<and>
     set (free_block_queue bm) = {..<length (blocks bm)} - set_mset H \<and> used_block_ids bm = set_mset H"

definition index_ok :: "seq_class \<Rightarrow> block_manager \<Rightarrow> bool" where
  "index_ok cls bm \<longleftrightarrow>
     (\<forall>h i. hash_to_block_id bm h = Some i \<longrightarrow> h \<noteq> -1 \<and> i < length (blocks bm) \<and> blk_hash (blocks bm ! i) = h) \<and>
     (\<forall>i < length (blocks bm). content_ok cls (blocks bm ! i))"

definition bm_inv :: "seq_class \<Rightarrow> block_manager \<Rightarrow> holding multiset \<Rightarrow> bool" where
  "bm_inv cls bm M \<longleftrightarrow> counts_ok (held M) bm \<and> index_ok cls bm \<and>
     (\<forall>h \<in># M. holding_ok (held M) (blocks bm) h)"

text \<open>The manager and the sequences are built from one configuration.\<close>

definition bm_for :: "seq_class \<Rightarrow> block_manager \<Rightarrow> bool" where
  "bm_for cls bm \<longleftrightarrow> bm_block_size bm = cls_block_size cls \<and>
     bm_enable_prefix_caching bm = cls_enable_prefix_caching cls"

definition same_config :: "block_manager \<Rightarrow> block_manager \<Rightarrow> bool" where
  "same_config bm bm' \<longleftrightarrow> bm_block_size bm' = bm_block_size bm \<and>
     bm_enable_prefix_caching bm' = bm_enable_prefix_caching bm \<and>
     recompute_last_hit bm' = recompute_last_hit bm \<and> length (blocks bm') = length (blocks bm)"

section \<open>Elementary transitions\<close>

lemma held_add [simp]: "held (add_mset (t, p, hs) M) = mset t + held M"
  by (simp add: held_def)

lemma held_empty [simp]: "held {#} = {#}"
  by (simp add: held_def)

lemma entry_in_held: "(t, p, hs) \<in># M \<Longrightarrow> x \<in> set t \<Longrightarrow> x \<in># held M"
  by (induction M) (auto simp: held_def)

lemma same_config_refl [simp]: "same_config bm bm"
  by (simp add: same_config_def)

lemma same_config_trans: "same_config a b \<Longrightarrow> same_config b c \<Longrightarrow> same_config a c"
  by (simp add: same_config_def)

lemma same_config_for: "same_config bm bm' \<Longrightarrow> bm_for cls bm \<Longrightarrow> bm_for cls bm'"
  by (simp add: same_config_def bm_for_def)

lemma holding_ok_frame:
  assumes "holding_ok H bs (t, p, hs)"
    and "\<And>x. x \<in> set t \<Longrightarrow> blk_hash (bs' ! x) = blk_hash (bs ! x)"
    and "\<And>j. nat p \<le> j \<Longrightarrow> j < length t \<Longrightarrow> count H (t ! j) = 1 \<Longrightarrow> blk_hash (bs ! (t ! j)) = -1 \<Longrightarrow>
           count H' (t ! j) = count H (t ! j)"
  shows "holding_ok H' bs' (t, p, hs)"
  using assms unfolding holding_ok_def by (auto simp del: One_nat_def)

lemma counts_okD:
  assumes "counts_ok H bm"
  shows "\<And>i. i < length (blocks bm) \<Longrightarrow> blk_id (blocks bm ! i) = i"
    and "\<And>i. i < length (blocks bm) \<Longrightarrow> ref_count (blocks bm ! i) = int (count H i)"
    and "\<And>i. i \<in># H \<Longrightarrow> i < length (blocks bm)"
    and "distinct (free_block_queue bm)"
    and "\<And>i. i \<in> set (free_block_queue bm) \<longleftrightarrow> i < length (blocks bm) \<and> i \<notin># H"
    and "used_block_ids bm = set_mset H"
  using assms unfolding counts_ok_def by auto

lemma bm_invD:
  assumes "bm_inv cls bm M"
  shows "counts_ok (held M) bm" and "index_ok cls bm"
    and "\<And>h. h \<in># M \<Longrightarrow> holding_ok (held M) (blocks bm) h"
  using assms by (auto simp: bm_inv_def)

text \<open>A sequence with no blocks holds nothing.\<close>

lemma bm_inv_no_blocks: "bm_inv cls bm (add_mset ([], 0, hs) M) \<longleftrightarrow> bm_inv cls bm M"
  by (auto simp: bm_inv_def holding_ok_def)

text \<open>Only appended to, the hashes of a holder stay right.\<close>

lemma bm_inv_more_hashes:
  assumes "bm_inv cls bm (add_mset (t, p, hs) M)"
  shows "bm_inv cls bm (add_mset (t, p, hs @ hs') M)"
  using assms by (auto simp: bm_inv_def holding_ok_def nth_append)

lemma allocate_block_ok:
  assumes inv: "bm_inv cls bm (add_mset (t, p, hs) M)" and ne: "free_block_queue bm \<noteq> []"
  shows "okE (allocate_block bm) (\<lambda>(bm', i). bm_inv cls bm' (add_mset (t @ [i], p, hs) M) \<and>
     same_config bm bm' \<and> free_block_queue bm = i # free_block_queue bm')"
proof -
  let ?H = "mset t + held M"
  note c = counts_okD [OF bm_invD(1) [OF inv], simplified]
  note ix = bm_invD(2) [OF inv, unfolded index_ok_def]
  obtain i q where q: "free_block_queue bm = i # q" using ne by (cases "free_block_queue bm") auto
  with c(5) [of i] have i: "i < length (blocks bm)" "i \<notin># ?H" by auto
  then have H0: "count ?H i = 0" "i \<notin> set t" by (auto simp: count_eq_zero_iff)
  let ?b = "blocks bm ! i"
  let ?ix = "if blk_hash ?b \<noteq> -1 \<and> hash_to_block_id bm (blk_hash ?b) = Some i
             then (hash_to_block_id bm)(blk_hash ?b := None) else hash_to_block_id bm"
  let ?bm = "set_block i (block_reset ?b) (bm\<lparr>free_block_queue := q, hash_to_block_id := ?ix,
               used_block_ids := insert i (used_block_ids bm)\<rparr>)"
  have run: "allocate_block bm = Inr (?bm, i)"
    using i c(2) [of i] H0 by (simp add: allocate_block_def popleft_def get_block_def q assertE_def Let_def)
  have hash_same: "blk_hash (blocks ?bm ! x) = blk_hash (blocks bm ! x)" if "x \<noteq> i" for x
    using that by (simp add: set_block_def)
  have "counts_ok (held (add_mset (t @ [i], p, hs) M)) ?bm"
    using c q i H0 unfolding counts_ok_def
    by (auto simp: set_block_def block_reset_def nth_list_update)
  moreover have "index_ok cls ?bm"
    using ix i unfolding index_ok_def
    by (auto simp: set_block_def block_reset_def content_ok_def nth_list_update split: if_splits)
  moreover have "holding_ok (held (add_mset (t @ [i], p, hs) M)) (blocks ?bm) h" if "h \<in># M" for h
  proof -
    obtain t' p' hs' where h: "h = (t', p', hs')" by (cases h)
    have nin: "i \<notin> set t'" using that h H0(1) entry_in_held [of t' p' hs' M i] by (auto simp: count_eq_zero_iff)
    show ?thesis unfolding h
      by (rule holding_ok_frame [of ?H "blocks bm"])
         (use bm_invD(3) [OF inv, of h] that h nin hash_same in \<open>auto simp: in_set_conv_nth\<close>)
  qed
  moreover have "holding_ok (held (add_mset (t @ [i], p, hs) M)) (blocks ?bm) (t @ [i], p, hs)"
  proof -
    have "holding_ok ?H (blocks bm) (t, p, hs)" using bm_invD(3) [OF inv, of "(t, p, hs)"] by simp
    moreover have "blk_hash (blocks ?bm ! i) = -1" using i by (simp add: set_block_def block_reset_def)
    moreover have "blk_hash (blocks ?bm ! (t ! j)) = blk_hash (blocks bm ! (t ! j)) \<and> t ! j \<noteq> i"
      if "j < length t" for j
      using that H0(2) nth_mem hash_same by metis
    ultimately show ?thesis
      using H0 unfolding holding_ok_def by (auto simp: nth_append less_Suc_eq)
  qed
  ultimately have "bm_inv cls ?bm (add_mset (t @ [i], p, hs) M)"
    unfolding bm_inv_def by auto
  then show ?thesis
    using run q by (simp add: same_config_def set_block_def)
qed

text \<open>A cached block joins a table whose entries so far are all published.\<close>

lemma share_block_ok:
  assumes inv: "bm_inv cls bm (add_mset (t, int (length t), hs) M)"
    and hit: "hash_to_block_id bm h = Some i" and h: "length t < length hs" "hs ! length t = h"
    and bm': "blocks bm' = (blocks bm)[i := (blocks bm ! i)\<lparr>ref_count := ref_count (blocks bm ! i) + 1\<rparr>]"
      "hash_to_block_id bm' = hash_to_block_id bm" "used_block_ids bm' = insert i (used_block_ids bm)"
      "free_block_queue bm' = remove1 i (free_block_queue bm)"
  shows "bm_inv cls bm' (add_mset (t @ [i], int (length t) + 1, hs) M)"
proof -
  let ?H = "mset t + held M"
  note c = counts_okD [OF bm_invD(1) [OF inv], simplified]
  note ix = bm_invD(2) [OF inv, unfolded index_ok_def]
  from ix hit have i: "h \<noteq> -1" "i < length (blocks bm)" "blk_hash (blocks bm ! i) = h" by auto
  have hash_same: "blk_hash (blocks bm' ! x) = blk_hash (blocks bm ! x)" for x
    using i by (cases "x = i") (simp_all add: bm')
  have "counts_ok (held (add_mset (t @ [i], int (length t) + 1, hs) M)) bm'"
    using c i unfolding counts_ok_def by (auto simp: bm' nth_list_update)
  moreover have "index_ok cls bm'"
    using ix i unfolding index_ok_def
    by (auto simp: bm' nth_list_update content_ok_def)
  moreover have "holding_ok (held (add_mset (t @ [i], int (length t) + 1, hs) M)) (blocks bm') h'" if "h' \<in># M" for h'
  proof -
    obtain t' p' hs' where h': "h' = (t', p', hs')" by (cases h')
    show ?thesis unfolding h'
      by (rule holding_ok_frame [of ?H "blocks bm"])
         (use bm_invD(3) [OF inv, of h'] that h' i hash_same in auto)
  qed
  moreover have "holding_ok (held (add_mset (t @ [i], int (length t) + 1, hs) M)) (blocks bm')
     (t @ [i], int (length t) + 1, hs)"
    using bm_invD(3) [OF inv, of "(t, int (length t), hs)"] i h
    unfolding holding_ok_def by (auto simp: hash_same nth_append less_Suc_eq nat_add_distrib)
  ultimately show ?thesis unfolding bm_inv_def by auto
qed

text \<open>The last entry of a table is given back.\<close>

lemma deallocate_entry_ok:
  assumes inv: "bm_inv cls bm (add_mset (t @ [i], p, hs) M)"
  shows "okE (deallocate_entry i bm) (\<lambda>bm'. bm_inv cls bm' (add_mset (t, min p (int (length t)), hs) M) \<and>
     same_config bm bm' \<and>
     free_block_queue bm' = free_block_queue bm @ (if i \<in># mset t + held M then [] else [i]))"
proof -
  let ?H = "add_mset i (mset t + held M)" and ?H' = "mset t + held M"
  note c = counts_okD [OF bm_invD(1) [OF inv], simplified]
  note ix = bm_invD(2) [OF inv, unfolded index_ok_def]
  have i: "i < length (blocks bm)" "i \<in> used_block_ids bm" using c(3) [of i] c(6) by auto
  let ?b = "blocks bm ! i"
  let ?bm1 = "set_block i (?b\<lparr>ref_count := ref_count ?b - 1\<rparr>) bm"
  define k where "k = count ?H' i"
  let ?bm = "if k = 0 then ?bm1\<lparr>used_block_ids := used_block_ids bm - {i},
               free_block_queue := free_block_queue bm @ [i]\<rparr> else ?bm1"
  have "i \<notin> set (free_block_queue bm)" using c(5) by simp
  moreover have "ref_count ?b = 1 + int k" using c(2) [OF i(1)] by (simp add: k_def)
  ultimately have run: "deallocate_entry i bm = Inr ?bm"
    using i
    by (auto simp: deallocate_entry_def get_block_def deallocate_block_def set_block_def
        queue_append_def assertE_def Let_def)
  have hash_same: "blk_hash (blocks ?bm ! x) = blk_hash (blocks bm ! x)" for x
    using i by (cases "x = i") (simp_all add: set_block_def)
  have "counts_ok ?H' ?bm"
  proof (cases "k = 0")
    case True
    then have "i \<notin># ?H'" by (simp add: k_def count_eq_zero_iff)
    with True c i \<open>i \<notin> set (free_block_queue bm)\<close> show ?thesis unfolding counts_ok_def
      by (auto simp: set_block_def nth_list_update)
  next
    case False
    then have "i \<in># ?H'" by (simp add: k_def)
    with False c i show ?thesis unfolding counts_ok_def
      by (auto simp: set_block_def nth_list_update)
  qed
  moreover have "index_ok cls ?bm"
    using ix i unfolding index_ok_def
    by (auto simp: set_block_def content_ok_def nth_list_update)
  moreover have "holding_ok ?H' (blocks ?bm) h" if "h \<in># M" for h
  proof -
    obtain t' p' hs' where h: "h = (t', p', hs')" by (cases h)
    have "t' ! j \<noteq> i" if "j < length t'" "count ?H (t' ! j) = 1" for j
      using \<open>h \<in># M\<close> h that entry_in_held [of t' p' hs' M "t' ! j"] by (auto simp: count_eq_zero_iff)
    then have "count ?H' (t' ! j) = count ?H (t' ! j)" if "j < length t'" "count ?H (t' ! j) = 1" for j
      using that by (metis count_add_mset)
    moreover have "holding_ok ?H (blocks bm) (t', p', hs')"
      using bm_invD(3) [OF inv, of h] that h by simp
    ultimately show ?thesis unfolding h
      using hash_same by (blast intro: holding_ok_frame)
  qed
  moreover have "holding_ok ?H' (blocks ?bm) (t, min p (int (length t)), hs)"
  proof -
    have own: "holding_ok ?H (blocks bm) (t @ [i], p, hs)"
      using bm_invD(3) [OF inv, of "(t @ [i], p, hs)"] by simp
    have "i \<noteq> t ! j" if "count ?H (t ! j) = 1" "j < length t" for j
      using that nth_mem [of j t] by (auto simp flip: count_greater_zero_iff)
    then have cnt: "count ?H' (t ! j) = 1" if "count ?H (t ! j) = 1" "j < length t" for j
      using that by (metis count_add_mset)
    let ?q = "nat (min p (int (length t)))"
    have own': "0 \<le> p" "nat p \<le> length hs" "\<And>j. j < nat p \<Longrightarrow> blk_hash (blocks bm ! ((t @ [i]) ! j)) = hs ! j"
      "\<And>j. nat p \<le> j \<Longrightarrow> j < length t \<Longrightarrow> count ?H (t ! j) = 1 \<and> blk_hash (blocks bm ! (t ! j)) = -1"
      using own by (auto simp: holding_ok_def nth_append)
    have "blk_hash (blocks bm ! (t ! j)) = hs ! j" if "j < ?q" for j
    proof -
      from that have "j < nat p" and "j < length t" by auto
      with own'(3) [of j] show ?thesis by (simp add: nth_append)
    qed
    moreover have "count ?H' (t ! j) = 1 \<and> blk_hash (blocks bm ! (t ! j)) = -1" if "?q \<le> j" "j < length t" for j
      using that own'(4) [of j] cnt [of j] by auto
    ultimately show ?thesis
      using own'(1,2) unfolding holding_ok_def hash_same by auto
  qed
  ultimately have "bm_inv cls ?bm (add_mset (t, min p (int (length t)), hs) M)"
    unfolding bm_inv_def by auto
  then show ?thesis
    using run by (auto simp: same_config_def set_block_def k_def count_eq_zero_iff)
qed

text \<open>The first unpublished block of a table is published.\<close>

lemma publish_entry_ok:
  assumes inv: "bm_inv cls bm (add_mset (t, int j, hs) M)"
    and j: "j < length t" "j < length hs"
    and b': "blk_id b' = t ! j" "ref_count b' = ref_count (blocks bm ! (t ! j))" "blk_hash b' = hs ! j"
      "content_ok cls b'" "hs ! j \<noteq> -1"
    and bm': "bm' = set_block (t ! j) b' (bm\<lparr>hash_to_block_id := (hash_to_block_id bm)(hs ! j \<mapsto> t ! j)\<rparr>)"
  shows "bm_inv cls bm' (add_mset (t, int j + 1, hs) M)"
proof -
  let ?H = "mset t + held M" and ?i = "t ! j"
  note c = counts_okD [OF bm_invD(1) [OF inv], simplified]
  note ix = bm_invD(2) [OF inv, unfolded index_ok_def]
  have own: "holding_ok ?H (blocks bm) (t, int j, hs)"
    using bm_invD(3) [OF inv, of "(t, int j, hs)"] by simp
  then have one: "count ?H ?i = 1" and fresh: "blk_hash (blocks bm ! ?i) = -1"
    using j by (auto simp: holding_ok_def)
  have i: "?i < length (blocks bm)" using c(3) [of ?i] j nth_mem by blast
  have "t = take j t @ ?i # drop (Suc j) t" using j by (simp add: id_take_nth_drop)
  then have "mset t = add_mset ?i (mset (take j t) + mset (drop (Suc j) t))"
    by (metis mset.simps(2) mset_append union_mset_add_mset_right)
  with one have notin: "?i \<notin># held M" "?i \<notin> set (take j t)" "?i \<notin> set (drop (Suc j) t)"
    by (auto simp: count_eq_zero_iff)
  have other: "t ! k \<noteq> ?i" if "k < length t" "k \<noteq> j" for k
  proof (cases "k < j")
    case True
    with that have "t ! k \<in> set (take j t)" by (auto simp: in_set_conv_nth)
    with notin(2) show ?thesis by auto
  next
    case False
    with that have "t ! k = drop (Suc j) t ! (k - Suc j)" and "k - Suc j < length (drop (Suc j) t)" by auto
    then have "t ! k \<in> set (drop (Suc j) t)" by (metis nth_mem)
    with notin(3) show ?thesis by auto
  qed
  have hash_same: "blk_hash (blocks bm' ! x) = blk_hash (blocks bm ! x)" if "x \<noteq> ?i" for x
    using that by (simp add: bm' set_block_def)
  have hash_i: "blk_hash (blocks bm' ! ?i) = hs ! j" using i b' by (simp add: bm' set_block_def)
  have "counts_ok ?H bm'"
    using c i b' unfolding counts_ok_def by (auto simp: bm' set_block_def nth_list_update)
  moreover have "index_ok cls bm'"
    using ix i b' fresh unfolding index_ok_def
    by (auto simp: bm' set_block_def nth_list_update split: if_splits)
  moreover have "holding_ok ?H (blocks bm') h" if "h \<in># M" for h
  proof -
    obtain t' p' hs' where h: "h = (t', p', hs')" by (cases h)
    have "?i \<notin> set t'" using that h entry_in_held [of t' p' hs' M ?i] notin(1) by auto
    then have "blk_hash (blocks bm' ! x) = blk_hash (blocks bm ! x)" if "x \<in> set t'" for x
      using that hash_same by metis
    note fr = bm_invD(3) [OF inv, of h] that h this
    show ?thesis unfolding h
      by (rule holding_ok_frame [of ?H "blocks bm"]) (use fr in auto)
  qed
  moreover have "holding_ok ?H (blocks bm') (t, int j + 1, hs)"
  proof -
    have "blk_hash (blocks bm' ! (t ! k)) = blk_hash (blocks bm ! (t ! k))" if "k < length t" "k \<noteq> j" for k
      using that other hash_same by blast
    with own j hash_i show ?thesis
      unfolding holding_ok_def by (auto simp: nat_add_distrib less_Suc_eq)
  qed
  ultimately show ?thesis unfolding bm_inv_def by auto
qed

section \<open>The operations keep the invariant and raise nothing\<close>

subsection \<open>Growing a table\<close>

lemma allocate_new_loop:
  assumes "bm_inv cls bm (add_mset (block_table s, p, hs) M)"
    and "length xs \<le> length (free_block_queue bm)"
  shows "okE (foldE allocate_new xs (bm, s)) (\<lambda>(bm', s'). \<exists>new.
     s' = s\<lparr>block_table := block_table s @ new\<rparr> \<and> length new = length xs \<and>
     bm_inv cls bm' (add_mset (block_table s @ new, p, hs) M) \<and> same_config bm bm' \<and>
     free_block_queue bm = new @ free_block_queue bm')"
  using assms
proof (induction xs arbitrary: bm s)
  case Nil
  then show ?case by (auto intro!: exI [of _ "[]"])
next
  case (Cons x xs)
  then have "free_block_queue bm \<noteq> []" by auto
  note alloc = allocate_block_ok [OF Cons.prems(1) this]
  show ?case
    unfolding foldE.simps okE_bind
  proof (rule okE_mono [of _ "\<lambda>(bm', s'). \<exists>i. s' = s\<lparr>block_table := block_table s @ [i]\<rparr> \<and>
      bm_inv cls bm' (add_mset (block_table s @ [i], p, hs) M) \<and> same_config bm bm' \<and>
      free_block_queue bm = i # free_block_queue bm'"])
    show "okE (allocate_new x (bm, s)) (\<lambda>(bm', s'). \<exists>i. s' = s\<lparr>block_table := block_table s @ [i]\<rparr> \<and>
      bm_inv cls bm' (add_mset (block_table s @ [i], p, hs) M) \<and> same_config bm bm' \<and>
      free_block_queue bm = i # free_block_queue bm')"
      using alloc by (auto simp: allocate_new_def okE_iff)
  next
    fix r
    assume "case r of (bm', s') \<Rightarrow> \<exists>i. s' = s\<lparr>block_table := block_table s @ [i]\<rparr> \<and>
      bm_inv cls bm' (add_mset (block_table s @ [i], p, hs) M) \<and> same_config bm bm' \<and>
      free_block_queue bm = i # free_block_queue bm'"
    then obtain bm' i where r: "r = (bm', s\<lparr>block_table := block_table s @ [i]\<rparr>)"
      and inv: "bm_inv cls bm' (add_mset (block_table s @ [i], p, hs) M)"
      and cfg: "same_config bm bm'" and q: "free_block_queue bm = i # free_block_queue bm'"
      by (cases r) auto
    have "okE (foldE allocate_new xs r) (\<lambda>(bm'', s''). \<exists>new.
       s'' = s\<lparr>block_table := (block_table s @ [i]) @ new\<rparr> \<and> length new = length xs \<and>
       bm_inv cls bm'' (add_mset ((block_table s @ [i]) @ new, p, hs) M) \<and> same_config bm' bm'' \<and>
       free_block_queue bm' = new @ free_block_queue bm'')"
      using Cons.IH [of bm' "s\<lparr>block_table := block_table s @ [i]\<rparr>"] inv q Cons.prems(2) by (simp add: r)
    then show "okE (foldE allocate_new xs r) (\<lambda>(bm'', s''). \<exists>new.
       s'' = s\<lparr>block_table := block_table s @ new\<rparr> \<and> length new = length (x # xs) \<and>
       bm_inv cls bm'' (add_mset (block_table s @ new, p, hs) M) \<and> same_config bm bm'' \<and>
       free_block_queue bm = new @ free_block_queue bm'')"
    proof (rule okE_mono, clarsimp)
      fix bm'' new
      assume "length new = length xs" "bm_inv cls bm'' (add_mset (block_table s @ i # new, p, hs) M)"
        "same_config bm' bm''" "free_block_queue bm' = new @ free_block_queue bm''"
      with q same_config_trans [OF cfg] show "\<exists>new'. s\<lparr>block_table := block_table s @ i # new\<rparr> = s\<lparr>block_table := block_table s @ new'\<rparr> \<and>
          length new' = Suc (length xs) \<and> bm_inv cls bm'' (add_mset (block_table s @ new', p, hs) M) \<and>
          same_config bm bm'' \<and> free_block_queue bm = new' @ free_block_queue bm''"
        by (intro exI [of _ "i # new"]) simp
    qed
  qed
qed

lemma may_append_ok:
  assumes "bm_inv cls bm (add_mset (holding_of s) M)" and "can_append bm s la"
  shows "okE (may_append bm s la) (\<lambda>(bm', s'). \<exists>new. s' = s\<lparr>block_table := block_table s @ new\<rparr> \<and>
     bm_inv cls bm' (add_mset (holding_of s') M) \<and> same_config bm bm' \<and>
     bm_num_blocks bm s la \<le> int (length (block_table s')) \<and>
     free_block_queue bm = new @ free_block_queue bm')"
proof -
  have "length (py_range 0 (num_missing_blocks bm s la)) \<le> length (free_block_queue bm)"
    using assms(2) by (simp add: can_append_def num_free_blocks_def py_len_def)
  from allocate_new_loop [OF assms(1) [unfolded holding_of_def] this]
  show ?thesis
    unfolding may_append_def
    by (rule okE_mono) (auto simp: holding_of_def num_missing_blocks_def py_len_def)
qed

subsection \<open>Giving a table back\<close>

lemma deallocate_loop:
  assumes "bm_inv cls bm (add_mset (t, p, hs) M)"
  shows "okE (foldE deallocate_entry (rev t) bm) (\<lambda>bm'. bm_inv cls bm' M \<and> same_config bm bm' \<and>
     (\<exists>freed. free_block_queue bm' = free_block_queue bm @ freed))"
  using assms
proof (induction t arbitrary: bm p rule: rev_induct)
  case Nil
  then have "p = 0" by (auto simp: bm_inv_def holding_ok_def)
  with Nil show ?case by (simp add: bm_inv_no_blocks)
next
  case (snoc i t)
  show ?case
    unfolding rev_append rev.simps append.simps foldE.simps okE_bind
    by (rule okE_mono [OF deallocate_entry_ok [OF snoc.prems]], rule okE_mono, erule conjE, erule snoc.IH)
       (auto intro: same_config_trans)
qed

lemma deallocate_ok:
  assumes "bm_inv cls bm (add_mset (holding_of s) M)"
  shows "okE (deallocate bm s) (\<lambda>(bm', s'). bm_inv cls bm' M \<and> same_config bm bm' \<and>
     s' = s\<lparr>num_cached_tokens := 0, num_published_blocks := 0, block_table := []\<rparr> \<and>
     (\<exists>freed. free_block_queue bm' = free_block_queue bm @ freed))"
  using deallocate_loop [OF assms [unfolded holding_of_def]]
  by (auto simp: deallocate_def okE_iff)

subsection \<open>Publishing full blocks\<close>

lemma publish_block_ok:
  assumes inv: "bm_inv cls bm (add_mset (block_table s, int j, block_hashes s) M)"
    and wf: "cls_wf cls" "seq_wf cls s" and caching: "cls_enable_prefix_caching cls"
    and j: "j < length (block_table s)" "Suc j * bsz cls \<le> length (token_ids s)"
  shows "okE (publish_block cls s (int j) bm) (\<lambda>bm'.
     bm_inv cls bm' (add_mset (block_table s, int j + 1, block_hashes s) M) \<and> same_config bm bm' \<and>
     free_block_queue bm' = free_block_queue bm)"
proof -
  let ?i = "block_table s ! j"
  have bs: "0 < bsz cls" "0 < cls_block_size cls" using wf by (auto simp: cls_wf_def)
  have k: "j < length (token_ids s) div bsz cls"
    using j(2) bs by (metis Suc_le_lessD less_eq_div_iff_mult_less_eq)
  have hs: "block_hashes s = chain (cls_algo cls) (bsz cls) (token_ids s) (length (token_ids s) div bsz cls)"
    using wf caching by (simp add: seq_wf_def hashes_ok_def)
  then have h: "j < length (block_hashes s)"
    "block_hashes s ! j = last (chain (cls_algo cls) (bsz cls) (token_ids s) (Suc j))"
    using k nth_chain [OF k] by simp_all
  have neg: "block_hashes s ! j \<noteq> -1"
    unfolding h(2) last_chain_Suc using cls_algo_nonneg by (metis neg_0_le_iff_le not_one_le_zero)
  have i: "?i < length (blocks bm)" "blk_id (blocks bm ! ?i) = ?i"
    using counts_okD(1,3) [OF bm_invD(1) [OF inv]] j(1) by auto
  have "int j < num_blocks cls s"
    using full_block_lt_num_blocks [OF wf(1), of s "int j"] wf(2) k num_full_blocks [OF wf]
    by (simp add: seq_wf_def)
  then have blk: "block cls s (int j) = Inr (block_at (bsz cls) (token_ids s) j)"
    using block_eq [OF bs(2), of "int j" s] by simp
  let ?b = "block_update (block_hashes s ! j) (block_at (bsz cls) (token_ids s) j) (blocks bm ! ?i)"
  let ?bm = "set_block ?i ?b (bm\<lparr>hash_to_block_id := (hash_to_block_id bm)(block_hashes s ! j \<mapsto> ?i)\<rparr>)"
  have run: "publish_block cls s (int j) bm = Inr ?bm"
    using j h i blk by (simp add: publish_block_def get_block_def Let_def block_update_def)
  have "content_ok cls ?b"
    unfolding content_ok_def using h j by (auto simp: block_update_def)
  then have "bm_inv cls ?bm (add_mset (block_table s, int j + 1, block_hashes s) M)"
    by (intro publish_entry_ok [OF inv j(1) h(1), of ?b]) (simp_all add: block_update_def i neg)
  then show ?thesis using run by (simp add: same_config_def set_block_def)
qed

lemma div_times_le: "0 < b \<Longrightarrow> a div b * b \<le> (a :: int)"
  by (metis minus_mod_eq_div_mult pos_mod_sign add_le_cancel_left diff_ge_0_iff_ge le_add_diff_inverse2 diff_add_cancel add_0 add.commute)

lemma hash_blocks_ok:
  assumes inv: "bm_inv cls bm (add_mset (holding_of s) M)"
    and wf: "cls_wf cls" "seq_wf cls s" and cfg: "bm_for cls bm"
    and cover: "min n (num_tokens s) \<le> int (length (block_table s)) * cls_block_size cls"
  shows "okE (hash_blocks cls bm s n) (\<lambda>(bm', s'). bm_inv cls bm' (add_mset (holding_of s') M) \<and>
     same_config bm bm' \<and> (\<exists>p. s' = s\<lparr>num_published_blocks := p\<rparr> \<and>
       (p = num_published_blocks s \<or> p * cls_block_size cls \<le> min n (num_tokens s))) \<and>
     free_block_queue bm' = free_block_queue bm)"
proof (cases "bm_enable_prefix_caching bm")
  case False
  then show ?thesis using inv by (auto simp: hash_blocks_def intro: exI [of _ "num_published_blocks s"])
next
  case True
  let ?e = "min n (num_tokens s) div bm_block_size bm" and ?p = "num_published_blocks s"
  have caching: "cls_enable_prefix_caching cls" and bsz: "bm_block_size bm = cls_block_size cls"
    using True cfg by (auto simp: bm_for_def)
  have bs: "0 < cls_block_size cls" using wf by (simp add: cls_wf_def)
  have p: "0 \<le> ?p" using bm_invD(3) [OF inv, of "holding_of s"] by (simp add: holding_of_def holding_ok_def)
  have e1: "?e \<le> int (length (block_table s))"
    using cover bs unfolding bsz by (rule div_le_of_le_mult [rotated])
  have e2: "?e \<le> num_tokens s div cls_block_size cls"
    unfolding bsz using bs by (simp add: zdiv_mono1)
  have "okE (foldE (publish_block cls s) (py_range ?p ?e) bm) (\<lambda>bm'.
      bm_inv cls bm' (add_mset (block_table s, ?p + int (length (py_range ?p ?e)), block_hashes s) M) \<and>
      same_config bm bm' \<and> free_block_queue bm' = free_block_queue bm)"
  proof (rule okE_foldE [where I = "\<lambda>ys bm'. bm_inv cls bm' (add_mset (block_table s, ?p + int (length ys), block_hashes s) M) \<and>
      same_config bm bm' \<and> free_block_queue bm' = free_block_queue bm"])
    show "bm_inv cls bm (add_mset (block_table s, ?p + int (length []), block_hashes s) M) \<and>
      same_config bm bm \<and> free_block_queue bm = free_block_queue bm"
      using inv by (simp add: holding_of_def)
  next
    fix ys x zs bm'
    assume split: "py_range ?p ?e = ys @ x # zs"
      and I: "bm_inv cls bm' (add_mset (block_table s, ?p + int (length ys), block_hashes s) M) \<and>
      same_config bm bm' \<and> free_block_queue bm' = free_block_queue bm"
    define j where "j = nat x"
    with py_range_split(1,2) [OF split] p have j: "x = int j" "?p + int (length ys) = int j" "int j < ?e"
      by auto
    have "Suc j * bsz cls \<le> length (token_ids s)"
    proof -
      have "int j < int (length (token_ids s) div bsz cls)"
        using j(3) e2 num_full_blocks [OF wf] by linarith
      then have "Suc j \<le> length (token_ids s) div bsz cls" by simp
      then show ?thesis by (metis div_times_less_eq_dividend le_trans mult_le_mono1)
    qed
    with j e1 I have "okE (publish_block cls s (int j) bm') (\<lambda>bm''.
       bm_inv cls bm'' (add_mset (block_table s, int j + 1, block_hashes s) M) \<and> same_config bm' bm'' \<and>
       free_block_queue bm'' = free_block_queue bm')"
      by (intro publish_block_ok wf caching) auto
    then show "okE (publish_block cls s x bm') (\<lambda>bm'. bm_inv cls bm' (add_mset (block_table s, ?p + int (length (ys @ [x])), block_hashes s) M) \<and>
      same_config bm bm' \<and> free_block_queue bm' = free_block_queue bm)"
      unfolding j(1) by (rule okE_mono) (use I j(2) same_config_trans in \<open>auto simp: ac_simps\<close>)
  qed
  moreover have "?p + int (length (py_range ?p ?e)) = max ?p ?e" by simp
  moreover have "max ?p ?e = ?p \<or> max ?p ?e * cls_block_size cls \<le> min n (num_tokens s)"
    unfolding bsz using div_times_le [OF bs, of "min n (num_tokens s)"] by (auto simp: max_def)
  ultimately show ?thesis
    using True by (auto simp: hash_blocks_def Let_def okE_bind holding_of_def elim!: okE_mono)
qed

subsection \<open>Admission\<close>

text \<open>
  \<open>is_hit\<close>: the index names a block for the sequence's \<open>i\<close>-th hash and its tokens agree;
  \<open>leading_hits\<close>: how many blocks from the start hit; \<open>held_hits\<close>: how many of the first
  \<open>c\<close> of them some sequence holds already.
\<close>

definition hit_block :: "block_manager \<Rightarrow> sequence \<Rightarrow> nat \<Rightarrow> nat" where
  "hit_block bm s i = the (hash_to_block_id bm (block_hashes s ! i))"

definition is_hit :: "seq_class \<Rightarrow> block_manager \<Rightarrow> sequence \<Rightarrow> nat \<Rightarrow> bool" where
  "is_hit cls bm s i \<longleftrightarrow> (case hash_to_block_id bm (block_hashes s ! i) of
     None \<Rightarrow> False | Some bid \<Rightarrow> blk_token_ids (blocks bm ! bid) = block_at (bsz cls) (token_ids s) i)"

definition leading_hits :: "seq_class \<Rightarrow> block_manager \<Rightarrow> sequence \<Rightarrow> nat \<Rightarrow> nat" where
  "leading_hits cls bm s m = length (takeWhile (is_hit cls bm s) [0..<m])"

definition held_hits :: "block_manager \<Rightarrow> sequence \<Rightarrow> nat \<Rightarrow> nat" where
  "held_hits bm s c = length (filter (\<lambda>i. hit_block bm s i \<in> used_block_ids bm) [0..<c])"

lemma held_hits_Suc:
  "held_hits bm s (Suc c) = held_hits bm s c + (if hit_block bm s c \<in> used_block_ids bm then 1 else 0)"
  by (simp add: held_hits_def)

lemma held_hits_0 [simp]: "held_hits bm s 0 = 0"
  by (simp add: held_hits_def)

lemma takeWhile_upt_length:
  "j \<le> m \<Longrightarrow> j + length (takeWhile P [j..<m]) \<le> m"
  by (metis add_le_cancel_left le_add_diff_inverse length_takeWhile_le length_upt)

lemma leading_hits_le: "leading_hits cls bm s m \<le> m"
  using takeWhile_upt_length [of 0 m] by (simp add: leading_hits_def)

lemma leading_hits_hit: "i < leading_hits cls bm s m \<Longrightarrow> is_hit cls bm s i"
  using leading_hits_le [of cls bm s m] unfolding leading_hits_def
  by (metis (no_types, lifting) add_0 less_le_trans nth_mem nth_upt set_takeWhileD takeWhile_nth)

lemma can_allocate_loop_eq:
  assumes wf: "cls_wf cls" and len: "m \<le> length (block_hashes s)" and nb: "int m \<le> num_blocks cls s"
    and ix: "index_ok cls bm" and jm: "j \<le> m"
    and hh: "j = 0 \<Longrightarrow> \<not> hh" "j \<noteq> 0 \<Longrightarrow> hh = (hit_block bm s (j - 1) \<in> used_block_ids bm)"
  shows "\<exists>n. n = j + length (takeWhile (is_hit cls bm s) [j..<m]) \<and>
     can_allocate_loop cls bm s (py_range (int j) (int m)) (int j) (N - int (held_hits bm s j)) hh =
       Inr (int n, N - int (held_hits bm s n), n \<noteq> 0 \<and> hit_block bm s (n - 1) \<in> used_block_ids bm)"
  using jm hh
proof (induction "m - j" arbitrary: j hh)
  case 0
  then show ?case by auto
next
  case (Suc d)
  then have jm: "j < m" by simp
  let ?h = "block_hashes s ! j"
  have bs: "0 < cls_block_size cls" using wf by (simp add: cls_wf_def)
  have r: "py_range (int j) (int m) = int j # py_range (int (Suc j)) (int m)"
    using jm py_range_Cons [of "int j" "int m"] by (simp add: add.commute)
  have g: "py_get (block_hashes s) (int j) = Inr ?h" using jm len by simp
  have b: "block cls s (int j) = Inr (block_at (bsz cls) (token_ids s) j)"
    using block_eq [OF bs, of "int j" s] jm nb by simp
  have hit: "get_block bm bid = Inr (blocks bm ! bid)" if "hash_to_block_id bm ?h = Some bid" for bid
    using ix that by (auto simp: index_ok_def get_block_def)
  show ?case
  proof (cases "is_hit cls bm s j")
    case False
    then show ?thesis
      using Suc.prems jm r g b hit unfolding is_hit_def
      by (auto simp: upt_conv_Cons is_hit_def split: option.splits)
  next
    case True
    then obtain bid where bid: "hash_to_block_id bm ?h = Some bid"
      and toks: "blk_token_ids (blocks bm ! bid) = block_at (bsz cls) (token_ids s) j"
      by (auto simp: is_hit_def split: option.splits)
    let ?hh = "bid \<in> used_block_ids bm"
    have hb: "hit_block bm s j = bid" using bid by (simp add: hit_block_def)
    have "can_allocate_loop cls bm s (py_range (int j) (int m)) (int j) (N - int (held_hits bm s j)) hh =
      can_allocate_loop cls bm s (py_range (int (Suc j)) (int m)) (int (Suc j)) (N - int (held_hits bm s (Suc j))) ?hh"
      using r g b hit [OF bid] bid toks hb by (simp add: Let_def held_hits_Suc algebra_simps)
    moreover have "\<exists>n. n = Suc j + length (takeWhile (is_hit cls bm s) [Suc j..<m]) \<and>
       can_allocate_loop cls bm s (py_range (int (Suc j)) (int m)) (int (Suc j)) (N - int (held_hits bm s (Suc j))) ?hh =
       Inr (int n, N - int (held_hits bm s n), n \<noteq> 0 \<and> hit_block bm s (n - 1) \<in> used_block_ids bm)"
      by (rule Suc.hyps(1)) (use Suc.hyps(2) jm hb in simp_all)
    ultimately show ?thesis
      using True jm by (simp add: upt_conv_Cons)
  qed
qed

text \<open>What \<open>can_allocate\<close> answers, with no loop.\<close>

definition reusable_blocks :: "seq_class \<Rightarrow> block_manager \<Rightarrow> sequence \<Rightarrow> nat" where
  "reusable_blocks cls bm s =
     (let n = (if bm_enable_prefix_caching bm then leading_hits cls bm s (nat (num_blocks cls s - 1)) else 0)
      in if recompute_last_hit bm then n - 1 else n)"

lemma prompt_blocks_hashed:
  assumes "cls_wf cls" "seq_wf cls s" "num_pending_tokens s = 0" "cls_enable_prefix_caching cls"
  shows "nat (num_blocks cls s - 1) \<le> length (block_hashes s)" and "0 < num_blocks cls s"
proof -
  have bs: "0 < cls_block_size cls" and n: "0 < num_tokens s" "num_planned_tokens s = num_tokens s"
    using assms by (auto simp: cls_wf_def seq_wf_def num_planned_tokens_def)
  have "num_blocks cls s - 1 = (num_tokens s - 1) div cls_block_size cls"
    using ceil_div_pred_div [OF bs] n by (simp add: num_blocks_ceil)
  also have "\<dots> \<le> num_tokens s div cls_block_size cls" using bs by (simp add: zdiv_mono1)
  also have "\<dots> = int (length (block_hashes s))"
    using assms num_full_blocks [OF assms(1,2)] by (simp add: seq_wf_def hashes_ok_def)
  finally show "nat (num_blocks cls s - 1) \<le> length (block_hashes s)" by simp
  show "0 < num_blocks cls s" using ceil_div_pos [OF bs] n by (simp add: num_blocks_ceil)
qed

lemma can_allocate_eq:
  assumes wf: "cls_wf cls" "seq_wf cls s" and pend: "num_pending_tokens s = 0"
    and cfg: "bm_for cls bm" and ix: "index_ok cls bm"
  shows "can_allocate cls bm s la = Inr
     (let c = reusable_blocks cls bm s
      in if int (length (free_block_queue bm)) < bm_num_blocks bm s la - int (held_hits bm s c) then -1 else int c)"
proof -
  let ?m = "if bm_enable_prefix_caching bm then nat (num_blocks cls s - 1) else 0"
  let ?n = "leading_hits cls bm s ?m"
  have bs: "0 < cls_block_size cls" using wf by (simp add: cls_wf_def)
  have m: "?m \<le> length (block_hashes s)" "int ?m \<le> num_blocks cls s"
    using prompt_blocks_hashed [OF wf pend] cfg
      ceil_div_nonneg [OF bs, of "num_planned_tokens s"] wf pend
    by (auto simp: bm_for_def num_blocks_ceil num_planned_tokens_def seq_wf_def)
  have r: "(if bm_enable_prefix_caching bm then py_range 0 (num_blocks cls s - 1) else []) = py_range 0 (int ?m)"
    by (cases "1 \<le> num_blocks cls s") auto
  obtain n where n: "n = ?n" and loop: "can_allocate_loop cls bm s (py_range 0 (int ?m)) 0 (bm_num_blocks bm s la) False =
       Inr (int n, bm_num_blocks bm s la - int (held_hits bm s n), n \<noteq> 0 \<and> hit_block bm s (n - 1) \<in> used_block_ids bm)"
    using can_allocate_loop_eq [OF wf(1) m ix, of 0 False "bm_num_blocks bm s la"] by (auto simp: leading_hits_def)
  have n': "reusable_blocks cls bm s = (if recompute_last_hit bm then n - 1 else n)"
    unfolding reusable_blocks_def n by (auto simp: Let_def leading_hits_def)
  show ?thesis
    unfolding can_allocate_def r loop n' bindE.simps
    by (cases n) (auto simp: Let_def num_free_blocks_def py_len_def held_hits_Suc)
qed

lemma reusable_blocks_hit:
  assumes "i < reusable_blocks cls bm s"
  shows "is_hit cls bm s i" and "int i + 1 < num_blocks cls s"
proof -
  let ?n = "leading_hits cls bm s (nat (num_blocks cls s - 1))"
  have "i < ?n" using assms by (auto simp: reusable_blocks_def Let_def split: if_splits)
  then show "is_hit cls bm s i" by (rule leading_hits_hit)
  have "?n \<le> nat (num_blocks cls s - 1)" by (rule leading_hits_le)
  with \<open>i < ?n\<close> show "int i + 1 < num_blocks cls s" by linarith
qed

text \<open>One cached block: its index entry is still there, whoever holds it.\<close>

lemma allocate_cached_ok:
  assumes inv: "bm_inv cls bm (add_mset (block_table s, int (length (block_table s)), block_hashes s) M)"
    and k: "k = length (block_table s)" "k < length (block_hashes s)"
    and hit: "hash_to_block_id bm (block_hashes s ! k) = Some i"
  shows "okE (allocate_cached (int k) (bm, s)) (\<lambda>(bm', s').
     s' = s\<lparr>block_table := block_table s @ [i]\<rparr> \<and>
     bm_inv cls bm' (add_mset (block_table s @ [i], int k + 1, block_hashes s) M) \<and> same_config bm bm' \<and>
     hash_to_block_id bm' = hash_to_block_id bm \<and> used_block_ids bm' = insert i (used_block_ids bm) \<and>
     length (free_block_queue bm') + (if i \<in> used_block_ids bm then 0 else 1) = length (free_block_queue bm))"
proof -
  note c = counts_okD [OF bm_invD(1) [OF inv], simplified]
  have i: "i < length (blocks bm)" using bm_invD(2) [OF inv] hit by (auto simp: index_ok_def)
  let ?b = "blocks bm ! i"
  let ?bm = "bm\<lparr>blocks := (blocks bm)[i := ?b\<lparr>ref_count := ref_count ?b + 1\<rparr>],
               used_block_ids := insert i (used_block_ids bm),
               free_block_queue := remove1 i (free_block_queue bm)\<rparr>"
  have sh: "bm_inv cls ?bm (add_mset (block_table s @ [i], int k + 1, block_hashes s) M)"
    unfolding k(1) by (rule share_block_ok [OF inv hit]) (use k in simp_all)
  show ?thesis
  proof (cases "i \<in> used_block_ids bm")
    case True
    then have "i \<notin> set (free_block_queue bm)" using c(5,6) by auto
    then have "?bm = set_block i (?b\<lparr>ref_count := ref_count ?b + 1\<rparr>) bm"
      using True by (simp add: set_block_def remove1_idem insert_absorb)
    with True sh k hit i show ?thesis
      by (auto simp: allocate_cached_def get_block_def same_config_def set_block_def)
  next
    case False
    then have free: "i \<in> set (free_block_queue bm)" and "i \<notin># mset (block_table s) + held M"
      using c(5) [of i] c(6) i by auto
    then have "ref_count ?b = 0"
      using c(2) [OF i] by (simp add: not_in_iff)
    then have "?bm = set_block i (?b\<lparr>ref_count := 1\<rparr>)
        (bm\<lparr>free_block_queue := remove1 i (free_block_queue bm), used_block_ids := insert i (used_block_ids bm)\<rparr>)"
      by (simp add: set_block_def)
    moreover have "length (remove1 i (free_block_queue bm)) + 1 = length (free_block_queue bm)"
      using free by (simp add: length_remove1) (metis Suc_pred length_pos_if_in_set)
    ultimately show ?thesis
      using False sh k hit i free
      by (auto simp: allocate_cached_def get_block_def same_config_def set_block_def queue_remove_def)
  qed
qed

lemma bm_num_blocks_cong:
  "num_tokens s' = num_tokens s \<Longrightarrow> num_pending_tokens s' = num_pending_tokens s \<Longrightarrow>
     bm_block_size bm' = bm_block_size bm \<Longrightarrow> bm_num_blocks bm' s' la = bm_num_blocks bm s la"
  by (simp add: bm_num_blocks_def num_planned_tokens_def)

lemma allocate_ok:
  assumes inv: "bm_inv cls bm M" and empty: "block_table s = []"
    and hits: "\<And>i. i < c \<Longrightarrow> is_hit cls bm s i" "c \<le> length (block_hashes s)"
    and fits: "bm_num_blocks bm s la - int (held_hits bm s c) \<le> int (length (free_block_queue bm))"
    and cN: "int c \<le> bm_num_blocks bm s la"
  shows "okE (allocate bm s (int c) la) (\<lambda>(bm', s'). \<exists>new.
     s' = s\<lparr>block_table := map (hit_block bm s) [0..<c] @ new, num_cached_tokens := int c * bm_block_size bm,
            num_published_blocks := int c\<rparr> \<and>
     int (length (block_table s')) = bm_num_blocks bm s la \<and>
     bm_inv cls bm' (add_mset (holding_of s') M) \<and> same_config bm bm' \<and>
     length (free_block_queue bm') \<le> length (free_block_queue bm))"
proof -
  let ?hs = "block_hashes s" and ?t = "\<lambda>k. map (hit_block bm s) [0..<k]"
  let ?s = "\<lambda>k. s\<lparr>block_table := ?t k\<rparr>"
  let ?I = "\<lambda>ys r. (\<exists>bm'. r = (bm', ?s (length ys)) \<and>
      bm_inv cls bm' (add_mset (?t (length ys), int (length ys), ?hs) M) \<and> same_config bm bm' \<and>
      hash_to_block_id bm' = hash_to_block_id bm \<and> used_block_ids bm \<subseteq> used_block_ids bm' \<and>
      length (free_block_queue bm') \<le> length (free_block_queue bm) \<and>
      length (free_block_queue bm) + held_hits bm s (length ys) \<le> length (free_block_queue bm') + length ys)"
  have first: "okE (foldE allocate_cached (py_range 0 (int c)) (bm, s)) (?I (py_range 0 (int c)))"
  proof (rule okE_foldE)
    show "?I [] (bm, s)" using inv empty by (simp add: bm_inv_no_blocks)
  next
    fix ys x zs r
    assume split: "py_range 0 (int c) = ys @ x # zs" and I: "?I ys r"
    let ?k = "length ys"
    have k: "x = int ?k" "?k < c" using py_range_split [OF split] by auto
    from I obtain bm' where r: "r = (bm', ?s ?k)" and inv': "bm_inv cls bm' (add_mset (?t ?k, int ?k, ?hs) M)"
      and cfg: "same_config bm bm'" and idx: "hash_to_block_id bm' = hash_to_block_id bm"
      and used: "used_block_ids bm \<subseteq> used_block_ids bm'"
      and le: "length (free_block_queue bm') \<le> length (free_block_queue bm)"
      and num: "length (free_block_queue bm) + held_hits bm s ?k \<le> length (free_block_queue bm') + ?k"
      by auto
    have hit: "hash_to_block_id bm' (block_hashes (?s ?k) ! ?k) = Some (hit_block bm s ?k)"
      using hits(1) [OF k(2)] idx by (auto simp: is_hit_def hit_block_def split: option.splits)
    have "okE (allocate_cached (int ?k) (bm', ?s ?k)) (\<lambda>(bm'', s').
       s' = ?s ?k\<lparr>block_table := block_table (?s ?k) @ [hit_block bm s ?k]\<rparr> \<and>
       bm_inv cls bm'' (add_mset (block_table (?s ?k) @ [hit_block bm s ?k], int ?k + 1, block_hashes (?s ?k)) M) \<and>
       same_config bm' bm'' \<and> hash_to_block_id bm'' = hash_to_block_id bm' \<and>
       used_block_ids bm'' = insert (hit_block bm s ?k) (used_block_ids bm') \<and>
       length (free_block_queue bm'') + (if hit_block bm s ?k \<in> used_block_ids bm' then 0 else 1) = length (free_block_queue bm'))"
      by (rule allocate_cached_ok [OF _ _ _ hit]) (use inv' k hits(2) in simp_all)
    then show "okE (allocate_cached x r) (?I (ys @ [x]))"
      unfolding r k(1)
    proof (rule okE_mono, clarify)
      fix bm''
      assume n: "bm_inv cls bm'' (add_mset (block_table (?s ?k) @ [hit_block bm s ?k], int ?k + 1, block_hashes (?s ?k)) M)"
        "same_config bm' bm''" "hash_to_block_id bm'' = hash_to_block_id bm'"
        "used_block_ids bm'' = insert (hit_block bm s ?k) (used_block_ids bm')"
        "length (free_block_queue bm'') + (if hit_block bm s ?k \<in> used_block_ids bm' then 0 else 1) = length (free_block_queue bm')"
      have "bm_inv cls bm'' (add_mset (?t (Suc ?k), int (Suc ?k), ?hs) M)" using n(1) by (simp add: add.commute)
      moreover have "same_config bm bm''" using cfg n(2) by (rule same_config_trans)
      moreover have "length (free_block_queue bm'') \<le> length (free_block_queue bm)" using n(5) le by simp
      moreover have "length (free_block_queue bm) + held_hits bm s (Suc ?k) \<le> length (free_block_queue bm'') + Suc ?k"
        using n(5) num used by (auto simp: held_hits_Suc split: if_splits)
      ultimately show "?I (ys @ [int ?k]) (bm'', ?s ?k\<lparr>block_table := block_table (?s ?k) @ [hit_block bm s ?k]\<rparr>)"
        using n(3,4) idx used by auto
    qed
  qed
  let ?N = "bm_num_blocks bm s la"
  let ?P = "\<lambda>(bm', s'). \<exists>new. s' = s\<lparr>block_table := ?t c @ new,
            num_cached_tokens := int c * bm_block_size bm, num_published_blocks := int c\<rparr> \<and>
     int (length (block_table s')) = ?N \<and> bm_inv cls bm' (add_mset (holding_of s') M) \<and>
     same_config bm bm' \<and> length (free_block_queue bm') \<le> length (free_block_queue bm)"
  let ?second = "\<lambda>r. bindE (foldE allocate_new (py_range (int c) (bm_num_blocks bm (snd r) la)) r) (\<lambda>(bm2, s2).
     Inr (bm2, s2\<lparr>num_cached_tokens := int c * bm_block_size bm, num_published_blocks := int c\<rparr>))"
  have second: "okE (?second r) ?P" if I: "?I (py_range 0 (int c)) r" for r
  proof -
    from I obtain bm1 where r: "r = (bm1, ?s c)"
      and inv1: "bm_inv cls bm1 (add_mset (?t c, int c, ?hs) M)" and cfg1: "same_config bm bm1"
      and le: "length (free_block_queue bm1) \<le> length (free_block_queue bm)"
      and num: "length (free_block_queue bm) + held_hits bm s c \<le> length (free_block_queue bm1) + c"
      by auto
    have N: "bm_num_blocks bm (snd r) la = ?N" unfolding r by (rule bm_num_blocks_cong) simp_all
    have "length (py_range (int c) ?N) \<le> length (free_block_queue bm1)"
      using fits num by simp
    from allocate_new_loop [of cls bm1 "?s c" "int c" ?hs M, OF _ this] inv1
    have "okE (foldE allocate_new (py_range (int c) ?N) r) (\<lambda>(bm', s'). \<exists>new.
       s' = ?s c\<lparr>block_table := ?t c @ new\<rparr> \<and> length new = length (py_range (int c) ?N) \<and>
       bm_inv cls bm' (add_mset (?t c @ new, int c, ?hs) M) \<and> same_config bm1 bm' \<and>
       free_block_queue bm1 = new @ free_block_queue bm')"
      by (simp add: r)
    then obtain bm2 new where run: "foldE allocate_new (py_range (int c) ?N) r = Inr (bm2, s\<lparr>block_table := ?t c @ new\<rparr>)"
      and n: "length new = nat (?N - int c)" "bm_inv cls bm2 (add_mset (?t c @ new, int c, ?hs) M)"
        "same_config bm1 bm2" "free_block_queue bm1 = new @ free_block_queue bm2"
      by (auto simp: okE_iff)
    let ?s2 = "s\<lparr>block_table := ?t c @ new, num_cached_tokens := int c * bm_block_size bm, num_published_blocks := int c\<rparr>"
    have "int (length (block_table ?s2)) = ?N" using n(1) cN by simp
    moreover have "bm_inv cls bm2 (add_mset (holding_of ?s2) M)" using n(2) by (simp add: holding_of_def)
    moreover have "same_config bm bm2" using cfg1 n(3) by (rule same_config_trans)
    moreover have "length (free_block_queue bm2) \<le> length (free_block_queue bm)" using le n(4) by simp
    moreover have "?second r = Inr (bm2, ?s2)" unfolding N run by simp
    ultimately show ?thesis by (simp del: length_append) (auto intro!: exI [of _ new])
  qed
  have "allocate bm s (int c) la = bindE (foldE allocate_cached (py_range 0 (int c)) (bm, s)) ?second"
    unfolding allocate_def using empty
    by (simp add: assertE_def) (rule arg_cong [where f = "bindE _"], auto)
  then show ?thesis
    using okE_mono [OF first second] by (simp only: okE_bind)
qed

lemma bm_num_blocks_pos:
  assumes "cls_wf cls" "seq_wf cls s" "bm_for cls bm" "0 \<le> la"
  shows "num_blocks cls s \<le> bm_num_blocks bm s la" and "0 < bm_num_blocks bm s la"
proof -
  have bs: "0 < cls_block_size cls" and n: "0 < num_planned_tokens s"
    using assms by (auto simp: cls_wf_def seq_wf_def num_planned_tokens_def)
  have e: "bm_num_blocks bm s la = ceil_div (num_planned_tokens s + la) (cls_block_size cls)"
    using assms by (simp add: bm_num_blocks_def ceil_div_def bm_for_def)
  show "num_blocks cls s \<le> bm_num_blocks bm s la"
    unfolding e num_blocks_ceil using bs assms(4) by (intro ceil_div_mono) auto
  show "0 < bm_num_blocks bm s la" unfolding e using bs n assms(4) by (intro ceil_div_pos) auto
qed

text \<open>An admission the test allows succeeds.\<close>

lemma admit_ok:
  assumes inv: "bm_inv cls bm M" and wf: "cls_wf cls" "seq_wf cls s" and cfg: "bm_for cls bm"
    and fresh: "num_pending_tokens s = 0" "block_table s = []" and la: "0 \<le> la"
    and can: "can_allocate cls bm s la = Inr c" and fits: "c \<noteq> -1"
  shows "0 \<le> c \<and> c * cls_block_size cls < num_tokens s \<and>
    okE (allocate bm s c la) (\<lambda>(bm', s'). \<exists>t.
     s' = s\<lparr>block_table := t, num_cached_tokens := c * bm_block_size bm, num_published_blocks := c\<rparr> \<and>
     int (length t) = bm_num_blocks bm s la \<and>
     bm_inv cls bm' (add_mset (holding_of s') M) \<and> same_config bm bm' \<and>
     length (free_block_queue bm') \<le> length (free_block_queue bm))"
proof -
  let ?k = "reusable_blocks cls bm s"
  note N = bm_num_blocks_pos [OF wf cfg la]
  have bs: "0 < cls_block_size cls" using wf by (simp add: cls_wf_def)
  have eq: "can_allocate cls bm s la = Inr (if int (length (free_block_queue bm)) <
      bm_num_blocks bm s la - int (held_hits bm s ?k) then -1 else int ?k)"
    using can_allocate_eq [OF wf fresh(1) cfg bm_invD(2) [OF inv]] by (simp add: Let_def)
  with can fits have c: "c = int ?k"
    and free: "bm_num_blocks bm s la - int (held_hits bm s ?k) \<le> int (length (free_block_queue bm))"
    by (auto split: if_splits)
  have kb: "int ?k < num_blocks cls s"
    using reusable_blocks_hit(2) [of "?k - 1" cls bm s] ceil_div_pos [OF bs, of "num_planned_tokens s"] wf fresh
    by (cases "?k = 0") (auto simp: num_blocks_ceil num_planned_tokens_def seq_wf_def)
  then have "int ?k \<le> (num_tokens s - 1) div cls_block_size cls"
    using ceil_div_pred_div [OF bs, of "num_tokens s"] fresh
    by (simp add: num_blocks_ceil num_planned_tokens_def)
  then have lt: "c * cls_block_size cls < num_tokens s"
    using bs unfolding c le_div_iff_mult [OF bs] by linarith
  have "?k \<le> length (block_hashes s)"
  proof (cases "cls_enable_prefix_caching cls")
    case True
    with prompt_blocks_hashed(1) [OF wf fresh(1)] kb show ?thesis by linarith
  next
    case False
    then have "?k = 0" using cfg by (simp add: reusable_blocks_def bm_for_def)
    then show ?thesis by simp
  qed
  note alloc = allocate_ok [OF inv fresh(2) reusable_blocks_hit(1) this free]
  have "int ?k \<le> bm_num_blocks bm s la" using kb N(1) by linarith
  from alloc [OF _ this] show ?thesis
    unfolding c using lt c by (auto elim!: okE_mono)
qed

lemma new_block_manager_inv: "bm_inv cls (new_block_manager n bs caching rec) {#}"
  by (auto simp: bm_inv_def counts_ok_def index_ok_def content_ok_def new_block_manager_def new_block_def)

section \<open>What sharing and exclusive ownership mean\<close>

lemma shared_block_same_prefix:
  assumes inv: "bm_inv cls bm M" and wf: "seq_wf cls s" "seq_wf cls s'" and cf: "collision_free (cls_algo cls)"
    and caching: "cls_enable_prefix_caching cls"
    and mem: "holding_of s \<in># M" "holding_of s' \<in># M"
    and j: "int j < num_published_blocks s" "int j' < num_published_blocks s'"
    and same: "block_table s ! j = block_table s' ! j'"
  shows "j = j' \<and> take (Suc j * bsz cls) (token_ids s) = take (Suc j * bsz cls) (token_ids s')"
proof -
  have pub: "block_hashes s ! j = last (chain (cls_algo cls) (bsz cls) (token_ids s) (Suc j)) \<and>
      blk_hash (blocks bm ! (block_table s ! j)) = block_hashes s ! j"
    if "holding_of s \<in># M" "int j < num_published_blocks s" "seq_wf cls s" for s j
  proof -
    have "holding_ok (held M) (blocks bm) (holding_of s)" using bm_invD(3) [OF inv] that by blast
    then have "j < length (block_hashes s)" "blk_hash (blocks bm ! (block_table s ! j)) = block_hashes s ! j"
      using that(2) by (auto simp: holding_ok_def holding_of_def)
    moreover have "block_hashes s = chain (cls_algo cls) (bsz cls) (token_ids s) (length (token_ids s) div bsz cls)"
      using that(3) caching by (simp add: seq_wf_def hashes_ok_def)
    ultimately show ?thesis using nth_chain [of j] by (metis length_chain)
  qed
  have "last (chain (cls_algo cls) (bsz cls) (token_ids s) (Suc j)) =
      last (chain (cls_algo cls) (bsz cls) (token_ids s') (Suc j'))"
    using pub [OF mem(1) j(1) wf(1)] pub [OF mem(2) j(2) wf(2)] same by simp
  from last_chain_inj [OF cf this]
  have "j = j'" and "\<forall>i < Suc j. block_at (bsz cls) (token_ids s) i = block_at (bsz cls) (token_ids s') i"
    by auto
  then show ?thesis using take_blocks_eq by blast
qed

lemma unpublished_block_exclusive:
  assumes inv: "bm_inv cls bm (add_mset (holding_of s) (add_mset (holding_of s') M))"
    and j: "num_published_blocks s \<le> int j" "j < length (block_table s)" and j': "j' < length (block_table s')"
  shows "block_table s ! j \<noteq> block_table s' ! j'"
proof
  assume eq: "block_table s ! j = block_table s' ! j'"
  let ?x = "block_table s ! j"
  have "count (mset (block_table s) + (mset (block_table s') + held M)) ?x = 1"
    using bm_invD(3) [OF inv, of "holding_of s"] j by (auto simp: holding_ok_def holding_of_def)
  moreover have "0 < count (mset (block_table s)) ?x" "0 < count (mset (block_table s')) ?x"
    using nth_mem [OF j(2)] nth_mem [OF j'] eq by simp_all
  ultimately show False by simp
qed

section \<open>The allocator as the scheduler uses it\<close>

text \<open>
  What a client of the cache relies on: \<open>inv b M\<close> says that the holdings \<open>M\<close> account for
  every block; a holder can give everything back, and can grow once it may.
\<close>

locale paged_allocator =
  fixes inv :: "'b \<Rightarrow> holding multiset \<Rightarrow> bool"
    and same :: "'b \<Rightarrow> 'b \<Rightarrow> bool"
    and release :: "'b \<Rightarrow> sequence \<Rightarrow> ('b \<times> sequence) res"
    and can_grow :: "'b \<Rightarrow> sequence \<Rightarrow> int \<Rightarrow> bool"
    and grow :: "'b \<Rightarrow> sequence \<Rightarrow> int \<Rightarrow> ('b \<times> sequence) res"
  assumes same_trans: "same a b \<Longrightarrow> same b c \<Longrightarrow> same a c"
    and same_refl: "same a a"
    and release_law: "inv b (add_mset (holding_of s) M) \<Longrightarrow>
      okE (release b s) (\<lambda>(b', s'). inv b' M \<and> same b b' \<and>
        s' = s\<lparr>num_cached_tokens := 0, num_published_blocks := 0, block_table := []\<rparr>)"
    and grow_law: "inv b (add_mset (holding_of s) M) \<Longrightarrow> can_grow b s n \<Longrightarrow>
      okE (grow b s n) (\<lambda>(b', s'). inv b' (add_mset (holding_of s') M) \<and> same b b' \<and>
        (\<exists>t. s' = s\<lparr>block_table := t\<rparr>))"
begin

text \<open>Growing and then giving back leaves the other holdings as they were.\<close>

lemma grow_release:
  assumes "inv b (add_mset (holding_of s) M)" and "can_grow b s n"
  shows "okE (bindE (grow b s n) (\<lambda>(b', s'). release b' s')) (\<lambda>(b', s'). inv b' M \<and> same b b' \<and> block_table s' = [])"
  unfolding okE_bind
  by (rule okE_mono [OF grow_law [OF assms]])
     (auto intro!: okE_mono [OF release_law] intro: same_trans)

text \<open>A list of holders gives back everything, in any order.\<close>

lemma release_all:
  assumes "inv b (mset (map holding_of ss) + M)"
  shows "okE (foldE (\<lambda>s b. bindE (release b s) (\<lambda>r. Inr (fst r))) ss b) (\<lambda>b'. inv b' M \<and> same b b')"
  using assms
proof (induction ss arbitrary: b)
  case Nil
  then show ?case by (simp add: same_refl)
next
  case (Cons s ss)
  then have "inv b (add_mset (holding_of s) (mset (map holding_of ss) + M))" by simp
  from release_law [OF this] show ?case
    unfolding foldE.simps okE_bind
    by (rule okE_mono) (auto intro!: okE_mono [OF Cons.IH] intro: same_trans)
qed

end

interpretation kv: paged_allocator "bm_inv cls" same_config deallocate can_append may_append for cls
proof unfold_locales
  fix b :: block_manager and s :: sequence and M n
  assume inv: "bm_inv cls b (add_mset (holding_of s) M)"
  show "okE (deallocate b s) (\<lambda>(b', s'). bm_inv cls b' M \<and> same_config b b' \<and>
        s' = s\<lparr>num_cached_tokens := 0, num_published_blocks := 0, block_table := []\<rparr>)"
    using deallocate_ok [OF inv] by (rule okE_mono) auto
  assume "can_append b s n"
  from may_append_ok [OF inv this]
  show "okE (may_append b s n) (\<lambda>(b', s'). bm_inv cls b' (add_mset (holding_of s') M) \<and> same_config b b' \<and>
        (\<exists>t. s' = s\<lparr>block_table := t\<rparr>))"
    by (rule okE_mono) auto
qed (auto intro: same_config_trans)

end
