(* ===== verification/Block_Properties.thy ===== *)
theory Block_Properties
  imports Block_Manager
begin

text \<open>
  The promises of the KV-cache allocator, each with a concrete instance: admission, growth,
  release and publication.
\<close>

section \<open>Concrete managers\<close>

text \<open>Two sequences over blocks of two tokens: block 0 is their common first block.\<close>

definition demo_hash :: int where
  "demo_hash = cls_algo inj_cls [7, 8] (-1)"

definition demo_base :: sequence where
  "demo_base = demo_seq True 0 [7, 8, 9]"

definition demo_left :: sequence where
  "demo_left = demo_base\<lparr>block_table := [0, 1], num_published_blocks := 1, block_hashes := [demo_hash]\<rparr>"

definition demo_right :: sequence where
  "demo_right = demo_base\<lparr>seq_id := 1, token_ids := [7, 8, 5], last_token := 5, block_table := [0, 2],
     num_published_blocks := 1, block_hashes := [demo_hash]\<rparr>"

definition demo_bm :: block_manager where
  "demo_bm = \<lparr>bm_block_size = 2, bm_enable_prefix_caching = True, recompute_last_hit = False,
     blocks = [\<lparr>blk_id = 0, ref_count = 2, blk_hash = demo_hash, blk_token_ids = [7, 8]\<rparr>,
               \<lparr>blk_id = 1, ref_count = 1, blk_hash = -1, blk_token_ids = []\<rparr>,
               \<lparr>blk_id = 2, ref_count = 1, blk_hash = -1, blk_token_ids = []\<rparr>,
               \<lparr>blk_id = 3, ref_count = 0, blk_hash = -1, blk_token_ids = []\<rparr>],
     hash_to_block_id = [demo_hash \<mapsto> 0], free_block_queue = [3], used_block_ids = {0, 1, 2}\<rparr>"

lemma less4: "i < Suc (Suc (Suc (Suc 0))) \<longleftrightarrow> i = 0 \<or> i = 1 \<or> i = 2 \<or> i = (3 :: nat)"
  by auto

lemma inj_cls_wf: "cls_wf inj_cls"
  by (simp add: cls_wf_def inj_cls_def)

lemma demo_chain: "chain (cls_algo inj_cls) 2 (7 # 8 # ts) (Suc 0) = [demo_hash]"
  by (simp add: chain.simps block_at_def demo_hash_def)

lemma demo_hash_nonneg: "demo_hash \<noteq> -1" "0 \<le> demo_hash"
  using cls_algo_nonneg [of inj_cls "[7, 8]" "-1"] by (auto simp: demo_hash_def)

lemma demo_base_facts:
  "num_tokens demo_base = 3" "token_ids demo_base = [7, 8, 9]" "last_token demo_base = 9" "num_prompt_tokens demo_base = 3"
  "num_pending_tokens demo_base = 0"
  using demo_seq_wf [of "[7, 8, 9]" True 0] by (auto simp: demo_base_def seq_wf_def)

lemma demo_seqs_wf: "seq_wf inj_cls demo_left" "seq_wf inj_cls demo_right"
  using demo_chain [of "[9]"] demo_chain [of "[5]"]
  by (auto simp: seq_wf_def hashes_ok_def demo_left_def demo_right_def demo_base_facts inj_cls_def)

lemma demo_content: "content_ok inj_cls \<lparr>blk_id = 0, ref_count = 2, blk_hash = demo_hash, blk_token_ids = [7, 8]\<rparr>"
proof -
  have "demo_hash = last (chain (cls_algo inj_cls) 2 [7, 8, 9] (Suc 0))" using demo_chain [of "[9]"] by simp
  moreover have "block_at 2 [7, 8, 9] 0 = [7, 8 :: int]" by (simp add: block_at_def)
  ultimately show ?thesis
    unfolding content_ok_def
    by (intro disjI2 exI [of _ "[7, 8, 9]"] exI [of _ 0]) (simp add: inj_cls_def)
qed

lemma demo_bm_inv: "bm_inv inj_cls demo_bm {#holding_of demo_left, holding_of demo_right#}"
proof -
  have h: "held {#holding_of demo_left, holding_of demo_right#} = {#0, 0, 1, 2#}"
    by (simp add: held_def holding_of_def demo_left_def demo_right_def)
  have "counts_ok {#0, 0, 1, 2#} demo_bm"
    by (auto simp: counts_ok_def demo_bm_def less4 nth_Cons')
  moreover have "index_ok inj_cls demo_bm"
    using demo_content demo_hash_nonneg by (auto simp: index_ok_def demo_bm_def less4 nth_Cons' content_ok_def)
  moreover have "holding_ok {#0, 0, 1, 2#} (blocks demo_bm) (holding_of demo_left)"
    "holding_ok {#0, 0, 1, 2#} (blocks demo_bm) (holding_of demo_right)"
    by (auto simp: holding_ok_def holding_of_def demo_left_def demo_right_def demo_bm_def nth_Cons' less_Suc_eq numeral_2_eq_2)
  ultimately show ?thesis unfolding bm_inv_def h by auto
qed

section \<open>Admission\<close>

text \<open>
  C7: admission is sound.  When \<open>can_allocate\<close> answers with a number of cached blocks,
  \<open>allocate\<close> called with it raises nothing, gives the sequence exactly the blocks its tokens and
  lookahead slots need, leaves at least one token to compute, and every block stays accounted for.
\<close>

theorem admission_sound:
  assumes "bm_inv cls bm M" "cls_wf cls" "seq_wf cls s" "bm_for cls bm"
    and "num_pending_tokens s = 0" "block_table s = []" "0 \<le> la"
    and "can_allocate cls bm s la = Inr c" "c \<noteq> -1"
  shows "0 \<le> c \<and> c * cls_block_size cls < num_tokens s \<and>
    okE (allocate bm s c la) (\<lambda>(bm', s'). int (length (block_table s')) = bm_num_blocks bm s la \<and>
      num_cached_tokens s' = c * bm_block_size bm \<and> num_published_blocks s' = c \<and> token_ids s' = token_ids s \<and>
      bm_inv cls bm' (add_mset (holding_of s') M))"
  using admit_ok [OF assms] by (auto elim!: okE_mono)

definition demo_next :: sequence where
  "demo_next = demo_left\<lparr>block_table := [], num_published_blocks := 0\<rparr>"

lemma demo_next_facts:
  "seq_wf inj_cls demo_next" "num_pending_tokens demo_next = 0" "block_table demo_next = []" "bm_for inj_cls demo_bm"
  "num_planned_tokens demo_next = 3" "block_hashes demo_next = [demo_hash]"
  using demo_seqs_wf(1) by (auto simp: demo_next_def demo_left_def demo_base_facts seq_wf_def hashes_ok_def bm_for_def
      demo_bm_def inj_cls_def num_planned_tokens_def)

lemma demo_can_allocate: "can_allocate inj_cls demo_bm demo_next 0 = Inr 1"
proof -
  have "leading_hits inj_cls demo_bm demo_next 1 = 1"
    by (simp add: leading_hits_def is_hit_def demo_next_facts demo_bm_def block_at_def inj_cls_def)
       (simp add: demo_next_def demo_left_def demo_base_facts)
  then have "reusable_blocks inj_cls demo_bm demo_next = 1"
    by (simp add: reusable_blocks_def num_blocks_def demo_next_facts inj_cls_def) (simp add: demo_bm_def)
  moreover have "held_hits demo_bm demo_next 1 = 1"
    by (simp add: held_hits_def hit_block_def demo_next_facts demo_bm_def)
  ultimately show ?thesis
    using can_allocate_eq [OF inj_cls_wf demo_next_facts(1,2,4) bm_invD(2) [OF demo_bm_inv], of 0]
    by (simp add: bm_num_blocks_def demo_next_facts) (simp add: demo_bm_def)
qed

theorem admission_sound_witness:
  "okE (allocate demo_bm demo_next 1 0) (\<lambda>(bm', s'). length (block_table s') = 2 \<and> num_cached_tokens s' = 2 \<and>
     bm_inv inj_cls bm' {#holding_of s', holding_of demo_left, holding_of demo_right#})"
proof -
  have "bm_num_blocks demo_bm demo_next 0 = 2" by (simp add: bm_num_blocks_def demo_next_facts) (simp add: demo_bm_def)
  then show ?thesis
    using admission_sound [OF demo_bm_inv inj_cls_wf demo_next_facts(1,4,2,3) order_refl demo_can_allocate]
    by (auto elim!: okE_mono) (simp add: demo_bm_def)
qed

text \<open>
  C12: admission is exact.  \<open>can_allocate\<close> refuses precisely when the blocks that are neither
  cached nor free are too few: a sequence that reuses \<open>c\<close> cached blocks, of which some are in use
  already, needs the rest from the free queue.
\<close>

theorem admission_exact:
  assumes "cls_wf cls" "seq_wf cls s" "num_pending_tokens s = 0" "bm_for cls bm" "index_ok cls bm"
  shows "can_allocate cls bm s la = Inr
     (if bm_num_blocks bm s la \<le> int (length (free_block_queue bm)) + int (held_hits bm s (reusable_blocks cls bm s))
      then int (reusable_blocks cls bm s) else -1)"
  using can_allocate_eq [OF assms, of la] by (auto simp: Let_def)

theorem admission_exact_witness:
  "index_ok inj_cls demo_bm \<and> can_allocate inj_cls demo_bm demo_next 20 = Inr (-1)"
proof -
  have "bm_num_blocks demo_bm demo_next 20 = 12" by (simp add: bm_num_blocks_def demo_next_facts) (simp add: demo_bm_def)
  moreover have "held_hits demo_bm demo_next (reusable_blocks inj_cls demo_bm demo_next) \<le> 1"
  proof -
    have "reusable_blocks inj_cls demo_bm demo_next \<le> 1"
      using leading_hits_le [of inj_cls demo_bm demo_next 1]
      by (simp add: reusable_blocks_def num_blocks_def demo_next_facts inj_cls_def Let_def)
    then show ?thesis using length_filter_le [of _ "[0..<reusable_blocks inj_cls demo_bm demo_next]"]
      by (simp add: held_hits_def) (meson le_trans length_filter_le length_upt diff_le_self le_trans)
  qed
  moreover have "length (free_block_queue demo_bm) = 1" by (simp add: demo_bm_def)
  ultimately show ?thesis
    using admission_exact [OF inj_cls_wf demo_next_facts(1,2,4) bm_invD(2) [OF demo_bm_inv], of 20] bm_invD(2) [OF demo_bm_inv]
    by (simp split: if_splits)
qed

section \<open>Growth, release and publication\<close>

text \<open>
  C13: growth is safe.  When \<open>can_append\<close> says yes, \<open>may_append\<close> raises nothing, adds blocks
  taken from the front of the free queue until the table covers the tokens and the lookahead
  slots, and every block stays accounted for.
\<close>

theorem growth_safe:
  assumes "bm_inv cls bm (add_mset (holding_of s) M)" and "can_append bm s la"
  shows "okE (may_append bm s la) (\<lambda>(bm', s'). \<exists>new. s' = s\<lparr>block_table := block_table s @ new\<rparr> \<and>
     free_block_queue bm = new @ free_block_queue bm' \<and> bm_num_blocks bm s la \<le> int (length (block_table s')) \<and>
     bm_inv cls bm' (add_mset (holding_of s') M))"
  by (rule okE_mono [OF may_append_ok [OF assms]]) auto

theorem growth_safe_witness:
  "okE (may_append demo_bm demo_left 3) (\<lambda>(bm', s'). block_table s' = [0, 1, 3] \<and> free_block_queue bm' = [])"
proof -
  have b: "bm_num_blocks demo_bm demo_left 3 = 3"
    by (simp add: bm_num_blocks_def num_planned_tokens_def demo_left_def demo_base_facts) (simp add: demo_bm_def)
  have "can_append demo_bm demo_left 3"
    by (simp add: can_append_def num_missing_blocks_def b num_free_blocks_def py_len_def) (simp add: demo_bm_def demo_left_def)
  from growth_safe [OF demo_bm_inv this] show ?thesis
    by (rule okE_mono) (auto simp: b, auto simp: demo_bm_def demo_left_def Cons_eq_append_conv)
qed

text \<open>
  C14: nothing leaks.  When every sequence that holds blocks gives them back, in any order and
  whatever they shared, the free queue holds every block of the cache once and none is in use.
\<close>

theorem release_returns_all:
  assumes "bm_inv cls bm (mset (map holding_of ss))"
  shows "okE (foldE (\<lambda>s b. bindE (deallocate b s) (\<lambda>r. Inr (fst r))) ss bm) (\<lambda>bm'. bm_inv cls bm' {#} \<and>
     distinct (free_block_queue bm') \<and> set (free_block_queue bm') = {..<length (blocks bm)} \<and> used_block_ids bm' = {})"
  by (rule okE_mono [OF kv.release_all [where M = "{#}"]])
     (use assms in \<open>auto simp: bm_inv_def counts_ok_def same_config_def\<close>)

theorem release_returns_all_witness:
  "okE (foldE (\<lambda>s b. bindE (deallocate b s) (\<lambda>r. Inr (fst r))) [demo_right, demo_left] demo_bm) (\<lambda>bm'.
     set (free_block_queue bm') = {..<4} \<and> used_block_ids bm' = {})"
proof -
  have "bm_inv inj_cls demo_bm (mset (map holding_of [demo_right, demo_left]))"
    using demo_bm_inv by (simp add: add_mset_commute)
  from release_returns_all [OF this] show ?thesis by (rule okE_mono) (simp add: demo_bm_def)
qed

text \<open>
  Publishing is safe.  \<open>hash_blocks\<close> raises nothing on a sequence whose table covers the
  computed tokens, changes only its count of published blocks, and keeps the invariant: each
  newly published block carries the chain hash and the tokens of its position.
\<close>

lemma publish_safe:
  assumes "bm_inv cls bm (add_mset (holding_of s) M)" "cls_wf cls" "seq_wf cls s" "bm_for cls bm"
    and "min n (num_tokens s) \<le> int (length (block_table s)) * cls_block_size cls"
  shows "okE (hash_blocks cls bm s n) (\<lambda>(bm', s'). bm_inv cls bm' (add_mset (holding_of s') M) \<and>
     (\<exists>p. s' = s\<lparr>num_published_blocks := p\<rparr>) \<and> free_block_queue bm' = free_block_queue bm)"
  by (rule okE_mono [OF hash_blocks_ok [OF assms]]) auto

end
