(* ===== verification/Policy.thy ===== *)
theory Policy
  imports Sequences
begin

text \<open>
  The scheduling policies (engine/policy.py): the waiting queue and the choice of the
  running sequence that gives up its blocks.

  Sequences are named by their \<open>seq_id\<close>.  \<open>Fcfs\<close> keeps a deque; \<open>Priority\<close> keeps a binary
  heap of the tuples \<open>(priority, arrival_time, seq_id, seq)\<close>, worked on by heapq, whose
  algorithms (\<open>heappush\<close>, \<open>heappop\<close>, \<open>heapify\<close> over an array) are written out here as
  the standard library has them.  The tuples are ordered before the sequence itself is
  compared, because \<open>seq_id\<close> is unique.

  Shown here: the heap operations keep the heap property and the multiset of entries, so
  the front is a least entry; both policies satisfy one queue contract, the locale
  \<open>waiting_queue\<close>; and the victim is a least urgent running sequence.
\<close>

section \<open>heapq\<close>

function siftdown :: "'a::linorder list \<Rightarrow> nat \<Rightarrow> nat \<Rightarrow> 'a \<Rightarrow> 'a list" where
  "siftdown h startpos pos newitem =
     (if startpos < pos then
        let parentpos = (pos - 1) div 2; parent = h ! parentpos
        in if newitem < parent then siftdown (h[pos := parent]) startpos parentpos newitem
           else h[pos := newitem]
      else h[pos := newitem])"
  by pat_completeness auto
termination
  by (relation "measure (\<lambda>(h, startpos, pos, newitem). pos)") auto

function siftup_loop :: "'a::linorder list \<Rightarrow> nat \<Rightarrow> 'a list \<times> nat" where
  "siftup_loop h pos =
     (let childpos = 2 * pos + 1
      in if childpos < length h then
           let rightpos = childpos + 1;
               child = (if rightpos < length h \<and> \<not> h ! childpos < h ! rightpos then rightpos else childpos)
           in siftup_loop (h[pos := h ! child]) child
         else (h, pos))"
  by pat_completeness auto
termination
  by (relation "measure (\<lambda>(h, pos). length h - pos)") (auto simp: Let_def)

declare siftdown.simps [simp del] siftup_loop.simps [simp del]

definition siftup :: "'a::linorder list \<Rightarrow> nat \<Rightarrow> 'a list" where
  "siftup h startpos = (case siftup_loop h startpos of (h', pos) \<Rightarrow> siftdown h' startpos pos (h ! startpos))"

definition heappush :: "'a::linorder list \<Rightarrow> 'a \<Rightarrow> 'a list" where
  "heappush h x = siftdown (h @ [x]) 0 (length h) x"

definition heappop :: "'a::linorder list \<Rightarrow> ('a \<times> 'a list) res" where
  "heappop h = (if h = [] then Inl IndexError
     else let lastelt = last h; h' = butlast h
       in if h' = [] then Inr (lastelt, []) else Inr (h' ! 0, siftup (h'[0 := lastelt]) 0))"

definition heapify :: "'a::linorder list \<Rightarrow> 'a list" where
  "heapify h = foldl siftup h (rev [0..<length h div 2])"

section \<open>The policies\<close>

text \<open>The key of a heap entry: \<open>(priority, arrival_time, seq_id)\<close>, compared lexicographically.\<close>

datatype prio_key = PrioKey (key_priority: int) (key_arrival: rat) (key_seq: nat)

instantiation prio_key :: linorder
begin

definition less_eq_prio_key :: "prio_key \<Rightarrow> prio_key \<Rightarrow> bool" where
  "less_eq_prio_key a b \<longleftrightarrow> key_priority a < key_priority b \<or> key_priority a = key_priority b \<and>
     (key_arrival a < key_arrival b \<or> key_arrival a = key_arrival b \<and> key_seq a \<le> key_seq b)"

definition less_prio_key :: "prio_key \<Rightarrow> prio_key \<Rightarrow> bool" where
  "less_prio_key a b \<longleftrightarrow> key_priority a < key_priority b \<or> key_priority a = key_priority b \<and>
     (key_arrival a < key_arrival b \<or> key_arrival a = key_arrival b \<and> key_seq a < key_seq b)"

instance
  by standard (auto simp: less_eq_prio_key_def less_prio_key_def intro: prio_key.expand)

end

definition seq_key :: "sequence \<Rightarrow> prio_key" where
  "seq_key s = PrioKey (priority s) (arrival_time s) (seq_id s)"

datatype waiting = Fcfs "nat list" | Priority "prio_key list"

definition policy_create :: "string \<Rightarrow> waiting res" where
  "policy_create name = (if name = ''fcfs'' then Inr (Fcfs []) else if name = ''priority'' then Inr (Priority [])
     else Inl ValueError)"

text \<open>Operations that build a heap entry take the sequence's key; its \<open>key_seq\<close> names the sequence.\<close>

fun w_add :: "prio_key \<Rightarrow> waiting \<Rightarrow> waiting" where
  "w_add k (Fcfs q) = Fcfs (q @ [key_seq k])"
| "w_add k (Priority h) = Priority (heappush h k)"

fun w_requeue :: "prio_key \<Rightarrow> waiting \<Rightarrow> waiting" where
  "w_requeue k (Fcfs q) = Fcfs (key_seq k # q)"
| "w_requeue k (Priority h) = Priority (heappush h k)"

fun w_peek :: "waiting \<Rightarrow> nat res" where
  "w_peek (Fcfs q) = py_get q 0"
| "w_peek (Priority h) = bindE (py_get h 0) (\<lambda>k. Inr (key_seq k))"

fun w_pop :: "waiting \<Rightarrow> (nat \<times> waiting) res" where
  "w_pop (Fcfs q) = (case q of [] \<Rightarrow> Inl IndexError | i # q' \<Rightarrow> Inr (i, Fcfs q'))"
| "w_pop (Priority h) = bindE (heappop h) (\<lambda>(k, h'). Inr (key_seq k, Priority h'))"

fun w_remove :: "prio_key \<Rightarrow> waiting \<Rightarrow> waiting res" where
  "w_remove k (Fcfs q) = (if key_seq k \<in> set q then Inr (Fcfs (remove1 (key_seq k) q)) else Inl ValueError)"
| "w_remove k (Priority h) = (if k \<in> set h then Inr (Priority (heapify (remove1 k h))) else Inl ValueError)"

fun w_len :: "waiting \<Rightarrow> int" where
  "w_len (Fcfs q) = py_len q"
| "w_len (Priority h) = py_len h"

fun w_iter :: "waiting \<Rightarrow> nat list" where
  "w_iter (Fcfs q) = q"
| "w_iter (Priority h) = map key_seq h"

definition w_contains :: "nat \<Rightarrow> waiting \<Rightarrow> bool" where
  "w_contains i w \<longleftrightarrow> i \<in> set (w_iter w)"

text \<open>\<open>_urgency\<close>, compared as a pair.\<close>

definition urgency_less :: "prio_key \<Rightarrow> prio_key \<Rightarrow> bool" where
  "urgency_less a b \<longleftrightarrow> key_priority a < key_priority b \<or>
     key_priority a = key_priority b \<and> key_arrival a < key_arrival b"

text \<open>\<open>max(running, key=...)\<close>: the first of the greatest.\<close>

fun max_by :: "('a \<Rightarrow> 'a \<Rightarrow> bool) \<Rightarrow> 'a \<Rightarrow> 'a list \<Rightarrow> 'a" where
  "max_by lt best [] = best"
| "max_by lt best (x # xs) = max_by lt (if lt best x then x else best) xs"

fun w_victim :: "(nat \<Rightarrow> prio_key) \<Rightarrow> waiting \<Rightarrow> nat list \<Rightarrow> nat res" where
  "w_victim key (Fcfs q) running = py_get running (-1)"
| "w_victim key (Priority h) running =
     (case running of [] \<Rightarrow> Inl ValueError
      | x # xs \<Rightarrow> Inr (max_by (\<lambda>a b. urgency_less (key a) (key b)) x xs))"

text \<open>\<open>sorted(running, key=...)\<close> is stable: from the last to the first, each goes before the
  elements that are not less.\<close>

fun insert_by :: "('a \<Rightarrow> 'a \<Rightarrow> bool) \<Rightarrow> 'a \<Rightarrow> 'a list \<Rightarrow> 'a list" where
  "insert_by lt x [] = [x]"
| "insert_by lt x (y # ys) = (if lt y x then y # insert_by lt x ys else x # y # ys)"

definition sort_by :: "('a \<Rightarrow> 'a \<Rightarrow> bool) \<Rightarrow> 'a list \<Rightarrow> 'a list" where
  "sort_by lt xs = foldr (insert_by lt) xs []"

fun w_by_urgency :: "(nat \<Rightarrow> prio_key) \<Rightarrow> waiting \<Rightarrow> nat list \<Rightarrow> nat list" where
  "w_by_urgency key (Fcfs q) running = running"
| "w_by_urgency key (Priority h) running = sort_by (\<lambda>a b. urgency_less (key a) (key b)) running"

section \<open>Heap lemmas\<close>

abbreviation parent_pos :: "nat \<Rightarrow> nat" where
  "parent_pos i \<equiv> (i - 1) div 2"

text \<open>\<open>heap_from h a\<close>: every parent at or after \<open>a\<close> is below its children.\<close>

definition heap_from :: "'a::linorder list \<Rightarrow> nat \<Rightarrow> bool" where
  "heap_from h a \<longleftrightarrow> (\<forall>i. 0 < i \<longrightarrow> i < length h \<longrightarrow> a \<le> parent_pos i \<longrightarrow> h ! parent_pos i \<le> h ! i)"

lemma length_siftdown [simp]: "length (siftdown h a pos x) = length h"
proof (induction h a pos x rule: siftdown.induct)
  case (1 h a pos x)
  then show ?case by (subst siftdown.simps) (auto simp: Let_def)
qed

lemma mset_siftdown: "pos < length h \<Longrightarrow> mset (siftdown h a pos x) = mset (h[pos := x])"
proof (induction h a pos x rule: siftdown.induct)
  case (1 h a pos x)
  show ?case
  proof (cases "a < pos \<and> x < h ! parent_pos pos")
    case True
    let ?p = "parent_pos pos"
    have p: "?p < pos" "?p < length h" using True "1.prems" by auto
    have "mset (siftdown (h[pos := h ! ?p]) a ?p x) = mset ((h[pos := h ! ?p])[?p := x])"
      using "1.IH" [of ?p "h ! ?p"] True p by simp
    also have "(h[pos := h ! ?p])[?p := x] = (h[pos := x])[pos := (h[pos := x]) ! ?p, ?p := (h[pos := x]) ! pos]"
      using p "1.prems" by (simp add: list_update_swap)
    also have "mset \<dots> = mset (h[pos := x])"
      by (rule mset_swap) (use p "1.prems" in simp_all)
    finally show ?thesis using True by (simp add: siftdown.simps [of h a pos x] Let_def)
  next
    case False
    then show ?thesis by (auto simp: siftdown.simps [of h a pos x] Let_def)
  qed
qed

text \<open>The descendants of a position.\<close>

function desc :: "nat \<Rightarrow> nat \<Rightarrow> bool" where
  "desc a pos = (if a < pos then desc a (parent_pos pos) else pos = a)"
  by pat_completeness auto
termination
  by (relation "measure (\<lambda>(a, pos). pos)") auto

declare desc.simps [simp del]

lemma desc_refl [simp]: "desc a a"
  by (subst desc.simps) simp

lemma desc_le: "desc a pos \<Longrightarrow> a \<le> pos"
  by (subst (asm) desc.simps) (auto split: if_splits)

lemma desc_parent: "desc a pos \<Longrightarrow> a < pos \<Longrightarrow> desc a (parent_pos pos)"
  by (subst (asm) desc.simps) auto

lemma desc_child: "desc a pos \<Longrightarrow> pos < c \<Longrightarrow> parent_pos c = pos \<Longrightarrow> desc a c"
  using desc_le [of a pos] by (subst desc.simps) simp

lemma desc_0: "desc 0 pos"
  by (induction pos rule: less_induct) (subst desc.simps, auto)

text \<open>Sifting towards the root: only the edge above the hole may be broken, and the parent
  of the hole is below the hole's children.\<close>

definition hole_ok :: "'a::linorder list \<Rightarrow> nat \<Rightarrow> nat \<Rightarrow> bool" where
  "hole_ok g a pos \<longleftrightarrow>
     (\<forall>i. 0 < i \<longrightarrow> i < length g \<longrightarrow> a \<le> parent_pos i \<longrightarrow> i \<noteq> pos \<longrightarrow> g ! parent_pos i \<le> g ! i) \<and>
     (a < pos \<longrightarrow> (\<forall>i. 0 < i \<longrightarrow> i < length g \<longrightarrow> parent_pos i = pos \<longrightarrow> g ! parent_pos pos \<le> g ! i))"

lemma hole_ok_step:
  fixes h :: "'a::linorder list"
  assumes ok: "hole_ok (h[pos := x]) a pos" and pos: "a < pos" "pos < length h"
    and d: "desc a pos" and x: "x < h ! parent_pos pos"
  shows "hole_ok ((h[pos := h ! parent_pos pos])[parent_pos pos := x]) a (parent_pos pos)"
proof -
  let ?p = "parent_pos pos" and ?g = "h[pos := x]"
  let ?g' = "(h[pos := h ! ?p])[?p := x]"
  have p: "?p < pos" "a \<le> ?p" using pos desc_le [OF desc_parent [OF d]] by auto
  have g: "?g ! ?p = h ! ?p" "\<And>i. i \<noteq> pos \<Longrightarrow> ?g ! i = h ! i" using p by auto
  have g': "?g' ! ?p = x" "?g' ! pos = h ! ?p" "\<And>i. i \<noteq> pos \<Longrightarrow> i \<noteq> ?p \<Longrightarrow> ?g' ! i = h ! i"
    using p pos by auto
  have e: "?g ! parent_pos i \<le> ?g ! i" if "0 < i" "i < length h" "a \<le> parent_pos i" "i \<noteq> pos" for i
    using ok that by (simp add: hole_ok_def)
  have c: "h ! ?p \<le> ?g ! i" if "0 < i" "i < length h" "parent_pos i = pos" for i
    using ok that pos g(1) by (simp add: hole_ok_def)
  have lower: "h ! ?p \<le> ?g' ! i" if "0 < i" "i < length h" "parent_pos i = ?p" for i
  proof (cases "i = pos")
    case True then show ?thesis using g'(2) by simp
  next
    case False
    moreover have "i \<noteq> ?p" using that by linarith
    ultimately show ?thesis using e [of i] that p g g'(3) [of i] by auto
  qed
  have "?g' ! parent_pos i \<le> ?g' ! i" if i: "0 < i" "i < length h" "a \<le> parent_pos i" "i \<noteq> ?p" for i
  proof -
    consider "parent_pos i = ?p" | "parent_pos i = pos" | "parent_pos i \<noteq> ?p" "parent_pos i \<noteq> pos" by blast
    then show ?thesis
    proof cases
      case 1
      then show ?thesis using lower [of i] i x g'(1) by simp
    next
      case 2
      then have "i \<noteq> pos" using i(1) by linarith
      then show ?thesis using 2 c [of i] i g g' by simp
    next
      case 3
      then have "i \<noteq> pos" by auto
      then show ?thesis using 3 e [of i] i g g' by simp
    qed
  qed
  moreover have "?g' ! parent_pos ?p \<le> ?g' ! i" if "a < ?p" and i: "0 < i" "i < length h" "parent_pos i = ?p" for i
  proof -
    have "a \<le> parent_pos ?p" using desc_le [OF desc_parent [OF desc_parent [OF d pos(1)] that(1)]] .
    moreover have pp: "parent_pos ?p < ?p" "0 < ?p" using that(1) by linarith+
    ultimately have "?g ! parent_pos ?p \<le> ?g ! ?p" using e [of ?p] p(1) pos(2) by (metis less_imp_neq less_trans)
    moreover have "?g ! parent_pos ?p = h ! parent_pos ?p" using g(2) pp(1) p(1) by (metis less_trans nat_neq_iff)
    ultimately have "h ! parent_pos ?p \<le> h ! ?p" using g(1) by metis
    moreover have "?g' ! parent_pos ?p = h ! parent_pos ?p" using g'(3) pp(1) p(1) by (metis less_trans nat_neq_iff)
    ultimately show ?thesis using lower [OF i] by simp
  qed
  ultimately show ?thesis by (simp add: hole_ok_def)
qed

lemma heap_siftdown:
  "pos < length h \<Longrightarrow> desc a pos \<Longrightarrow> hole_ok (h[pos := x]) a pos \<Longrightarrow> heap_from (siftdown h a pos x) a"
proof (induction h a pos x rule: siftdown.induct)
  case (1 h a pos x)
  let ?p = "parent_pos pos"
  show ?case
  proof (cases "a < pos \<and> x < h ! ?p")
    case True
    have "?p < length (h[pos := h ! ?p])" using True "1.prems"(1) by simp
    moreover have "desc a ?p" using True "1.prems"(2) desc_parent by blast
    moreover have "hole_ok ((h[pos := h ! ?p])[?p := x]) a ?p"
      using True "1.prems" by (intro hole_ok_step) auto
    ultimately show ?thesis
      using "1.IH" [of ?p "h ! ?p"] True by (simp add: siftdown.simps [of h a pos x] Let_def)
  next
    case False
    have "(h[pos := x]) ! ?p \<le> (h[pos := x]) ! pos" if "0 < pos" "a \<le> ?p"
    proof -
      have "?p < pos" "a < pos" using that by auto
      then show ?thesis using False "1.prems"(1) by auto
    qed
    then have "heap_from (h[pos := x]) a"
      using "1.prems"(3) unfolding heap_from_def hole_ok_def by metis
    then show ?thesis using False by (auto simp: siftdown.simps [of h a pos x] Let_def)
  qed
qed

text \<open>Sifting towards the leaves: the smaller child moves up into the hole.\<close>

abbreviation least_child :: "'a::linorder list \<Rightarrow> nat \<Rightarrow> nat" where
  "least_child h pos \<equiv>
     (if 2 * pos + 2 < length h \<and> \<not> h ! (2 * pos + 1) < h ! (2 * pos + 2) then 2 * pos + 2 else 2 * pos + 1)"

lemma siftup_loop_leaf: "\<not> 2 * pos + 1 < length h \<Longrightarrow> siftup_loop h pos = (h, pos)"
  by (simp add: siftup_loop.simps [of h pos] Let_def)

lemma siftup_loop_step:
  "2 * pos + 1 < length h \<Longrightarrow>
     siftup_loop h pos = siftup_loop (h[pos := h ! least_child h pos]) (least_child h pos)"
  by (simp add: siftup_loop.simps [of h pos] Let_def)

lemma siftup_loop_rule:
  assumes "I h pos" and "length h = n"
    and "\<And>h pos. I h pos \<Longrightarrow> length h = n \<Longrightarrow> 2 * pos + 1 < n \<Longrightarrow> I (h[pos := h ! least_child h pos]) (least_child h pos)"
  shows "case siftup_loop h pos of (h', pos') \<Rightarrow> I h' pos' \<and> length h' = n \<and> n \<le> 2 * pos' + 1"
  using assms(1,2)
proof (induction "n - pos" arbitrary: h pos rule: less_induct)
  case less
  show ?case
  proof (cases "2 * pos + 1 < length h")
    case True
    let ?c = "least_child h pos"
    have "n - ?c < n - pos" using True less.prems by auto
    moreover have "I (h[pos := h ! ?c]) ?c" using assms(3) less.prems True by simp
    ultimately show ?thesis
      unfolding siftup_loop_step [OF True] using less.hyps [of ?c "h[pos := h ! ?c]"] less.prems(2) by simp
  next
    case False
    then show ?thesis using less.prems by (simp add: siftup_loop_leaf)
  qed
qed

lemma least_child_bounds:
  "2 * pos + 1 < length h \<Longrightarrow> least_child h pos < length h \<and> pos < least_child h pos \<and> parent_pos (least_child h pos) = pos"
  by auto

lemma least_child_le:
  assumes "0 < i" "i < length h" "parent_pos i = pos"
  shows "h ! least_child h pos \<le> h ! i"
proof -
  have "i = 2 * pos + 1 \<or> i = 2 * pos + 2" using assms(1,3) by linarith
  then show ?thesis using assms(2) by auto
qed

lemma siftup_step_mset:
  assumes "c < length h" "pos < c"
  shows "mset ((h[pos := h ! c])[c := x]) = mset (h[pos := x])"
proof -
  have "(h[pos := h ! c])[c := x] = (h[pos := x])[c := (h[pos := x]) ! pos, pos := (h[pos := x]) ! c]"
    using assms by (simp add: list_update_swap)
  also have "mset \<dots> = mset (h[pos := x])" by (rule mset_swap) (use assms in simp_all)
  finally show ?thesis .
qed

lemma heap_from_edge:
  "heap_from h a \<Longrightarrow> 0 < i \<Longrightarrow> i < length h \<Longrightarrow> parent_pos i = p \<Longrightarrow> a \<le> p \<Longrightarrow> h ! p \<le> h ! i"
  by (auto simp: heap_from_def)

lemma siftup_step_heap:
  fixes h :: "'a::linorder list"
  assumes h: "heap_from h (if pos = a then Suc a else a)" and d: "desc a pos" and c: "2 * pos + 1 < length h"
  shows "heap_from (h[pos := h ! least_child h pos]) a"
proof -
  let ?c = "least_child h pos"
  let ?g = "h[pos := h ! ?c]"
  note cb = least_child_bounds [OF c]
  have pos: "pos < length h" "a \<le> pos" using c desc_le [OF d] by auto
  have "?g ! parent_pos i \<le> ?g ! i" if i: "0 < i" "i < length h" "a \<le> parent_pos i" for i
  proof -
    have lt: "parent_pos i < i" using i(1) by linarith
    consider "parent_pos i = pos" | "i = pos" | "parent_pos i \<noteq> pos" "i \<noteq> pos" by blast
    then show ?thesis
    proof cases
      case 1
      then show ?thesis using least_child_le [OF i(1,2) 1] lt pos by simp
    next
      case 2
      then have "a < pos" using i lt by simp
      then have "h ! parent_pos pos \<le> h ! pos" using h i 2 by (auto simp: heap_from_def)
      also have "h ! pos \<le> h ! ?c" by (rule heap_from_edge [OF h]) (use cb pos \<open>a < pos\<close> in auto)
      finally show ?thesis using 2 lt pos by auto
    next
      case 3
      then have "h ! parent_pos i \<le> h ! i" using h i pos by (auto simp: heap_from_def)
      then show ?thesis using 3 by simp
    qed
  qed
  then show ?thesis by (simp add: heap_from_def)
qed

lemma heap_from_weaken: "heap_from h a \<Longrightarrow> a \<le> b \<Longrightarrow> heap_from h b"
  by (auto simp: heap_from_def)

lemma siftup_ok:
  fixes h :: "'a::linorder list"
  assumes "heap_from h (Suc a)" and "a < length h"
  shows "heap_from (siftup h a) a \<and> mset (siftup h a) = mset h"
proof -
  let ?x = "h ! a" and ?n = "length h"
  let ?I = "\<lambda>g pos. heap_from g (if pos = a then Suc a else a) \<and> desc a pos \<and> pos < ?n \<and> mset (g[pos := ?x]) = mset h"
  obtain g pos where g: "siftup_loop h a = (g, pos)" by force
  have "case siftup_loop h a of (g, pos) \<Rightarrow> ?I g pos \<and> length g = ?n \<and> ?n \<le> 2 * pos + 1"
  proof (rule siftup_loop_rule)
    fix g :: "'a list" and pos
    assume I: "?I g pos" and n: "length g = ?n" "2 * pos + 1 < ?n"
    let ?c = "least_child g pos"
    have cb: "?c < ?n \<and> pos < ?c \<and> parent_pos ?c = pos" using least_child_bounds [of pos g] n by simp
    have "heap_from (g[pos := g ! ?c]) a" using siftup_step_heap [of g pos a] I n by simp
    then have "heap_from (g[pos := g ! ?c]) (if ?c = a then Suc a else a)" by (auto intro: heap_from_weaken)
    moreover have "desc a ?c" using desc_child [of a pos ?c] I cb by blast
    moreover have "mset ((g[pos := g ! ?c])[?c := ?x]) = mset h"
      using siftup_step_mset [of ?c g pos ?x] cb I n by simp
    ultimately show "?I (g[pos := g ! ?c]) ?c" using cb by simp
  qed (use assms in simp_all)
  then have I: "?I g pos" and len: "length g = ?n" and leaf: "?n \<le> 2 * pos + 1" using g by auto
  have noch: "parent_pos i \<noteq> pos" if "i < ?n" "0 < i" for i using that leaf by linarith
  have "g ! parent_pos i \<le> g ! i" if "0 < i" "i < ?n" "a \<le> parent_pos i" for i
    by (rule heap_from_edge [of g "if pos = a then Suc a else a"])
      (use I that noch [OF that(2,1)] len in \<open>auto simp: Suc_le_eq le_less\<close>)
  then have "hole_ok (g[pos := ?x]) a pos"
    using noch len unfolding hole_ok_def by (metis length_list_update nth_list_update_neq)
  then show ?thesis using I len heap_siftdown [of pos g a ?x] by (simp add: siftup_def g mset_siftdown)
qed

lemma heap_least:
  assumes "heap_from h 0" and "i < length h"
  shows "h ! 0 \<le> h ! i"
  using assms(2)
proof (induction i rule: less_induct)
  case (less i)
  show ?case
  proof (cases "i = 0")
    case False
    then have p: "parent_pos i < i" by linarith
    then have "h ! 0 \<le> h ! parent_pos i" using less by simp
    also have "\<dots> \<le> h ! i" using assms(1) False less.prems by (simp add: heap_from_def)
    finally show ?thesis .
  qed simp
qed

lemma heap_front_least: "heap_from h 0 \<Longrightarrow> x \<in> set h \<Longrightarrow> h ! 0 \<le> x"
  by (metis heap_least in_set_conv_nth)

lemma heappush_ok:
  assumes "heap_from h 0"
  shows "heap_from (heappush h x) 0 \<and> mset (heappush h x) = add_mset x (mset h)"
proof -
  have "parent_pos i < length h" "i < length h" if "0 < i" "i < Suc (length h)" "i \<noteq> length h" for i using that by linarith+
  moreover have "parent_pos i \<noteq> length h" if "0 < i" "i < Suc (length h)" for i using that by linarith
  ultimately have "hole_ok ((h @ [x])[length h := x]) 0 (length h)"
    using assms by (auto simp: hole_ok_def heap_from_def nth_append)
  then show ?thesis
    using heap_siftdown [of "length h" "h @ [x]" 0 x] by (simp add: heappush_def desc_0 mset_siftdown)
qed

lemma heapify_ok:
  fixes h :: "'a::linorder list"
  shows "heap_from (heapify h) 0 \<and> mset (heapify h) = mset h"
proof -
  have "heap_from (foldl siftup g (rev [0..<n])) 0 \<and> mset (foldl siftup g (rev [0..<n])) = mset g"
    if "heap_from g n" "n \<le> length g" for n and g :: "'a list"
    using that
  proof (induction n arbitrary: g)
    case (Suc n)
    have s: "heap_from (siftup g n) n" "mset (siftup g n) = mset g"
      using siftup_ok [of g n] Suc.prems by auto
    moreover have "n \<le> length (siftup g n)" using s(2) Suc.prems(2) by (metis Suc_leD size_mset)
    ultimately show ?case using Suc.IH [of "siftup g n"] by simp
  qed simp
  moreover have "heap_from h (length h div 2)"
  proof -
    have "\<not> length h div 2 \<le> parent_pos i" if "0 < i" "i < length h" for i using that by linarith
    then show ?thesis by (auto simp: heap_from_def)
  qed
  ultimately show ?thesis by (simp add: heapify_def)
qed

lemma heappop_ok:
  assumes "heap_from h 0" and "h \<noteq> []"
  shows "okE (heappop h) (\<lambda>(x, h'). x = h ! 0 \<and> heap_from h' 0 \<and> mset h = add_mset x (mset h'))"
proof (cases "butlast h = []")
  case True
  then obtain x where "h = [x]" using assms(2) by (cases h) (auto split: if_splits)
  then show ?thesis by (simp add: heappop_def heap_from_def Let_def)
next
  case False
  then obtain y ys x where h: "h = y # ys @ [x]"
    by (metis append_butlast_last_id append_Cons assms(2) butlast.simps(1) neq_Nil_conv)
  have "heap_from (x # ys) (Suc 0)"
  proof -
    have "(x # ys) ! parent_pos i \<le> (x # ys) ! i" if "0 < i" "i < Suc (length ys)" "Suc 0 \<le> parent_pos i" for i
    proof -
      have "parent_pos i < Suc (length ys)" using that by linarith
      moreover have "h ! parent_pos i \<le> h ! i"
        by (rule heap_from_edge [OF assms(1)]) (use that h in auto)
      moreover have "h ! j = (x # ys) ! j" if "0 < j" "j < Suc (length ys)" for j
        using that h by (cases j) (simp_all add: nth_append)
      ultimately show ?thesis using that by (metis Suc_le_eq)
    qed
    then show ?thesis by (simp add: heap_from_def)
  qed
  then have "heap_from (siftup (x # ys) 0) 0 \<and> mset (siftup (x # ys) 0) = mset (x # ys)"
    by (rule siftup_ok) simp
  then show ?thesis by (simp add: heappop_def h butlast_append)
qed

section \<open>The queue contract\<close>

text \<open>
  What the scheduler relies on: a queue holds a multiset of sequences, \<open>add\<close> and \<open>requeue\<close>
  put one in, \<open>pop\<close> takes out the one \<open>peek\<close> shows, \<open>remove\<close> takes out any member, and
  none of them raises where the scheduler calls it.
\<close>

locale waiting_queue =
  fixes inv :: "'q \<Rightarrow> bool" and ids :: "'q \<Rightarrow> nat multiset" and key :: "nat \<Rightarrow> prio_key"
    and add requeue :: "prio_key \<Rightarrow> 'q \<Rightarrow> 'q" and peek :: "'q \<Rightarrow> nat res" and pop :: "'q \<Rightarrow> (nat \<times> 'q) res"
    and remove :: "prio_key \<Rightarrow> 'q \<Rightarrow> 'q res" and len :: "'q \<Rightarrow> int"
  assumes add: "inv q \<Longrightarrow> key_seq (key i) = i \<Longrightarrow> inv (add (key i) q) \<and> ids (add (key i) q) = add_mset i (ids q)"
    and requeue: "inv q \<Longrightarrow> key_seq (key i) = i \<Longrightarrow>
      inv (requeue (key i) q) \<and> ids (requeue (key i) q) = add_mset i (ids q)"
    and pop: "inv q \<Longrightarrow> ids q \<noteq> {#} \<Longrightarrow>
      okE (pop q) (\<lambda>(i, q'). peek q = Inr i \<and> inv q' \<and> ids q = add_mset i (ids q'))"
    and remove: "inv q \<Longrightarrow> i \<in># ids q \<Longrightarrow> okE (remove (key i) q) (\<lambda>q'. inv q' \<and> ids q = add_mset i (ids q'))"
    and len: "len q = int (size (ids q))"
begin

lemma len_pos: "0 < len q \<longleftrightarrow> ids q \<noteq> {#}"
  by (simp add: len nonempty_has_size)

lemma peek_ok: "inv q \<Longrightarrow> ids q \<noteq> {#} \<Longrightarrow> okE (peek q) (\<lambda>i. i \<in># ids q)"
  using pop [of q] by (auto simp: okE_iff)

lemma pop_shrinks: "inv q \<Longrightarrow> pop q = Inr (i, q') \<Longrightarrow> ids q \<noteq> {#} \<Longrightarrow> len q' = len q - 1"
  using pop [of q] by (simp add: len)

text \<open>Emptying the queue returns every member once.\<close>

fun drain :: "nat \<Rightarrow> 'q \<Rightarrow> nat list res" where
  "drain 0 q = Inr []"
| "drain (Suc n) q = bindE (pop q) (\<lambda>(i, q'). bindE (drain n q') (\<lambda>is. Inr (i # is)))"

lemma drain_all: "inv q \<Longrightarrow> okE (drain (size (ids q)) q) (\<lambda>is. mset is = ids q)"
proof (induction "size (ids q)" arbitrary: q)
  case (Suc n)
  then have "ids q \<noteq> {#}" by auto
  from pop [OF Suc.prems this] obtain i q' where p: "pop q = Inr (i, q')" "inv q'" "ids q = add_mset i (ids q')"
    by (auto simp: okE_iff)
  then have n: "n = size (ids q')" using Suc.hyps(2) by simp
  from Suc.hyps(1) [OF n p(2)] obtain xs where "drain (size (ids q')) q' = Inr xs" "mset xs = ids q'"
    by (auto simp: okE_iff n)
  then show ?case using p by simp
qed simp

end

fun w_inv :: "(nat \<Rightarrow> prio_key) \<Rightarrow> waiting \<Rightarrow> bool" where
  "w_inv key (Fcfs q) = (\<forall>i\<in>set q. key_seq (key i) = i)"
| "w_inv key (Priority h) = (heap_from h 0 \<and> (\<forall>k\<in>set h. key (key_seq k) = k))"

abbreviation w_ids :: "waiting \<Rightarrow> nat multiset" where
  "w_ids w \<equiv> mset (w_iter w)"

lemma set_eq_of_mset: "mset xs = add_mset x (mset ys) \<Longrightarrow> set xs = insert x (set ys)"
  by (metis set_mset_add_mset_insert set_mset_mset)

interpretation wq: waiting_queue "w_inv key" w_ids key w_add w_requeue w_peek w_pop w_remove w_len for key
proof unfold_locales
  fix q i
  assume inv: "w_inv key q" and i: "key_seq (key i) = i"
  show "w_inv key (w_add (key i) q) \<and> w_ids (w_add (key i) q) = add_mset i (w_ids q)"
  proof (cases q)
    case (Priority h)
    then show ?thesis using heappush_ok [of h "key i"] inv i set_eq_of_mset [of "heappush h (key i)" "key i" h]
      by (auto simp flip: mset_map) (simp add: mset_map)
  qed (use inv i in auto)
  show "w_inv key (w_requeue (key i) q) \<and> w_ids (w_requeue (key i) q) = add_mset i (w_ids q)"
  proof (cases q)
    case (Priority h)
    then show ?thesis using heappush_ok [of h "key i"] inv i set_eq_of_mset [of "heappush h (key i)" "key i" h]
      by (auto simp flip: mset_map) (simp add: mset_map)
  qed (use inv i in auto)
next
  fix q
  assume inv: "w_inv key q" and ne: "w_ids q \<noteq> {#}"
  show "okE (w_pop q) (\<lambda>(i, q'). w_peek q = Inr i \<and> w_inv key q' \<and> w_ids q = add_mset i (w_ids q'))"
  proof (cases q)
    case (Fcfs xs)
    then show ?thesis using inv ne by (cases xs) (auto simp: py_get_def)
  next
    case (Priority h)
    then obtain k h' where "heappop h = Inr (k, h')" "k = h ! 0" "heap_from h' 0" "mset h = add_mset k (mset h')"
      using heappop_ok [of h] inv ne by (auto simp: okE_iff)
    then show ?thesis using Priority inv ne set_eq_of_mset [of h k h'] by (auto simp: py_get_def)
  qed
next
  fix q i
  assume inv: "w_inv key q" and i: "i \<in># w_ids q"
  show "okE (w_remove (key i) q) (\<lambda>q'. w_inv key q' \<and> w_ids q = add_mset i (w_ids q'))"
  proof (cases q)
    case (Fcfs xs)
    then show ?thesis using inv i set_remove1_subset by fastforce
  next
    case (Priority h)
    then have k: "key i \<in> set h" "key_seq (key i) = i" using inv i by auto
    then have "mset h = add_mset (key i) (mset (heapify (remove1 (key i) h)))"
      using heapify_ok [of "remove1 (key i) h"] by simp
    from arg_cong [OF this, of "image_mset key_seq"] set_eq_of_mset [OF this] show ?thesis
      using Priority inv k heapify_ok [of "remove1 (key i) h"] by (simp del: mset_remove1)
  qed
next
  fix q
  show "w_len q = int (size (w_ids q))" by (cases q) (auto simp: py_len_def)
qed

lemma w_inv_cong: "(\<And>i. i \<in> set (w_iter w) \<Longrightarrow> key i = key' i) \<Longrightarrow> w_inv key w = w_inv key' w"
  by (cases w) auto

section \<open>Order\<close>

text \<open>The priority queue hands out a sequence of the least \<open>(priority, arrival_time, seq_id)\<close>.\<close>

lemma w_pop_least:
  assumes "w_inv key (Priority h)" and "w_pop (Priority h) = Inr (i, w)" and "j \<in> set (w_iter (Priority h))"
  shows "key i \<le> key j"
proof -
  have "h \<noteq> []" using assms(3) by auto
  then obtain k h' where p: "heappop h = Inr (k, h')" "k = h ! 0"
    using heappop_ok [of h] assms(1) by (auto simp: okE_iff)
  obtain k' where k': "k' \<in> set h" "key_seq k' = j" using assms(3) by auto
  have "h ! 0 \<le> k'" using heap_front_least assms(1) k' by auto
  moreover have "key i = h ! 0" using assms(1,2) p \<open>h \<noteq> []\<close> by auto
  moreover have "key j = k'" using assms(1) k' by auto
  ultimately show ?thesis by simp
qed

lemma max_by_greatest:
  assumes tr: "\<And>x y z. \<not> lt x y \<Longrightarrow> \<not> lt y z \<Longrightarrow> \<not> lt x z" and ir: "\<And>x. \<not> lt x x"
    and as: "\<And>x y. lt x y \<Longrightarrow> \<not> lt y x"
  shows "max_by lt b xs \<in> insert b (set xs) \<and> (\<forall>x\<in>insert b (set xs). \<not> lt (max_by lt b xs) x)"
proof (induction xs arbitrary: b)
  case (Cons x xs)
  let ?b = "if lt b x then x else b"
  have IH: "max_by lt ?b xs \<in> insert ?b (set xs)" "\<forall>y\<in>insert ?b (set xs). \<not> lt (max_by lt ?b xs) y"
    using Cons.IH [of ?b] by blast+
  have "\<not> lt ?b b" "\<not> lt ?b x" using ir as by auto
  then have "\<not> lt (max_by lt ?b xs) b" "\<not> lt (max_by lt ?b xs) x" using IH(2) tr by blast+
  then show ?case using IH by (auto split: if_splits)
qed (use ir in simp)

lemma max_by_urgency:
  "max_by (\<lambda>a b. urgency_less (key a) (key b)) x xs \<in> insert x (set xs) \<and>
   (\<forall>y\<in>insert x (set xs). \<not> urgency_less (key (max_by (\<lambda>a b. urgency_less (key a) (key b)) x xs)) (key y))"
  by (rule max_by_greatest) (auto simp: urgency_less_def)

lemma w_victim_mem: "running \<noteq> [] \<Longrightarrow> okE (w_victim key w running) (\<lambda>v. v \<in> set running)"
proof (cases w)
  case (Priority h)
  assume "running \<noteq> []"
  then obtain x xs where "running = x # xs" by (cases running) auto
  then show ?thesis using Priority max_by_urgency [of key x xs] by simp
qed (simp add: py_get_last)

lemma w_victim_least_urgent:
  assumes "w_victim key (Priority h) running = Inr v" and "j \<in> set running"
  shows "\<not> urgency_less (key v) (key j)"
proof -
  obtain x xs where "running = x # xs" using assms(2) by (cases running) auto
  then show ?thesis using assms max_by_urgency [of key x xs] by auto
qed

lemma mset_insert_by: "mset (insert_by lt x ys) = add_mset x (mset ys)"
  by (induction ys) auto

lemma mset_sort_by: "mset (sort_by lt xs) = mset xs"
  by (induction xs) (auto simp: sort_by_def mset_insert_by)

lemma set_insert_by: "set (insert_by lt x ys) = insert x (set ys)"
  by (induction ys) auto

lemma sorted_sort_by:
  assumes "\<And>x y z. \<not> lt x y \<Longrightarrow> \<not> lt y z \<Longrightarrow> \<not> lt x z" and "\<And>x y. lt x y \<Longrightarrow> \<not> lt y x"
  shows "sorted_wrt (\<lambda>x y. \<not> lt y x) (sort_by lt xs)"
proof -
  have ins: "sorted_wrt (\<lambda>x y. \<not> lt y x) (insert_by lt x ys)" if "sorted_wrt (\<lambda>x y. \<not> lt y x) ys" for x ys
    using that
  proof (induction ys)
    case (Cons y ys)
    show ?case
    proof (cases "lt y x")
      case True
      then show ?thesis using Cons assms(2) by (simp add: set_insert_by)
    next
      case False
      moreover have "\<forall>z\<in>set ys. \<not> lt z x" using Cons.prems False assms(1) by (meson sorted_wrt.simps(2))
      ultimately show ?thesis using Cons.prems by simp
    qed
  qed simp
  show ?thesis by (induction xs) (auto simp: sort_by_def ins)
qed

lemma w_by_urgency_mset: "mset (w_by_urgency key w running) = mset running"
  by (cases w) (auto simp: mset_sort_by)

lemma w_by_urgency_sorted:
  "sorted_wrt (\<lambda>i j. \<not> urgency_less (key j) (key i)) (w_by_urgency key (Priority h) running)"
  unfolding w_by_urgency.simps by (rule sorted_sort_by) (auto simp: urgency_less_def)

section \<open>Properties\<close>



text \<open>
  The preemption victim under the priority policy is a running sequence that no running
  one is less urgent than: what gives up its blocks is never ahead of what keeps them.
\<close>

lemma priority_victim_least_urgent:
  assumes "running \<noteq> []"
  shows "okE (w_victim key (Priority h) running) (\<lambda>v. v \<in> set running \<and>
     (\<forall>j \<in> set running. \<not> urgency_less (key v) (key j)))"
  using w_victim_mem [OF assms, of key "Priority h"]
  by (rule okE_mono) (use w_victim_least_urgent [of key h running] in auto)

end
