(* ===== verification/Kv_Transfer.thy ===== *)
theory Kv_Transfer
  imports Sequences
begin

text \<open>
  Disaggregated prefill, the engine's side (kv_transfer/base.py, kv_transfer/__init__.py and
  the scheduler half of kv_transfer/nixl_connector.py).

  A request carries \<open>kv_transfer_params\<close>, a JSON object: a \<open>(string, json) dict\<close>.  The
  scheduler half of the connector is the record \<open>nixl_scheduler\<close>; its methods return the
  sequence when they change its parameters.  Python sets of request ids are lists without
  duplicates in some order, so what is shown holds for every iteration order.  pydantic's
  validation of the wire object is a parameter.

  Shown here: a completed transfer is reported exactly once every \<open>world_size\<close> rank reports,
  a load fails as soon as one rank's does, the parameter check refuses what the engine cannot
  honour, and each step's metadata is handed over once.
\<close>

section \<open>Configuration\<close>

datatype kv_role = Kv_Producer | Kv_Consumer | Kv_Both

record kv_transfer_config =
  kv_connector :: string
  kv_role :: kv_role
  kv_ip :: string
  kv_port :: int
  engine_id :: string

definition is_producer :: "kv_transfer_config \<Rightarrow> bool" where
  "is_producer c \<longleftrightarrow> kv_role c \<in> {Kv_Producer, Kv_Both}"

definition is_consumer :: "kv_transfer_config \<Rightarrow> bool" where
  "is_consumer c \<longleftrightarrow> kv_role c \<in> {Kv_Consumer, Kv_Both}"

definition CONNECTORS :: "string list" where
  "CONNECTORS = [''NixlConnector'']"

text \<open>\<open>parse_kv_transfer_config\<close>, on what \<open>KVTransferConfig.parse\<close> (pydantic) returned.\<close>

definition parse_kv_transfer_config :: "kv_transfer_config res \<Rightarrow> kv_transfer_config res" where
  "parse_kv_transfer_config parsed = bindE parsed (\<lambda>c.
     if kv_connector c \<in> set CONNECTORS then Inr c else Inl ValueError)"

text \<open>What the validated object promises: the types of \<open>_RemotePrefill\<close>, checked strictly.\<close>

definition has_str :: "(string, json) dict \<Rightarrow> string \<Rightarrow> bool" where
  "has_str p k \<longleftrightarrow> (case map_of p k of Some (JStr _) \<Rightarrow> True | _ \<Rightarrow> False)"

definition has_int :: "(string, json) dict \<Rightarrow> string \<Rightarrow> bool" where
  "has_int p k \<longleftrightarrow> (case map_of p k of Some (JInt _) \<Rightarrow> True | _ \<Rightarrow> False)"

fun is_JInt :: "json \<Rightarrow> bool" where
  "is_JInt (JInt _) = True"
| "is_JInt _ = False"

definition remote_prefill :: "(string, json) dict \<Rightarrow> bool" where
  "remote_prefill p \<longleftrightarrow>
     (case map_of p ''remote_block_ids'' of Some (JList xs) \<Rightarrow> list_all is_JInt xs | _ \<Rightarrow> False) \<and>
     has_str p ''remote_request_id'' \<and> has_str p ''remote_engine_id'' \<and> has_str p ''remote_host'' \<and>
     has_int p ''remote_port'' \<and> (map_of p ''tp_size'' = None \<or> has_int p ''tp_size'')"

datatype kv_refusal =
    NotAnObject
  | NoKvTransferConfig
  | NeedsProducer
  | NeedsConsumer
  | NeedsField string

text \<open>
  \<open>check_kv_transfer_params\<close>: None when the engine can honour the request, else which of the
  messages it returns.  \<open>validate\<close> stands for \<open>_RemotePrefill.model_validate\<close>: the first
  validation error's text, if any.
\<close>

definition check_kv_transfer_params ::
  "((string, json) dict \<Rightarrow> string option) \<Rightarrow> json \<Rightarrow> kv_transfer_config option \<Rightarrow> kv_refusal option" where
  "check_kv_transfer_params validate params kv_transfer =
     (case params of
        JObj p \<Rightarrow>
          (case kv_transfer of
             None \<Rightarrow> Some NoKvTransferConfig
           | Some kv \<Rightarrow>
               if get_truthy p ''do_remote_decode'' \<and> \<not> is_producer kv then Some NeedsProducer
               else if get_truthy p ''do_remote_prefill'' then
                 (if \<not> is_consumer kv then Some NeedsConsumer else map_option NeedsField (validate p))
               else None)
      | _ \<Rightarrow> Some NotAnObject)"

section \<open>Messages\<close>

record req_to_recv =
  local_block_ids :: "nat list"
  remote_block_ids :: json
  remote_request_id :: json
  remote_engine_id :: json
  remote_host :: json
  remote_port :: json
  remote_tp_size :: json

record kv_connector_metadata =
  reqs_to_recv :: "(string, req_to_recv) dict"
  reqs_to_send :: "(string, nat list) dict"

definition metadata_bool :: "kv_connector_metadata \<Rightarrow> bool" where
  "metadata_bool m \<longleftrightarrow> reqs_to_recv m \<noteq> [] \<or> reqs_to_send m \<noteq> []"

record kv_transfer_stats =
  seconds :: rat
  num_bytes :: int

definition stats_merge :: "kv_transfer_stats \<Rightarrow> kv_transfer_stats \<Rightarrow> kv_transfer_stats" where
  "stats_merge a b = \<lparr>seconds = max (seconds a) (seconds b), num_bytes = num_bytes a + num_bytes b\<rparr>"

record kv_connector_output =
  finished_sending :: "string list"
  finished_recving :: "string list"
  failed_recving :: "string list"
  expired_sending :: "string list"
  recv_stats :: "(string, kv_transfer_stats) dict"

definition empty_output :: kv_connector_output where
  "empty_output = \<lparr>finished_sending = [], finished_recving = [], failed_recving = [], expired_sending = [], recv_stats = []\<rparr>"

definition kv_output_bool :: "kv_connector_output \<Rightarrow> bool" where
  "kv_output_bool r \<longleftrightarrow> finished_sending r \<noteq> [] \<or> finished_recving r \<noteq> [] \<or> failed_recving r \<noteq> []"

text \<open>Sets as lists: \<open>add\<close> and union.\<close>

definition set_add :: "'a \<Rightarrow> 'a list \<Rightarrow> 'a list" where
  "set_add x xs = (if x \<in> set xs then xs else xs @ [x])"

definition set_union :: "'a list \<Rightarrow> 'a list \<Rightarrow> 'a list" where
  "set_union xs ys = xs @ filter (\<lambda>y. y \<notin> set xs) ys"

lemma set_set_add [simp]: "set (set_add x xs) = insert x (set xs)"
  by (auto simp: set_add_def)

lemma distinct_set_add [simp]: "distinct xs \<Longrightarrow> distinct (set_add x xs)"
  by (auto simp: set_add_def)

lemma set_set_union [simp]: "set (set_union xs ys) = set xs \<union> set ys"
  by (auto simp: set_union_def)

lemma distinct_set_union [simp]: "distinct xs \<Longrightarrow> distinct ys \<Longrightarrow> distinct (set_union xs ys)"
  by (auto simp: set_union_def)

section \<open>The output aggregator\<close>

record aggregator =
  world_size :: int
  ag_sent :: "(string, int) dict"
  ag_recved :: "(string, int) dict"
  ag_failed :: "string set"
  ag_expired :: "string set"
  ag_stats :: "(string, kv_transfer_stats) dict"

definition new_aggregator :: "int \<Rightarrow> aggregator" where
  "new_aggregator n = \<lparr>world_size = n, ag_sent = [], ag_recved = [], ag_failed = {}, ag_expired = {}, ag_stats = []\<rparr>"

text \<open>A \<open>Counter\<close> entry, 0 when absent.\<close>

definition counter_get :: "(string, int) dict \<Rightarrow> string \<Rightarrow> int" where
  "counter_get d k = (case map_of d k of None \<Rightarrow> 0 | Some n \<Rightarrow> n)"

definition note_stats :: "string \<times> kv_transfer_stats \<Rightarrow> aggregator \<Rightarrow> aggregator" where
  "note_stats = (\<lambda>(rid, stats) ag. ag\<lparr>ag_stats := dict_put (ag_stats ag) rid
     (case map_of (ag_stats ag) rid of None \<Rightarrow> stats | Some seen \<Rightarrow> stats_merge seen stats)\<rparr>)"

definition note_sent :: "string \<Rightarrow> aggregator \<times> kv_connector_output \<Rightarrow> aggregator \<times> kv_connector_output" where
  "note_sent rid = (\<lambda>(ag, res).
     let n = counter_get (ag_sent ag) rid + 1
     in if n = world_size ag then
          let ag' = ag\<lparr>ag_sent := dict_del (ag_sent ag) rid\<rparr>;
              res' = res\<lparr>finished_sending := set_add rid (finished_sending res)\<rparr>
          in if rid \<in> ag_expired ag
             then (ag'\<lparr>ag_expired := ag_expired ag - {rid}\<rparr>, res'\<lparr>expired_sending := set_add rid (expired_sending res)\<rparr>)
             else (ag', res')
        else (ag\<lparr>ag_sent := dict_put (ag_sent ag) rid n\<rparr>, res))"

definition note_recved :: "string \<Rightarrow> aggregator \<times> kv_connector_output \<Rightarrow> aggregator \<times> kv_connector_output" where
  "note_recved rid = (\<lambda>(ag, res).
     let n = counter_get (ag_recved ag) rid + 1
     in if n = world_size ag then
          let ag' = ag\<lparr>ag_recved := dict_del (ag_recved ag) rid, ag_failed := ag_failed ag - {rid},
                      ag_stats := dict_del (ag_stats ag) rid\<rparr>
          in if rid \<in> ag_failed ag then (ag', res\<lparr>failed_recving := set_add rid (failed_recving res)\<rparr>)
             else (ag', res\<lparr>finished_recving := set_add rid (finished_recving res),
                           recv_stats := (case map_of (ag_stats ag) rid of None \<Rightarrow> recv_stats res
                                            | Some stats \<Rightarrow> dict_put (recv_stats res) rid stats)\<rparr>)
        else (ag\<lparr>ag_recved := dict_put (ag_recved ag) rid n\<rparr>, res))"

definition aggregate_one ::
  "kv_connector_output \<Rightarrow> aggregator \<times> kv_connector_output \<Rightarrow> aggregator \<times> kv_connector_output" where
  "aggregate_one out = (\<lambda>(ag, res).
     let ag1 = ag\<lparr>ag_failed := ag_failed ag \<union> set (failed_recving out),
                 ag_expired := ag_expired ag \<union> set (expired_sending out)\<rparr>;
         ag2 = fold note_stats (recv_stats out) ag1
     in fold note_recved (set_union (finished_recving out) (failed_recving out))
          (fold note_sent (finished_sending out) (ag2, res)))"

definition aggregate :: "aggregator \<Rightarrow> kv_connector_output list \<Rightarrow> aggregator \<times> kv_connector_output" where
  "aggregate ag outputs = fold aggregate_one outputs (ag, empty_output)"

section \<open>The scheduler half of the connector\<close>

record nixl_scheduler =
  ns_kv_transfer :: kv_transfer_config
  ns_block_size :: int
  ns_tp_size :: int
  ns_reqs_to_recv :: "(string, req_to_recv) dict"
  ns_reqs_to_send :: "(string, nat list) dict"

definition new_nixl_scheduler :: "kv_transfer_config \<Rightarrow> int \<Rightarrow> int \<Rightarrow> nixl_scheduler" where
  "new_nixl_scheduler kv bs tp = \<lparr>ns_kv_transfer = kv, ns_block_size = bs, ns_tp_size = tp,
     ns_reqs_to_recv = [], ns_reqs_to_send = []\<rparr>"

text \<open>\<open>_cdiv\<close>: \<open>-(-a // b)\<close>.\<close>

definition cdiv :: "int \<Rightarrow> int \<Rightarrow> int" where
  "cdiv a b = - ((- a) div b)"

text \<open>\<open>len(x)\<close> and \<open>x[n:]\<close> of a JSON value.\<close>

fun json_len :: "json \<Rightarrow> int res" where
  "json_len (JList xs) = Inr (py_len xs)"
| "json_len (JStr s) = Inr (py_len s)"
| "json_len (JObj d) = Inr (py_len d)"
| "json_len _ = Inl TypeError"

fun json_slice_from :: "json \<Rightarrow> int \<Rightarrow> json res" where
  "json_slice_from (JList xs) n = Inr (JList (slice_from xs n))"
| "json_slice_from (JStr s) n = Inr (JStr (slice_from s n))"
| "json_slice_from _ n = Inl TypeError"

text \<open>\<open>not params or not params.get(key)\<close>, negated: the object is there and asks for it.\<close>

definition params_ask :: "(string, json) dict option \<Rightarrow> string \<Rightarrow> bool" where
  "params_ask params key \<longleftrightarrow> (case params of None \<Rightarrow> False | Some p \<Rightarrow> p \<noteq> [] \<and> get_truthy p key)"

definition the_params :: "sequence \<Rightarrow> (string, json) dict res" where
  "the_params s = (case kv_transfer_params s of None \<Rightarrow> Inl TypeError | Some p \<Rightarrow> Inr p)"

text \<open>\<open>params["do_remote_prefill"] = False\<close>\<close>

definition clear_remote_prefill :: "sequence \<Rightarrow> sequence" where
  "clear_remote_prefill s = s\<lparr>kv_transfer_params :=
     map_option (\<lambda>p. dict_put p ''do_remote_prefill'' (JBool False)) (kv_transfer_params s)\<rparr>"

definition get_num_new_matched_tokens ::
  "nixl_scheduler \<Rightarrow> sequence \<Rightarrow> int \<Rightarrow> (int \<times> bool \<times> sequence) res" where
  "get_num_new_matched_tokens ns s num_computed_tokens =
     (if \<not> params_ask (kv_transfer_params s) ''do_remote_prefill'' then Inr (0, False, s)
      else bindE (the_params s) (\<lambda>params.
           bindE (dict_get params ''remote_block_ids'') (\<lambda>ids.
           bindE (json_len ids) (\<lambda>n.
           if n \<noteq> cdiv (num_prompt_tokens s) (ns_block_size ns) then Inr (0, False, clear_remote_prefill s)
           else Inr (num_prompt_tokens s - num_computed_tokens, True, s)))))"

definition update_state_after_alloc ::
  "nixl_scheduler \<Rightarrow> sequence \<Rightarrow> int \<Rightarrow> (nixl_scheduler \<times> sequence) res" where
  "update_state_after_alloc ns s num_external_tokens =
     bindE (the_params s) (\<lambda>_.
     let s' = clear_remote_prefill s; num_local_blocks = num_cached_tokens s' div ns_block_size ns
     in bindE (the_params s') (\<lambda>params.
        bindE (dict_get params ''remote_block_ids'') (\<lambda>ids.
        bindE (json_slice_from ids num_local_blocks) (\<lambda>rest.
        bindE (dict_get params ''remote_request_id'') (\<lambda>rid.
        bindE (dict_get params ''remote_engine_id'') (\<lambda>eid.
        bindE (dict_get params ''remote_host'') (\<lambda>host.
        bindE (dict_get params ''remote_port'') (\<lambda>port.
        Inr (ns\<lparr>ns_reqs_to_recv := dict_put (ns_reqs_to_recv ns) (request_id s')
               \<lparr>local_block_ids = slice_from (block_table s') num_local_blocks, remote_block_ids = rest,
                remote_request_id = rid, remote_engine_id = eid, remote_host = host, remote_port = port,
                remote_tp_size = (case map_of params ''tp_size'' of None \<Rightarrow> JInt 1 | Some v \<Rightarrow> v)\<rparr>\<rparr>, s')))))))))"

definition build_connector_meta :: "nixl_scheduler \<Rightarrow> kv_connector_metadata \<times> nixl_scheduler" where
  "build_connector_meta ns =
     (\<lparr>reqs_to_recv = ns_reqs_to_recv ns, reqs_to_send = ns_reqs_to_send ns\<rparr>,
      ns\<lparr>ns_reqs_to_recv := [], ns_reqs_to_send := []\<rparr>)"

definition request_finished ::
  "nixl_scheduler \<Rightarrow> sequence \<Rightarrow> bool \<times> (string, json) dict option \<times> nixl_scheduler" where
  "request_finished ns s =
     (if \<not> params_ask (kv_transfer_params s) ''do_remote_decode'' \<or>
         finish_reason s \<notin> {Some ''length'', Some ''stop''} then (False, None, ns)
      else
        let block_ids = slice_to (block_table s) (cdiv (num_prompt_tokens s) (ns_block_size ns));
            kv = ns_kv_transfer ns
        in (True,
            Some [(''do_remote_prefill'', JBool True), (''do_remote_decode'', JBool False),
                  (''remote_request_id'', JStr (request_id s)), (''remote_engine_id'', JStr (engine_id kv)),
                  (''remote_block_ids'', JList (map (\<lambda>b. JInt (int b)) block_ids)),
                  (''remote_host'', JStr (kv_ip kv)), (''remote_port'', JInt (kv_port kv)),
                  (''tp_size'', JInt (ns_tp_size ns))],
            ns\<lparr>ns_reqs_to_send := dict_put (ns_reqs_to_send ns) (request_id s) block_ids\<rparr>))"

end
