(* ===== verification/Scheduler.thy ===== *)
theory Scheduler
  imports Block_Manager Policy Kv_Transfer
begin

text \<open>
  The scheduler (engine/scheduler.py): which sequences run in a step, with how many tokens.

  Python's \<open>Sequence\<close> objects are shared and mutable: the scheduler's queues and the rows of
  a launched step refer to the same objects.  The record \<open>scheduler\<close> keeps them in a store
  \<open>objs\<close> from \<open>seq_id\<close> to the object, and every queue holds ids.  \<open>perf_counter()\<close> reads the
  next value of \<open>clock\<close>.  A method is a function from the state to the new state, and a
  raise is \<open>Inl\<close>.
\<close>

section \<open>Data\<close>

record scheduler_output =
  scheduled :: "nat list"
  preempted :: "nat list"
  dropped :: "nat list"
  num_prefill_tokens :: int
  num_decode_tokens :: int
  num_queried_blocks :: int
  out_num_cached_blocks :: int
  kv_metadata :: "kv_connector_metadata option"

definition empty_scheduler_output :: scheduler_output where
  "empty_scheduler_output = \<lparr>scheduled = [], preempted = [], dropped = [], num_prefill_tokens = 0,
     num_decode_tokens = 0, num_queried_blocks = 0, out_num_cached_blocks = 0, kv_metadata = None\<rparr>"

definition output_bool :: "scheduler_output \<Rightarrow> bool" where
  "output_bool out \<longleftrightarrow> scheduled out \<noteq> []"

record launched_row =
  row_seq :: nat
  row_num_preemptions :: int
  row_num_draft_tokens :: int

record scheduler =
  max_num_seqs :: int
  max_num_batched_tokens :: int
  eos :: int
  sch_block_size :: int
  enable_chunked_prefill :: bool
  long_prefill_token_threshold :: int
  num_speculative_tokens :: int
  num_lookahead_tokens :: int
  block_mgr :: block_manager
  waiting :: Policy.waiting
  running :: "nat list"
  seqs :: "(string, nat) dict"
  connector :: "nixl_scheduler option"
  recving :: "(string, nat) dict"
  sending :: "(string, nat) dict"
  objs :: "nat \<Rightarrow> sequence"
  clock :: "nat \<Rightarrow> rat"
  ticks :: nat

definition perf_counter :: "scheduler \<Rightarrow> rat \<times> scheduler" where
  "perf_counter s = (clock s (ticks s), s\<lparr>ticks := Suc (ticks s)\<rparr>)"

definition put_seq :: "nat \<Rightarrow> sequence \<Rightarrow> scheduler \<Rightarrow> scheduler" where
  "put_seq i q s = s\<lparr>objs := (objs s)(i := q)\<rparr>"

definition upd_seq :: "nat \<Rightarrow> (sequence \<Rightarrow> sequence) \<Rightarrow> scheduler \<Rightarrow> scheduler" where
  "upd_seq i f s = put_seq i (f (objs s i)) s"

abbreviation key_of :: "scheduler \<Rightarrow> nat \<Rightarrow> prio_key" where
  "key_of s i \<equiv> seq_key (objs s i)"

text \<open>A method of the block manager called on a sequence: both may change.\<close>

definition with_bm ::
  "(block_manager \<Rightarrow> sequence \<Rightarrow> (block_manager \<times> sequence) res) \<Rightarrow> nat \<Rightarrow> scheduler \<Rightarrow> scheduler res" where
  "with_bm f i s = bindE (f (block_mgr s) (objs s i)) (\<lambda>(bm, q). Inr (put_seq i q (s\<lparr>block_mgr := bm\<rparr>)))"

text \<open>The parts of \<open>Config\<close> that \<open>Scheduler.__init__\<close> reads.\<close>

record scheduler_config =
  sc_max_num_seqs :: int
  sc_max_num_batched_tokens :: int
  sc_eos :: int
  sc_kvcache_block_size :: int
  sc_num_kvcache_blocks :: nat
  sc_enable_prefix_caching :: bool
  sc_enable_chunked_prefill :: bool
  sc_long_prefill_token_threshold :: int
  sc_num_speculative_tokens :: "int option"
  sc_scheduling_policy :: string
  sc_kv_transfer :: "kv_transfer_config option"
  sc_tensor_parallel_size :: int

definition new_scheduler :: "scheduler_config \<Rightarrow> (nat \<Rightarrow> sequence) \<Rightarrow> (nat \<Rightarrow> rat) \<Rightarrow> scheduler res" where
  "new_scheduler c ob clk =
     (let num_spec = (case sc_num_speculative_tokens c of None \<Rightarrow> 0 | Some n \<Rightarrow> n)
      in bindE (policy_create (sc_scheduling_policy c)) (\<lambda>w.
         Inr \<lparr>max_num_seqs = sc_max_num_seqs c,
              max_num_batched_tokens = sc_max_num_batched_tokens c,
              eos = sc_eos c,
              sch_block_size = sc_kvcache_block_size c,
              enable_chunked_prefill = sc_enable_chunked_prefill c,
              long_prefill_token_threshold = sc_long_prefill_token_threshold c,
              num_speculative_tokens = num_spec,
              num_lookahead_tokens = max (num_spec - 1) 0,
              block_mgr = new_block_manager (sc_num_kvcache_blocks c) (sc_kvcache_block_size c)
                 (sc_enable_prefix_caching c) (sc_num_speculative_tokens c \<noteq> None),
              waiting = w, running = [], seqs = [],
              connector = map_option (\<lambda>kv. new_nixl_scheduler kv (sc_kvcache_block_size c) (sc_tensor_parallel_size c))
                (sc_kv_transfer c),
              recving = [], sending = [], objs = ob, clock = clk, ticks = 0\<rparr>))"

section \<open>Operations\<close>

definition sch_is_finished :: "scheduler \<Rightarrow> bool" where
  "sch_is_finished s \<longleftrightarrow> w_len (waiting s) = 0 \<and> running s = [] \<and> recving s = [] \<and> sending s = []"

text \<open>\<open>add\<close>: the object enters the store under its id.\<close>

definition sch_add :: "sequence \<Rightarrow> scheduler \<Rightarrow> scheduler res" where
  "sch_add q s =
     (if request_id q \<in> dict_keys (seqs s) \<or> request_id q \<in> dict_keys (recving s) \<or> request_id q \<in> dict_keys (sending s)
      then Inl (DuplicateRequestId (request_id q))
      else let s' = put_seq (seq_id q) q s
           in Inr (s'\<lparr>seqs := dict_put (seqs s') (request_id q) (seq_id q),
                      waiting := w_add (key_of s' (seq_id q)) (waiting s')\<rparr>))"

definition finish :: "nat \<Rightarrow> string \<Rightarrow> scheduler \<Rightarrow> scheduler" where
  "finish i reason s =
     (let (now, s') = perf_counter s
      in upd_seq i (\<lambda>q. q\<lparr>status := FINISHED, finish_reason := Some reason, finish_time := Some now\<rparr>) s')"

definition drop_seq :: "nat \<Rightarrow> string \<Rightarrow> scheduler \<Rightarrow> scheduler res" where
  "drop_seq i reason s =
     (let s1 = upd_seq i drop_pending (finish i reason s); rid = request_id (objs s1 i)
      in if rid \<in> dict_keys (seqs s1) then Inr (s1\<lparr>seqs := dict_del (seqs s1) rid\<rparr>) else Inl KeyError)"

text \<open>\<open>_drop\<close> with an output to report it in.\<close>

definition drop_to :: "nat \<Rightarrow> string \<Rightarrow> scheduler_output \<Rightarrow> scheduler \<Rightarrow> (scheduler \<times> scheduler_output) res" where
  "drop_to i reason out s = bindE (drop_seq i reason s) (\<lambda>s'. Inr (s', out\<lparr>dropped := dropped out @ [i]\<rparr>))"

text \<open>\<open>_free\<close>\<close>

definition free_seq :: "nat \<Rightarrow> scheduler \<Rightarrow> scheduler res" where
  "free_seq i s =
     (case connector s of
        None \<Rightarrow> with_bm deallocate i s
      | Some ns \<Rightarrow>
          let (hold, result, ns') = request_finished ns (objs s i);
              s' = upd_seq i (\<lambda>q. q\<lparr>kv_transfer_result := result\<rparr>) (s\<lparr>connector := Some ns'\<rparr>)
          in if hold then Inr (s'\<lparr>sending := dict_put (sending s') (request_id (objs s' i)) i\<rparr>)
             else with_bm deallocate i s')"

definition running_remove :: "nat \<Rightarrow> scheduler \<Rightarrow> scheduler res" where
  "running_remove i s = (if i \<in> set (running s) then Inr (s\<lparr>running := remove1 i (running s)\<rparr>) else Inl ValueError)"

definition abort :: "string \<Rightarrow> string \<Rightarrow> scheduler \<Rightarrow> (scheduler \<times> bool) res" where
  "abort rid reason s =
     (case map_of (seqs s) rid of
        None \<Rightarrow> Inr (s, False)
      | Some i \<Rightarrow>
          let s1 = s\<lparr>seqs := dict_del (seqs s) rid\<rparr>
          in if status (objs s1 i) = WAITING_FOR_REMOTE_KVS then Inr (finish i reason s1, True)
             else bindE (if status (objs s1 i) = WAITING
                         then bindE (w_remove (key_of s1 i) (waiting s1)) (\<lambda>w. Inr (s1\<lparr>waiting := w\<rparr>))
                         else running_remove i s1) (\<lambda>s2.
                  bindE (free_seq i (finish i reason (upd_seq i drop_pending s2))) (\<lambda>s3. Inr (s3, True))))"

definition never_fits :: "scheduler \<Rightarrow> nat \<Rightarrow> bool" where
  "never_fits s i \<longleftrightarrow> py_len (blocks (block_mgr s)) < bm_num_blocks (block_mgr s) (objs s i) (num_lookahead_tokens s)"

definition loads_remotely :: "scheduler \<Rightarrow> nat \<Rightarrow> bool" where
  "loads_remotely s i \<longleftrightarrow> connector s \<noteq> None \<and> params_ask (kv_transfer_params (objs s i)) ''do_remote_prefill''"

text \<open>\<open>_schedule\<close>\<close>

definition schedule_tokens :: "scheduler \<Rightarrow> nat \<Rightarrow> int \<Rightarrow> int" where
  "schedule_tokens s i budget =
     (let q = objs s i;
          n = (if is_prefill q then min (num_tokens q - num_cached_tokens q) budget else 1 + py_len (spec_token_ids q))
      in if is_prefill q \<and> enable_chunked_prefill s \<and> long_prefill_token_threshold s \<noteq> 0
         then min n (long_prefill_token_threshold s) else n)"

definition schedule_seq ::
  "nat \<Rightarrow> int \<Rightarrow> scheduler_output \<Rightarrow> scheduler \<Rightarrow> int \<times> scheduler \<times> scheduler_output" where
  "schedule_seq i budget out s =
     (let n = schedule_tokens s i budget;
          s1 = upd_seq i (\<lambda>q. q\<lparr>num_scheduled_tokens := n\<rparr>) s;
          s2 = (if first_scheduled_time (objs s1 i) = None
                then let (now, s') = perf_counter s1 in upd_seq i (\<lambda>q. q\<lparr>first_scheduled_time := Some now\<rparr>) s'
                else s1);
          out1 = out\<lparr>scheduled := scheduled out @ [i]\<rparr>;
          out2 = (if is_prefill (objs s2 i) then out1\<lparr>num_prefill_tokens := num_prefill_tokens out1 + n\<rparr>
                  else out1\<lparr>num_decode_tokens := num_decode_tokens out1 + n\<rparr>)
      in (n, s2, out2))"

text \<open>
  \<open>_admit\<close>: the head of the waiting queue runs (\<open>admit_run\<close>), or waits for its blocks from
  elsewhere (\<open>admit_load\<close>).
\<close>

definition admit_run ::
  "nat \<Rightarrow> int \<Rightarrow> scheduler_output \<Rightarrow> scheduler \<Rightarrow> (int \<times> scheduler \<times> scheduler_output) res" where
  "admit_run i budget out s =
     (let (n, s', out') = schedule_seq i budget out (upd_seq i (\<lambda>q. q\<lparr>status := RUNNING\<rparr>) s)
      in Inr (n, s'\<lparr>running := running s' @ [i]\<rparr>, out'))"

definition admit_load ::
  "nat \<Rightarrow> int \<Rightarrow> bool \<Rightarrow> nixl_scheduler \<Rightarrow> scheduler_output \<Rightarrow> scheduler \<Rightarrow> (int \<times> scheduler \<times> scheduler_output) res" where
  "admit_load i num_external load_async ns out s =
     bindE (assertE load_async) (\<lambda>_.
     bindE (update_state_after_alloc ns (objs s i) num_external) (\<lambda>(ns', q').
     let s1 = upd_seq i (\<lambda>q. q\<lparr>status := WAITING_FOR_REMOTE_KVS\<rparr>) (put_seq i q' (s\<lparr>connector := Some ns'\<rparr>))
     in Inr (0, s1\<lparr>recving := dict_put (recving s1) (request_id (objs s1 i)) i\<rparr>, out)))"

definition admit ::
  "seq_class \<Rightarrow> nat \<Rightarrow> int \<Rightarrow> int \<Rightarrow> scheduler_output \<Rightarrow> scheduler \<Rightarrow> (int \<times> scheduler \<times> scheduler_output) res" where
  "admit cls i num_cached_blocks budget out s =
     bindE (w_pop (waiting s)) (\<lambda>(_, w).
     bindE (with_bm (\<lambda>bm q. allocate bm q num_cached_blocks (num_lookahead_tokens s)) i (s\<lparr>waiting := w\<rparr>)) (\<lambda>s1.
     let out1 = out\<lparr>num_queried_blocks := num_queried_blocks out + num_blocks cls (objs s1 i),
                    out_num_cached_blocks := out_num_cached_blocks out + num_cached_blocks\<rparr>
     in case connector s1 of
          None \<Rightarrow> admit_run i budget out1 s1
        | Some ns \<Rightarrow>
            bindE (get_num_new_matched_tokens ns (objs s1 i) (num_cached_tokens (objs s1 i))) (\<lambda>(num_external, load_async, q).
            if num_external \<noteq> 0 then admit_load i num_external load_async ns out1 (put_seq i q s1)
            else admit_run i budget out1 (put_seq i q s1))))"

definition preempt :: "nat \<Rightarrow> scheduler_output \<Rightarrow> scheduler \<Rightarrow> (scheduler \<times> scheduler_output) res" where
  "preempt i out s =
     bindE (with_bm deallocate i (upd_seq i (\<lambda>q. (drop_pending
        (q\<lparr>status := WAITING, is_prefill := True, num_preemptions := num_preemptions q + 1\<rparr>))\<lparr>spec_token_ids := []\<rparr>) s)) (\<lambda>s'.
     Inr (s'\<lparr>waiting := w_requeue (key_of s' i) (waiting s')\<rparr>, out\<lparr>preempted := preempted out @ [i]\<rparr>))"

lemma bindE_cong [fundef_cong]:
  "m = m' \<Longrightarrow> (\<And>x. m' = Inr x \<Longrightarrow> f x = g x) \<Longrightarrow> bindE m f = bindE m' g"
  by (cases m) auto

lemma with_bm_running: "with_bm f i s = Inr s' \<Longrightarrow> running s' = running s \<and> waiting s' = waiting s"
  by (auto simp: with_bm_def put_seq_def)

lemma preempt_running: "preempt i out s = Inr (s', out') \<Longrightarrow> running s' = running s"
  by (auto simp: preempt_def upd_seq_def put_seq_def dest!: with_bm_running)

text \<open>
  \<open>_make_room\<close>: the loop preempts one victim of the deque a turn; \<open>still_running\<close> is the list
  of those served or left aside, and the answer says whether the sequence still runs.
\<close>

function make_room ::
  "nat \<Rightarrow> int \<Rightarrow> nat list \<Rightarrow> scheduler_output \<Rightarrow> scheduler \<Rightarrow> (bool \<times> nat list \<times> scheduler \<times> scheduler_output) res" where
  "make_room i num_lookahead still out s =
     (if can_append (block_mgr s) (objs s i) num_lookahead then Inr (True, still, s, out)
      else if running s \<noteq> [] then
        bindE (w_victim (key_of s) (waiting s) (running s)) (\<lambda>victim.
        bindE (running_remove victim s) (\<lambda>s1.
        bindE (preempt victim out s1) (\<lambda>(s2, out2). make_room i num_lookahead still out2 s2)))
      else if still \<noteq> [] \<or> scheduled out \<noteq> [] then
        bindE (preempt i out s) (\<lambda>(s1, out1). Inr (False, still, s1, out1))
      else if num_pending_tokens (objs s i) \<noteq> 0 then Inr (False, still @ [i], s, out)
      else if recving s \<noteq> [] \<or> sending s \<noteq> [] then Inr (False, still @ [i], s, out)
      else
        bindE (with_bm deallocate i s) (\<lambda>s1.
        bindE (drop_to i ''capacity'' out s1) (\<lambda>(s2, out2). Inr (False, still, s2, out2))))"
  by pat_completeness auto
termination
proof (relation "measure (\<lambda>(i, la, still, out, s). length (running s))", goal_cases)
  case (2 i la still out s v s1 x s2 out2)
  then have "running s2 = remove1 v (running s)" "v \<in> set (running s)"
    by (auto simp: running_remove_def dest!: preempt_running split: if_splits)
  then show ?case using length_pos_if_in_set [of v "running s"] by (auto simp: length_remove1)
qed simp

declare make_room.simps [simp del]

lemma make_room_running: "make_room i la still out s = Inr (b, still', s', out') \<Longrightarrow> length (running s') \<le> length (running s)"
proof (induction i la still out s arbitrary: b still' s' out' rule: make_room.induct)
  case (1 i la still out s)
  show ?case
  proof (cases "can_append (block_mgr s) (objs s i) la \<or> running s = []")
    case True
    with "1.prems" show ?thesis
      by (subst (asm) make_room.simps)
         (auto simp: drop_to_def drop_seq_def finish_def perf_counter_def upd_seq_def put_seq_def Let_def
           split: if_splits dest!: preempt_running with_bm_running)
  next
    case False
    with "1.prems" obtain v s1 s2 out2 where v: "w_victim (key_of s) (waiting s) (running s) = Inr v"
      and s1: "running_remove v s = Inr s1" and s2: "preempt v out s1 = Inr (s2, out2)"
      and rest: "make_room i la still out2 s2 = Inr (b, still', s', out')"
      by (subst (asm) make_room.simps) auto
    have "running s2 = remove1 v (running s)"
      using s1 preempt_running [OF s2] by (auto simp: running_remove_def split: if_splits)
    moreover have "length (running s') \<le> length (running s2)"
      using "1.IH" [OF _ _ v s1 s2 refl rest] False by simp
    ultimately show ?thesis by (simp add: length_remove1 split: if_splits)
  qed
qed

text \<open>The loop of \<open>schedule\<close> over the running sequences: one turn, and the loop.\<close>

definition serve ::
  "nat \<Rightarrow> int \<Rightarrow> nat list \<Rightarrow> scheduler_output \<Rightarrow> scheduler \<Rightarrow> (int \<times> nat list \<times> scheduler \<times> scheduler_output) res" where
  "serve i budget still out s =
     (let (n, s', out') = schedule_seq i budget out s in Inr (budget - n, still @ [i], s', out'))"

definition drafts_to_keep :: "int \<Rightarrow> sequence \<Rightarrow> int" where
  "drafts_to_keep budget q =
     (let num_left = max_tokens q - (num_planned_tokens q - num_prompt_tokens q);
          step_limit = min budget num_left
      in max (step_limit - 1) 0)"

definition trim_drafts :: "int \<Rightarrow> sequence \<Rightarrow> sequence" where
  "trim_drafts budget q = q\<lparr>spec_token_ids := slice_to (spec_token_ids q) (drafts_to_keep budget q)\<rparr>"

definition run_one ::
  "nat \<Rightarrow> int \<Rightarrow> nat list \<Rightarrow> scheduler_output \<Rightarrow> scheduler \<Rightarrow> (int \<times> nat list \<times> scheduler \<times> scheduler_output) res" where
  "run_one i budget still out s =
     (let q = objs s i
      in if budget \<le> 0 \<or> max_num_seqs s \<le> py_len (scheduled out) then Inr (budget, still @ [i], s, out)
         else if max_tokens q \<le> num_planned_tokens q - num_prompt_tokens q then Inr (budget, still @ [i], s, out)
         else if \<not> is_prefill q then
           let s1 = upd_seq i (trim_drafts budget) s;
               num_lookahead = py_len (spec_token_ids (objs s1 i)) + num_lookahead_tokens s1
           in bindE (make_room i num_lookahead still out s1) (\<lambda>(ok, still2, s2, out2).
              if \<not> ok then Inr (budget, still2, s2, out2)
              else bindE (with_bm (\<lambda>bm q. may_append bm q num_lookahead) i s2) (serve i budget still2 out2))
         else serve i budget still out s)"

lemma schedule_seq_running: "schedule_seq i budget out s = (n, s', out') \<Longrightarrow> running s' = running s \<and> waiting s' = waiting s"
  by (auto simp: schedule_seq_def Let_def upd_seq_def put_seq_def perf_counter_def split: if_splits)

lemma upd_seq_queues [simp]: "running (upd_seq i f s) = running s" "waiting (upd_seq i f s) = waiting s"
  by (simp_all add: upd_seq_def put_seq_def)

lemma serve_running: "serve i budget still out s = Inr (b, still', s', out') \<Longrightarrow> running s' = running s"
  by (auto simp: serve_def split: prod.splits dest: schedule_seq_running)

lemma run_one_running: "run_one i budget still out s = Inr (b, still', s', out') \<Longrightarrow> length (running s') \<le> length (running s)"
proof -
  assume a: "run_one i budget still out s = Inr (b, still', s', out')"
  let ?s = "upd_seq i (trim_drafts budget) s"
  let ?la = "py_len (spec_token_ids (objs ?s i)) + num_lookahead_tokens ?s"
  show ?thesis
  proof (cases "budget \<le> 0 \<or> max_num_seqs s \<le> py_len (scheduled out) \<or>
      max_tokens (objs s i) \<le> num_planned_tokens (objs s i) - num_prompt_tokens (objs s i) \<or> is_prefill (objs s i)")
    case True
    then show ?thesis using a serve_running [of i budget still out s]
      by (fastforce simp: run_one_def Let_def split: if_splits)
  next
    case False
    with a obtain ok still2 s2 out2 where m: "make_room i ?la still out ?s = Inr (ok, still2, s2, out2)"
      and r: "(if \<not> ok then Inr (budget, still2, s2, out2)
        else bindE (with_bm (\<lambda>bm q. may_append bm q ?la) i s2) (serve i budget still2 out2)) = Inr (b, still', s', out')"
      by (auto simp: run_one_def Let_def)
    have "length (running s2) \<le> length (running s)" using make_room_running [OF m] by simp
    moreover have "running s' = running s2"
      using r with_bm_running serve_running by (fastforce split: if_splits)
    ultimately show ?thesis by simp
  qed
qed

function run_loop ::
  "int \<Rightarrow> nat list \<Rightarrow> scheduler_output \<Rightarrow> scheduler \<Rightarrow> (int \<times> nat list \<times> scheduler \<times> scheduler_output) res" where
  "run_loop budget still out s =
     (case running s of
        [] \<Rightarrow> Inr (budget, still, s, out)
      | i # rest \<Rightarrow> bindE (run_one i budget still out (s\<lparr>running := rest\<rparr>)) (\<lambda>(budget', still', s', out').
          run_loop budget' still' out' s'))"
  by pat_completeness auto
termination
  by (relation "measure (\<lambda>(budget, still, out, s). length (running s))") (auto dest!: run_one_running)

declare run_loop.simps [simp del]

lemma length_siftup: "length (siftup h a) = length h"
  using siftup_loop_rule [of "\<lambda>_ _. True" h a "length h"] by (simp add: siftup_def split: prod.splits)

lemma w_pop_len: "w_pop w = Inr (i, w') \<Longrightarrow> w_len w' < w_len w \<and> 0 \<le> w_len w'"
  by (cases w) (auto simp: py_len_def heappop_def Let_def length_siftup split: list.splits if_splits)

lemma w_len_nonneg: "0 \<le> w_len w"
  by (cases w) (auto simp: py_len_def)

lemma drop_to_queues: "drop_to i reason out s = Inr (s', out') \<Longrightarrow> waiting s' = waiting s \<and> running s' = running s"
  by (auto simp: drop_to_def drop_seq_def finish_def perf_counter_def upd_seq_def put_seq_def Let_def split: if_splits)

lemma admit_run_waiting: "admit_run i budget out s = Inr (n, s', out') \<Longrightarrow> waiting s' = waiting s"
  by (auto simp: admit_run_def split: prod.splits dest: schedule_seq_running)

lemma admit_load_waiting: "admit_load i n a ns out s = Inr (m, s', out') \<Longrightarrow> waiting s' = waiting s"
  by (auto simp: admit_load_def put_seq_def Let_def)

lemma put_seq_waiting [simp]: "waiting (put_seq i q s) = waiting s"
  by (simp add: put_seq_def)

lemma admit_waiting: "admit cls i c budget out s = Inr (n, s', out') \<Longrightarrow> w_len (waiting s') < w_len (waiting s)"
  by (auto simp: admit_def Let_def dest!: w_pop_len with_bm_running admit_run_waiting admit_load_waiting
      split: option.splits if_splits)

text \<open>The loop of \<open>schedule\<close> that admits from the waiting queue.\<close>

function admit_loop ::
  "seq_class \<Rightarrow> int \<Rightarrow> scheduler_output \<Rightarrow> scheduler \<Rightarrow> (scheduler \<times> scheduler_output) res" where
  "admit_loop cls budget out s =
     (if 0 < w_len (waiting s) \<and> py_len (scheduled out) < max_num_seqs s \<and> 0 < budget then
        bindE (w_peek (waiting s)) (\<lambda>i.
        if never_fits s i then
          bindE (w_pop (waiting s)) (\<lambda>(_, w).
          bindE (drop_to i ''capacity'' out (s\<lparr>waiting := w\<rparr>)) (\<lambda>(s', out'). admit_loop cls budget out' s'))
        else
          bindE (can_allocate cls (block_mgr s) (objs s i) (num_lookahead_tokens s)) (\<lambda>c.
          if c = -1 then Inr (s, out)
          else bindE (admit cls i c budget out s) (\<lambda>(n, s', out'). admit_loop cls (budget - n) out' s')))
      else Inr (s, out))"
  by pat_completeness auto
termination
  by (relation "measure (\<lambda>(cls, budget, out, s). nat (w_len (waiting s)))")
     (auto dest!: drop_to_queues w_pop_len admit_waiting)

declare admit_loop.simps [simp del]

text \<open>The loop of \<open>_schedule_whole_prompts\<close>.\<close>

function whole_loop ::
  "seq_class \<Rightarrow> int \<Rightarrow> scheduler_output \<Rightarrow> scheduler \<Rightarrow> (scheduler \<times> scheduler_output) res" where
  "whole_loop cls budget out s =
     (if 0 < w_len (waiting s) \<and> py_len (scheduled out) < max_num_seqs s then
        bindE (w_peek (waiting s)) (\<lambda>i.
        if never_fits s i then
          bindE (w_pop (waiting s)) (\<lambda>(_, w).
          bindE (drop_to i ''capacity'' out (s\<lparr>waiting := w\<rparr>)) (\<lambda>(s', out'). whole_loop cls budget out' s'))
        else
          bindE (can_allocate cls (block_mgr s) (objs s i) (num_lookahead_tokens s)) (\<lambda>c.
          if c = -1 then Inr (s, out)
          else
            let n = (if loads_remotely s i then 0 else num_tokens (objs s i) - c * sch_block_size s)
            in if max_num_batched_tokens s < n then
                 bindE (w_pop (waiting s)) (\<lambda>(_, w).
                 bindE (drop_to i ''capacity'' out (s\<lparr>waiting := w\<rparr>)) (\<lambda>(s', out'). whole_loop cls budget out' s'))
               else if budget < n then Inr (s, out)
               else bindE (admit cls i c budget out s) (\<lambda>(m, s', out'). whole_loop cls (budget - m) out' s')))
      else Inr (s, out))"
  by pat_completeness auto
termination
  by (relation "measure (\<lambda>(cls, budget, out, s). nat (w_len (waiting s)))")
     (auto dest!: drop_to_queues w_pop_len admit_waiting)

declare whole_loop.simps [simp del]

definition schedule_whole_prompts :: "seq_class \<Rightarrow> scheduler \<Rightarrow> (scheduler \<times> scheduler_output) res" where
  "schedule_whole_prompts cls s = whole_loop cls (max_num_batched_tokens s) empty_scheduler_output s"

definition with_connector_meta :: "scheduler \<Rightarrow> scheduler_output \<Rightarrow> scheduler \<times> scheduler_output" where
  "with_connector_meta s out =
     (case connector s of
        None \<Rightarrow> (s, out)
      | Some ns \<Rightarrow> let (m, ns') = build_connector_meta ns in (s\<lparr>connector := Some ns'\<rparr>, out\<lparr>kv_metadata := Some m\<rparr>))"

text \<open>\<open>schedule\<close> after the prefill-only attempt: the running sequences, then new ones.\<close>

definition schedule_mixed :: "seq_class \<Rightarrow> nat list \<Rightarrow> scheduler \<Rightarrow> (scheduler \<times> scheduler_output) res" where
  "schedule_mixed cls drops s =
     (let out = empty_scheduler_output\<lparr>dropped := drops\<rparr>;
          s1 = s\<lparr>running := w_by_urgency (key_of s) (waiting s) (running s)\<rparr>
      in bindE (run_loop (max_num_batched_tokens s) [] out s1) (\<lambda>(budget, still, s2, out2).
         let s3 = s2\<lparr>running := still\<rparr>
         in bindE (if enable_chunked_prefill s3 \<and> preempted out2 = [] then admit_loop cls budget out2 s3
                   else Inr (s3, out2)) (\<lambda>(s4, out4).
            Inr (with_connector_meta s4 out4))))"

definition schedule :: "seq_class \<Rightarrow> scheduler \<Rightarrow> (scheduler \<times> scheduler_output) res" where
  "schedule cls s =
     (if \<not> enable_chunked_prefill s then
        bindE (schedule_whole_prompts cls s) (\<lambda>(s1, out).
        if output_bool out then Inr (with_connector_meta s1 out) else schedule_mixed cls (dropped out) s1)
      else schedule_mixed cls [] s)"

section \<open>Advancing and reconciling a step\<close>

definition PLACEHOLDER_TOKEN_ID :: int where
  "PLACEHOLDER_TOKEN_ID = -1"

definition advance_one ::
  "seq_class \<Rightarrow> nat \<Rightarrow> scheduler \<times> launched_row list \<Rightarrow> (scheduler \<times> launched_row list) res" where
  "advance_one cls i = (\<lambda>(s, rows).
     let num_draft = py_len (spec_token_ids (objs s i));
         s1 = upd_seq i (\<lambda>q. q\<lparr>num_cached_tokens := num_cached_tokens q + num_scheduled_tokens q,
                              num_scheduled_tokens := 0, spec_token_ids := []\<rparr>) s
     in bindE (with_bm (\<lambda>bm q. hash_blocks cls bm q (num_cached_tokens q)) i s1) (\<lambda>s2.
        if num_cached_tokens (objs s2 i) < num_planned_tokens (objs s2 i) then Inr (s2, rows)
        else
          let s3 = upd_seq i (\<lambda>q. (reserve_token (1 + num_draft) (q\<lparr>is_prefill := False\<rparr>))
                     \<lparr>spec_token_ids := replicate (nat (num_speculative_tokens s2)) PLACEHOLDER_TOKEN_ID\<rparr>) s2
          in Inr (s3, rows @ [\<lparr>row_seq = i, row_num_preemptions = num_preemptions (objs s3 i),
                               row_num_draft_tokens = num_draft\<rparr>])))"

definition advance :: "seq_class \<Rightarrow> nat list \<Rightarrow> scheduler \<Rightarrow> (scheduler \<times> launched_row list) res" where
  "advance cls ids s = foldE (advance_one cls) ids (s, [])"

text \<open>A row's sampled value: one token, or the kept drafts and one more.\<close>

datatype sampled = OneToken int | Tokens "int list"

fun new_tokens :: "sampled \<Rightarrow> int list" where
  "new_tokens (OneToken t) = [t]"
| "new_tokens (Tokens ts) = ts"

definition stop_reason :: "int \<Rightarrow> int \<Rightarrow> sequence \<Rightarrow> string option" where
  "stop_reason eos_id t q =
     (if (t = eos_id \<and> \<not> ignore_eos q) \<or> t \<in> set (stop_token_ids q) then Some ''stop''
      else if num_completion_tokens q = max_tokens q then Some ''length'' else None)"

text \<open>The loop over a row's tokens, with its \<open>break\<close>.\<close>

fun commit_tokens :: "seq_class \<Rightarrow> int \<Rightarrow> int list \<Rightarrow> sequence \<Rightarrow> (sequence \<times> string option) res" where
  "commit_tokens cls eos_id [] q = Inr (q, None)"
| "commit_tokens cls eos_id (t # ts) q =
     bindE (commit_token cls t q) (\<lambda>q1.
     let q2 = q1\<lparr>num_new_tokens := num_new_tokens q1 + 1\<rparr>
     in case stop_reason eos_id t q2 of
          Some r \<Rightarrow> Inr (q2, Some r)
        | None \<Rightarrow> commit_tokens cls eos_id ts q2)"

text \<open>The time the first token reaches the host, read once.\<close>

definition stamp_first_token :: "nat \<Rightarrow> scheduler \<Rightarrow> scheduler" where
  "stamp_first_token i s =
     (if first_token_time (objs s i) = None
      then let (now, s') = perf_counter s in upd_seq i (\<lambda>q. q\<lparr>first_token_time := Some now\<rparr>) s'
      else s)"

text \<open>What follows the commits: keep the row's drafts for the next step, or end the request.\<close>

definition settle_row :: "int list list option \<Rightarrow> nat \<Rightarrow> nat \<Rightarrow> string option \<Rightarrow> scheduler \<Rightarrow> scheduler res" where
  "settle_row drafts k i reason s =
     (case reason of
        None \<Rightarrow>
          (case drafts of
             None \<Rightarrow> Inr s
           | Some ds \<Rightarrow>
               if num_pending_tokens (objs s i) = 0
               then bindE (py_get ds (int k)) (\<lambda>d. Inr (upd_seq i (\<lambda>q. q\<lparr>spec_token_ids := d\<rparr>) s))
               else Inr s)
      | Some r \<Rightarrow>
          bindE (running_remove i (upd_seq i drop_pending s)) (\<lambda>s1.
          bindE (drop_seq i r s1) (free_seq i)))"

definition reconcile_row ::
  "seq_class \<Rightarrow> sampled list \<Rightarrow> int list list option \<Rightarrow> nat \<times> launched_row \<Rightarrow>
     scheduler \<times> nat list \<Rightarrow> (scheduler \<times> nat list) res" where
  "reconcile_row cls toks drafts = (\<lambda>(k, row) (s, stepped).
     let i = row_seq row
     in bindE (py_get toks (int k)) (\<lambda>smp.
        if is_finished (objs s i) \<or> num_preemptions (objs s i) \<noteq> row_num_preemptions row then Inr (s, stepped)
        else
          let new_token_ids = new_tokens smp;
              num_rejected = row_num_draft_tokens row - (py_len new_token_ids - 1);
              s1 = upd_seq i (\<lambda>q. q\<lparr>num_cached_tokens := num_cached_tokens q - num_rejected,
                                   num_pending_tokens := num_pending_tokens q - num_rejected,
                                   num_new_tokens := 0\<rparr>) s
          in bindE (commit_tokens cls (eos s1) new_token_ids (objs s1 i)) (\<lambda>(q, reason).
             bindE (settle_row drafts k i reason (stamp_first_token i (put_seq i q s1))) (\<lambda>s2.
             Inr (s2, stepped @ [i])))))"

definition reconcile ::
  "seq_class \<Rightarrow> launched_row list \<Rightarrow> sampled list \<Rightarrow> int list list option \<Rightarrow> scheduler \<Rightarrow> (scheduler \<times> nat list) res" where
  "reconcile cls rows toks drafts s =
     foldE (reconcile_row cls toks drafts) (List.enumerate 0 (slice_to rows (py_len toks))) (s, [])"

definition finish_send :: "string \<Rightarrow> scheduler \<Rightarrow> scheduler res" where
  "finish_send rid s =
     (case map_of (sending s) rid of
        None \<Rightarrow> Inr s
      | Some i \<Rightarrow> with_bm deallocate i (s\<lparr>sending := dict_del (sending s) rid\<rparr>))"

definition finish_recv :: "seq_class \<Rightarrow> string list \<Rightarrow> string \<Rightarrow> scheduler \<Rightarrow> scheduler res" where
  "finish_recv cls finished rid s =
     bindE (dict_get (recving s) rid) (\<lambda>i.
     let s1 = s\<lparr>recving := dict_del (recving s) rid\<rparr>
     in if is_finished (objs s1 i) then with_bm deallocate i s1
        else bindE (if rid \<in> set finished then
                      with_bm (\<lambda>bm q. hash_blocks cls bm q (num_cached_tokens q)) i
                        (upd_seq i (\<lambda>q. q\<lparr>num_cached_tokens := num_prompt_tokens q - 1\<rparr>) s1)
                    else Inr s1) (\<lambda>s2.
             let s3 = upd_seq i (\<lambda>q. q\<lparr>status := RUNNING\<rparr>) s2
             in Inr (s3\<lparr>running := running s3 @ [i]\<rparr>)))"

definition update_from_kv_connector_output :: "seq_class \<Rightarrow> kv_connector_output \<Rightarrow> scheduler \<Rightarrow> scheduler res" where
  "update_from_kv_connector_output cls kv s =
     bindE (foldE finish_send (finished_sending kv) s) (\<lambda>s1.
     foldE (finish_recv cls (finished_recving kv)) (set_union (finished_recving kv) (failed_recving kv)) s1)"

end
