(* ===== verification/Scheduler_Inv.thy ===== *)
theory Scheduler_Inv
  imports Scheduler
begin

text \<open>
  The invariant of the scheduler and that every operation keeps it.

  Every sequence plays one \<open>role\<close>: it waits, runs, loads its blocks from another instance, is
  held for one to read, or is out.  \<open>core\<close> is the invariant over the role of each id, its
  object, the block manager, the index \<open>seqs\<close> and the rows of the steps in flight; \<open>core_step\<close>
  is the one lemma every transition goes through.  \<open>sch_inv\<close> adds that the queues hold
  exactly the ids of each role.
\<close>

section \<open>Multisets without duplicates\<close>

definition uniq :: "'a multiset \<Rightarrow> bool" where
  "uniq M \<longleftrightarrow> (\<forall>x. count M x \<le> 1)"

lemma uniq_add [simp]: "uniq (add_mset x M) \<longleftrightarrow> x \<notin># M \<and> uniq M"
proof -
  have "count (add_mset x M) y \<le> 1 \<longleftrightarrow> (y = x \<longrightarrow> x \<notin># M) \<and> count M y \<le> 1" for y
    by (auto simp: not_in_iff)
  then show ?thesis unfolding uniq_def by metis
qed

lemma uniq_empty [simp]: "uniq {#}"
  by (simp add: uniq_def)

lemma uniq_plusD: "uniq (M + N) \<Longrightarrow> uniq M \<and> uniq N"
  by (auto simp: uniq_def) (metis add_leD1 add_leD2)+

lemma uniq_disjoint: "uniq (M + N) \<Longrightarrow> x \<in># M \<Longrightarrow> x \<notin># N"
proof -
  assume u: "uniq (M + N)" and x: "x \<in># M"
  have "count M x + count N x \<le> 1" using u by (simp add: uniq_def)
  moreover have "0 < count M x" using x by simp
  ultimately have "count N x = 0" by linarith
  then show ?thesis by (simp add: not_in_iff)
qed

section \<open>Roles\<close>

datatype role = Out | InW | InR | InV | InS

definition roles :: "nat multiset \<Rightarrow> nat multiset \<Rightarrow> nat multiset \<Rightarrow> nat multiset \<Rightarrow> nat \<Rightarrow> role" where
  "roles W R V S i = (if i \<in># W then InW else if i \<in># R then InR else if i \<in># V then InV
     else if i \<in># S then InS else Out)"

definition holds :: "role \<Rightarrow> bool" where
  "holds r \<longleftrightarrow> r \<in> {InR, InV, InS}"

lemma holds_simps [simp]: "\<not> holds Out" "\<not> holds InW" "holds InR" "holds InV" "holds InS"
  by (simp_all add: holds_def)

definition live :: "role \<Rightarrow> sequence \<Rightarrow> bool" where
  "live r q \<longleftrightarrow> r = InW \<or> r = InR \<or> r = InV \<and> \<not> is_finished q"

text \<open>A request not yet at its length limit.\<close>

definition below_limit :: "sequence \<Rightarrow> bool" where
  "below_limit q \<longleftrightarrow> num_tokens q - num_prompt_tokens q < max_tokens q"

definition waiting_ok :: "seq_class \<Rightarrow> bool \<Rightarrow> sequence \<Rightarrow> bool" where
  "waiting_ok cls kv q \<longleftrightarrow> seq_wf cls q \<and> below_limit q \<and> status q = WAITING \<and> block_table q = [] \<and>
     num_pending_tokens q = 0 \<and> num_cached_tokens q = 0 \<and> num_published_blocks q = 0 \<and> num_scheduled_tokens q = 0 \<and>
     is_prefill q \<and> spec_token_ids q = [] \<and>
     (kv \<longrightarrow> params_ask (kv_transfer_params q) ''do_remote_prefill'' \<longrightarrow>
        num_tokens q = num_prompt_tokens q \<and> (\<exists>p. kv_transfer_params q = Some p \<and> remote_prefill p))"

text \<open>
  A running sequence is still in its prompt or decodes; either way only computed tokens are
  published.
\<close>

definition prefill_ok :: "seq_class \<Rightarrow> sequence \<Rightarrow> bool" where
  "prefill_ok cls q \<longleftrightarrow> num_pending_tokens q = 0 \<and> 0 \<le> num_cached_tokens q \<and> num_cached_tokens q < num_tokens q \<and>
     0 \<le> num_scheduled_tokens q \<and> num_cached_tokens q + num_scheduled_tokens q \<le> num_tokens q \<and>
     num_tokens q \<le> int (length (block_table q)) * cls_block_size cls \<and> spec_token_ids q = [] \<and>
     num_published_blocks q * cls_block_size cls \<le> num_cached_tokens q"

definition decode_ok :: "seq_class \<Rightarrow> bool \<Rightarrow> sequence \<Rightarrow> bool" where
  "decode_ok cls sched q \<longleftrightarrow> num_cached_tokens q = num_planned_tokens q - 1 \<and> 0 \<le> num_scheduled_tokens q \<and>
     num_cached_tokens q + num_scheduled_tokens q \<le> int (length (block_table q)) * cls_block_size cls \<and>
     num_planned_tokens q - num_prompt_tokens q \<le> max_tokens q \<and>
     num_published_blocks q * cls_block_size cls \<le> min (num_cached_tokens q) (num_tokens q) \<and>
     (sched \<longrightarrow> num_scheduled_tokens q = 1 + py_len (spec_token_ids q) \<and>
        num_planned_tokens q + num_scheduled_tokens q - num_prompt_tokens q \<le> max_tokens q)"

text \<open>An admitted request no longer asks for a load.\<close>

definition no_load :: "bool \<Rightarrow> sequence \<Rightarrow> bool" where
  "no_load kv q \<longleftrightarrow> (kv \<longrightarrow> \<not> params_ask (kv_transfer_params q) ''do_remote_prefill'')"

definition running_ok :: "seq_class \<Rightarrow> bool \<Rightarrow> bool \<Rightarrow> sequence \<Rightarrow> bool" where
  "running_ok cls kv sched q \<longleftrightarrow> seq_wf cls q \<and> below_limit q \<and> no_load kv q \<and> status q = RUNNING \<and>
     (if is_prefill q then prefill_ok cls q else decode_ok cls sched q) \<and> (\<not> sched \<longrightarrow> num_scheduled_tokens q = 0)"

definition recving_ok :: "seq_class \<Rightarrow> bool \<Rightarrow> sequence \<Rightarrow> bool" where
  "recving_ok cls kv q \<longleftrightarrow> seq_wf cls q \<and> (is_finished q \<or> status q = WAITING_FOR_REMOTE_KVS \<and> below_limit q \<and> no_load kv q \<and>
     is_prefill q \<and> prefill_ok cls q \<and> num_scheduled_tokens q = 0 \<and> num_tokens q = num_prompt_tokens q)"

fun role_ok :: "seq_class \<Rightarrow> bool \<Rightarrow> bool \<Rightarrow> role \<Rightarrow> sequence \<Rightarrow> bool" where
  "role_ok cls kv sched Out q = True"
| "role_ok cls kv sched InW q = waiting_ok cls kv q"
| "role_ok cls kv sched InR q = running_ok cls kv sched q"
| "role_ok cls kv sched InV q = recving_ok cls kv q"
| "role_ok cls kv sched InS q = (seq_wf cls q \<and> is_finished q)"

text \<open>
  The rows in flight of one sequence.  A row is void once its sequence finished or was
  requeued; the reserved tokens of a running sequence are those of its rows that still count.
\<close>

definition rows_for :: "launched_row multiset \<Rightarrow> nat \<Rightarrow> launched_row multiset" where
  "rows_for F i = filter_mset (\<lambda>r. row_seq r = i) F"

definition reserved :: "launched_row multiset \<Rightarrow> int \<Rightarrow> int" where
  "reserved F n = (\<Sum>r \<in># filter_mset (\<lambda>r. row_num_preemptions r = n) F. 1 + row_num_draft_tokens r)"

definition row_ok :: "role \<Rightarrow> sequence \<Rightarrow> launched_row \<Rightarrow> bool" where
  "row_ok r q row \<longleftrightarrow> 0 \<le> row_num_draft_tokens row \<and> row_num_preemptions row \<le> num_preemptions q \<and>
     (is_finished q \<or> r = InR \<or> row_num_preemptions row < num_preemptions q)"

definition rows_ok :: "launched_row multiset \<Rightarrow> role \<Rightarrow> sequence \<Rightarrow> bool" where
  "rows_ok F r q \<longleftrightarrow> (\<forall>row \<in># F. row_ok r q row) \<and> (r = InR \<longrightarrow> num_pending_tokens q = reserved F (num_preemptions q))"

section \<open>The core invariant\<close>

definition others :: "(nat \<Rightarrow> role) \<Rightarrow> nat \<Rightarrow> (nat \<Rightarrow> sequence) \<Rightarrow> holding multiset" where
  "others ro i ob = image_mset (\<lambda>j. holding_of (ob j)) (mset_set ({j. holds (ro j)} - {i}))"

abbreviation own :: "role \<Rightarrow> sequence \<Rightarrow> holding multiset" where
  "own r q \<equiv> (if holds r then {#holding_of q#} else {#})"

definition core ::
  "seq_class \<Rightarrow> bool \<Rightarrow> launched_row multiset \<Rightarrow> nat list \<Rightarrow> (nat \<Rightarrow> role) \<Rightarrow> (nat \<Rightarrow> sequence) \<Rightarrow>
     block_manager \<Rightarrow> (string, nat) dict \<Rightarrow> bool" where
  "core cls kv F Q ro ob bm sq \<longleftrightarrow>
     finite {i. ro i \<noteq> Out} \<and> inj_on (\<lambda>i. request_id (ob i)) {i. ro i \<noteq> Out} \<and>
     (\<forall>i. ro i \<noteq> Out \<longrightarrow> seq_id (ob i) = i) \<and>
     (\<forall>i. role_ok cls kv (i \<in> set Q) (ro i) (ob i)) \<and> (\<forall>i \<in> set Q. ro i = InR) \<and>
     (\<forall>i. rows_ok (rows_for F i) (ro i) (ob i)) \<and>
     bm_inv cls bm (image_mset (\<lambda>j. holding_of (ob j)) (mset_set {j. holds (ro j)})) \<and>
     wf_dict sq \<and> (\<forall>r i. map_of sq r = Some i \<longleftrightarrow> live (ro i) (ob i) \<and> request_id (ob i) = r)"

lemma finite_holds: "finite {i. ro i \<noteq> Out} \<Longrightarrow> finite {i. holds (ro i)}"
  by (rule finite_subset [of _ "{i. ro i \<noteq> Out}"]) (auto simp: holds_def)

lemma holders_split:
  assumes "finite {j. holds (ro j)}"
  shows "image_mset (\<lambda>j. holding_of (ob j)) (mset_set {j. holds (ro j)}) = own (ro i) (ob i) + others ro i ob"
proof (cases "holds (ro i)")
  case True
  then have "mset_set {j. holds (ro j)} = add_mset i (mset_set ({j. holds (ro j)} - {i}))"
    using assms by (subst mset_set.remove [of _ i]) auto
  then show ?thesis using True by (simp add: others_def)
next
  case False
  then have "{j. holds (ro j)} - {i} = {j. holds (ro j)}" by auto
  then show ?thesis using False by (simp add: others_def)
qed

lemma core_bm: "core cls kv F Q ro ob bm sq \<Longrightarrow> bm_inv cls bm (own (ro i) (ob i) + others ro i ob)"
  using holders_split [of ro ob i] finite_holds [of ro] by (simp add: core_def)

lemma others_upd: "finite {j. ro j \<noteq> Out} \<Longrightarrow> others (ro(i := r)) i (ob(i := q)) = others ro i ob"
proof -
  assume f: "finite {j. ro j \<noteq> Out}"
  have "{j. holds ((ro(i := r)) j)} - {i} = {j. holds (ro j)} - {i}" by auto
  moreover have "image_mset (\<lambda>j. holding_of ((ob(i := q)) j)) (mset_set ({j. holds (ro j)} - {i})) =
      image_mset (\<lambda>j. holding_of (ob j)) (mset_set ({j. holds (ro j)} - {i}))"
    by (rule image_mset_cong) (use finite_holds [OF f] in auto)
  ultimately show ?thesis by (simp only: others_def)
qed

text \<open>One sequence changes: its object, its role, the scheduled list and its rows.\<close>

lemma core_step:
  assumes core: "core cls kv F Q ro ob bm sq"
    and id: "r' \<noteq> Out \<Longrightarrow> seq_id q' = i"
    and rid: "r' \<noteq> Out \<Longrightarrow> (ro i \<noteq> Out \<and> request_id q' = request_id (ob i)) \<or>
                (\<forall>j. ro j \<noteq> Out \<longrightarrow> request_id (ob j) \<noteq> request_id q')"
    and ok: "role_ok cls kv (i \<in> set Q') r' q'"
    and Q: "\<And>j. j \<noteq> i \<Longrightarrow> j \<in> set Q' \<longleftrightarrow> j \<in> set Q" "i \<in> set Q' \<Longrightarrow> r' = InR"
    and rows: "rows_ok (rows_for F' i) r' q'" "\<And>j. j \<noteq> i \<Longrightarrow> rows_for F' j = rows_for F j"
    and bm: "bm_inv cls bm' (own r' q' + others ro i ob)"
    and sq: "wf_dict sq'" "\<And>r j. map_of sq' r = Some j \<longleftrightarrow>
        (if j = i then live r' q' \<and> request_id q' = r else map_of sq r = Some j)"
  shows "core cls kv F' Q' (ro(i := r')) (ob(i := q')) bm' sq'"
proof -
  note c = core [unfolded core_def]
  have fin: "finite {j. (ro(i := r')) j \<noteq> Out}"
    by (rule finite_subset [of _ "insert i {j. ro j \<noteq> Out}"]) (use c in auto)
  moreover have "inj_on (\<lambda>j. request_id ((ob(i := q')) j)) {j. (ro(i := r')) j \<noteq> Out}"
  proof (rule inj_onI, goal_cases)
    case (1 x y)
    have inj: "request_id (ob x) = request_id (ob y) \<Longrightarrow> ro x \<noteq> Out \<Longrightarrow> ro y \<noteq> Out \<Longrightarrow> x = y" for x y
      using c by (auto simp: inj_on_def)
    show ?case
      using 1 rid inj [of x y] inj [of x i] inj [of i y] by (auto split: if_splits)
  qed
  moreover have "bm_inv cls bm' (image_mset (\<lambda>j. holding_of ((ob(i := q')) j)) (mset_set {j. holds ((ro(i := r')) j)}))"
    using bm c by (simp only: holders_split [OF finite_holds [OF fin], of "ob(i := q')" i] others_upd fun_upd_same)
  moreover have "\<forall>j \<in> set Q'. (ro(i := r')) j = InR" using c Q by auto
  ultimately show ?thesis
    unfolding core_def using c id ok Q(1) rows sq by simp
qed

section \<open>The invariant of the scheduler\<close>

abbreviation Wm :: "scheduler \<Rightarrow> nat multiset" where
  "Wm s \<equiv> w_ids (waiting s)"

abbreviation Rm :: "nat list \<Rightarrow> scheduler \<Rightarrow> nat multiset" where
  "Rm X s \<equiv> mset X + mset (running s)"

abbreviation Vm :: "scheduler \<Rightarrow> nat multiset" where
  "Vm s \<equiv> mset (dict_vals (recving s))"

abbreviation Sm :: "scheduler \<Rightarrow> nat multiset" where
  "Sm s \<equiv> mset (dict_vals (sending s))"

text \<open>\<open>X\<close>: the running sequences a loop holds outside the deque.\<close>

definition sroles :: "nat list \<Rightarrow> scheduler \<Rightarrow> nat \<Rightarrow> role" where
  "sroles X s = roles (Wm s) (Rm X s) (Vm s) (Sm s)"

definition queue_ids :: "nat list \<Rightarrow> scheduler \<Rightarrow> nat multiset" where
  "queue_ids X s = Wm s + Rm X s + Vm s + Sm s"

definition cfg_ok :: "seq_class \<Rightarrow> scheduler \<Rightarrow> bool" where
  "cfg_ok cls s \<longleftrightarrow> cls_wf cls \<and> bm_for cls (block_mgr s) \<and> sch_block_size s = cls_block_size cls \<and>
     0 \<le> num_speculative_tokens s \<and> num_lookahead_tokens s = max (num_speculative_tokens s - 1) 0 \<and>
     0 \<le> long_prefill_token_threshold s \<and>
     (\<forall>ns. connector s = Some ns \<longrightarrow> num_speculative_tokens s = 0 \<and> ns_block_size ns = cls_block_size cls)"

definition keys_ok :: "scheduler \<Rightarrow> bool" where
  "keys_ok s \<longleftrightarrow> (\<forall>(r, i) \<in> set (recving s) \<union> set (sending s). request_id (objs s i) = r)"

abbreviation kv_on :: "scheduler \<Rightarrow> bool" where
  "kv_on s \<equiv> connector s \<noteq> None"

definition sch_inv :: "seq_class \<Rightarrow> launched_row multiset \<Rightarrow> nat list \<Rightarrow> nat list \<Rightarrow> scheduler \<Rightarrow> bool" where
  "sch_inv cls F X Q s \<longleftrightarrow> cfg_ok cls s \<and> uniq (queue_ids X s) \<and> w_inv (key_of s) (waiting s) \<and> keys_ok s \<and>
     core cls (kv_on s) F Q (sroles X s) (objs s) (block_mgr s) (seqs s)"

text \<open>Between steps no loop is active and nothing is scheduled.\<close>

abbreviation scheduler_inv :: "seq_class \<Rightarrow> launched_row multiset \<Rightarrow> scheduler \<Rightarrow> bool" where
  "scheduler_inv cls F s \<equiv> sch_inv cls F [] [] s"

lemma sch_invD:
  assumes "sch_inv cls F X Q s"
  shows "cfg_ok cls s" "uniq (queue_ids X s)" "w_inv (key_of s) (waiting s)" "keys_ok s"
    "core cls (kv_on s) F Q (sroles X s) (objs s) (block_mgr s) (seqs s)"
  using assms by (auto simp: sch_inv_def)

lemma coreD:
  assumes "core cls kv F Q ro ob bm sq"
  shows "finite {i. ro i \<noteq> Out}" "\<And>i j. ro i \<noteq> Out \<Longrightarrow> ro j \<noteq> Out \<Longrightarrow> request_id (ob i) = request_id (ob j) \<Longrightarrow> i = j"
    "\<And>i. ro i \<noteq> Out \<Longrightarrow> seq_id (ob i) = i" "\<And>i. role_ok cls kv (i \<in> set Q) (ro i) (ob i)"
    "\<And>i. i \<in> set Q \<Longrightarrow> ro i = InR" "\<And>i. rows_ok (rows_for F i) (ro i) (ob i)" "wf_dict sq"
    "\<And>r i. map_of sq r = Some i \<longleftrightarrow> live (ro i) (ob i) \<and> request_id (ob i) = r"
  using assms by (auto simp: core_def inj_on_def)

text \<open>The invariant does not depend on which part of the running sequences is in the deque.\<close>

lemma sch_inv_shift:
  assumes "mset X' + mset run = mset X + mset (running s)"
  shows "sch_inv cls F X' Q (s\<lparr>running := run\<rparr>) = sch_inv cls F X Q s"
  using assms by (simp add: sch_inv_def cfg_ok_def queue_ids_def keys_ok_def sroles_def)

lemma roles_iff:
  assumes "uniq (W + R + V + S)"
  shows "roles W R V S i = InW \<longleftrightarrow> i \<in># W" "roles W R V S i = InR \<longleftrightarrow> i \<in># R"
    "roles W R V S i = InV \<longleftrightarrow> i \<in># V" "roles W R V S i = InS \<longleftrightarrow> i \<in># S"
    "roles W R V S i = Out \<longleftrightarrow> i \<notin># W + R + V + S"
proof -
  have "uniq (W + (R + V + S))" "uniq (R + (V + S + W))" "uniq (V + (R + W + S))" "uniq (S + (W + R + V))"
    using assms by (simp_all only: ac_simps)
  then have "\<not> (i \<in># W \<and> i \<in># R + V + S)" "\<not> (i \<in># R \<and> i \<in># V + S + W)" "\<not> (i \<in># V \<and> i \<in># R + W + S)"
    by (metis uniq_disjoint)+
  then have "i \<in># W \<longrightarrow> i \<notin># R \<and> i \<notin># V \<and> i \<notin># S" "i \<in># R \<longrightarrow> i \<notin># V \<and> i \<notin># S" "i \<in># V \<longrightarrow> i \<notin># S"
    unfolding union_iff by blast+
  then show "roles W R V S i = InW \<longleftrightarrow> i \<in># W" "roles W R V S i = InR \<longleftrightarrow> i \<in># R"
    "roles W R V S i = InV \<longleftrightarrow> i \<in># V" "roles W R V S i = InS \<longleftrightarrow> i \<in># S"
    "roles W R V S i = Out \<longleftrightarrow> i \<notin># W + R + V + S"
    by (simp_all add: roles_def)
qed

lemma sroles_iff:
  assumes "uniq (queue_ids X s)"
  shows "sroles X s i = InW \<longleftrightarrow> i \<in># Wm s" "sroles X s i = InR \<longleftrightarrow> i \<in># Rm X s"
    "sroles X s i = InV \<longleftrightarrow> i \<in># Vm s" "sroles X s i = InS \<longleftrightarrow> i \<in># Sm s" "sroles X s i = Out \<longleftrightarrow> i \<notin># queue_ids X s"
  using roles_iff [OF assms [unfolded queue_ids_def], of i] unfolding sroles_def queue_ids_def by blast+

lemma w_inv_upd:
  "seq_key q = seq_key (ob i) \<Longrightarrow> w_inv (\<lambda>j. seq_key (ob j)) w \<Longrightarrow> w_inv (\<lambda>j. seq_key ((ob(i := q)) j)) w"
  using w_inv_cong [of w "\<lambda>j. seq_key (ob j)" "\<lambda>j. seq_key ((ob(i := q)) j)"] by simp

lemma sch_stepI:
  assumes inv: "sch_inv cls F X Q s"
    and s': "objs s' = (objs s)(i := q')" "sroles X' s' = (sroles X s)(i := r')" "kv_on s' = kv_on s"
    and g: "cfg_ok cls s'" "uniq (queue_ids X' s')" "w_inv (key_of s') (waiting s')" "keys_ok s'"
    and id: "r' \<noteq> Out \<Longrightarrow> seq_id q' = i"
    and rid: "r' \<noteq> Out \<Longrightarrow> (sroles X s i \<noteq> Out \<and> request_id q' = request_id (objs s i)) \<or>
                (\<forall>j. sroles X s j \<noteq> Out \<longrightarrow> request_id (objs s j) \<noteq> request_id q')"
    and ok: "role_ok cls (kv_on s) (i \<in> set Q') r' q'"
    and Q: "\<And>j. j \<noteq> i \<Longrightarrow> j \<in> set Q' \<longleftrightarrow> j \<in> set Q" "i \<in> set Q' \<Longrightarrow> r' = InR"
    and rows: "rows_ok (rows_for F' i) r' q'" "\<And>j. j \<noteq> i \<Longrightarrow> rows_for F' j = rows_for F j"
    and bm: "bm_inv cls (block_mgr s') (own r' q' + others (sroles X s) i (objs s))"
    and sq: "wf_dict (seqs s')" "\<And>r j. map_of (seqs s') r = Some j \<longleftrightarrow>
        (if j = i then live r' q' \<and> request_id q' = r else map_of (seqs s) r = Some j)"
  shows "sch_inv cls F' X' Q' s'"
proof -
  have "core cls (kv_on s) F' Q' ((sroles X s)(i := r')) ((objs s)(i := q')) (block_mgr s') (seqs s')"
    by (rule core_step [OF sch_invD(5) [OF inv] id rid ok Q rows bm sq])
  then have "core cls (kv_on s') F' Q' (sroles X' s') (objs s') (block_mgr s') (seqs s')" unfolding s' .
  then show ?thesis using g by (simp add: sch_inv_def)
qed

text \<open>The index \<open>seqs\<close> when a request ends.\<close>

lemma seqs_delete:
  assumes c: "core cls kv F Q ro ob bm sq" and "ro i \<noteq> Out" and dead: "\<not> live r' q'"
  shows "wf_dict (dict_del sq (request_id (ob i)))"
    and "map_of (dict_del sq (request_id (ob i))) r = Some j \<longleftrightarrow>
        (if j = i then live r' q' \<and> request_id q' = r else map_of sq r = Some j)"
proof -
  note d = coreD [OF c]
  show "wf_dict (dict_del sq (request_id (ob i)))" using d(7) by simp
  have "ro j \<noteq> Out" if "live (ro j) (ob j)" for j using that by (auto simp: live_def)
  then show "map_of (dict_del sq (request_id (ob i))) r = Some j \<longleftrightarrow>
        (if j = i then live r' q' \<and> request_id q' = r else map_of sq r = Some j)"
    using dead d(2,8) assms(2) by (auto simp: delete_conv' split: if_splits)
qed

lemma seqs_same:
  assumes c: "core cls kv F Q ro ob bm sq" and "live r' q' = live (ro i) (ob i)" "request_id q' = request_id (ob i)"
  shows "map_of sq r = Some j \<longleftrightarrow> (if j = i then live r' q' \<and> request_id q' = r else map_of sq r = Some j)"
  using coreD(8) [OF c] assms(2,3) by auto

end
