(* ===== verification/Scheduler_Ops.thy ===== *)
theory Scheduler_Ops
  imports Scheduler_Inv
begin

text \<open>
  Every operation of the scheduler keeps the invariant and raises nothing: the transitions of
  one sequence, then the loops built from them.
\<close>

section \<open>Frames\<close>

text \<open>What no operation changes.\<close>

definition frame :: "scheduler \<Rightarrow> scheduler \<Rightarrow> bool" where
  "frame s s' \<longleftrightarrow> max_num_seqs s' = max_num_seqs s \<and> max_num_batched_tokens s' = max_num_batched_tokens s \<and>
     eos s' = eos s \<and> sch_block_size s' = sch_block_size s \<and> enable_chunked_prefill s' = enable_chunked_prefill s \<and>
     long_prefill_token_threshold s' = long_prefill_token_threshold s \<and>
     num_speculative_tokens s' = num_speculative_tokens s \<and> num_lookahead_tokens s' = num_lookahead_tokens s \<and>
     kv_on s' = kv_on s \<and> same_config (block_mgr s) (block_mgr s')"

lemma frame_refl [simp]: "frame s s"
  by (simp add: frame_def)

lemma frame_trans: "frame a b \<Longrightarrow> frame b c \<Longrightarrow> frame a c"
  unfolding frame_def by (metis same_config_trans)

lemma okE_with_bm: "okE (with_bm f i s) P = okE (f (block_mgr s) (objs s i)) (\<lambda>(bm, q). P (put_seq i q (s\<lparr>block_mgr := bm\<rparr>)))"
  by (simp add: with_bm_def okE_simps case_prod_unfold)

lemma okE_case_prod: "okE (case p of (a, b) \<Rightarrow> f a b) P = (case p of (a, b) \<Rightarrow> okE (f a b) P)"
  by (cases p) simp

lemma okE_E2: "okE m P \<Longrightarrow> (\<And>a b. m = Inr (a, b) \<Longrightarrow> P (a, b) \<Longrightarrow> thesis) \<Longrightarrow> thesis"
  by (cases m) auto

lemma roles_R: "i \<notin># W \<Longrightarrow> roles W (add_mset i R) V S = (roles W R V S)(i := InR)"
  by (auto simp: roles_def)

lemma roles_W: "roles (add_mset i W) R V S = (roles W R V S)(i := InW)"
  by (auto simp: roles_def)

lemma roles_V: "i \<notin># W \<Longrightarrow> i \<notin># R \<Longrightarrow> roles W R (add_mset i V) S = (roles W R V S)(i := InV)"
  by (auto simp: roles_def)

lemma roles_S: "i \<notin># W \<Longrightarrow> i \<notin># R \<Longrightarrow> i \<notin># V \<Longrightarrow> roles W R V (add_mset i S) = (roles W R V S)(i := InS)"
  by (auto simp: roles_def)

lemma roles_Out: "i \<notin># W + R + V + S \<Longrightarrow> roles W R V S = (roles W R V S)(i := Out)"
  by (auto simp: roles_def)

lemma cur_facts:
  assumes "sch_inv cls F (i # X) Q s"
  shows "sroles (i # X) s i = InR" "running_ok cls (kv_on s) (i \<in> set Q) (objs s i)" "seq_id (objs s i) = i"
    "bm_inv cls (block_mgr s) (add_mset (holding_of (objs s i)) (others (sroles (i # X) s) i (objs s)))"
    "rows_ok (rows_for F i) InR (objs s i)" "i \<notin># queue_ids X s" "uniq (queue_ids X s)"
    "map_of (seqs s) (request_id (objs s i)) = Some i"
proof -
  note d = sch_invD [OF assms] and c = coreD [OF sch_invD(5) [OF assms]]
  show r: "sroles (i # X) s i = InR" using sroles_iff(2) [OF d(2)] by simp
  show "running_ok cls (kv_on s) (i \<in> set Q) (objs s i)" using c(4) [of i] r by simp
  show "seq_id (objs s i) = i" using c(3) [of i] r by simp
  show "rows_ok (rows_for F i) InR (objs s i)" using c(6) [of i] r by simp
  show "bm_inv cls (block_mgr s) (add_mset (holding_of (objs s i)) (others (sroles (i # X) s) i (objs s)))"
    using core_bm [OF d(5), of i] r by simp
  show "i \<notin># queue_ids X s" "uniq (queue_ids X s)" using d(2) by (auto simp: queue_ids_def)
  show "map_of (seqs s) (request_id (objs s i)) = Some i" using c(8) [of "request_id (objs s i)" i] r by (simp add: live_def)
qed

lemma cfg_ok_frame: "cfg_ok cls s \<Longrightarrow> frame s s' \<Longrightarrow> (\<And>ns'. connector s' = Some ns' \<Longrightarrow> ns_block_size ns' = cls_block_size cls) \<Longrightarrow> cfg_ok cls s'"
  by (auto simp: cfg_ok_def frame_def intro: same_config_for)

lemma keys_ok_upd:
  assumes "keys_ok s" "objs s' = (objs s)(i := q)" "request_id q = request_id (objs s i)"
    "set (recving s') \<subseteq> insert (request_id q, i) (set (recving s))"
    "set (sending s') \<subseteq> insert (request_id q, i) (set (sending s))"
  shows "keys_ok s'"
proof -
  have "request_id (objs s' j) = request_id (objs s j)" for j using assms(2,3) by simp
  moreover have "request_id (objs s j) = r" if "(r, j) \<in> set (recving s') \<union> set (sending s')" for r j
  proof -
    have "(r, j) = (request_id q, i) \<or> (r, j) \<in> set (recving s) \<union> set (sending s)" using that assms(4,5) by auto
    then show ?thesis using assms(1,3) by (auto simp: keys_ok_def)
  qed
  ultimately show ?thesis unfolding keys_ok_def by auto
qed

section \<open>Preemption\<close>

lemma preempt_ok:
  assumes inv: "sch_inv cls F (i # X) Q s" and nQ: "i \<notin> set Q"
  shows "okE (preempt i out s) (\<lambda>(s', out'). sch_inv cls F X Q s' \<and> frame s s' \<and> running s' = running s \<and>
     out' = out\<lparr>preempted := preempted out @ [i]\<rparr> \<and> (\<forall>j. j \<noteq> i \<longrightarrow> objs s' j = objs s j) \<and>
     sroles X s' = (sroles (i # X) s)(i := InW) \<and> connector s' = connector s)"
proof -
  let ?q = "objs s i"
  let ?q1 = "(drop_pending (?q\<lparr>status := WAITING, is_prefill := True, num_preemptions := num_preemptions ?q + 1\<rparr>))\<lparr>spec_token_ids := []\<rparr>"
  let ?q2 = "?q1\<lparr>num_cached_tokens := 0, num_published_blocks := 0, block_table := []\<rparr>"
  note d = sch_invD [OF inv] and f = cur_facts [OF inv]
  have h: "holding_of ?q1 = holding_of ?q" by (simp add: holding_of_def drop_pending_def)
  have key: "seq_key ?q2 = seq_key ?q" by (simp add: seq_key_def drop_pending_def)
  obtain bm where dl: "deallocate (block_mgr s) ?q1 = Inr (bm, ?q2)"
    and bm: "bm_inv cls bm (others (sroles (i # X) s) i (objs s))" "same_config (block_mgr s) bm"
    using deallocate_ok [of cls "block_mgr s" ?q1] f(4) h by (auto simp: okE_iff)
  let ?s = "s\<lparr>block_mgr := bm, objs := (objs s)(i := ?q2)\<rparr>"
  let ?s' = "?s\<lparr>waiting := w_requeue (key_of ?s i) (waiting s)\<rparr>"
  have run: "preempt i out s = Inr (?s', out\<lparr>preempted := preempted out @ [i]\<rparr>)"
    using dl by (simp add: preempt_def with_bm_def upd_seq_def put_seq_def fun_upd_twist)
  have wk: "w_inv (key_of ?s) (waiting s)" using w_inv_upd [OF key d(3)] by simp
  have rq: "w_inv (key_of ?s) (w_requeue (key_of ?s i) (waiting s)) \<and>
      w_ids (w_requeue (key_of ?s i) (waiting s)) = add_mset i (Wm s)"
    by (rule wq.requeue) (use wk f(3) in \<open>auto simp: seq_key_def drop_pending_def\<close>)
  have fr: "frame s ?s'" using bm by (simp add: frame_def)
  have ro: "sroles X ?s' = (sroles (i # X) s)(i := InW)"
    using rq f(6) roles_R [of i "Wm s" "Rm X s" "Vm s" "Sm s"] by (simp add: sroles_def roles_W queue_ids_def)
  have "sch_inv cls F X Q ?s'"
  proof (rule sch_stepI [OF inv, where i = i and r' = InW and q' = ?q2])
    show "uniq (queue_ids X ?s')" using d(2) rq by (simp add: queue_ids_def)
    show "cfg_ok cls ?s'" by (rule cfg_ok_frame [OF d(1) fr]) (use d(1) in \<open>simp add: cfg_ok_def\<close>)
    show "keys_ok ?s'" by (rule keys_ok_upd [OF d(4), where i = i and q = ?q2]) (auto simp: drop_pending_def)
    show "w_inv (key_of ?s') (waiting ?s')" using rq by simp
    show "role_ok cls (kv_on s) (i \<in> set Q) InW ?q2"
      using f(2) nQ by (auto simp: running_ok_def waiting_ok_def below_limit_def no_load_def drop_pending_def intro: seq_wf_cong)
    show "rows_ok (rows_for F i) InW ?q2"
      using f(5) by (auto simp: rows_ok_def row_ok_def drop_pending_def)
    show "map_of (seqs ?s') r = Some j \<longleftrightarrow> (if j = i then live InW ?q2 \<and> request_id ?q2 = r else map_of (seqs s) r = Some j)" for r j
      using seqs_same [OF d(5), of InW ?q2 i r j] f(1) by (simp add: live_def drop_pending_def)
  qed (use ro f(1,3) bm nQ coreD(7) [OF d(5)] in \<open>auto simp: drop_pending_def\<close>)
  then show ?thesis using run fr ro by simp
qed

section \<open>A running sequence changes in place\<close>

lemma run_facts:
  assumes "sch_inv cls F X Q s" and r: "sroles X s i = InR"
  shows "running_ok cls (kv_on s) (i \<in> set Q) (objs s i)" "seq_id (objs s i) = i"
    "bm_inv cls (block_mgr s) (add_mset (holding_of (objs s i)) (others (sroles X s) i (objs s)))"
    "rows_ok (rows_for F i) InR (objs s i)"
proof -
  note d = sch_invD [OF assms(1)] and c = coreD [OF sch_invD(5) [OF assms(1)]]
  show "running_ok cls (kv_on s) (i \<in> set Q) (objs s i)" using c(4) [of i] r by simp
  show "seq_id (objs s i) = i" using c(3) [of i] r by simp
  show "rows_ok (rows_for F i) InR (objs s i)" using c(6) [of i] r by simp
  show "bm_inv cls (block_mgr s) (add_mset (holding_of (objs s i)) (others (sroles X s) i (objs s)))"
    using core_bm [OF d(5), of i] r by simp
qed

lemma inplace_step:
  assumes inv: "sch_inv cls F X Q s" and r: "sroles X s i = InR"
    and s': "objs s' = (objs s)(i := q')" "waiting s' = waiting s" "running s' = running s" "seqs s' = seqs s"
      "recving s' = recving s" "sending s' = sending s" "connector s' = connector s" "frame s s'"
    and bm: "bm_inv cls (block_mgr s') (add_mset (holding_of q') (others (sroles X s) i (objs s)))"
    and q': "seq_key q' = seq_key (objs s i)" "request_id q' = request_id (objs s i)"
      "running_ok cls (kv_on s) (i \<in> set Q') q'"
    and Q: "\<And>j. j \<noteq> i \<Longrightarrow> j \<in> set Q' \<longleftrightarrow> j \<in> set Q"
    and rows: "rows_ok (rows_for F' i) InR q'" "\<And>j. j \<noteq> i \<Longrightarrow> rows_for F' j = rows_for F j"
  shows "sch_inv cls F' X Q' s' \<and> sroles X s' = sroles X s"
proof -
  note d = sch_invD [OF inv] and f = run_facts [OF inv r]
  have ro: "sroles X s' = sroles X s" by (simp add: sroles_def s')
  have "sch_inv cls F' X Q' s'"
  proof (rule sch_stepI [OF inv, where i = i and r' = InR and q' = q'])
    show "w_inv (key_of s') (waiting s')" using w_inv_upd [OF q'(1) d(3)] by (simp add: s')
    show "keys_ok s'" by (rule keys_ok_upd [OF d(4) s'(1) q'(2)]) (auto simp: s')
    show "cfg_ok cls s'" by (rule cfg_ok_frame [OF d(1) s'(8)]) (use d(1) s' in \<open>simp add: cfg_ok_def\<close>)
    show "seq_id q' = i" using q'(1) f(2) by (simp add: seq_key_def)
    show "map_of (seqs s') x = Some j \<longleftrightarrow> (if j = i then live InR q' \<and> request_id q' = x else map_of (seqs s) x = Some j)" for x j
      using seqs_same [OF d(5), of InR q' i x j] r q' by (simp add: live_def s')
  qed (use s' ro r q' bm Q rows d(2) coreD(7) [OF d(5)] in \<open>auto simp: queue_ids_def\<close>)
  then show ?thesis using ro by simp
qed

section \<open>A request ends\<close>

text \<open>The last step of ending one: it is finished and off its queue and the index.\<close>

lemma end_step:
  assumes inv: "sch_inv cls F X Q s" and i: "sroles X s i \<noteq> Out" "i \<notin> set Q"
    and s': "objs s' = (objs s)(i := q')" "sroles X' s' = (sroles X s)(i := r')" "uniq (queue_ids X' s')"
      "w_inv (key_of s) (waiting s')" "seqs s' = dict_del (seqs s) (request_id (objs s i))" "frame s s'"
      "\<And>ns. connector s' = Some ns \<Longrightarrow> ns_block_size ns = cls_block_size cls"
      "set (recving s') \<subseteq> set (recving s)" "set (sending s') \<subseteq> insert (request_id q', i) (set (sending s))"
    and q': "seq_key q' = seq_key (objs s i)" "request_id q' = request_id (objs s i)" "is_finished q'"
      "num_preemptions q' = num_preemptions (objs s i)" "seq_wf cls q'"
    and r': "r' = Out \<or> r' = InS"
    and bm: "bm_inv cls (block_mgr s') (own r' q' + others (sroles X s) i (objs s))"
  shows "sch_inv cls F X' Q s'"
proof -
  note d = sch_invD [OF inv]
  have dead: "\<not> live r' q'" using r' q'(3) by (auto simp: live_def)
  show ?thesis
  proof (rule sch_stepI [OF inv, where i = i and r' = r' and q' = q'])
    show "w_inv (key_of s') (waiting s')" using w_inv_upd [OF q'(1) s'(4)] by (simp add: s'(1))
    show "keys_ok s'" by (rule keys_ok_upd [OF d(4) s'(1) q'(2)]) (use s' in auto)
    show "cfg_ok cls s'" by (rule cfg_ok_frame [OF d(1) s'(6,7)])
    show "seq_id q' = i" using q'(1) coreD(3) [OF d(5) i(1)] by (simp add: seq_key_def)
    show "rows_ok (rows_for F i) r' q'"
      using coreD(6) [OF d(5), of i] q' r' by (auto simp: rows_ok_def row_ok_def)
    show "wf_dict (seqs s')" "map_of (seqs s') r = Some j \<longleftrightarrow>
        (if j = i then live r' q' \<and> request_id q' = r else map_of (seqs s) r = Some j)" for r j
      unfolding s'(5) using seqs_delete [OF d(5) i(1) dead] by blast+
  qed (use s' i q' bm r' in \<open>auto simp: frame_def\<close>)
qed

lemma sending_fresh:
  assumes inv: "sch_inv cls F X Q s" and i: "sroles X s i \<noteq> Out" "sroles X s i \<noteq> InS"
  shows "request_id (objs s i) \<notin> dict_keys (sending s)"
proof
  assume "request_id (objs s i) \<in> dict_keys (sending s)"
  then obtain j where j: "(request_id (objs s i), j) \<in> set (sending s)" by auto
  then have "sroles X s j = InS"
    using sroles_iff(4) [OF sch_invD(2) [OF inv], of j] by (force simp: rev_image_eqI)
  moreover have "request_id (objs s j) = request_id (objs s i)" using j sch_invD(4) [OF inv] by (auto simp: keys_ok_def)
  ultimately show False using coreD(2) [OF sch_invD(5) [OF inv], of i j] i by auto
qed

text \<open>\<open>_free\<close> after a request ended: its blocks go back, or are held for a remote reader.\<close>

lemma held_bm:
  assumes inv: "sch_inv cls F X Q s" and i: "sroles X s i = InW \<or> sroles X s i = InR"
  shows "bm_inv cls (block_mgr s) (add_mset (holding_of (objs s i)) (others (sroles X s) i (objs s)))"
proof (cases "sroles X s i = InR")
  case True
  then show ?thesis using core_bm [OF sch_invD(5) [OF inv], of i] by simp
next
  case False
  then have "waiting_ok cls (kv_on s) (objs s i)" using i coreD(4) [OF sch_invD(5) [OF inv], of i] by auto
  then show ?thesis using core_bm [OF sch_invD(5) [OF inv], of i] False i
    by (auto simp: waiting_ok_def holding_of_def bm_inv_no_blocks)
qed

lemma free_end:
  assumes inv: "sch_inv cls F X Q s" and i: "sroles X s i = InW \<or> sroles X s i = InR" "i \<notin> set Q"
    and s1: "objs s1 = (objs s)(i := q1)" "block_mgr s1 = block_mgr s" "connector s1 = connector s"
      "recving s1 = recving s" "sending s1 = sending s" "frame s s1"
      "seqs s1 = dict_del (seqs s) (request_id (objs s i))" "w_inv (key_of s) (waiting s1)"
      "queue_ids X s = add_mset i (queue_ids X' s1)" "sroles X' s1 = (sroles X s)(i := Out)"
    and q1: "seq_key q1 = seq_key (objs s i)" "request_id q1 = request_id (objs s i)" "is_finished q1"
      "num_preemptions q1 = num_preemptions (objs s i)" "seq_wf cls q1"
    and bm: "bm_inv cls (block_mgr s) (add_mset (holding_of q1) (others (sroles X s) i (objs s)))"
  shows "okE (free_seq i s1) (\<lambda>s'. sch_inv cls F X' Q s' \<and> frame s s' \<and> (\<forall>j. j \<noteq> i \<longrightarrow> objs s' j = objs s j) \<and>
     is_finished (objs s' i) \<and> running s' = running s1 \<and> waiting s' = waiting s1 \<and>
     token_ids (objs s' i) = token_ids q1 \<and> num_new_tokens (objs s' i) = num_new_tokens q1 \<and> sroles X' s' i \<in> {Out, InS} \<and>
     (\<forall>j. j \<noteq> i \<longrightarrow> sroles X' s' j = sroles X s j))"
proof -
  let ?M = "others (sroles X s) i (objs s)"
  note d = sch_invD [OF inv]
  have ne: "sroles X s i \<noteq> Out" "sroles X s i \<noteq> InS" using i(1) by auto
  have u: "uniq (queue_ids X' s1)" "i \<notin># queue_ids X' s1" using d(2) s1(9) by auto
  have give: "okE (with_bm deallocate i s2) (\<lambda>s'. sch_inv cls F X' Q s' \<and> frame s s' \<and> (\<forall>j. j \<noteq> i \<longrightarrow> objs s' j = objs s j) \<and>
     is_finished (objs s' i) \<and> running s' = running s1 \<and> waiting s' = waiting s1 \<and>
     token_ids (objs s' i) = token_ids q1 \<and> num_new_tokens (objs s' i) = num_new_tokens q1 \<and> sroles X' s' i \<in> {Out, InS} \<and>
     (\<forall>j. j \<noteq> i \<longrightarrow> sroles X' s' j = sroles X s j))"
    if s2: "s2 = s1\<lparr>connector := con, objs := (objs s1)(i := q1\<lparr>kv_transfer_result := res\<rparr>)\<rparr>"
      and con: "(con \<noteq> None) = kv_on s" "\<And>ns. con = Some ns \<Longrightarrow> ns_block_size ns = cls_block_size cls" for s2 res con
  proof -
    let ?q = "q1\<lparr>kv_transfer_result := res\<rparr>"
    let ?q2 = "?q\<lparr>num_cached_tokens := 0, num_published_blocks := 0, block_table := []\<rparr>"
    have "holding_of ?q = holding_of q1" by (simp add: holding_of_def)
    then obtain bm' where dl: "deallocate (block_mgr s) ?q = Inr (bm', ?q2)" and b: "bm_inv cls bm' ?M" "same_config (block_mgr s) bm'"
      using deallocate_ok [of cls "block_mgr s" ?q ?M] bm by (auto simp: okE_iff)
    let ?s' = "s2\<lparr>block_mgr := bm', objs := (objs s)(i := ?q2)\<rparr>"
    have run: "with_bm deallocate i s2 = Inr ?s'"
      using dl s1 s2 by (simp add: with_bm_def put_seq_def)
    have fr: "frame s ?s'" using s1(6) s2 b con by (simp add: frame_def)
    have ro: "sroles X' ?s' = (sroles X s)(i := Out)" using s1(10) s2 by (simp add: sroles_def)
    have "sch_inv cls F X' Q ?s'"
      by (rule end_step [OF inv ne(1) i(2), where q' = ?q2 and r' = Out])
         (use s1 s2 q1 b con fr ro u in \<open>auto simp: seq_key_def queue_ids_def is_finished_def seq_wf_def hashes_ok_def\<close>)
    then show ?thesis using run fr ro q1(3) by (simp add: s1 s2 is_finished_def)
  qed
  show ?thesis
  proof (cases "connector s")
    case None
    have "s1 = s1\<lparr>connector := None, objs := (objs s1)(i := q1\<lparr>kv_transfer_result := kv_transfer_result q1\<rparr>)\<rparr>"
      using s1 None by simp
    from give [OF this] s1(3) None d(1) show ?thesis using None s1(3) by (simp add: free_seq_def)
  next
    case (Some ns)
    obtain hold res ns' where rf: "request_finished ns q1 = (hold, res, ns')" by (cases "request_finished ns q1") auto
    have bs: "ns_block_size ns' = cls_block_size cls"
      using rf d(1) Some by (auto simp: request_finished_def cfg_ok_def Let_def split: if_splits)
    let ?q = "q1\<lparr>kv_transfer_result := res\<rparr>"
    let ?s2 = "s1\<lparr>connector := Some ns', objs := (objs s1)(i := ?q)\<rparr>"
    show ?thesis
    proof (cases hold)
      case False
      then show ?thesis using give [of ?s2 res "Some ns'"] Some s1 rf bs
        by (simp add: free_seq_def upd_seq_def put_seq_def)
    next
      case True
      let ?s' = "?s2\<lparr>sending := sending s @ [(request_id q1, i)]\<rparr>"
      have run: "free_seq i s1 = Inr ?s'"
        using True Some s1 rf sending_fresh [OF inv ne] q1(2)
        by (simp add: free_seq_def upd_seq_def put_seq_def dict_put_new)
      have fr: "frame s ?s'" using s1(6) Some s1(2) by (simp add: frame_def)
      have ro: "sroles X' ?s' = (sroles X s)(i := InS)"
        using s1(10) u(2) roles_S [of i "Wm s1" "Rm X' s1" "Vm s1" "Sm s1"] s1(5)
        by (simp add: sroles_def queue_ids_def)
      have "sch_inv cls F X' Q ?s'"
        by (rule end_step [OF inv ne(1) i(2), where q' = ?q and r' = InS])
           (use s1 q1 bm bs fr ro u in \<open>auto simp: seq_key_def queue_ids_def is_finished_def holding_of_def seq_wf_def hashes_ok_def\<close>)
      then show ?thesis using run fr ro q1(3) by (simp add: s1 is_finished_def)
    qed
  qed
qed

text \<open>\<open>_drop\<close> of a sequence that holds no blocks any more.\<close>

lemma drop_end:
  assumes inv: "sch_inv cls F X Q s" and i: "sroles X s i = InW \<or> sroles X s i = InR" "i \<notin> set Q"
    and s1: "objs s1 = (objs s)(i := q1)" "connector s1 = connector s" "seqs s1 = seqs s"
      "recving s1 = recving s" "sending s1 = sending s" "frame s s1" "w_inv (key_of s) (waiting s1)"
      "queue_ids X s = add_mset i (queue_ids X' s1)" "sroles X' s1 = (sroles X s)(i := Out)"
    and q1: "seq_key q1 = seq_key (objs s i)" "request_id q1 = request_id (objs s i)"
      "num_preemptions q1 = num_preemptions (objs s i)" "seq_wf cls q1"
    and bm: "bm_inv cls (block_mgr s1) (others (sroles X s) i (objs s))"
  shows "okE (drop_to i reason out s1) (\<lambda>(s', out'). sch_inv cls F X' Q s' \<and> frame s s' \<and>
     out' = out\<lparr>dropped := dropped out @ [i]\<rparr> \<and> (\<forall>j. j \<noteq> i \<longrightarrow> objs s' j = objs s j) \<and> is_finished (objs s' i) \<and>
     running s' = running s1 \<and> waiting s' = waiting s1 \<and> connector s' = connector s \<and>
     sroles X' s' = (sroles X s)(i := Out))"
proof -
  let ?q = "drop_pending (q1\<lparr>status := FINISHED, finish_reason := Some reason, finish_time := Some (clock s1 (ticks s1))\<rparr>)"
  let ?s' = "s1\<lparr>ticks := Suc (ticks s1), objs := (objs s)(i := ?q), seqs := dict_del (seqs s) (request_id (objs s i))\<rparr>"
  note d = sch_invD [OF inv]
  have ne: "sroles X s i \<noteq> Out" using i by auto
  have key: "request_id (objs s i) \<in> dict_keys (seqs s)"
    using coreD(8) [OF d(5), of "request_id (objs s i)" i] i(1) by (intro map_of_SomeD_key [of _ _ i]) (auto simp: live_def)
  have run: "drop_to i reason out s1 = Inr (?s', out\<lparr>dropped := dropped out @ [i]\<rparr>)"
    using key q1(2) s1(1,3)
    by (simp add: drop_to_def drop_seq_def finish_def perf_counter_def upd_seq_def put_seq_def drop_pending_def Let_def)
  have fr: "frame s ?s'" using s1(6) by (simp add: frame_def)
  have ro: "sroles X' ?s' = (sroles X s)(i := Out)" using s1(9) by (simp add: sroles_def)
  have "sch_inv cls F X' Q ?s'"
    by (rule end_step [OF inv ne i(2), where q' = ?q and r' = Out])
       (use s1 q1 bm fr ro d in \<open>auto simp: seq_key_def queue_ids_def is_finished_def drop_pending_def seq_wf_def hashes_ok_def cfg_ok_def\<close>)
  then show ?thesis using run fr ro s1 by (simp add: is_finished_def drop_pending_def)
qed

lemma drop_running_ok:
  assumes inv: "sch_inv cls F (i # X) Q s" and nQ: "i \<notin> set Q"
  shows "okE (bindE (with_bm deallocate i s) (drop_to i reason out)) (\<lambda>(s', out'). sch_inv cls F X Q s' \<and> frame s s' \<and>
     out' = out\<lparr>dropped := dropped out @ [i]\<rparr> \<and> (\<forall>j. j \<noteq> i \<longrightarrow> objs s' j = objs s j) \<and> is_finished (objs s' i) \<and>
     running s' = running s \<and> connector s' = connector s \<and> sroles X s' = (sroles (i # X) s)(i := Out))"
proof -
  let ?q = "(objs s i)\<lparr>num_cached_tokens := 0, num_published_blocks := 0, block_table := []\<rparr>"
  note d = sch_invD [OF inv] and f = cur_facts [OF inv]
  obtain bm where dl: "deallocate (block_mgr s) (objs s i) = Inr (bm, ?q)"
    and bm: "bm_inv cls bm (others (sroles (i # X) s) i (objs s))" "same_config (block_mgr s) bm"
    using deallocate_ok [OF f(4)] by (auto simp: okE_iff)
  let ?s1 = "s\<lparr>block_mgr := bm, objs := (objs s)(i := ?q)\<rparr>"
  have q: "queue_ids (i # X) s = add_mset i (queue_ids X ?s1)" by (simp add: queue_ids_def)
  have ro: "sroles X ?s1 = (sroles (i # X) s)(i := Out)"
    using f(6) roles_Out [of i "Wm s" "Rm X s" "Vm s" "Sm s"] roles_R [of i "Wm s" "Rm X s" "Vm s" "Sm s"]
    by (simp add: sroles_def queue_ids_def fun_upd_idem_iff)
  have wf: "seq_wf cls ?q" using f(2) by (auto simp: running_ok_def seq_wf_def hashes_ok_def)
  have "okE (drop_to i reason out ?s1) (\<lambda>(s', out'). sch_inv cls F X Q s' \<and> frame s s' \<and>
     out' = out\<lparr>dropped := dropped out @ [i]\<rparr> \<and> (\<forall>j. j \<noteq> i \<longrightarrow> objs s' j = objs s j) \<and> is_finished (objs s' i) \<and>
     running s' = running ?s1 \<and> waiting s' = waiting ?s1 \<and> connector s' = connector s \<and>
     sroles X s' = (sroles (i # X) s)(i := Out))"
    by (rule drop_end [OF inv _ nQ _ _ _ _ _ _ _ q ro])
       (use f wf bm d in \<open>auto simp: frame_def seq_key_def\<close>)
  then show ?thesis
    using dl by (simp add: okE_bind okE_with_bm put_seq_def) (erule okE_mono, auto)
qed

text \<open>The head of the waiting queue leaves it.\<close>

lemma head_facts:
  assumes inv: "sch_inv cls F X Q s" and peek: "w_peek (waiting s) = Inr i" and ne: "0 < w_len (waiting s)"
  shows "\<exists>w. w_pop (waiting s) = Inr (i, w) \<and> w_inv (key_of s) w \<and> Wm s = add_mset i (w_ids w) \<and>
      sroles X s i = InW \<and> i \<notin> set Q \<and> waiting_ok cls (kv_on s) (objs s i) \<and> seq_id (objs s i) = i \<and>
      queue_ids X s = add_mset i (queue_ids X (s\<lparr>waiting := w\<rparr>)) \<and>
      sroles X (s\<lparr>waiting := w\<rparr>) = (sroles X s)(i := Out)"
proof -
  note d = sch_invD [OF inv] and c = coreD [OF sch_invD(5) [OF inv]]
  have "w_ids (waiting s) \<noteq> {#}" using wq.len_pos [of "waiting s"] ne by blast
  then obtain w where w: "w_pop (waiting s) = Inr (i, w)" "w_inv (key_of s) w" "Wm s = add_mset i (w_ids w)"
    using wq.pop [OF d(3)] peek by (auto simp: okE_iff)
  have r: "sroles X s i = InW" using sroles_iff(1) [OF d(2)] w(3) by simp
  have q: "queue_ids X s = add_mset i (queue_ids X (s\<lparr>waiting := w\<rparr>))" using w(3) by (simp add: queue_ids_def)
  then have "i \<notin># w_ids w + Rm X s + Vm s + Sm s" using d(2) by (simp add: queue_ids_def)
  then have "sroles X (s\<lparr>waiting := w\<rparr>) = (sroles X s)(i := Out)"
    using roles_Out [of i "w_ids w" "Rm X s" "Vm s" "Sm s"] w(3) by (simp add: sroles_def roles_W fun_upd_idem_iff)
  moreover have "i \<notin> set Q" using c(5) [of i] r by auto
  ultimately show ?thesis using w r q c(3,4) [of i] by auto
qed

lemma drop_waiting_ok:
  assumes inv: "sch_inv cls F X Q s" and peek: "w_peek (waiting s) = Inr i" and ne: "0 < w_len (waiting s)"
  shows "okE (bindE (w_pop (waiting s)) (\<lambda>(_, w). drop_to i reason out (s\<lparr>waiting := w\<rparr>)))
    (\<lambda>(s', out'). sch_inv cls F X Q s' \<and> frame s s' \<and> out' = out\<lparr>dropped := dropped out @ [i]\<rparr> \<and>
      (\<forall>j. j \<noteq> i \<longrightarrow> objs s' j = objs s j) \<and> is_finished (objs s' i) \<and> running s' = running s \<and>
      connector s' = connector s \<and> sroles X s' = (sroles X s)(i := Out) \<and> sroles X s i = InW)"
proof -
  note d = sch_invD [OF inv]
  obtain w where w: "w_pop (waiting s) = Inr (i, w)" "w_inv (key_of s) w"
    "sroles X s i = InW" "i \<notin> set Q" "waiting_ok cls (kv_on s) (objs s i)"
    "queue_ids X s = add_mset i (queue_ids X (s\<lparr>waiting := w\<rparr>))" "sroles X (s\<lparr>waiting := w\<rparr>) = (sroles X s)(i := Out)"
    using head_facts [OF assms] by blast
  have "okE (drop_to i reason out (s\<lparr>waiting := w\<rparr>)) (\<lambda>(s', out'). sch_inv cls F X Q s' \<and> frame s s' \<and>
     out' = out\<lparr>dropped := dropped out @ [i]\<rparr> \<and> (\<forall>j. j \<noteq> i \<longrightarrow> objs s' j = objs s j) \<and> is_finished (objs s' i) \<and>
     running s' = running (s\<lparr>waiting := w\<rparr>) \<and> waiting s' = waiting (s\<lparr>waiting := w\<rparr>) \<and> connector s' = connector s \<and>
     sroles X s' = (sroles X s)(i := Out))"
    by (rule drop_end [OF inv _ w(4) _ _ _ _ _ _ _ w(6,7), where ?q1.0 = "objs s i"])
       (use w core_bm [OF d(5), of i] in \<open>auto simp: frame_def waiting_ok_def\<close>)
  then show ?thesis using w(1,3) by simp (erule okE_mono, auto)
qed

section \<open>Scheduling one sequence\<close>

lemma schedule_tokens_bounds:
  assumes "cfg_ok cls s" "running_ok cls kv False (objs s i)" "0 \<le> budget"
    and "\<not> is_prefill (objs s i) \<Longrightarrow> 1 + py_len (spec_token_ids (objs s i)) \<le> budget"
  shows "0 \<le> schedule_tokens s i budget" "schedule_tokens s i budget \<le> budget"
    "0 < budget \<Longrightarrow> 0 < schedule_tokens s i budget"
    "is_prefill (objs s i) \<Longrightarrow> schedule_tokens s i budget \<le> num_tokens (objs s i) - num_cached_tokens (objs s i)"
    "\<not> is_prefill (objs s i) \<Longrightarrow> schedule_tokens s i budget = 1 + py_len (spec_token_ids (objs s i))"
proof -
  have p: "num_cached_tokens (objs s i) < num_tokens (objs s i)" if "is_prefill (objs s i)"
    using that assms(2) by (simp add: running_ok_def prefill_ok_def)
  have t: "0 \<le> long_prefill_token_threshold s" using assms(1) by (simp add: cfg_ok_def)
  show "0 \<le> schedule_tokens s i budget" "schedule_tokens s i budget \<le> budget"
    "0 < budget \<Longrightarrow> 0 < schedule_tokens s i budget"
    "is_prefill (objs s i) \<Longrightarrow> schedule_tokens s i budget \<le> num_tokens (objs s i) - num_cached_tokens (objs s i)"
    "\<not> is_prefill (objs s i) \<Longrightarrow> schedule_tokens s i budget = 1 + py_len (spec_token_ids (objs s i))"
    using p t assms(3,4) by (auto simp: schedule_tokens_def Let_def py_len_def)
qed

lemma schedule_seq_ok:
  assumes inv: "sch_inv cls F (i # X) (scheduled out) s" and nQ: "i \<notin> set (scheduled out)" and b: "0 \<le> budget"
    and dec: "\<not> is_prefill (objs s i) \<Longrightarrow>
        num_planned_tokens (objs s i) + (1 + py_len (spec_token_ids (objs s i))) - num_prompt_tokens (objs s i) \<le> max_tokens (objs s i) \<and>
        num_cached_tokens (objs s i) + (1 + py_len (spec_token_ids (objs s i))) \<le> int (length (block_table (objs s i))) * cls_block_size cls \<and>
        1 + py_len (spec_token_ids (objs s i)) \<le> budget"
    and run: "schedule_seq i budget out s = (n, s', out')"
  shows "sch_inv cls F (i # X) (scheduled out') s'" "frame s s'" "sroles (i # X) s' = sroles (i # X) s"
    "running s' = running s" "\<And>j. j \<noteq> i \<Longrightarrow> objs s' j = objs s j" "num_scheduled_tokens (objs s' i) = n"
    "0 \<le> n" "n \<le> budget" "0 < budget \<Longrightarrow> 0 < n" "scheduled out' = scheduled out @ [i]" "preempted out' = preempted out"
    "dropped out' = dropped out"
    "num_prefill_tokens out' + num_decode_tokens out' = num_prefill_tokens out + num_decode_tokens out + n"
proof -
  let ?q = "objs s i"
  note d = sch_invD [OF inv] and f = cur_facts [OF inv]
  have ok: "running_ok cls (kv_on s) False ?q" using f(2) nQ by simp
  note t = schedule_tokens_bounds [OF d(1) ok b]
  have n: "n = schedule_tokens s i budget" using run by (auto simp: schedule_seq_def Let_def)
  obtain ft tk where s': "s' = s\<lparr>objs := (objs s)(i := ?q\<lparr>num_scheduled_tokens := n, first_scheduled_time := ft\<rparr>), ticks := tk\<rparr>"
  proof (cases "first_scheduled_time ?q")
    case None
    then have "s' = s\<lparr>objs := (objs s)(i := ?q\<lparr>num_scheduled_tokens := n, first_scheduled_time := Some (clock s (ticks s))\<rparr>), ticks := Suc (ticks s)\<rparr>"
      using run by (auto simp: schedule_seq_def Let_def upd_seq_def put_seq_def perf_counter_def)
    then show ?thesis by (rule that)
  next
    case (Some x)
    then have "s' = s\<lparr>objs := (objs s)(i := ?q\<lparr>num_scheduled_tokens := n\<rparr>), ticks := ticks s\<rparr>"
      using run by (auto simp: schedule_seq_def Let_def upd_seq_def put_seq_def)
    moreover have "?q\<lparr>num_scheduled_tokens := n\<rparr> = ?q\<lparr>num_scheduled_tokens := n, first_scheduled_time := first_scheduled_time ?q\<rparr>"
      by simp
    ultimately show ?thesis using that by metis
  qed
  let ?q' = "?q\<lparr>num_scheduled_tokens := n, first_scheduled_time := ft\<rparr>"
  show o: "scheduled out' = scheduled out @ [i]" "preempted out' = preempted out" "dropped out' = dropped out"
    "num_prefill_tokens out' + num_decode_tokens out' = num_prefill_tokens out + num_decode_tokens out + n"
    using run by (auto simp: schedule_seq_def Let_def)
  show fr: "frame s s'" by (simp add: s' frame_def)
  have "running_ok cls (kv_on s) (i \<in> set (scheduled out')) ?q'"
    using ok t dec n o(1)
    by (auto simp: running_ok_def prefill_ok_def decode_ok_def below_limit_def no_load_def num_planned_tokens_def
        seq_wf_def hashes_ok_def)
  then have "sch_inv cls F (i # X) (scheduled out') s' \<and> sroles (i # X) s' = sroles (i # X) s"
    using f(4,5) o(1)
    by (intro inplace_step [OF inv cur_facts(1) [OF inv], where q' = ?q']) (auto simp: s' frame_def seq_key_def holding_of_def rows_ok_def row_ok_def is_finished_def)
  then show "sch_inv cls F (i # X) (scheduled out') s'" "sroles (i # X) s' = sroles (i # X) s" by simp_all
  show "running s' = running s" "\<And>j. j \<noteq> i \<Longrightarrow> objs s' j = objs s j" "num_scheduled_tokens (objs s' i) = n"
    by (simp_all add: s')
  show "0 \<le> n" "n \<le> budget" "0 < budget \<Longrightarrow> 0 < n" using t n dec by auto
qed

section \<open>The step under construction\<close>

text \<open>
  What holds of the output while a step is built: \<open>B\<close> is the budget at the start, \<open>budget\<close>
  what is left.
\<close>

definition out_ok :: "int \<Rightarrow> int \<Rightarrow> nat list \<Rightarrow> scheduler \<Rightarrow> scheduler_output \<Rightarrow> bool" where
  "out_ok B budget X s out \<longleftrightarrow> distinct (scheduled out) \<and>
     int (length (scheduled out)) \<le> max 0 (max_num_seqs s) \<and>
     (\<Sum>i \<leftarrow> scheduled out. num_scheduled_tokens (objs s i)) = B - budget \<and>
     num_prefill_tokens out + num_decode_tokens out = B - budget \<and>
     (enable_chunked_prefill s \<or> \<not> kv_on s \<longrightarrow> (\<forall>i \<in> set (scheduled out). 0 < num_scheduled_tokens (objs s i))) \<and>
     (\<forall>i \<in> set (preempted out). sroles X s i = InW) \<and>
     (\<forall>i \<in> set (dropped out). sroles X s i = Out \<and> is_finished (objs s i))"

definition step_inv :: "seq_class \<Rightarrow> launched_row multiset \<Rightarrow> int \<Rightarrow> int \<Rightarrow> nat list \<Rightarrow> scheduler \<Rightarrow> scheduler_output \<Rightarrow> bool" where
  "step_inv cls F B budget X s out \<longleftrightarrow> sch_inv cls F X (scheduled out) s \<and> out_ok B budget X s out"

text \<open>A transition of a sequence not scheduled in this step keeps what the output says.\<close>

lemma out_ok_step:
  assumes "out_ok B budget X s out" and "i \<notin> set (scheduled out)" "frame s s'"
    and "\<And>j. j \<noteq> i \<Longrightarrow> objs s' j = objs s j" "sroles X' s' = (sroles X s)(i := r')" "sroles X s i \<noteq> Out"
    and "r' = InW \<or> i \<notin> set (preempted out)"
    and "scheduled out' = scheduled out" "num_prefill_tokens out' = num_prefill_tokens out"
      "num_decode_tokens out' = num_decode_tokens out"
    and "preempted out' = preempted out \<and> dropped out' = dropped out \<or>
      preempted out' = preempted out @ [i] \<and> r' = InW \<and> dropped out' = dropped out \<or>
      preempted out' = preempted out \<and> dropped out' = dropped out @ [i] \<and> r' = Out \<and> is_finished (objs s' i)"
  shows "out_ok B budget X' s' out'"
proof -
  have o: "objs s' j = objs s j" if "j \<in> set (scheduled out)" for j using that assms(2,4) by metis
  have "(\<Sum>j \<leftarrow> scheduled out. num_scheduled_tokens (objs s' j)) = (\<Sum>j \<leftarrow> scheduled out. num_scheduled_tokens (objs s j))"
    by (rule arg_cong [where f = sum_list]) (simp add: o)
  moreover have "max_num_seqs s' = max_num_seqs s" "enable_chunked_prefill s' = enable_chunked_prefill s" "kv_on s' = kv_on s"
    using assms(3) by (simp_all add: frame_def)
  moreover have "\<forall>j \<in> set (preempted out'). sroles X' s' j = InW"
  proof
    fix j assume "j \<in> set (preempted out')"
    then have "j = i \<and> r' = InW \<or> j \<noteq> i \<and> j \<in> set (preempted out)" using assms(7,11) by auto
    then show "sroles X' s' j = InW" using assms(1,5) by (auto simp: out_ok_def)
  qed
  moreover have "\<forall>j \<in> set (dropped out'). sroles X' s' j = Out \<and> is_finished (objs s' j)"
  proof
    fix j assume "j \<in> set (dropped out')"
    then have "j = i \<and> r' = Out \<and> is_finished (objs s' i) \<or> j \<noteq> i \<and> j \<in> set (dropped out)"
      using assms(1,6,11) by (auto simp: out_ok_def)
    then show "sroles X' s' j = Out \<and> is_finished (objs s' j)" using assms(1,4,5) by (auto simp: out_ok_def)
  qed
  ultimately show ?thesis using assms(1,8,9,10) o unfolding out_ok_def by simp
qed

lemma step_inv_shift:
  assumes "mset X' + mset run = mset X + mset (running s)"
  shows "step_inv cls F B budget X' (s\<lparr>running := run\<rparr>) out = step_inv cls F B budget X s out"
  using assms by (simp add: step_inv_def sch_inv_shift out_ok_def sroles_def)

lemma step_invD: "step_inv cls F B budget X s out \<Longrightarrow> sch_inv cls F X (scheduled out) s" "step_inv cls F B budget X s out \<Longrightarrow> out_ok B budget X s out"
  by (simp_all add: step_inv_def)

lemma cur_notin: "sch_inv cls F (i # X) Q s \<Longrightarrow> i \<notin> set X" "sch_inv cls F (i # X) Q s \<Longrightarrow> i \<notin> set (running s)"
  using cur_facts(6) by (auto simp: queue_ids_def)

lemma preempt_step:
  assumes inv: "step_inv cls F B budget (v # X) s out" and v: "v \<notin> set (scheduled out)"
  shows "okE (preempt v out s) (\<lambda>(s', out'). step_inv cls F B budget X s' out' \<and> frame s s' \<and> running s' = running s \<and>
    scheduled out' = scheduled out \<and> (\<forall>j. j \<noteq> v \<longrightarrow> objs s' j = objs s j))"
proof (rule okE_mono [OF preempt_ok [OF step_invD(1) [OF inv] v]], clarify)
  fix s' out'
  assume a: "sch_inv cls F X (scheduled out) s'" "frame s s'" "running s' = running s"
    "\<forall>j. j \<noteq> v \<longrightarrow> objs s' j = objs s j" "sroles X s' = (sroles (v # X) s)(v := InW)"
  have "out_ok B budget X s' (out\<lparr>preempted := preempted out @ [v]\<rparr>)"
    by (rule out_ok_step [OF step_invD(2) [OF inv] v a(2)]) (use a cur_facts(1) [OF step_invD(1) [OF inv]] in auto)
  then show "step_inv cls F B budget X s' (out\<lparr>preempted := preempted out @ [v]\<rparr>) \<and> frame s s' \<and> running s' = running s \<and>
    scheduled (out\<lparr>preempted := preempted out @ [v]\<rparr>) = scheduled out \<and> (\<forall>j. j \<noteq> v \<longrightarrow> objs s' j = objs s j)"
    using a by (simp add: step_inv_def)
qed

lemma drop_running_step:
  assumes inv: "step_inv cls F B budget (i # X) s out" and i: "i \<notin> set (scheduled out)"
  shows "okE (bindE (with_bm deallocate i s) (drop_to i reason out)) (\<lambda>(s', out'). step_inv cls F B budget X s' out' \<and> frame s s' \<and>
     running s' = running s \<and> scheduled out' = scheduled out \<and> (\<forall>j. j \<noteq> i \<longrightarrow> objs s' j = objs s j))"
proof (rule okE_mono [OF drop_running_ok [OF step_invD(1) [OF inv] i]], clarify)
  fix s' out'
  assume a: "sch_inv cls F X (scheduled out) s'" "frame s s'" "running s' = running s" "is_finished (objs s' i)"
    "\<forall>j. j \<noteq> i \<longrightarrow> objs s' j = objs s j" "sroles X s' = (sroles (i # X) s)(i := Out)"
  have np: "i \<notin> set (preempted out)"
    using step_invD(2) [OF inv] cur_facts(1) [OF step_invD(1) [OF inv]] by (auto simp: out_ok_def)
  have "out_ok B budget X s' (out\<lparr>dropped := dropped out @ [i]\<rparr>)"
    by (rule out_ok_step [OF step_invD(2) [OF inv] i a(2)]) (use a np cur_facts(1) [OF step_invD(1) [OF inv]] in auto)
  then show "step_inv cls F B budget X s' (out\<lparr>dropped := dropped out @ [i]\<rparr>) \<and> frame s s' \<and> running s' = running s \<and>
    scheduled (out\<lparr>dropped := dropped out @ [i]\<rparr>) = scheduled out \<and> (\<forall>j. j \<noteq> i \<longrightarrow> objs s' j = objs s j)"
    using a by (simp add: step_inv_def)
qed

section \<open>Making room\<close>

definition room_post ::
  "seq_class \<Rightarrow> launched_row multiset \<Rightarrow> int \<Rightarrow> int \<Rightarrow> nat \<Rightarrow> int \<Rightarrow> nat list \<Rightarrow> scheduler \<Rightarrow> scheduler_output \<Rightarrow>
     bool \<times> nat list \<times> scheduler \<times> scheduler_output \<Rightarrow> bool" where
  "room_post cls F B budget i la still s out = (\<lambda>(ok, still', s', out').
     scheduled out' = scheduled out \<and> frame s s' \<and>
     (if ok then still' = still \<and> step_inv cls F B budget (i # still) s' out' \<and> objs s' i = objs s i \<and>
        can_append (block_mgr s') (objs s' i) la
      else set still \<subseteq> set still' \<and> step_inv cls F B budget still' s' out'))"

lemma room_post_trans:
  assumes "room_post cls F B budget i la still s2 out2 r" "frame s s2" "scheduled out2 = scheduled out" "objs s2 i = objs s i"
  shows "room_post cls F B budget i la still s out r"
  using assms by (auto simp: room_post_def intro: frame_trans split: if_splits)

lemma victim_step:
  assumes inv: "step_inv cls F B budget (i # still) s out" and sub: "set (scheduled out) \<subseteq> set still" and ne: "running s \<noteq> []"
  shows "okE (w_victim (key_of s) (waiting s) (running s)) (\<lambda>v. okE (running_remove v s) (\<lambda>s1.
     okE (preempt v out s1) (\<lambda>(s2, out2). step_inv cls F B budget (i # still) s2 out2 \<and> frame s s2 \<and>
       scheduled out2 = scheduled out \<and> objs s2 i = objs s i)))"
proof (rule okE_mono [OF w_victim_mem [OF ne]])
  fix v
  assume v: "v \<in> set (running s)"
  let ?s = "s\<lparr>running := remove1 v (running s)\<rparr>"
  have inv1: "step_inv cls F B budget (v # i # still) ?s out"
    using inv v by (subst step_inv_shift [of _ _ "i # still"]) (simp_all add: add_mset_commute)
  have vi: "v \<noteq> i" "v \<notin> set (scheduled out)" using cur_notin(1) [OF step_invD(1) [OF inv1]] sub by auto
  have "okE (preempt v out ?s) (\<lambda>(s2, out2). step_inv cls F B budget (i # still) s2 out2 \<and> frame s s2 \<and>
       scheduled out2 = scheduled out \<and> objs s2 i = objs s i)"
    by (rule okE_mono [OF preempt_step [OF inv1 vi(2)]]) (use vi in \<open>auto simp: frame_def\<close>)
  then show "okE (running_remove v s) (\<lambda>s1. okE (preempt v out s1) (\<lambda>(s2, out2).
       step_inv cls F B budget (i # still) s2 out2 \<and> frame s s2 \<and> scheduled out2 = scheduled out \<and> objs s2 i = objs s i))"
    using v by (simp add: running_remove_def)
qed

lemma make_room_ok:
  "step_inv cls F B budget (i # still) s out \<Longrightarrow> set (scheduled out) \<subseteq> set still \<Longrightarrow>
     okE (make_room i la still out s) (room_post cls F B budget i la still s out)"
proof (induction i la still out s rule: make_room.induct)
  case (1 i la still out s)
  note inv = "1.prems"(1) and sub = "1.prems"(2)
  have i: "i \<notin> set (scheduled out)" using cur_notin(1) [OF step_invD(1) [OF inv]] sub by auto
  have keep: "step_inv cls F B budget (still @ [i]) s out" using inv step_inv_shift [of "still @ [i]" "running s" "i # still" s] by simp
  consider (fits) "can_append (block_mgr s) (objs s i) la"
    | (victim) "\<not> can_append (block_mgr s) (objs s i) la" "running s \<noteq> []"
    | (alone) "\<not> can_append (block_mgr s) (objs s i) la" "running s = []" by blast
  then show ?case
  proof cases
    case fits
    then show ?thesis using inv by (simp add: make_room.simps [of i la still out s] room_post_def)
  next
    case victim
    from victim_step [OF inv sub victim(2)] obtain v s1 s2 out2
      where v: "w_victim (key_of s) (waiting s) (running s) = Inr v" "running_remove v s = Inr s1" "preempt v out s1 = Inr (s2, out2)"
      and r: "step_inv cls F B budget (i # still) s2 out2" "frame s s2" "scheduled out2 = scheduled out" "objs s2 i = objs s i"
      by (auto simp: okE_iff)
    have "okE (make_room i la still out2 s2) (room_post cls F B budget i la still s2 out2)"
      using "1.IH" [OF victim v refl r(1)] sub r(3) by simp
    then have "okE (make_room i la still out2 s2) (room_post cls F B budget i la still s out)"
      by (rule okE_mono) (erule room_post_trans [OF _ r(2-4)])
    then show ?thesis using victim v by (simp add: make_room.simps [of i la still out s])
  next
    case alone
    have "okE (preempt i out s) (\<lambda>(s1, out1). room_post cls F B budget i la still s out (False, still, s1, out1))"
      by (rule okE_mono [OF preempt_step [OF inv i]]) (auto simp: room_post_def)
    moreover have "okE (bindE (with_bm deallocate i s) (drop_to i ''capacity'' out))
        (\<lambda>(s1, out1). room_post cls F B budget i la still s out (False, still, s1, out1))"
      by (rule okE_mono [OF drop_running_step [OF inv i]]) (auto simp: room_post_def)
    ultimately show ?thesis
      using alone keep by (auto simp: make_room.simps [of i la still out s] okE_bind okE_case_prod case_prod_unfold room_post_def)
  qed
qed

section \<open>The running sequences\<close>

definition may_serve :: "seq_class \<Rightarrow> int \<Rightarrow> sequence \<Rightarrow> bool" where
  "may_serve cls budget q \<longleftrightarrow> is_prefill q \<or>
     num_planned_tokens q + (1 + py_len (spec_token_ids q)) - num_prompt_tokens q \<le> max_tokens q \<and>
     num_cached_tokens q + (1 + py_len (spec_token_ids q)) \<le> int (length (block_table q)) * cls_block_size cls \<and>
     1 + py_len (spec_token_ids q) \<le> budget"

lemma schedule_seq_step:
  assumes inv: "step_inv cls F B budget (i # X) s out" and nQ: "i \<notin> set (scheduled out)" and b: "0 \<le> budget"
    and pos: "enable_chunked_prefill s \<or> \<not> kv_on s \<Longrightarrow> 0 < budget"
    and len: "py_len (scheduled out) < max_num_seqs s" and serve: "may_serve cls budget (objs s i)"
    and run: "schedule_seq i budget out s = (n, s', out')"
  shows "step_inv cls F B (budget - n) (i # X) s' out'" "0 \<le> n" "n \<le> budget" "frame s s'" "running s' = running s"
    "scheduled out' = scheduled out @ [i]" "preempted out' = preempted out"
proof -
  note r = schedule_seq_ok [OF step_invD(1) [OF inv] nQ b _ run]
  have dec: "\<not> is_prefill (objs s i) \<Longrightarrow>
        num_planned_tokens (objs s i) + (1 + py_len (spec_token_ids (objs s i))) - num_prompt_tokens (objs s i) \<le> max_tokens (objs s i) \<and>
        num_cached_tokens (objs s i) + (1 + py_len (spec_token_ids (objs s i))) \<le> int (length (block_table (objs s i))) * cls_block_size cls \<and>
        1 + py_len (spec_token_ids (objs s i)) \<le> budget"
    using serve by (auto simp: may_serve_def)
  note r = r [OF dec]
  note o = step_invD(2) [OF inv, unfolded out_ok_def]
  show "0 \<le> n" "n \<le> budget" "frame s s'" "running s' = running s" "scheduled out' = scheduled out @ [i]"
    "preempted out' = preempted out"
    using r by blast+
  have same: "objs s' j = objs s j" if "j \<in> set (scheduled out)" for j using that nQ r(5) by metis
  have "(\<Sum>j \<leftarrow> scheduled out. num_scheduled_tokens (objs s' j)) = (\<Sum>j \<leftarrow> scheduled out. num_scheduled_tokens (objs s j))"
    by (rule arg_cong [where f = sum_list]) (simp add: same)
  moreover have "is_finished (objs s' j)" if "j \<in> set (dropped out)" for j
  proof -
    have "j \<noteq> i" using that o cur_facts(1) [OF step_invD(1) [OF inv]] by auto
    then show ?thesis using that o r(5) by auto
  qed
  moreover have "max_num_seqs s' = max_num_seqs s" "enable_chunked_prefill s' = enable_chunked_prefill s" "kv_on s' = kv_on s"
    using r(2) by (simp_all add: frame_def)
  ultimately have "out_ok B (budget - n) (i # X) s' out'"
    using o r nQ len same pos unfolding out_ok_def by (simp add: py_len_def)
  then show "step_inv cls F B (budget - n) (i # X) s' out'" using r(1) by (simp add: step_inv_def)
qed

lemma serve_ok:
  assumes inv: "step_inv cls F B budget (i # still) s out" and sub: "set (scheduled out) \<subseteq> set still" and b: "0 < budget"
    and len: "py_len (scheduled out) < max_num_seqs s" and serve: "may_serve cls budget (objs s i)"
  shows "okE (serve i budget still out s) (\<lambda>(b', still', s', out'). step_inv cls F B b' still' s' out' \<and>
     set (scheduled out') \<subseteq> set still' \<and> 0 \<le> b' \<and> frame s s')"
proof -
  have i: "i \<notin> set (scheduled out)" using cur_notin(1) [OF step_invD(1) [OF inv]] sub by auto
  obtain n s' out' where run: "schedule_seq i budget out s = (n, s', out')" by (cases "schedule_seq i budget out s") auto
  note r = schedule_seq_step [OF inv i _ _ len serve run]
  have "step_inv cls F B (budget - n) (still @ [i]) s' out'"
    using r(1) b step_inv_shift [of "still @ [i]" "running s'" "i # still" s'] by simp
  then show ?thesis using run r b sub by (auto simp: serve_def)
qed

lemma out_ok_cur:
  assumes "out_ok B budget X s out" "i \<notin> set (scheduled out)" "frame s s'" "\<And>j. j \<noteq> i \<Longrightarrow> objs s' j = objs s j"
    "sroles X s' = sroles X s" "sroles X s i = InR"
  shows "out_ok B budget X s' out"
proof (rule out_ok_step [OF assms(1-4), where r' = InR])
  show "sroles X s' = (sroles X s)(i := InR)" using assms(5,6) by auto
  show "InR = InW \<or> i \<notin> set (preempted out)" using assms(1,6) by (auto simp: out_ok_def)
qed (use assms(6) in simp_all)

lemma trim_drafts_step:
  assumes inv: "step_inv cls F B budget (i # X) s out" and nQ: "i \<notin> set (scheduled out)" and dec: "\<not> is_prefill (objs s i)"
  shows "step_inv cls F B budget (i # X) (upd_seq i (trim_drafts b) s) out"
proof -
  let ?q = "trim_drafts b (objs s i)" and ?s = "upd_seq i (trim_drafts b) s"
  note f = cur_facts [OF step_invD(1) [OF inv]]
  have ok: "running_ok cls (kv_on s) (i \<in> set (scheduled out)) ?q"
    using f(2) dec nQ by (simp add: trim_drafts_def running_ok_def decode_ok_def below_limit_def no_load_def
        num_planned_tokens_def seq_wf_def hashes_ok_def)
  have rows: "rows_ok (rows_for F i) InR ?q" using f(5) by (simp add: rows_ok_def row_ok_def trim_drafts_def is_finished_def)
  have "sch_inv cls F (i # X) (scheduled out) ?s \<and> sroles (i # X) ?s = sroles (i # X) s"
    by (rule inplace_step [OF step_invD(1) [OF inv] f(1), where q' = ?q])
       (use f(4) ok rows in \<open>simp_all add: upd_seq_def put_seq_def frame_def trim_drafts_def seq_key_def holding_of_def\<close>)
  moreover have "out_ok B budget (i # X) ?s out"
    by (rule out_ok_cur [OF step_invD(2) [OF inv] nQ]) (use calculation f(1) in \<open>simp_all add: upd_seq_def put_seq_def frame_def\<close>)
  ultimately show ?thesis by (simp add: step_inv_def)
qed

lemma running_ok_longer:
  assumes bs: "0 < cls_block_size cls" and ok: "running_ok cls kv False q"
  shows "running_ok cls kv False (q\<lparr>block_table := block_table q @ t\<rparr>)"
proof -
  have "int (length (block_table q)) * cls_block_size cls \<le> int (length (block_table q @ t)) * cls_block_size cls"
    using bs by (intro mult_right_mono) auto
  from order_trans [OF _ this] show ?thesis
    using ok by (auto simp: running_ok_def prefill_ok_def decode_ok_def below_limit_def no_load_def num_planned_tokens_def
        seq_wf_def hashes_ok_def simp del: length_append)
qed

lemma may_append_step:
  assumes inv: "step_inv cls F B budget (i # X) s out" and nQ: "i \<notin> set (scheduled out)"
    and can: "can_append (block_mgr s) (objs s i) la"
  shows "okE (with_bm (\<lambda>bm q. may_append bm q la) i s) (\<lambda>s'. step_inv cls F B budget (i # X) s' out \<and> frame s s' \<and>
     running s' = running s \<and> (\<exists>t. objs s' i = (objs s i)\<lparr>block_table := t\<rparr> \<and> bm_num_blocks (block_mgr s) (objs s i) la \<le> int (length t)))"
proof -
  let ?M = "others (sroles (i # X) s) i (objs s)"
  note f = cur_facts [OF step_invD(1) [OF inv]]
  obtain bm t where run: "may_append (block_mgr s) (objs s i) la = Inr (bm, (objs s i)\<lparr>block_table := block_table (objs s i) @ t\<rparr>)"
    and r: "bm_inv cls bm (add_mset (holding_of ((objs s i)\<lparr>block_table := block_table (objs s i) @ t\<rparr>)) ?M)"
      "same_config (block_mgr s) bm" "bm_num_blocks (block_mgr s) (objs s i) la \<le> int (length (block_table (objs s i) @ t))"
  proof (rule okE_E2 [OF may_append_ok [OF f(4) can]])
    fix bm q
    assume m: "may_append (block_mgr s) (objs s i) la = Inr (bm, q)" and "case (bm, q) of (bm', s') \<Rightarrow> \<exists>new.
      s' = (objs s i)\<lparr>block_table := block_table (objs s i) @ new\<rparr> \<and> bm_inv cls bm' (add_mset (holding_of s') ?M) \<and>
      same_config (block_mgr s) bm' \<and> bm_num_blocks (block_mgr s) (objs s i) la \<le> int (length (block_table s')) \<and>
      free_block_queue (block_mgr s) = new @ free_block_queue bm'"
    then obtain t where q: "q = (objs s i)\<lparr>block_table := block_table (objs s i) @ t\<rparr>" and
      t: "bm_inv cls bm (add_mset (holding_of q) ?M)" "same_config (block_mgr s) bm"
      "bm_num_blocks (block_mgr s) (objs s i) la \<le> int (length (block_table q))" by (simp only: prod.case) blast
    have "length (block_table q) = length (block_table (objs s i) @ t)" by (simp add: q)
    then show thesis using that [of bm t] m t by (simp only: q)
  qed
  let ?q = "(objs s i)\<lparr>block_table := block_table (objs s i) @ t\<rparr>"
  let ?s = "put_seq i ?q (s\<lparr>block_mgr := bm\<rparr>)"
  have bs: "0 < cls_block_size cls" using sch_invD(1) [OF step_invD(1) [OF inv]] by (simp add: cfg_ok_def cls_wf_def)
  have "running_ok cls (kv_on s) (i \<in> set (scheduled out)) ?q"
    using running_ok_longer [OF bs] f(2) nQ by simp
  then have "sch_inv cls F (i # X) (scheduled out) ?s \<and> sroles (i # X) ?s = sroles (i # X) s"
    by (intro inplace_step [OF step_invD(1) [OF inv] f(1), where q' = ?q])
       (use f r in \<open>auto simp: put_seq_def frame_def seq_key_def rows_ok_def row_ok_def is_finished_def\<close>)
  moreover have "out_ok B budget (i # X) ?s out"
    by (rule out_ok_cur [OF step_invD(2) [OF inv] nQ]) (use calculation f(1) r in \<open>simp_all add: put_seq_def frame_def\<close>)
  ultimately have "step_inv cls F B budget (i # X) ?s out" by (simp add: step_inv_def)
  then show ?thesis using run r by (simp add: with_bm_def put_seq_def frame_def) (rule exI, rule conjI [OF refl], simp)
qed

lemma drafts_fit:
  assumes "0 < budget" and "num_planned_tokens q - num_prompt_tokens q < max_tokens q"
  shows "1 + py_len (spec_token_ids (trim_drafts budget q)) \<le> budget"
    "num_planned_tokens q + (1 + py_len (spec_token_ids (trim_drafts budget q))) - num_prompt_tokens q \<le> max_tokens q"
proof -
  let ?k = "drafts_to_keep budget q"
  have k: "0 \<le> ?k" "1 + ?k \<le> budget" "1 + ?k \<le> max_tokens q - (num_planned_tokens q - num_prompt_tokens q)"
    using assms by (auto simp: drafts_to_keep_def Let_def)
  have "py_len (spec_token_ids (trim_drafts budget q)) \<le> ?k"
    using k(1) by (simp add: trim_drafts_def py_len_def slice_to_nonneg)
  then show "1 + py_len (spec_token_ids (trim_drafts budget q)) \<le> budget"
    "num_planned_tokens q + (1 + py_len (spec_token_ids (trim_drafts budget q))) - num_prompt_tokens q \<le> max_tokens q"
    using k by simp_all
qed

lemma blocks_cover:
  assumes "cls_wf cls" "bm_for cls bm" "bm_num_blocks bm q la \<le> n"
  shows "num_planned_tokens q + la \<le> n * cls_block_size cls"
  using assms ceil_div_le_iff [of "cls_block_size cls" "num_planned_tokens q + la" n]
  by (simp add: bm_num_blocks_def bm_for_def cls_wf_def ceil_div_def)

text \<open>A decoding sequence after its blocks were found.\<close>

lemma grown_serves:
  assumes cfg: "cfg_ok cls s" and b: "0 < budget" "num_planned_tokens q - num_prompt_tokens q < max_tokens q"
    and dec: "\<not> is_prefill q" "decode_ok cls False q"
    and t: "bm_num_blocks (block_mgr s) (trim_drafts budget q) la \<le> int (length t)"
    and la: "py_len (spec_token_ids (trim_drafts budget q)) \<le> la"
  shows "may_serve cls budget ((trim_drafts budget q)\<lparr>block_table := t\<rparr>)"
proof -
  have p: "num_planned_tokens (trim_drafts budget q) = num_planned_tokens q" "num_cached_tokens (trim_drafts budget q) = num_cached_tokens q"
    by (simp_all add: trim_drafts_def num_planned_tokens_def)
  have "num_planned_tokens q + la \<le> int (length t) * cls_block_size cls"
    using blocks_cover [OF _ _ t] cfg p(1) by (simp add: cfg_ok_def)
  then have "num_cached_tokens q + (1 + py_len (spec_token_ids (trim_drafts budget q))) \<le> int (length t) * cls_block_size cls"
    using dec(2) la by (simp add: decode_ok_def)
  then show ?thesis
    using drafts_fit [OF b] p dec(1)
    by (simp add: may_serve_def num_planned_tokens_def) (simp add: trim_drafts_def)
qed

lemma run_one_ok:
  assumes inv: "step_inv cls F B budget (i # still) s out" and sub: "set (scheduled out) \<subseteq> set still" and b: "0 \<le> budget"
  shows "okE (run_one i budget still out s) (\<lambda>(b', still', s', out'). step_inv cls F B b' still' s' out' \<and>
     set (scheduled out') \<subseteq> set still' \<and> 0 \<le> b' \<and> frame s s')"
proof -
  let ?q = "objs s i" and ?s1 = "upd_seq i (trim_drafts budget) s"
  let ?la = "py_len (spec_token_ids (objs ?s1 i)) + num_lookahead_tokens ?s1"
  let ?post = "\<lambda>s (b', still', s', out'). step_inv cls F B b' still' s' out' \<and>
     set (scheduled out') \<subseteq> set still' \<and> 0 \<le> b' \<and> frame s s'"
  note f = cur_facts [OF step_invD(1) [OF inv]]
  have i: "i \<notin> set (scheduled out)" using cur_notin(1) [OF step_invD(1) [OF inv]] sub by auto
  have keep: "?post s (budget, still @ [i], s, out)"
    using inv step_inv_shift [of "still @ [i]" "running s" "i # still" s] sub b by auto
  consider (skip) "budget \<le> 0 \<or> max_num_seqs s \<le> py_len (scheduled out) \<or> max_tokens ?q \<le> num_planned_tokens ?q - num_prompt_tokens ?q"
    | (pre) "0 < budget" "py_len (scheduled out) < max_num_seqs s" "num_planned_tokens ?q - num_prompt_tokens ?q < max_tokens ?q" "is_prefill ?q"
    | (dec) "0 < budget" "py_len (scheduled out) < max_num_seqs s" "num_planned_tokens ?q - num_prompt_tokens ?q < max_tokens ?q" "\<not> is_prefill ?q"
    by linarith
  then show ?thesis
  proof cases
    case skip
    then have "run_one i budget still out s = Inr (budget, still @ [i], s, out)" by (auto simp: run_one_def Let_def)
    then show ?thesis using keep by simp
  next
    case pre
    then have "run_one i budget still out s = serve i budget still out s" by (auto simp: run_one_def Let_def)
    then show ?thesis using serve_ok [OF inv sub] pre by (simp add: may_serve_def)
  next
    case dec
    have inv1: "step_inv cls F B budget (i # still) ?s1 out" by (rule trim_drafts_step [OF inv i dec(4)])
    have fr1: "frame s ?s1" "objs ?s1 i = trim_drafts budget ?q" by (simp_all add: upd_seq_def put_seq_def frame_def)
    have ok: "decode_ok cls False ?q" using f(2) dec(4) i by (simp add: running_ok_def)
    have run: "run_one i budget still out s = bindE (make_room i ?la still out ?s1) (\<lambda>(ok, still2, s2, out2).
        if \<not> ok then Inr (budget, still2, s2, out2)
        else bindE (with_bm (\<lambda>bm q. may_append bm q ?la) i s2) (serve i budget still2 out2))"
      using dec by (simp add: run_one_def Let_def)
    have "okE (bindE (with_bm (\<lambda>bm q. may_append bm q ?la) i s2) (serve i budget still out2)) (?post s)"
      if r: "room_post cls F B budget i ?la still ?s1 out (True, still, s2, out2)" for s2 out2
    proof (rule okE_bindI)
      have r: "scheduled out2 = scheduled out" "frame ?s1 s2" "step_inv cls F B budget (i # still) s2 out2"
        "objs s2 i = trim_drafts budget ?q" "can_append (block_mgr s2) (objs s2 i) ?la"
        using r fr1(2) unfolding room_post_def by auto
      have fr: "frame s s2" using frame_trans fr1(1) r(2) .
      have len: "py_len (scheduled out2) < max_num_seqs s2" using dec(2) fr r(1) by (simp add: frame_def)
      note m = may_append_step [OF r(3) _ r(5)]
      show "okE (with_bm (\<lambda>bm q. may_append bm q ?la) i s2) (\<lambda>s3. step_inv cls F B budget (i # still) s3 out2 \<and> frame s2 s3 \<and>
        running s3 = running s2 \<and> (\<exists>t. objs s3 i = (objs s2 i)\<lparr>block_table := t\<rparr> \<and> bm_num_blocks (block_mgr s2) (objs s2 i) ?la \<le> int (length t)))"
        using m i r(1) by simp
      fix s3
      assume "step_inv cls F B budget (i # still) s3 out2 \<and> frame s2 s3 \<and>
        running s3 = running s2 \<and> (\<exists>t. objs s3 i = (objs s2 i)\<lparr>block_table := t\<rparr> \<and> bm_num_blocks (block_mgr s2) (objs s2 i) ?la \<le> int (length t))"
      then obtain t where s3: "step_inv cls F B budget (i # still) s3 out2" "frame s2 s3"
        "objs s3 i = (trim_drafts budget ?q)\<lparr>block_table := t\<rparr>" "bm_num_blocks (block_mgr s2) (trim_drafts budget ?q) ?la \<le> int (length t)"
        using r(4) by auto
      have cfg: "cfg_ok cls s2" using sch_invD(1) [OF step_invD(1) [OF r(3)]] .
      have lk: "py_len (spec_token_ids (trim_drafts budget ?q)) \<le> ?la"
        using sch_invD(1) [OF step_invD(1) [OF inv1]] fr1(2) by (simp add: cfg_ok_def)
      have "may_serve cls budget (objs s3 i)"
        unfolding s3(3) by (rule grown_serves [OF cfg dec(1,3,4) ok s3(4) lk])
      moreover have "py_len (scheduled out2) < max_num_seqs s3" using len s3(2) by (simp add: frame_def)
      ultimately have "okE (serve i budget still out2 s3) (?post s3)"
        using serve_ok [OF s3(1) _ dec(1)] sub r(1) by simp
      then show "okE (serve i budget still out2 s3) (?post s)"
        by (rule okE_mono) (use frame_trans [OF frame_trans [OF fr s3(2)]] in auto)
    qed
    then show ?thesis
      unfolding run
      by (intro okE_bindI [OF make_room_ok [OF inv1 sub]])
         (use b sub frame_trans [OF fr1(1)] in \<open>auto simp: room_post_def split: if_splits\<close>)
  qed
qed

lemma run_loop_ok:
  "step_inv cls F B budget still s out \<Longrightarrow> set (scheduled out) \<subseteq> set still \<Longrightarrow> 0 \<le> budget \<Longrightarrow>
   okE (run_loop budget still out s) (\<lambda>(b', still', s', out'). step_inv cls F B b' still' s' out' \<and>
     set (scheduled out') \<subseteq> set still' \<and> 0 \<le> b' \<and> frame s s' \<and> running s' = [])"
proof (induction budget still out s rule: run_loop.induct)
  case (1 budget still out s)
  show ?case
  proof (cases "running s")
    case Nil
    then show ?thesis using "1.prems" by (simp add: run_loop.simps [of budget still out s])
  next
    case (Cons i rest)
    have inv: "step_inv cls F B budget (i # still) (s\<lparr>running := rest\<rparr>) out"
      using "1.prems"(1) Cons by (subst step_inv_shift) simp_all
    have fr: "frame s (s\<lparr>running := rest\<rparr>)" by (simp add: frame_def)
    have "okE (bindE (run_one i budget still out (s\<lparr>running := rest\<rparr>)) (\<lambda>(b', still', s', out'). run_loop b' still' out' s'))
      (\<lambda>(b', still', s', out'). step_inv cls F B b' still' s' out' \<and> set (scheduled out') \<subseteq> set still' \<and> 0 \<le> b' \<and> frame s s' \<and> running s' = [])"
    proof (rule okE_bindI [OF run_one_ok [OF inv "1.prems"(2,3)]])
      fix x
      assume x: "run_one i budget still out (s\<lparr>running := rest\<rparr>) = Inr x"
        "case x of (b', still', s', out') \<Rightarrow> step_inv cls F B b' still' s' out' \<and> set (scheduled out') \<subseteq> set still' \<and> 0 \<le> b' \<and>
          frame (s\<lparr>running := rest\<rparr>) s'"
      obtain b' still' s' out' where xe: "x = (b', still', s', out')" by (cases x) auto
      have "okE (run_loop b' still' out' s') (\<lambda>(b'', still'', s'', out''). step_inv cls F B b'' still'' s'' out'' \<and>
          set (scheduled out'') \<subseteq> set still'' \<and> 0 \<le> b'' \<and> frame s' s'' \<and> running s'' = [])"
        using "1.IH" [OF Cons x(1) xe [symmetric] refl refl] x(2) xe by simp
      then have "okE (run_loop b' still' out' s') (\<lambda>(b'', still'', s'', out''). step_inv cls F B b'' still'' s'' out'' \<and>
          set (scheduled out'') \<subseteq> set still'' \<and> 0 \<le> b'' \<and> frame s s'' \<and> running s'' = [])"
        by (rule okE_mono) (use x(2) xe frame_trans [OF frame_trans [OF fr]] in auto)
      then show "okE (case x of (b', still', s', out') \<Rightarrow> run_loop b' still' out' s')
        (\<lambda>(b', still', s', out'). step_inv cls F B b' still' s' out' \<and> set (scheduled out') \<subseteq> set still' \<and> 0 \<le> b' \<and> frame s s' \<and> running s' = [])"
        using xe by simp
    qed
    then show ?thesis using Cons by (simp add: run_loop.simps [of budget still out s])
  qed
qed

end
