(* ===== verification/Scheduler_Steps.thy ===== *)
theory Scheduler_Steps
  imports Scheduler_Ops
begin

text \<open>
  Admission from the waiting queue, the whole \<open>schedule\<close>, and the operations between steps:
  \<open>add\<close>, \<open>abort\<close>, \<open>advance\<close>, \<open>reconcile\<close> and \<open>update_from_kv_connector_output\<close>.
\<close>

section \<open>The connector's answers\<close>

lemma params_ask_clear: "\<not> params_ask (kv_transfer_params (clear_remote_prefill q)) ''do_remote_prefill''"
  by (auto simp: params_ask_def clear_remote_prefill_def get_truthy_def update_conv' split: option.splits)

lemma remote_prefill_fields:
  assumes "remote_prefill p"
  shows "\<exists>ids. map_of p ''remote_block_ids'' = Some (JList ids)" "\<exists>x. map_of p ''remote_request_id'' = Some x"
    "\<exists>x. map_of p ''remote_engine_id'' = Some x" "\<exists>x. map_of p ''remote_host'' = Some x" "\<exists>x. map_of p ''remote_port'' = Some x"
  using assms by (auto simp: remote_prefill_def has_str_def has_int_def split: option.splits json.splits)

lemma get_num_new_matched_tokens_ok:
  assumes "params_ask (kv_transfer_params q) ''do_remote_prefill'' \<Longrightarrow> \<exists>p. kv_transfer_params q = Some p \<and> remote_prefill p"
  shows "okE (get_num_new_matched_tokens ns q n) (\<lambda>(ext, load_async, q').
     (ext = 0 \<and> \<not> params_ask (kv_transfer_params q) ''do_remote_prefill'' \<and> q' = q) \<or>
     (ext = 0 \<and> q' = clear_remote_prefill q) \<or>
     (ext = num_prompt_tokens q - n \<and> load_async \<and> q' = q \<and> params_ask (kv_transfer_params q) ''do_remote_prefill''))"
proof (cases "params_ask (kv_transfer_params q) ''do_remote_prefill''")
  case True
  then obtain p ids where "kv_transfer_params q = Some p" "map_of p ''remote_block_ids'' = Some (JList ids)"
    using assms remote_prefill_fields(1) by blast
  then show ?thesis using True by (simp add: get_num_new_matched_tokens_def the_params_def dict_get_def)
qed (simp add: get_num_new_matched_tokens_def)

lemma update_state_after_alloc_ok:
  assumes "kv_transfer_params q = Some p" "remote_prefill p"
  shows "okE (update_state_after_alloc ns q n) (\<lambda>(ns', q'). q' = clear_remote_prefill q \<and> ns_block_size ns' = ns_block_size ns)"
proof -
  obtain ids a b c d where "map_of p ''remote_block_ids'' = Some (JList ids)" "map_of p ''remote_request_id'' = Some a"
    "map_of p ''remote_engine_id'' = Some b" "map_of p ''remote_host'' = Some c" "map_of p ''remote_port'' = Some d"
    using remote_prefill_fields [OF assms(2)] by blast
  then show ?thesis
    using assms(1) by (simp add: update_state_after_alloc_def the_params_def clear_remote_prefill_def dict_get_def update_conv' Let_def)
qed

section \<open>Admission\<close>

lemma recving_fresh:
  assumes inv: "sch_inv cls F X Q s" and i: "sroles X s i \<noteq> Out" "sroles X s i \<noteq> InV"
  shows "request_id (objs s i) \<notin> dict_keys (recving s)"
proof
  assume "request_id (objs s i) \<in> dict_keys (recving s)"
  then obtain j where j: "(request_id (objs s i), j) \<in> set (recving s)" by auto
  then have "sroles X s j = InV"
    using sroles_iff(3) [OF sch_invD(2) [OF inv], of j] by (force simp: rev_image_eqI)
  moreover have "request_id (objs s j) = request_id (objs s i)" using j sch_invD(4) [OF inv] by (auto simp: keys_ok_def)
  ultimately show False using coreD(2) [OF sch_invD(5) [OF inv], of i j] i by auto
qed

text \<open>The head of the waiting queue, with blocks, starts to run or to load.\<close>

lemma enter_step:
  assumes inv: "sch_inv cls F X Q s" and peek: "w_peek (waiting s) = Inr i" and ne: "0 < w_len (waiting s)"
    and pop: "w_pop (waiting s) = Inr (i, w)"
    and s': "objs s' = (objs s)(i := q')" "waiting s' = w" "running s' = running s" "seqs s' = seqs s"
      "sending s' = sending s" "frame s s'" "\<And>ns. connector s' = Some ns \<Longrightarrow> ns_block_size ns = cls_block_size cls"
    and bm: "bm_inv cls (block_mgr s') (add_mset (holding_of q') (others (sroles X s) i (objs s)))"
    and q': "seq_key q' = seq_key (objs s i)" "request_id q' = request_id (objs s i)" "num_preemptions q' = num_preemptions (objs s i)"
      "num_pending_tokens q' = 0" "\<not> is_finished q'"
    and to: "(X' = i # X \<and> r' = InR \<and> recving s' = recving s \<and> running_ok cls (kv_on s) False q') \<or>
      (X' = X \<and> r' = InV \<and> recving s' = recving s @ [(request_id q', i)] \<and> recving_ok cls (kv_on s) q')"
  shows "sch_inv cls F X' Q s' \<and> sroles X' s' = (sroles X s)(i := r')"
proof -
  note d = sch_invD [OF inv]
  obtain w' where w': "w_pop (waiting s) = Inr (i, w')" "w_inv (key_of s) w'" "Wm s = add_mset i (w_ids w')" "sroles X s i = InW"
     "i \<notin> set Q" "seq_id (objs s i) = i" "queue_ids X s = add_mset i (queue_ids X (s\<lparr>waiting := w'\<rparr>))"
     "sroles X (s\<lparr>waiting := w'\<rparr>) = (sroles X s)(i := Out)" "waiting_ok cls (kv_on s) (objs s i)"
    using head_facts [OF inv peek ne] by blast
  have w: "w' = w" using w'(1) pop by simp
  have u: "i \<notin># queue_ids X (s\<lparr>waiting := w\<rparr>)" using d(2) w'(7) w by simp
  have ro: "sroles X' s' = (sroles X s)(i := r')"
    using to
  proof
    assume t: "X' = i # X \<and> r' = InR \<and> recving s' = recving s \<and> running_ok cls (kv_on s) False q'"
    then show ?thesis using u w'(8) w roles_R [of i "w_ids w" "Rm X s" "Vm s" "Sm s"]
      by (simp add: sroles_def s' queue_ids_def)
  next
    assume t: "X' = X \<and> r' = InV \<and> recving s' = recving s @ [(request_id q', i)] \<and> recving_ok cls (kv_on s) q'"
    then show ?thesis using u w'(8) w roles_V [of i "w_ids w" "Rm X s" "Vm s" "Sm s"]
      by (simp add: sroles_def s' queue_ids_def)
  qed
  have rows: "row_num_preemptions row < num_preemptions (objs s i)" if "row \<in># rows_for F i" for row
    using coreD(6) [OF d(5), of i] w'(4,9) that by (auto simp: rows_ok_def row_ok_def waiting_ok_def is_finished_def)
  have "filter_mset (\<lambda>r. row_num_preemptions r = num_preemptions q') (rows_for F i) = {#}"
    using rows q'(3) by fastforce
  then have none: "reserved (rows_for F i) (num_preemptions q') = 0" by (simp only: reserved_def image_mset_empty sum_mset.empty)
  have "sch_inv cls F X' Q s'"
  proof (rule sch_stepI [OF inv, where i = i and r' = r' and q' = q'])
    show "w_inv (key_of s') (waiting s')" using w_inv_upd [of q' "objs s" i w, OF q'(1)] w'(2) w by (simp add: s')
    show "keys_ok s'" by (rule keys_ok_upd [OF d(4) s'(1) q'(2)]) (use to s' in auto)
    show "cfg_ok cls s'" by (rule cfg_ok_frame [OF d(1) s'(6,7)])
    show "uniq (queue_ids X' s')" using d(2) w'(3) w to by (auto simp: queue_ids_def s' ac_simps)
    show "seq_id q' = i" using q'(1) w'(6) by (simp add: seq_key_def)
    show "rows_ok (rows_for F i) r' q'"
      using coreD(6) [OF d(5), of i] q'(3,4) rows none by (auto simp: rows_ok_def row_ok_def)
    show "map_of (seqs s') r = Some j \<longleftrightarrow> (if j = i then live r' q' \<and> request_id q' = r else map_of (seqs s) r = Some j)" for r j
      using seqs_same [OF d(5), of r' q' i r j] w'(4) q'(2,5) to by (auto simp: live_def s')
    show "role_ok cls (kv_on s) (i \<in> set Q) r' q'" using to w'(5) by auto
    show "bm_inv cls (block_mgr s') (own r' q' + others (sroles X s) i (objs s))" using bm to by auto
  qed (use s'(1,4,6) ro w'(4,5) q' coreD(7) [OF d(5)] in \<open>auto simp: frame_def\<close>)
  then show ?thesis using ro by simp
qed

text \<open>What the head of the queue is once its blocks are allocated.\<close>

lemma admitted_ok:
  assumes cfg: "cfg_ok cls s" and w: "waiting_ok cls kv q"
    and c: "0 \<le> c" "c * cls_block_size cls < num_tokens q"
    and t: "int (length t) = bm_num_blocks (block_mgr s) q (num_lookahead_tokens s)"
    and q': "q' = q\<lparr>block_table := t, num_cached_tokens := c * bm_block_size (block_mgr s), num_published_blocks := c,
        kv_transfer_params := ps, status := st\<rparr>" and ps: "no_load kv q'"
    and prompt: "st = WAITING_FOR_REMOTE_KVS \<Longrightarrow> num_tokens q = num_prompt_tokens q"
  shows "st = RUNNING \<Longrightarrow> running_ok cls kv False q'" "st = WAITING_FOR_REMOTE_KVS \<Longrightarrow> recving_ok cls kv q'"
proof -
  have bs: "bm_block_size (block_mgr s) = cls_block_size cls" "0 < cls_block_size cls" "0 \<le> num_lookahead_tokens s"
    using cfg by (simp_all add: cfg_ok_def bm_for_def cls_wf_def)
  have "num_planned_tokens q + num_lookahead_tokens s \<le> int (length t) * cls_block_size cls"
    using blocks_cover [of cls "block_mgr s" q "num_lookahead_tokens s" "int (length t)"] cfg t by (simp add: cfg_ok_def)
  then have "num_tokens q \<le> int (length t) * cls_block_size cls"
    using bs(3) w by (simp add: num_planned_tokens_def waiting_ok_def)
  then have "prefill_ok cls q'" using w c bs q' by (auto simp: prefill_ok_def waiting_ok_def)
  then show "st = RUNNING \<Longrightarrow> running_ok cls kv False q'" "st = WAITING_FOR_REMOTE_KVS \<Longrightarrow> recving_ok cls kv q'"
    using w ps q' prompt by (auto simp: running_ok_def recving_ok_def waiting_ok_def below_limit_def no_load_def seq_wf_def hashes_ok_def)
qed

lemma admit_run_step:
  assumes inv: "sch_inv cls F (i # X) (scheduled out) (upd_seq i (\<lambda>q. q\<lparr>status := RUNNING\<rparr>) s1)"
    and o: "out_ok B budget (i # X) (upd_seq i (\<lambda>q. q\<lparr>status := RUNNING\<rparr>) s1) out" and nQ: "i \<notin> set (scheduled out)"
    and b: "0 \<le> budget" "enable_chunked_prefill s \<or> \<not> kv_on s \<Longrightarrow> 0 < budget" "py_len (scheduled out) < max_num_seqs s"
    and fr: "frame s (upd_seq i (\<lambda>q. q\<lparr>status := RUNNING\<rparr>) s1)" and pre: "is_prefill (objs s1 i)"
  shows "okE (admit_run i budget out s1) (\<lambda>(n, s', out'). step_inv cls F B (budget - n) X s' out' \<and> 0 \<le> n \<and> n \<le> budget \<and> frame s s' \<and>
     preempted out' = preempted out)"
proof -
  let ?s = "upd_seq i (\<lambda>q. q\<lparr>status := RUNNING\<rparr>) s1"
  obtain n s' out' where run: "schedule_seq i budget out ?s = (n, s', out')" by (cases "schedule_seq i budget out ?s") auto
  have si: "step_inv cls F B budget (i # X) ?s out" using inv o by (simp add: step_inv_def)
  have pos: "0 < budget" if "enable_chunked_prefill ?s \<or> \<not> kv_on ?s" using that b(2) fr by (auto simp: frame_def)
  have len: "py_len (scheduled out) < max_num_seqs ?s" using b(3) fr by (simp add: frame_def)
  have "may_serve cls budget (objs ?s i)" using pre by (simp add: may_serve_def upd_seq_def put_seq_def)
  note r = schedule_seq_step [OF si nQ b(1) pos len this run]
  have "step_inv cls F B (budget - n) X (s'\<lparr>running := running s' @ [i]\<rparr>) out'"
    using r(1) by (subst step_inv_shift [of _ _ "i # X"]) simp_all
  moreover have "frame s (s'\<lparr>running := running s' @ [i]\<rparr>)" using frame_trans [OF fr r(4)] by (simp add: frame_def)
  ultimately show ?thesis using run r by (simp add: admit_run_def)
qed

lemma admit_step:
  assumes inv: "step_inv cls F B budget X s out" and peek: "w_peek (waiting s) = Inr i" and ne: "0 < w_len (waiting s)"
    and can: "can_allocate cls (block_mgr s) (objs s i) (num_lookahead_tokens s) = Inr c" "c \<noteq> -1"
    and b: "0 \<le> budget" "enable_chunked_prefill s \<or> \<not> kv_on s \<Longrightarrow> 0 < budget" "py_len (scheduled out) < max_num_seqs s"
    and np: "preempted out = []"
  shows "okE (admit cls i c budget out s) (\<lambda>(n, s', out'). step_inv cls F B (budget - n) X s' out' \<and> 0 \<le> n \<and> n \<le> budget \<and> frame s s' \<and>
     preempted out' = [])"
proof -
  let ?q = "objs s i" and ?M = "others (sroles X s) i (objs s)"
  note sinv = step_invD(1) [OF inv]
  note d = sch_invD [OF sinv]
  obtain w where w: "w_pop (waiting s) = Inr (i, w)" "sroles X s i = InW" "i \<notin> set (scheduled out)" "waiting_ok cls (kv_on s) ?q"
    using head_facts [OF sinv peek ne] by blast
  have cfg: "cls_wf cls" "bm_for cls (block_mgr s)" "0 \<le> num_lookahead_tokens s" using d(1) by (auto simp: cfg_ok_def)
  have bm0: "bm_inv cls (block_mgr s) ?M" using core_bm [OF d(5), of i] w(2) by simp
  have wq: "seq_wf cls ?q" "num_pending_tokens ?q = 0" "block_table ?q = []" "is_prefill ?q" "spec_token_ids ?q = []"
    using w(4) by (simp_all add: waiting_ok_def)
  note a = admit_ok [OF bm0 cfg(1) wq(1) cfg(2) wq(2,3) cfg(3) can]
  then have c: "0 \<le> c" "c * cls_block_size cls < num_tokens ?q" by simp_all
  obtain bm t where al: "allocate (block_mgr s) ?q c (num_lookahead_tokens s) =
       Inr (bm, ?q\<lparr>block_table := t, num_cached_tokens := c * bm_block_size (block_mgr s), num_published_blocks := c\<rparr>)"
    and t: "int (length t) = bm_num_blocks (block_mgr s) ?q (num_lookahead_tokens s)" and sc: "same_config (block_mgr s) bm"
    and bm: "bm_inv cls bm (add_mset (t, c, block_hashes ?q) ?M)"
  proof (rule okE_E2 [OF conjunct2 [OF conjunct2 [OF a]]])
    fix bm q
    assume m: "allocate (block_mgr s) ?q c (num_lookahead_tokens s) = Inr (bm, q)" and "case (bm, q) of (bm', s') \<Rightarrow> \<exists>t.
      s' = ?q\<lparr>block_table := t, num_cached_tokens := c * bm_block_size (block_mgr s), num_published_blocks := c\<rparr> \<and>
      int (length t) = bm_num_blocks (block_mgr s) ?q (num_lookahead_tokens s) \<and>
      bm_inv cls bm' (add_mset (holding_of s') ?M) \<and> same_config (block_mgr s) bm' \<and>
      length (free_block_queue bm') \<le> length (free_block_queue (block_mgr s))"
    then obtain t where q: "q = ?q\<lparr>block_table := t, num_cached_tokens := c * bm_block_size (block_mgr s), num_published_blocks := c\<rparr>"
      and t: "int (length t) = bm_num_blocks (block_mgr s) ?q (num_lookahead_tokens s)" "same_config (block_mgr s) bm"
      "bm_inv cls bm (add_mset (holding_of q) ?M)" by (simp only: prod.case) blast
    have "holding_of q = (t, c, block_hashes ?q)" by (simp add: q holding_of_def)
    then show thesis using that [of bm t] m t unfolding q by simp
  qed
  let ?q1 = "?q\<lparr>block_table := t, num_cached_tokens := c * bm_block_size (block_mgr s), num_published_blocks := c\<rparr>"
  let ?s1 = "put_seq i ?q1 (s\<lparr>waiting := w, block_mgr := bm\<rparr>)"
  let ?out = "out\<lparr>num_queried_blocks := num_queried_blocks out + num_blocks cls (objs ?s1 i),
                 out_num_cached_blocks := out_num_cached_blocks out + c\<rparr>"
  let ?post = "\<lambda>(n, s', out'). step_inv cls F B (budget - n) X s' out' \<and> 0 \<le> n \<and> n \<le> budget \<and> frame s s' \<and> preempted out' = []"
  have s1: "with_bm (\<lambda>bm q. allocate bm q c (num_lookahead_tokens s)) i (s\<lparr>waiting := w\<rparr>) = Inr ?s1"
    using al by (simp add: with_bm_def put_seq_def)
  have e: "connector ?s1 = connector s" "objs ?s1 i = ?q1" by (simp_all add: put_seq_def)
  have run: "admit cls i c budget out s = (case connector s of
          None \<Rightarrow> admit_run i budget ?out ?s1
        | Some ns \<Rightarrow>
            bindE (get_num_new_matched_tokens ns ?q1 (num_cached_tokens ?q1)) (\<lambda>(ext, load_async, q).
            if ext \<noteq> 0 then admit_load i ext load_async ns ?out (put_seq i q ?s1)
            else admit_run i budget ?out (put_seq i q ?s1)))"
    by (simp only: admit_def w(1) bindE.simps prod.case s1 Let_def e)
  have go: "okE (admit_run i budget ?out (put_seq i (?q1\<lparr>kv_transfer_params := ps\<rparr>) ?s1)) ?post"
    if ps: "no_load (kv_on s) (?q1\<lparr>kv_transfer_params := ps\<rparr>)" for ps
  proof -
    let ?q2 = "?q1\<lparr>kv_transfer_params := ps, status := RUNNING\<rparr>"
    let ?s2 = "upd_seq i (\<lambda>q. q\<lparr>status := RUNNING\<rparr>) (put_seq i (?q1\<lparr>kv_transfer_params := ps\<rparr>) ?s1)"
    have s2: "?s2 = s\<lparr>waiting := w, block_mgr := bm, objs := (objs s)(i := ?q2)\<rparr>" by (simp add: upd_seq_def put_seq_def)
    have ok: "running_ok cls (kv_on s) False ?q2"
      by (rule admitted_ok(1) [OF d(1) w(4) c t]) (use ps in \<open>simp_all add: no_load_def\<close>)
    have fr: "frame s ?s2" using sc by (simp add: s2 frame_def)
    have e: "sch_inv cls F (i # X) (scheduled out) ?s2 \<and> sroles (i # X) ?s2 = (sroles X s)(i := InR)"
      by (rule enter_step [OF sinv peek ne w(1), where q' = ?q2])
         (use ok fr wq bm d(1) in \<open>auto simp: s2 seq_key_def holding_of_def is_finished_def cfg_ok_def\<close>)
    have "out_ok B budget (i # X) ?s2 ?out"
      by (rule out_ok_step [OF step_invD(2) [OF inv] w(3) fr, where r' = InR]) (use e w(2) np in \<open>auto simp: s2\<close>)
    then have "okE (admit_run i budget ?out (put_seq i (?q1\<lparr>kv_transfer_params := ps\<rparr>) ?s1)) (\<lambda>(n, s', out').
        step_inv cls F B (budget - n) X s' out' \<and> 0 \<le> n \<and> n \<le> budget \<and> frame s s' \<and> preempted out' = preempted ?out)"
      using e by (intro admit_run_step) (use w(3) b fr wq in \<open>auto simp: put_seq_def\<close>)
    then show ?thesis using np by simp
  qed
  show ?thesis
  proof (cases "connector s")
    case None
    then have "no_load (kv_on s) (?q1\<lparr>kv_transfer_params := kv_transfer_params ?q\<rparr>)" by (simp add: no_load_def)
    from go [OF this] show ?thesis using run None by (simp add: put_seq_def)
  next
    case (Some ns)
    have ask: "\<exists>p. kv_transfer_params ?q1 = Some p \<and> remote_prefill p" "num_tokens ?q = num_prompt_tokens ?q"
      if "params_ask (kv_transfer_params ?q1) ''do_remote_prefill''"
      using that w(4) Some by (auto simp: waiting_ok_def)
    have "okE (if ext \<noteq> 0 then admit_load i ext load_async ns ?out (put_seq i q ?s1) else admit_run i budget ?out (put_seq i q ?s1)) ?post"
      if r: "(ext = 0 \<and> \<not> params_ask (kv_transfer_params ?q1) ''do_remote_prefill'' \<and> q = ?q1) \<or>
         (ext = 0 \<and> q = clear_remote_prefill ?q1) \<or>
         (ext = num_prompt_tokens ?q1 - num_cached_tokens ?q1 \<and> load_async \<and> q = ?q1 \<and> params_ask (kv_transfer_params ?q1) ''do_remote_prefill'')"
      for ext load_async q
      using r
    proof (elim disjE conjE)
      assume r: "ext = 0" "\<not> params_ask (kv_transfer_params ?q1) ''do_remote_prefill''" "q = ?q1"
      then have "no_load (kv_on s) (?q1\<lparr>kv_transfer_params := kv_transfer_params ?q\<rparr>)" by (simp add: no_load_def)
      from go [OF this] show ?thesis using r by simp
    next
      assume r: "ext = 0" "q = clear_remote_prefill ?q1"
      have "no_load (kv_on s) (clear_remote_prefill ?q1)" using params_ask_clear by (simp add: no_load_def)
      then show ?thesis using go r by (simp add: clear_remote_prefill_def)
    next
      assume r: "ext = num_prompt_tokens ?q1 - num_cached_tokens ?q1" "load_async" "q = ?q1"
        "params_ask (kv_transfer_params ?q1) ''do_remote_prefill''"
      have "ext \<noteq> 0" using r(1) ask(2) [OF r(4)] c(2) cfg(2) by (simp add: bm_for_def)
      obtain p where p: "kv_transfer_params ?q1 = Some p" "remote_prefill p" using ask(1) [OF r(4)] by blast
      obtain ns' where u: "update_state_after_alloc ns ?q1 ext = Inr (ns', clear_remote_prefill ?q1)" "ns_block_size ns' = ns_block_size ns"
        using update_state_after_alloc_ok [OF p] by (auto simp: okE_iff)
      let ?q2 = "(clear_remote_prefill ?q1)\<lparr>status := WAITING_FOR_REMOTE_KVS\<rparr>"
      let ?s2 = "s\<lparr>waiting := w, block_mgr := bm, connector := Some ns', objs := (objs s)(i := ?q2),
          recving := recving s @ [(request_id ?q, i)]\<rparr>"
      have fresh: "request_id ?q \<notin> dict_keys (recving s)" by (rule recving_fresh [OF sinv]) (use w(2) in simp_all)
      have load: "admit_load i ext load_async ns ?out (put_seq i q ?s1) = Inr (0, ?s2, ?out)"
        using r u(1) fresh by (simp add: admit_load_def assertE_def put_seq_def upd_seq_def clear_remote_prefill_def dict_put_new Let_def)
      have ok: "recving_ok cls (kv_on s) ?q2"
        by (rule admitted_ok(2) [OF d(1) w(4) c t, where ps = "kv_transfer_params ?q2"])
           (use params_ask_clear [of ?q1] ask(2) [OF r(4)] in \<open>simp_all add: clear_remote_prefill_def no_load_def\<close>)
      have fr: "frame s ?s2" using sc Some by (simp add: frame_def)
      have e: "sch_inv cls F X (scheduled out) ?s2 \<and> sroles X ?s2 = (sroles X s)(i := InV)"
        by (rule enter_step [OF sinv peek ne w(1), where q' = ?q2])
           (use ok fr wq bm d(1) Some u(2) in \<open>auto simp: seq_key_def holding_of_def is_finished_def cfg_ok_def clear_remote_prefill_def\<close>)
      have "out_ok B budget X ?s2 ?out"
        by (rule out_ok_step [OF step_invD(2) [OF inv] w(3) fr, where r' = InV]) (use e w(2) np in auto)
      then show ?thesis using load \<open>ext \<noteq> 0\<close> e fr b(1) np by (simp add: step_inv_def)
    qed
    then show ?thesis
      unfolding run using Some
      by (simp only: option.case) (intro okE_bindI [OF get_num_new_matched_tokens_ok [OF ask(1)]], auto simp: case_prod_unfold)
  qed
qed

section \<open>The waiting queue\<close>

lemma drop_waiting_step:
  assumes inv: "step_inv cls F B budget X s out" and peek: "w_peek (waiting s) = Inr i" and ne: "0 < w_len (waiting s)"
    and np: "preempted out = []"
  shows "okE (bindE (w_pop (waiting s)) (\<lambda>(_, w). drop_to i reason out (s\<lparr>waiting := w\<rparr>)))
    (\<lambda>(s', out'). step_inv cls F B budget X s' out' \<and> frame s s' \<and> preempted out' = [] \<and> scheduled out' = scheduled out)"
proof (rule okE_mono [OF drop_waiting_ok [OF step_invD(1) [OF inv] peek ne]], clarify)
  fix s' out'
  assume a: "sch_inv cls F X (scheduled out) s'" "frame s s'" "is_finished (objs s' i)"
    "\<forall>j. j \<noteq> i \<longrightarrow> objs s' j = objs s j" "sroles X s' = (sroles X s)(i := Out)" "sroles X s i = InW"
  have nQ: "i \<notin> set (scheduled out)" using coreD(5) [OF sch_invD(5) [OF step_invD(1) [OF inv]], of i] a(6) by auto
  have "out_ok B budget X s' (out\<lparr>dropped := dropped out @ [i]\<rparr>)"
    by (rule out_ok_step [OF step_invD(2) [OF inv] nQ a(2)]) (use a np in auto)
  then show "step_inv cls F B budget X s' (out\<lparr>dropped := dropped out @ [i]\<rparr>) \<and> frame s s' \<and>
      preempted (out\<lparr>dropped := dropped out @ [i]\<rparr>) = [] \<and> scheduled (out\<lparr>dropped := dropped out @ [i]\<rparr>) = scheduled out"
    using a np by (simp add: step_inv_def)
qed

lemma head_can_allocate:
  assumes inv: "sch_inv cls F X Q s" and peek: "w_peek (waiting s) = Inr i" and ne: "0 < w_len (waiting s)"
  shows "okE (can_allocate cls (block_mgr s) (objs s i) la) (\<lambda>_. True)"
proof -
  note d = sch_invD [OF inv]
  have w: "waiting_ok cls (kv_on s) (objs s i)" using head_facts [OF assms] by blast
  have "index_ok cls (block_mgr s)" using d(5) by (simp add: core_def bm_inv_def)
  then have "can_allocate cls (block_mgr s) (objs s i) la = Inr
     (let c = reusable_blocks cls (block_mgr s) (objs s i)
      in if int (length (free_block_queue (block_mgr s))) < bm_num_blocks (block_mgr s) (objs s i) la - int (held_hits (block_mgr s) (objs s i) c)
         then -1 else int c)"
    using w d(1) by (intro can_allocate_eq) (auto simp: waiting_ok_def cfg_ok_def)
  then show ?thesis by simp
qed

lemma head_peek_ok: "sch_inv cls F X Q s \<Longrightarrow> 0 < w_len (waiting s) \<Longrightarrow> okE (w_peek (waiting s)) (\<lambda>_. True)"
proof -
  assume i: "sch_inv cls F X Q s" and "0 < w_len (waiting s)"
  then have "w_ids (waiting s) \<noteq> {#}" using wq.len_pos [of "waiting s"] by blast
  from wq.peek_ok [OF sch_invD(3) [OF i] this] show ?thesis by (rule okE_mono) simp
qed

definition loop_post :: "seq_class \<Rightarrow> launched_row multiset \<Rightarrow> int \<Rightarrow> nat list \<Rightarrow> scheduler \<Rightarrow> scheduler \<times> scheduler_output \<Rightarrow> bool" where
  "loop_post cls F B X s = (\<lambda>(s', out'). (\<exists>b. 0 \<le> b \<and> step_inv cls F B b X s' out') \<and> frame s s' \<and> preempted out' = [])"

lemma loop_post_trans: "frame s s1 \<Longrightarrow> loop_post cls F B X s1 r \<Longrightarrow> loop_post cls F B X s r"
  by (auto simp: loop_post_def intro: frame_trans)

lemma admit_loop_ok:
  "step_inv cls F B budget X s out \<Longrightarrow> 0 \<le> budget \<Longrightarrow> preempted out = [] \<Longrightarrow>
     okE (admit_loop cls budget out s) (loop_post cls F B X s)"
proof (induction cls budget out s rule: admit_loop.induct)
  case (1 cls budget out s)
  note inv = "1.prems"(1)
  have stop: "loop_post cls F B X s (s, out)" using "1.prems" by (auto simp: loop_post_def)
  show ?case
  proof (cases "0 < w_len (waiting s) \<and> py_len (scheduled out) < max_num_seqs s \<and> 0 < budget")
    case False
    then show ?thesis using stop by (subst admit_loop.simps) auto
  next
    case True
    then obtain i where peek: "w_peek (waiting s) = Inr i" using head_peek_ok [OF step_invD(1) [OF inv]] by (auto simp: okE_iff)
    show ?thesis
    proof (cases "never_fits s i")
      case nf: True
      obtain u w s' out' where p: "w_pop (waiting s) = Inr (u, w)" "drop_to i ''capacity'' out (s\<lparr>waiting := w\<rparr>) = Inr (s', out')"
        and r: "step_inv cls F B budget X s' out'" "frame s s'" "preempted out' = []"
        using drop_waiting_step [OF inv peek _ "1.prems"(3), of "''capacity''"] True by (auto simp: okE_iff)
      have "okE (admit_loop cls budget out' s') (loop_post cls F B X s')"
        using "1.IH"(1) [OF True peek nf p(1) refl p(2) refl] r "1.prems"(2) by simp
      then have "okE (admit_loop cls budget out' s') (loop_post cls F B X s)"
        by (rule okE_mono) (rule loop_post_trans [OF r(2)])
      then show ?thesis using True peek nf p by (simp add: admit_loop.simps [of cls budget out s])
    next
      case nf: False
      obtain c where c: "can_allocate cls (block_mgr s) (objs s i) (num_lookahead_tokens s) = Inr c"
        using head_can_allocate [OF step_invD(1) [OF inv] peek] True by (auto simp: okE_iff)
      show ?thesis
      proof (cases "c = -1")
        case True': True
        then show ?thesis using True peek nf c stop by (simp add: admit_loop.simps [of cls budget out s])
      next
        case cf: False
        obtain n s' out' where a: "admit cls i c budget out s = Inr (n, s', out')"
          and r: "step_inv cls F B (budget - n) X s' out'" "0 \<le> n" "n \<le> budget" "frame s s'" "preempted out' = []"
          using admit_step [OF inv peek _ c cf] True "1.prems" by (auto simp: okE_iff)
        have "okE (admit_loop cls (budget - n) out' s') (loop_post cls F B X s')"
          using "1.IH"(2) [OF True peek nf c cf a refl refl] r by simp
        then have "okE (admit_loop cls (budget - n) out' s') (loop_post cls F B X s)"
          by (rule okE_mono) (rule loop_post_trans [OF r(4)])
        then show ?thesis using True peek nf c cf a by (simp add: admit_loop.simps [of cls budget out s])
      qed
    qed
  qed
qed

lemma whole_loop_ok:
  "step_inv cls F B budget X s out \<Longrightarrow> 0 \<le> budget \<Longrightarrow> preempted out = [] \<Longrightarrow> \<not> enable_chunked_prefill s \<Longrightarrow>
     okE (whole_loop cls budget out s) (loop_post cls F B X s)"
proof (induction cls budget out s rule: whole_loop.induct)
  case (1 cls budget out s)
  note inv = "1.prems"(1)
  have stop: "loop_post cls F B X s (s, out)" using "1.prems" by (auto simp: loop_post_def)
  show ?case
  proof (cases "0 < w_len (waiting s) \<and> py_len (scheduled out) < max_num_seqs s")
    case False
    then show ?thesis using stop by (subst whole_loop.simps) auto
  next
    case True
    then obtain i where peek: "w_peek (waiting s) = Inr i" using head_peek_ok [OF step_invD(1) [OF inv]] by (auto simp: okE_iff)
    obtain u w s' out' where p: "w_pop (waiting s) = Inr (u, w)" "drop_to i ''capacity'' out (s\<lparr>waiting := w\<rparr>) = Inr (s', out')"
      and r: "step_inv cls F B budget X s' out'" "frame s s'" "preempted out' = []"
      using drop_waiting_step [OF inv peek _ "1.prems"(3), of "''capacity''"] True by (auto simp: okE_iff)
    have nc: "\<not> enable_chunked_prefill s'" using r(2) "1.prems"(4) by (simp add: frame_def)
    obtain c where c: "can_allocate cls (block_mgr s) (objs s i) (num_lookahead_tokens s) = Inr c"
      using head_can_allocate [OF step_invD(1) [OF inv] peek] True by (auto simp: okE_iff)
    define n where "n = (if loads_remotely s i then 0 else num_tokens (objs s i) - c * sch_block_size s)"
    have body: "whole_loop cls budget out s =
        (if never_fits s i then whole_loop cls budget out' s' else if c = -1 then Inr (s, out)
         else if max_num_batched_tokens s < n then whole_loop cls budget out' s' else if budget < n then Inr (s, out)
         else bindE (admit cls i c budget out s) (\<lambda>(m, s', out'). whole_loop cls (budget - m) out' s'))"
      using True peek p c by (simp add: whole_loop.simps [of cls budget out s] n_def Let_def)
    consider (drop) "never_fits s i \<or> c \<noteq> -1 \<and> max_num_batched_tokens s < n"
      | (stop) "\<not> never_fits s i" "c = -1 \<or> (\<not> max_num_batched_tokens s < n \<and> budget < n)"
      | (admit) "\<not> never_fits s i" "c \<noteq> -1" "\<not> max_num_batched_tokens s < n" "\<not> budget < n" by blast
    then show ?thesis
    proof cases
      case drop
      have "okE (whole_loop cls budget out' s') (loop_post cls F B X s')"
      proof (cases "never_fits s i")
        case nf: True
        then show ?thesis using "1.IH"(1) [OF True peek nf p(1) refl p(2) refl] r "1.prems"(2) nc by simp
      next
        case nf: False
        then show ?thesis using "1.IH"(2) [OF True peek nf c _ n_def _ p(1) refl p(2) refl] r "1.prems"(2) nc drop by simp
      qed
      then have "okE (whole_loop cls budget out' s') (loop_post cls F B X s)"
        by (rule okE_mono) (rule loop_post_trans [OF r(2)])
      then show ?thesis unfolding body using drop by auto
    next
      case stop
      then show ?thesis unfolding body using \<open>loop_post cls F B X s (s, out)\<close> by auto
    next
      case admit
      have "0 < n" if "\<not> kv_on s"
      proof -
        have w: "waiting_ok cls (kv_on s) (objs s i)" "bm_inv cls (block_mgr s) (others (sroles X s) i (objs s))"
          using head_facts [OF step_invD(1) [OF inv] peek] True core_bm [OF sch_invD(5) [OF step_invD(1) [OF inv]], of i] by auto
        have cfg: "cfg_ok cls s" using sch_invD(1) [OF step_invD(1) [OF inv]] .
        have "c * cls_block_size cls < num_tokens (objs s i)"
          using admit_ok [OF w(2) _ _ _ _ _ _ c admit(2)] w(1) cfg by (simp add: waiting_ok_def cfg_ok_def)
        then show ?thesis using that cfg by (simp add: n_def loads_remotely_def cfg_ok_def)
      qed
      then have pos: "enable_chunked_prefill s \<or> \<not> kv_on s \<Longrightarrow> 0 < budget" using admit(4) "1.prems"(4) by auto
      obtain m s2 out2 where a: "admit cls i c budget out s = Inr (m, s2, out2)"
        and q: "step_inv cls F B (budget - m) X s2 out2" "0 \<le> m" "m \<le> budget" "frame s s2" "preempted out2 = []"
        using admit_step [OF inv peek _ c admit(2) "1.prems"(2) pos] True "1.prems"(3) by (auto simp: okE_iff)
      have "okE (whole_loop cls (budget - m) out2 s2) (loop_post cls F B X s2)"
        using "1.IH"(3) [OF True peek admit(1) c admit(2) n_def admit(3,4) a refl refl] q "1.prems"(4) by (simp add: frame_def)
      then have "okE (whole_loop cls (budget - m) out2 s2) (loop_post cls F B X s)"
        by (rule okE_mono) (rule loop_post_trans [OF q(4)])
      then show ?thesis unfolding body using admit a by simp
    qed
  qed
qed

section \<open>The whole step\<close>

lemma step_inv_start:
  assumes "sch_inv cls F X [] s" "\<forall>i \<in> set drops. sroles X s i = Out \<and> is_finished (objs s i)"
  shows "step_inv cls F B B X s (empty_scheduler_output\<lparr>dropped := drops\<rparr>)"
  using assms by (simp add: step_inv_def out_ok_def empty_scheduler_output_def)

lemma with_connector_meta_step:
  assumes "step_inv cls F B b X s out" "with_connector_meta s out = (s', out')"
  shows "step_inv cls F B b X s' out' \<and> frame s s' \<and> running s' = running s \<and> objs s' = objs s \<and> scheduled out' = scheduled out"
proof (cases "connector s")
  case (Some ns)
  define ns' where "ns' = snd (build_connector_meta ns)"
  have s': "s' = s\<lparr>connector := Some ns'\<rparr>" and out': "out' = out\<lparr>kv_metadata := Some (fst (build_connector_meta ns))\<rparr>"
    using assms(2) Some by (auto simp: with_connector_meta_def ns'_def case_prod_unfold Let_def)
  have bs: "ns_block_size ns' = ns_block_size ns" by (simp add: ns'_def build_connector_meta_def)
  have ro: "sroles X s' = sroles X s" by (simp add: s' sroles_def)
  have "sch_inv cls F X (scheduled out) s'"
    using step_invD(1) [OF assms(1)] Some bs ro unfolding sch_inv_def s'
    by (simp add: cfg_ok_def queue_ids_def keys_ok_def)
  moreover have "out_ok B b X s' out'"
    using step_invD(2) [OF assms(1)] Some s' out' ro by (simp add: out_ok_def)
  ultimately show ?thesis using Some s' out' by (simp add: step_inv_def frame_def)
qed (use assms in \<open>auto simp: with_connector_meta_def\<close>)

text \<open>What \<open>schedule\<close> promises.\<close>

definition schedule_post :: "seq_class \<Rightarrow> launched_row multiset \<Rightarrow> scheduler \<Rightarrow> scheduler \<times> scheduler_output \<Rightarrow> bool" where
  "schedule_post cls F s = (\<lambda>(s', out'). frame s s' \<and>
     (\<exists>b. 0 \<le> b \<and> step_inv cls F (max_num_batched_tokens s) b [] s' out'))"

lemma schedule_mixed_ok:
  assumes inv: "sch_inv cls F [] [] s" and dr: "\<forall>i \<in> set drops. sroles [] s i = Out \<and> is_finished (objs s i)"
    and B: "0 \<le> max_num_batched_tokens s"
  shows "okE (schedule_mixed cls drops s) (schedule_post cls F s)"
proof -
  let ?B = "max_num_batched_tokens s"
  let ?s1 = "s\<lparr>running := w_by_urgency (key_of s) (waiting s) (running s)\<rparr>"
  let ?out = "empty_scheduler_output\<lparr>dropped := drops\<rparr>"
  have fr1: "frame s ?s1" by (simp add: frame_def)
  have "step_inv cls F ?B ?B [] ?s1 ?out"
    using step_inv_start [OF inv dr] step_inv_shift [of "[]" "running ?s1" "[]" s] by (simp add: w_by_urgency_mset)
  then have loop: "okE (run_loop ?B [] ?out ?s1) (\<lambda>(b', still', s', out'). step_inv cls F ?B b' still' s' out' \<and>
     set (scheduled out') \<subseteq> set still' \<and> 0 \<le> b' \<and> frame ?s1 s' \<and> running s' = [])"
    using B by (intro run_loop_ok) (simp_all add: empty_scheduler_output_def)
  show ?thesis
    unfolding schedule_mixed_def Let_def
  proof (rule okE_bindI [OF loop], clarify)
    fix b still s2 out2
    assume a: "step_inv cls F ?B b still s2 out2" "0 \<le> b" "frame ?s1 s2" "running s2 = []"
    let ?s3 = "s2\<lparr>running := still\<rparr>"
    have i3: "step_inv cls F ?B b [] ?s3 out2" using a(1,4) by (subst step_inv_shift [of _ _ still]) simp_all
    have fr3: "frame s ?s3" using frame_trans [OF fr1 a(3)] by (simp add: frame_def)
    have "okE (if enable_chunked_prefill ?s3 \<and> preempted out2 = [] then admit_loop cls b out2 ?s3 else Inr (?s3, out2))
       (\<lambda>(s4, out4). (\<exists>b. 0 \<le> b \<and> step_inv cls F ?B b [] s4 out4) \<and> frame ?s3 s4)"
      using okE_mono [OF admit_loop_ok [OF i3 a(2)], of "\<lambda>(s4, out4). (\<exists>b. 0 \<le> b \<and> step_inv cls F ?B b [] s4 out4) \<and> frame ?s3 s4"]
        i3 a(2) by (auto simp: loop_post_def)
    then show "okE (bindE (if enable_chunked_prefill ?s3 \<and> preempted out2 = [] then admit_loop cls b out2 ?s3 else Inr (?s3, out2))
       (\<lambda>(s4, out4). Inr (with_connector_meta s4 out4))) (schedule_post cls F s)"
    proof (rule okE_bindI, clarify)
      fix s4 out4 b'
      assume c: "frame ?s3 s4" "0 \<le> b'" "step_inv cls F ?B b' [] s4 out4"
      obtain s5 out5 where m: "with_connector_meta s4 out4 = (s5, out5)" by force
      show "okE (Inr (with_connector_meta s4 out4)) (schedule_post cls F s)"
        using with_connector_meta_step [OF c(3) m] c(2) frame_trans [OF fr3 c(1)] m
        by (auto simp: schedule_post_def intro: frame_trans)
    qed
  qed
qed

lemma schedule_ok:
  assumes inv: "sch_inv cls F [] [] s" and B: "0 \<le> max_num_batched_tokens s"
  shows "okE (schedule cls s) (schedule_post cls F s)"
proof (cases "enable_chunked_prefill s")
  case True
  then show ?thesis using schedule_mixed_ok [OF inv _ B, of "[]"] by (simp add: schedule_def)
next
  case False
  let ?B = "max_num_batched_tokens s"
  have "step_inv cls F ?B ?B [] s empty_scheduler_output"
    using step_inv_start [OF inv, of "[]" ?B] by (simp add: empty_scheduler_output_def)
  then have w: "okE (schedule_whole_prompts cls s) (loop_post cls F ?B [] s)"
    unfolding schedule_whole_prompts_def using B False by (intro whole_loop_ok) (simp_all add: empty_scheduler_output_def)
  have "okE (if output_bool out then Inr (with_connector_meta s1 out) else schedule_mixed cls (dropped out) s1) (schedule_post cls F s)"
    if lp: "loop_post cls F ?B [] s (s1, out)" for s1 out
  proof -
    obtain b where b: "0 \<le> b" "step_inv cls F ?B b [] s1 out" "frame s s1" using lp by (auto simp: loop_post_def)
    obtain s5 out5 where m: "with_connector_meta s1 out = (s5, out5)" by force
    have "okE (schedule_mixed cls (dropped out) s1) (schedule_post cls F s1)" if "scheduled out = []"
      using b B that by (intro schedule_mixed_ok) (auto simp: step_inv_def out_ok_def frame_def)
    then have "okE (schedule_mixed cls (dropped out) s1) (schedule_post cls F s)" if "scheduled out = []"
      using that by (auto elim!: okE_mono simp: schedule_post_def intro: frame_trans [OF b(3)]) (use b(3) in \<open>auto simp: frame_def\<close>)
    then show ?thesis
      using with_connector_meta_step [OF b(2) m] b m by (auto simp: output_bool_def schedule_post_def intro: frame_trans)
  qed
  then show ?thesis using False w unfolding schedule_def
    by (auto intro!: okE_bindI [OF w])
qed

end
