(* ===== verification/Scheduler_Commit.thy ===== *)
theory Scheduler_Commit
  imports Scheduler_Steps
begin

text \<open>
  The operations between two \<open>schedule\<close> calls: \<open>advance\<close> turns the scheduled sequences into
  rows in flight, \<open>reconcile\<close> commits what they sampled, \<open>add\<close> and \<open>abort\<close> change the set of
  requests and \<open>update_from_kv_connector_output\<close> ends transfers.  Each keeps the invariant
  and raises nothing.
\<close>

section \<open>Rows in flight\<close>

lemma rows_for_add: "rows_for (add_mset row F) i = (if row_seq row = i then add_mset row (rows_for F i) else rows_for F i)"
  by (simp add: rows_for_def)

lemma rows_for_union: "rows_for (F + G) i = rows_for F i + rows_for G i"
  by (simp add: rows_for_def)

lemma reserved_add:
  "reserved (add_mset row F) n = (if row_num_preemptions row = n then 1 + row_num_draft_tokens row else 0) + reserved F n"
  by (simp add: reserved_def)

lemma reserved_nonneg: "\<forall>row \<in># F. 0 \<le> row_num_draft_tokens row \<Longrightarrow> 0 \<le> reserved F n"
  by (induction F) (auto simp: reserved_def)

text \<open>A row that no longer counts can be forgotten.\<close>

lemma rows_drop:
  assumes inv: "sch_inv cls (add_mset row F) X Q s"
    and void: "sroles X s (row_seq row) = InR \<Longrightarrow> row_num_preemptions row \<noteq> num_preemptions (objs s (row_seq row))"
  shows "sch_inv cls F X Q s"
proof -
  have "rows_ok (rows_for F i) (sroles X s i) (objs s i)" for i
    using coreD(6) [OF sch_invD(5) [OF inv], of i] void
    by (auto simp: rows_ok_def rows_for_add reserved_add split: if_splits)
  then show ?thesis using inv by (simp add: sch_inv_def core_def)
qed

section \<open>advance\<close>

lemma advance_one_ok:
  assumes inv: "sch_inv cls F X (i # Q) s" and nQ: "i \<notin> set Q"
  shows "okE (advance_one cls i (s, rows)) (\<lambda>(s', rows'). frame s s' \<and> sroles X s' = sroles X s \<and>
     (\<exists>new. rows' = rows @ new \<and> length new \<le> 1 \<and> (\<forall>row \<in> set new. row_seq row = i) \<and> sch_inv cls (F + mset new) X Q s'))"
proof -
  let ?q = "objs s i" and ?M = "others (sroles X s) i (objs s)"
  let ?d = "py_len (spec_token_ids ?q)"
  let ?q1 = "?q\<lparr>num_cached_tokens := num_cached_tokens ?q + num_scheduled_tokens ?q, num_scheduled_tokens := 0, spec_token_ids := []\<rparr>"
  note d = sch_invD [OF inv]
  have r: "sroles X s i = InR" using coreD(5) [OF d(5), of i] by simp
  note f = run_facts [OF inv r]
  have ok: "running_ok cls (kv_on s) True ?q" using f(1) by simp
  have cfg: "cls_wf cls" "bm_for cls (block_mgr s)" using d(1) by (simp_all add: cfg_ok_def)
  have wf: "seq_wf cls ?q1" using ok by (auto simp: running_ok_def seq_wf_def hashes_ok_def)
  have cov: "num_cached_tokens ?q + num_scheduled_tokens ?q \<le> int (length (block_table ?q)) * cls_block_size cls"
    using ok by (auto simp: running_ok_def prefill_ok_def decode_ok_def split: if_splits)
  have h1: "holding_of ?q1 = holding_of ?q" by (simp add: holding_of_def)
  have "okE (hash_blocks cls (block_mgr s) ?q1 (num_cached_tokens ?q1)) (\<lambda>(bm', s'). bm_inv cls bm' (add_mset (holding_of s') ?M) \<and>
     same_config (block_mgr s) bm' \<and> (\<exists>p. s' = ?q1\<lparr>num_published_blocks := p\<rparr> \<and>
       (p = num_published_blocks ?q1 \<or> p * cls_block_size cls \<le> min (num_cached_tokens ?q1) (num_tokens ?q1))) \<and> free_block_queue bm' = free_block_queue (block_mgr s))"
    by (rule hash_blocks_ok [OF _ cfg(1) wf cfg(2)]) (use f(3) h1 cov in simp_all)
  then obtain bm p where run: "hash_blocks cls (block_mgr s) ?q1 (num_cached_tokens ?q1) = Inr (bm, ?q1\<lparr>num_published_blocks := p\<rparr>)"
    and bm: "bm_inv cls bm (add_mset (holding_of (?q1\<lparr>num_published_blocks := p\<rparr>)) ?M)" "same_config (block_mgr s) bm"
    and pub: "p = num_published_blocks ?q1 \<or> p * cls_block_size cls \<le> min (num_cached_tokens ?q1) (num_tokens ?q1)"
    unfolding okE_iff by (auto simp only: prod.case)
  let ?q2 = "?q1\<lparr>num_published_blocks := p\<rparr>"
  let ?s2 = "s\<lparr>block_mgr := bm, objs := (objs s)(i := ?q2)\<rparr>"
  have step: "with_bm (\<lambda>bm q. hash_blocks cls bm q (num_cached_tokens q)) i
      (upd_seq i (\<lambda>q. q\<lparr>num_cached_tokens := num_cached_tokens q + num_scheduled_tokens q,
                       num_scheduled_tokens := 0, spec_token_ids := []\<rparr>) s) = Inr ?s2"
    using run by (simp add: with_bm_def upd_seq_def put_seq_def)
  have pl: "num_planned_tokens ?q2 = num_planned_tokens ?q" by (simp add: num_planned_tokens_def)
  have fr: "frame s (s\<lparr>block_mgr := bm, objs := ob\<rparr>)" for ob using bm(2) by (simp add: frame_def)
  show ?thesis
  proof (cases "num_cached_tokens ?q2 < num_planned_tokens ?q2")
    case True
    have pre: "is_prefill ?q" using True ok pl by (auto simp: running_ok_def decode_ok_def py_len_def split: if_splits)
    have "running_ok cls (kv_on s) (i \<in> set Q) ?q2"
      using ok pre nQ True wf pub by (auto simp: running_ok_def prefill_ok_def below_limit_def no_load_def num_planned_tokens_def seq_wf_def hashes_ok_def)
    then have "sch_inv cls F X Q ?s2 \<and> sroles X ?s2 = sroles X s"
      using f(4) bm fr by (intro inplace_step [OF inv r, where q' = ?q2]) (auto simp: seq_key_def rows_ok_def row_ok_def is_finished_def)
    then show ?thesis using step True fr by (simp add: advance_one_def Let_def)
  next
    case False
    let ?q3 = "(reserve_token (1 + ?d) (?q2\<lparr>is_prefill := False\<rparr>))\<lparr>spec_token_ids := replicate (nat (num_speculative_tokens s)) PLACEHOLDER_TOKEN_ID\<rparr>"
    let ?s3 = "s\<lparr>block_mgr := bm, objs := (objs s)(i := ?q3)\<rparr>"
    let ?row = "\<lparr>row_seq = i, row_num_preemptions = num_preemptions ?q, row_num_draft_tokens = ?d\<rparr>"
    have "running_ok cls (kv_on s) (i \<in> set Q) ?q3"
      using ok nQ False cov pub by (auto simp: running_ok_def prefill_ok_def decode_ok_def below_limit_def no_load_def num_planned_tokens_def
          reserve_token_def seq_wf_def hashes_ok_def py_len_def split: if_splits)
    moreover have "rows_ok (rows_for (add_mset ?row F) i) InR ?q3"
      using f(4) by (auto simp: rows_for_add rows_ok_def row_ok_def reserved_add reserve_token_def is_finished_def py_len_def)
    moreover have "holding_of ?q3 = holding_of ?q2" by (simp add: holding_of_def reserve_token_def)
    ultimately have "sch_inv cls (add_mset ?row F) X Q ?s3 \<and> sroles X ?s3 = sroles X s"
      using bm fr by (intro inplace_step [OF inv r, where q' = ?q3]) (auto simp: seq_key_def reserve_token_def rows_for_add)
    moreover have "advance_one cls i (s, rows) = Inr (?s3, rows @ [?row])"
      using step False by (simp add: advance_one_def Let_def upd_seq_def put_seq_def reserve_token_def)
    ultimately show ?thesis using fr by simp
  qed
qed

lemma advance_loop:
  "sch_inv cls F X Q s \<Longrightarrow> distinct Q \<Longrightarrow>
   okE (foldE (advance_one cls) Q (s, rows)) (\<lambda>(s', rows'). frame s s' \<and> sroles X s' = sroles X s \<and>
     (\<exists>new. rows' = rows @ new \<and> distinct (map row_seq new) \<and> set (map row_seq new) \<subseteq> set Q \<and> sch_inv cls (F + mset new) X [] s'))"
proof (induction Q arbitrary: F s rows)
  case (Cons i Q)
  show ?case
    unfolding foldE.simps
  proof (rule okE_bindI [OF advance_one_ok [OF Cons.prems(1)]], use Cons.prems(2) in simp, clarify)
    fix s1 rows1 new
    assume a: "frame s s1" "sroles X s1 = sroles X s" "length new \<le> 1" "\<forall>row \<in> set new. row_seq row = i" "sch_inv cls (F + mset new) X Q s1"
    have one: "distinct (map row_seq new)" using a(3) by (cases new) auto
    show "okE (foldE (advance_one cls) Q (s1, rows @ new)) (\<lambda>(s', rows'). frame s s' \<and> sroles X s' = sroles X s \<and>
     (\<exists>new. rows' = rows @ new \<and> distinct (map row_seq new) \<and> set (map row_seq new) \<subseteq> set (i # Q) \<and> sch_inv cls (F + mset new) X [] s'))"
    proof (rule okE_mono [OF Cons.IH [OF a(5)]], use Cons.prems(2) in simp, clarify)
      fix s' rows' more
      assume b: "frame s1 s'" "sroles X s' = sroles X s1" "distinct (map row_seq more)" "set (map row_seq more) \<subseteq> set Q"
        "sch_inv cls (F + mset new + mset more) X [] s'"
      have "distinct (map row_seq (new @ more))" using one b(3,4) a(4) Cons.prems(2) by auto
      then show "frame s s' \<and> sroles X s' = sroles X s \<and>
         (\<exists>new'. (rows @ new) @ more = rows @ new' \<and> distinct (map row_seq new') \<and> set (map row_seq new') \<subseteq> set (i # Q) \<and> sch_inv cls (F + mset new') X [] s')"
        using b a frame_trans [OF a(1) b(1)] by (intro conjI exI [of _ "new @ more"]) (auto simp: ac_simps)
    qed
  qed
qed simp

section \<open>The start\<close>

lemma w_new:
  assumes "policy_create n = Inr w"
  shows "w_iter w = []" "w_inv key w"
  using assms by (auto simp: policy_create_def heap_from_def split: if_splits)

lemma new_scheduler_inv:
  assumes cls: "cls_wf cls" "cls_block_size cls = sc_kvcache_block_size c" "cls_enable_prefix_caching cls = sc_enable_prefix_caching c"
    and c: "0 \<le> sc_long_prefill_token_threshold c" "sc_kv_transfer c \<noteq> None \<Longrightarrow> sc_num_speculative_tokens c = None"
      "\<And>n. sc_num_speculative_tokens c = Some n \<Longrightarrow> 0 \<le> n"
    and new: "new_scheduler c ob clk = Inr s"
  shows "scheduler_inv cls {#} s"
proof -
  obtain w where w: "policy_create (sc_scheduling_policy c) = Inr w" using new by (auto simp: new_scheduler_def Let_def)
  have s: "waiting s = w" "running s = []" "recving s = []" "sending s = []" "seqs s = []" "objs s = ob"
    "block_mgr s = new_block_manager (sc_num_kvcache_blocks c) (sc_kvcache_block_size c) (sc_enable_prefix_caching c) (sc_num_speculative_tokens c \<noteq> None)"
    using new w by (auto simp: new_scheduler_def Let_def)
  have ro: "sroles [] s = (\<lambda>_. Out)" using w_new(1) [OF w] s by (simp add: sroles_def roles_def fun_eq_iff)
  have "cfg_ok cls s"
    using cls c w new by (auto simp: new_scheduler_def Let_def cfg_ok_def bm_for_def new_block_manager_def new_nixl_scheduler_def split: option.splits)
  moreover have "queue_ids [] s = {#}" using w_new(1) [OF w] s by (simp add: queue_ids_def)
  moreover have "core cls (kv_on s) {#} [] (sroles [] s) (objs s) (block_mgr s) (seqs s)"
    using new_block_manager_inv by (simp add: core_def ro s rows_for_def rows_ok_def live_def)
  ultimately show ?thesis using w_new(2) [OF w] s by (simp add: sch_inv_def keys_ok_def)
qed

section \<open>add\<close>

lemma used_ids:
  assumes inv: "sch_inv cls F X Q s" and j: "sroles X s j \<noteq> Out"
  shows "request_id (objs s j) \<in> dict_keys (seqs s) \<union> dict_keys (recving s) \<union> dict_keys (sending s)"
proof -
  note d = sch_invD [OF inv]
  consider "sroles X s j = InW \<or> sroles X s j = InR" | "sroles X s j = InV" | "sroles X s j = InS"
    using j by (cases "sroles X s j") auto
  then show ?thesis
  proof cases
    case 1
    then have "map_of (seqs s) (request_id (objs s j)) = Some j" using coreD(8) [OF d(5)] by (auto simp: live_def)
    then show ?thesis using map_of_SomeD_key by fast
  next
    case 2
    then obtain r where r: "(r, j) \<in> set (recving s)" using sroles_iff(3) [OF d(2)] by auto
    then have "request_id (objs s j) = r" using d(4) by (auto simp: keys_ok_def)
    then show ?thesis using r by force
  next
    case 3
    then obtain r where r: "(r, j) \<in> set (sending s)" using sroles_iff(4) [OF d(2)] by auto
    then have "request_id (objs s j) = r" using d(4) by (auto simp: keys_ok_def)
    then show ?thesis using r by force
  qed
qed

lemma sch_add_ok:
  assumes inv: "scheduler_inv cls F s" and q: "waiting_ok cls (kv_on s) q"
    and fresh: "seq_id q \<notin># queue_ids [] s" "rows_for F (seq_id q) = {#}"
    and new: "request_id q \<notin> dict_keys (seqs s) \<union> dict_keys (recving s) \<union> dict_keys (sending s)"
  shows "okE (sch_add q s) (\<lambda>s'. scheduler_inv cls F s' \<and> frame s s' \<and> objs s' = (objs s)(seq_id q := q) \<and>
     sroles [] s' = (sroles [] s)(seq_id q := InW))"
proof -
  let ?i = "seq_id q"
  let ?s = "s\<lparr>objs := (objs s)(?i := q)\<rparr>"
  let ?s' = "?s\<lparr>seqs := seqs s @ [(request_id q, ?i)], waiting := w_add (key_of ?s ?i) (waiting s)\<rparr>"
  note d = sch_invD [OF inv]
  have out: "sroles [] s ?i = Out" using sroles_iff(5) [OF d(2)] fresh(1) by blast
  have wk: "w_inv (key_of ?s) (waiting s)"
  proof (subst w_inv_cong [where key' = "key_of s"])
    fix j assume "j \<in> set (w_iter (waiting s))"
    then have "j \<noteq> ?i" using fresh(1) by (auto simp: queue_ids_def)
    then show "key_of ?s j = key_of s j" by simp
  qed (rule d(3))
  have ad: "w_inv (key_of ?s) (w_add (key_of ?s ?i) (waiting s)) \<and> w_ids (w_add (key_of ?s ?i) (waiting s)) = add_mset ?i (Wm s)"
    by (rule wq.add) (use wk in \<open>auto simp: seq_key_def\<close>)
  have run: "sch_add q s = Inr ?s'" using new by (auto simp: sch_add_def put_seq_def Let_def dict_put_new)
  have fr: "frame s ?s'" by (simp add: frame_def)
  have ro: "sroles [] ?s' = (sroles [] s)(?i := InW)" using ad by (simp add: sroles_def roles_W)
  have old: "request_id (objs s j) \<noteq> request_id q" if "sroles [] s j \<noteq> Out" for j using used_ids [OF inv that] new by metis
  have "sch_inv cls F [] [] ?s'"
  proof (rule sch_stepI [OF inv, where i = ?i and r' = InW and q' = q])
    show "uniq (queue_ids [] ?s')" using d(2) ad fresh(1) by (simp add: queue_ids_def)
    show "cfg_ok cls ?s'" by (rule cfg_ok_frame [OF d(1) fr]) (use d(1) in \<open>simp add: cfg_ok_def\<close>)
    show "keys_ok ?s'"
    proof -
      have "j \<noteq> ?i" if "(r, j) \<in> set (recving s) \<union> set (sending s)" for r j
        using that fresh(1) by (force simp: queue_ids_def)
      then show ?thesis using d(4) unfolding keys_ok_def by simp blast
    qed
    show "w_inv (key_of ?s') (waiting ?s')" using ad by simp
    show "role_ok cls (kv_on s) (?i \<in> set []) InW q" using q by simp
    show "rows_ok (rows_for F ?i) InW q" using fresh(2) by (simp add: rows_ok_def)
    show "bm_inv cls (block_mgr ?s') (own InW q + others (sroles [] s) ?i (objs s))" using core_bm [OF d(5), of ?i] out by simp
    show "wf_dict (seqs ?s')" using coreD(7) [OF d(5)] new by auto
    have noi: "map_of (seqs s) r \<noteq> Some ?i" for r using coreD(8) [OF d(5), of r ?i] out by (simp add: live_def)
    show "map_of (seqs ?s') r = Some j \<longleftrightarrow> (if j = ?i then live InW q \<and> request_id q = r else map_of (seqs s) r = Some j)" for r j
    proof (cases "map_of (seqs s) r")
      case None
      then show ?thesis by (auto simp: map_add_def live_def)
    next
      case (Some k)
      have "r \<in> dict_keys (seqs s)" using Some by (rule map_of_SomeD_key)
      with new have "r \<noteq> request_id q" by blast
      moreover have "k \<noteq> ?i" using Some noi by blast
      ultimately have "r \<noteq> request_id q" "k \<noteq> ?i" .
      then show ?thesis using Some by (auto simp: map_add_def)
    qed
  qed (use ro old in auto)
  then show ?thesis using run fr ro by simp
qed

end
