(* ===== verification/Scheduler_Reconcile.thy ===== *)
theory Scheduler_Reconcile
  imports Scheduler_Commit
begin

text \<open>
  \<open>reconcile\<close>: a row that still counts commits the tokens up to its first stop, releases the
  reservations of its rejected drafts and goes on or ends; a void row changes nothing.  The loop
  keeps the invariant, raises nothing and forgets exactly the rows it was given.
\<close>

section \<open>What a row keeps of its tokens\<close>

text \<open>
  \<open>kept\<close>: the tokens up to and including the first that ends the request, where \<open>room\<close> is how
  many more the length limit allows.
\<close>

fun kept :: "(int \<Rightarrow> bool) \<Rightarrow> int \<Rightarrow> int list \<Rightarrow> int list" where
  "kept stop room [] = []"
| "kept stop room (t # ts) = (if stop t \<or> room = 1 then [t] else t # kept stop (room - 1) ts)"

definition stops :: "int \<Rightarrow> sequence \<Rightarrow> int \<Rightarrow> bool" where
  "stops eos_id q t \<longleftrightarrow> (t = eos_id \<and> \<not> ignore_eos q) \<or> t \<in> set (stop_token_ids q)"

definition grown :: "int list \<Rightarrow> int list \<Rightarrow> sequence \<Rightarrow> sequence" where
  "grown us hs q = q\<lparr>token_ids := token_ids q @ us, last_token := (if us = [] then last_token q else last us),
     num_tokens := num_tokens q + py_len us, num_pending_tokens := num_pending_tokens q - py_len us,
     block_hashes := hs, num_new_tokens := num_new_tokens q + py_len us\<rparr>"

lemma grown_grown: "grown vs hs (grown us gs q) = grown (us @ vs) hs q"
  by (simp add: grown_def py_len_def)

lemma commit_tokens_ok:
  "cls_wf cls \<Longrightarrow> seq_wf cls q \<Longrightarrow> py_len ts \<le> num_pending_tokens q \<Longrightarrow> below_limit q \<Longrightarrow>
   num_planned_tokens q - num_prompt_tokens q \<le> max_tokens q \<Longrightarrow>
   okE (commit_tokens cls e ts q) (\<lambda>(q', r). seq_wf cls q' \<and>
     (\<exists>hs. q' = grown (kept (stops e q) (max_tokens q - num_completion_tokens q) ts) hs q) \<and>
     (r = None \<longrightarrow> kept (stops e q) (max_tokens q - num_completion_tokens q) ts = ts \<and> below_limit q'))"
proof (induction ts arbitrary: q)
  case Nil
  then show ?case by (auto simp: grown_def py_len_def intro!: exI [of _ "block_hashes q"])
next
  case (Cons t ts)
  let ?room = "max_tokens q - num_completion_tokens q"
  have p: "0 < num_pending_tokens q" using Cons.prems(3) by (simp add: py_len_def)
  show ?case
    unfolding commit_tokens.simps Let_def
  proof (rule okE_bindI [OF commit_token_ok [OF Cons.prems(1,2) p]], clarify)
    fix hs
    let ?q1 = "q\<lparr>token_ids := token_ids q @ [t], last_token := t, num_tokens := num_tokens q + 1,
        num_pending_tokens := num_pending_tokens q - 1, block_hashes := hs\<rparr>"
    let ?q2 = "?q1\<lparr>num_new_tokens := num_new_tokens ?q1 + 1\<rparr>"
    assume wf: "seq_wf cls ?q1"
    have wf2: "seq_wf cls ?q2" using wf by (auto simp: seq_wf_def hashes_ok_def split: if_splits)
    have g: "?q2 = grown [t] hs q" by (simp add: grown_def py_len_def)
    have st: "stops e ?q2 = stops e q" by (simp add: fun_eq_iff stops_def)
    have room: "max_tokens ?q2 - num_completion_tokens ?q2 = ?room - 1" by (simp add: num_completion_tokens_def)
    show "okE (case stop_reason e t ?q2 of None \<Rightarrow> commit_tokens cls e ts ?q2 | Some r \<Rightarrow> Inr (?q2, Some r))
      (\<lambda>(q', r). seq_wf cls q' \<and> (\<exists>hs. q' = grown (kept (stops e q) ?room (t # ts)) hs q) \<and>
         (r = None \<longrightarrow> kept (stops e q) ?room (t # ts) = t # ts \<and> below_limit q'))"
    proof (cases "stops e q t \<or> ?room = 1")
      case True
      then have "stop_reason e t ?q2 \<noteq> None"
        by (auto simp: stop_reason_def stops_def num_completion_tokens_def)
      then obtain r where "stop_reason e t ?q2 = Some r" by blast
      then show ?thesis using True wf2 g by (auto simp del: grown_def)
    next
      case False
      then have nr: "stop_reason e t ?q2 = None"
        by (auto simp: stop_reason_def stops_def num_completion_tokens_def)
      have bl: "below_limit ?q2" using False Cons.prems(4) by (auto simp: below_limit_def num_completion_tokens_def)
      have "okE (commit_tokens cls e ts ?q2) (\<lambda>(q', r). seq_wf cls q' \<and>
          (\<exists>hs. q' = grown (kept (stops e ?q2) (max_tokens ?q2 - num_completion_tokens ?q2) ts) hs ?q2) \<and>
          (r = None \<longrightarrow> kept (stops e ?q2) (max_tokens ?q2 - num_completion_tokens ?q2) ts = ts \<and> below_limit q'))"
        by (rule Cons.IH [OF Cons.prems(1) wf2 _ bl])
          (use Cons.prems in \<open>auto simp: py_len_def num_planned_tokens_def\<close>)
      then show ?thesis unfolding nr option.case st room unfolding g grown_grown
        by (rule okE_mono) (use False in auto)
    qed
  qed
qed

lemma hashes_grow:
  assumes "seq_wf cls q" "seq_wf cls q'" "token_ids q' = token_ids q @ us"
  obtains hs where "block_hashes q' = block_hashes q @ hs"
proof -
  let ?k = "length (token_ids q) div bsz cls" and ?n = "length (token_ids q') div bsz cls"
  have le: "?k \<le> ?n" using assms(3) by (simp add: div_le_mono)
  have "take ?k (chain (cls_algo cls) (bsz cls) (token_ids q') ?n) = chain (cls_algo cls) (bsz cls) (token_ids q) ?k"
    using le assms(3) by (simp add: take_chain chain_append)
  then have "\<exists>hs. block_hashes q' = block_hashes q @ hs"
    using assms(1,2) by (auto simp: seq_wf_def hashes_ok_def) (metis append_take_drop_id)
  then show ?thesis using that by blast
qed

lemma leave_running:
  assumes u: "uniq (queue_ids [] s)" and i: "i \<in> set (running s)"
    and s1: "running s1 = remove1 i (running s)" "waiting s1 = waiting s" "recving s1 = recving s" "sending s1 = sending s"
  shows "queue_ids [] s = add_mset i (queue_ids [] s1)" "sroles [] s1 = (sroles [] s)(i := Out)"
proof -
  have R: "mset (running s) = add_mset i (mset (running s1))" using i s1(1) by simp
  then show q: "queue_ids [] s = add_mset i (queue_ids [] s1)" by (simp add: queue_ids_def s1(2-4))
  have "i \<notin># queue_ids [] s1" using u unfolding q by simp
  then have no: "i \<notin># Wm s1 + Rm [] s1 + Vm s1 + Sm s1" and nw: "i \<notin># Wm s" by (simp_all add: queue_ids_def s1(2-4))
  have out: "sroles [] s1 = (sroles [] s1)(i := Out)" unfolding sroles_def by (rule roles_Out [OF no])
  have "sroles [] s = (sroles [] s1)(i := InR)" using nw by (simp add: sroles_def R s1(2-4) roles_R)
  then show "sroles [] s1 = (sroles [] s)(i := Out)" by (simp only: fun_upd_upd) (rule out)
qed

definition row_valid :: "scheduler \<Rightarrow> launched_row \<Rightarrow> bool" where
  "row_valid s row \<longleftrightarrow> \<not> is_finished (objs s (row_seq row)) \<and> num_preemptions (objs s (row_seq row)) = row_num_preemptions row"

text \<open>A row that still counts is one of a decoding sequence, whose reserved tokens include the row's.\<close>

lemma row_facts:
  assumes inv: "scheduler_inv cls (add_mset row F) s" and v: "row_valid s row"
  defines "i \<equiv> row_seq row"
  shows "sroles [] s i = InR" "\<not> is_prefill (objs s i)" "0 \<le> row_num_draft_tokens row"
    "num_pending_tokens (objs s i) = 1 + row_num_draft_tokens row + reserved (rows_for F i) (row_num_preemptions row)"
    "0 \<le> reserved (rows_for F i) (row_num_preemptions row)" "\<forall>r \<in># rows_for F i. row_ok InR (objs s i) r"
proof -
  note d = sch_invD [OF inv]
  have ro: "rows_ok (add_mset row (rows_for F i)) (sroles [] s i) (objs s i)"
    using coreD(6) [OF d(5), of i] by (simp add: rows_for_add i_def)
  have "row_ok (sroles [] s i) (objs s i) row" using ro by (simp add: rows_ok_def)
  then show r: "sroles [] s i = InR" and dr: "0 \<le> row_num_draft_tokens row"
    using v by (auto simp: row_ok_def row_valid_def i_def)
  show pend: "num_pending_tokens (objs s i) = 1 + row_num_draft_tokens row + reserved (rows_for F i) (row_num_preemptions row)"
    using ro r v by (simp add: rows_ok_def reserved_add row_valid_def i_def)
  show all: "\<forall>r \<in># rows_for F i. row_ok InR (objs s i) r" using ro r by (simp add: rows_ok_def)
  then show nn: "0 \<le> reserved (rows_for F i) (row_num_preemptions row)"
    by (intro reserved_nonneg) (auto simp: row_ok_def)
  have "running_ok cls (kv_on s) False (objs s i)" using run_facts(1) [OF inv r] by simp
  then show "\<not> is_prefill (objs s i)" using pend nn dr by (auto simp: running_ok_def prefill_ok_def)
qed

abbreviation row_tokens :: "scheduler \<Rightarrow> launched_row \<Rightarrow> sampled \<Rightarrow> int list" where
  "row_tokens s row smp \<equiv> kept (stops (eos s) (objs s (row_seq row)))
     (max_tokens (objs s (row_seq row)) - num_completion_tokens (objs s (row_seq row))) (new_tokens smp)"

definition row_post :: "seq_class \<Rightarrow> launched_row multiset \<Rightarrow> scheduler \<Rightarrow> launched_row \<Rightarrow> sampled \<Rightarrow> scheduler \<Rightarrow> bool" where
  "row_post cls F s row smp s' \<longleftrightarrow> scheduler_inv cls F s' \<and> frame s s' \<and>
     (\<forall>j. j \<noteq> row_seq row \<longrightarrow> objs s' j = objs s j \<and> sroles [] s' j = sroles [] s j) \<and>
     (if row_valid s row then token_ids (objs s' (row_seq row)) = token_ids (objs s (row_seq row)) @ row_tokens s row smp \<and>
        num_new_tokens (objs s' (row_seq row)) = py_len (row_tokens s row smp)
      else s' = s)"

text \<open>The sequence after its tokens are committed.\<close>

lemma committed:
  assumes inv: "scheduler_inv cls (add_mset row F) s" and v: "row_valid s row"
    and n: "1 \<le> length (new_tokens smp)" "py_len (new_tokens smp) \<le> 1 + row_num_draft_tokens row"
  defines "q \<equiv> objs s (row_seq row)" and "rej \<equiv> row_num_draft_tokens row - (py_len (new_tokens smp) - 1)"
  shows "okE (commit_tokens cls (eos s) (new_tokens smp)
       (q\<lparr>num_cached_tokens := num_cached_tokens q - rej, num_pending_tokens := num_pending_tokens q - rej, num_new_tokens := 0\<rparr>))
     (\<lambda>(q', r). seq_wf cls q' \<and> (\<exists>hs. q' = grown (row_tokens s row smp) (block_hashes q @ hs)
        (q\<lparr>num_cached_tokens := num_cached_tokens q - rej, num_pending_tokens := num_pending_tokens q - rej, num_new_tokens := 0\<rparr>)) \<and>
        (r = None \<longrightarrow> row_tokens s row smp = new_tokens smp \<and> below_limit q' \<and>
           num_pending_tokens q' = reserved (rows_for F (row_seq row)) (row_num_preemptions row)))"
proof -
  let ?q = "q\<lparr>num_cached_tokens := num_cached_tokens q - rej, num_pending_tokens := num_pending_tokens q - rej, num_new_tokens := 0\<rparr>"
  note f = row_facts [OF inv v, folded q_def]
  have ok: "running_ok cls (kv_on s) False q" using run_facts(1) [OF inv f(1)] by (simp add: q_def)
  have cls: "cls_wf cls" using sch_invD(1) [OF inv] by (simp add: cfg_ok_def)
  have pend: "num_pending_tokens ?q = py_len (new_tokens smp) + reserved (rows_for F (row_seq row)) (row_num_preemptions row)"
    using f(4) by (simp add: rej_def)
  have nn: "0 \<le> num_pending_tokens ?q" using pend f(5) by (simp add: py_len_def)
  have wf: "seq_wf cls q" "seq_wf cls ?q" using ok nn by (auto simp: running_ok_def seq_wf_def hashes_ok_def)
  have "okE (commit_tokens cls (eos s) (new_tokens smp) ?q) (\<lambda>(q', r). seq_wf cls q' \<and>
     (\<exists>hs. q' = grown (kept (stops (eos s) ?q) (max_tokens ?q - num_completion_tokens ?q) (new_tokens smp)) hs ?q) \<and>
     (r = None \<longrightarrow> kept (stops (eos s) ?q) (max_tokens ?q - num_completion_tokens ?q) (new_tokens smp) = new_tokens smp \<and> below_limit q'))"
    by (rule commit_tokens_ok [OF cls wf(2)])
      (use pend f(5) f(2) ok n in \<open>auto simp: running_ok_def decode_ok_def below_limit_def num_planned_tokens_def rej_def\<close>)
  then obtain q' r hs where run: "commit_tokens cls (eos s) (new_tokens smp) ?q = Inr (q', r)" and wf': "seq_wf cls q'"
    and g: "q' = grown (kept (stops (eos s) ?q) (max_tokens ?q - num_completion_tokens ?q) (new_tokens smp)) hs ?q"
    and n: "r = None \<longrightarrow> kept (stops (eos s) ?q) (max_tokens ?q - num_completion_tokens ?q) (new_tokens smp) = new_tokens smp \<and> below_limit q'"
    unfolding okE_iff by (auto simp only: prod.case)
  have st: "stops (eos s) ?q = stops (eos s) q" by (simp add: fun_eq_iff stops_def)
  have us: "kept (stops (eos s) ?q) (max_tokens ?q - num_completion_tokens ?q) (new_tokens smp) = row_tokens s row smp"
    by (simp only: st) (simp add: num_completion_tokens_def q_def)
  note g = g [unfolded us] and n = n [unfolded us]
  have tk: "token_ids q' = token_ids q @ row_tokens s row smp" unfolding g by (simp add: grown_def)
  obtain hs' where "block_hashes q' = block_hashes q @ hs'" by (rule hashes_grow [OF wf(1) wf' tk])
  then have hs': "hs = block_hashes q @ hs'" unfolding g by (simp add: grown_def)
  have pd: "num_pending_tokens q' = num_pending_tokens ?q - py_len (row_tokens s row smp)" unfolding g by (simp add: grown_def)
  show ?thesis unfolding run using wf' n pd pend g hs' by auto
qed

text \<open>A stopped sequence leaves the running deque and gives up or hands over its blocks.\<close>

lemma settle_stop:
  assumes inv: "scheduler_inv cls F s" and r: "sroles [] s i = InR"
    and s3: "s3 = s\<lparr>ticks := c, objs := (objs s)(i := q)\<rparr>"
    and q: "seq_key q = seq_key (objs s i)" "request_id q = request_id (objs s i)" "num_preemptions q = num_preemptions (objs s i)" "seq_wf cls q"
    and bm: "bm_inv cls (block_mgr s) (add_mset (holding_of q) (others (sroles [] s) i (objs s)))"
  shows "okE (settle_row drafts k i (Some reason) s3)
    (\<lambda>s'. scheduler_inv cls F s' \<and> frame s s' \<and> (\<forall>j. j \<noteq> i \<longrightarrow> objs s' j = objs s j \<and> sroles [] s' j = sroles [] s j) \<and>
       is_finished (objs s' i) \<and> token_ids (objs s' i) = token_ids q \<and> num_new_tokens (objs s' i) = num_new_tokens q)"
proof -
  let ?q5 = "drop_pending ((drop_pending q)\<lparr>status := FINISHED, finish_reason := Some reason, finish_time := Some (clock s c)\<rparr>)"
  let ?s5 = "s\<lparr>running := remove1 i (running s), ticks := Suc c, objs := (objs s)(i := ?q5), seqs := dict_del (seqs s) (request_id (objs s i))\<rparr>"
  note d = sch_invD [OF inv]
  have i: "i \<in> set (running s)" using r sroles_iff(2) [OF d(2), of i] by simp
  note lr = leave_running [OF d(2) i, of ?s5]
  have key: "request_id (objs s i) \<in> dict_keys (seqs s)"
    using coreD(8) [OF d(5), of "request_id (objs s i)" i] r by (intro map_of_SomeD_key [of _ _ i]) (auto simp: live_def)
  have run: "settle_row drafts k i (Some reason) s3 = free_seq i ?s5"
    using i key q(2) by (simp add: settle_row_def running_remove_def drop_seq_def finish_def perf_counter_def upd_seq_def put_seq_def drop_pending_def Let_def s3)
  have "okE (free_seq i ?s5) (\<lambda>s'. scheduler_inv cls F s' \<and> frame s s' \<and> (\<forall>j. j \<noteq> i \<longrightarrow> objs s' j = objs s j) \<and>
     is_finished (objs s' i) \<and> running s' = running ?s5 \<and> waiting s' = waiting ?s5 \<and>
     token_ids (objs s' i) = token_ids ?q5 \<and> num_new_tokens (objs s' i) = num_new_tokens ?q5 \<and> sroles [] s' i \<in> {Out, InS} \<and>
     (\<forall>j. j \<noteq> i \<longrightarrow> sroles [] s' j = sroles [] s j))"
    by (rule free_end [OF inv, where i = i])
       (use r d(3) lr q bm in \<open>auto simp: frame_def drop_pending_def holding_of_def is_finished_def seq_key_def seq_wf_def hashes_ok_def\<close>)
  then show ?thesis unfolding run by (rule okE_mono) (simp add: drop_pending_def)
qed


text \<open>A sequence that goes on keeps its place and may take the drafts of its next step.\<close>

lemma settle_go_on:
  assumes inv: "scheduler_inv cls (add_mset row F) s" and v: "row_valid s row"
    and s3: "s3 = s\<lparr>ticks := c, objs := (objs s)(row_seq row := q)\<rparr>"
    and q: "seq_key q = seq_key (objs s (row_seq row))" "request_id q = request_id (objs s (row_seq row))"
      "num_preemptions q = num_preemptions (objs s (row_seq row))" "status q = RUNNING"
      "running_ok cls (kv_on s) False q" "\<not> is_prefill q"
      "num_pending_tokens q = reserved (rows_for F (row_seq row)) (row_num_preemptions row)"
    and bm: "bm_inv cls (block_mgr s) (add_mset (holding_of q) (others (sroles [] s) (row_seq row) (objs s)))"
    and k: "\<And>ds. drafts = Some ds \<Longrightarrow> k < length ds"
  shows "okE (settle_row drafts k (row_seq row) None s3) (\<lambda>s'. scheduler_inv cls F s' \<and> frame s s' \<and> sroles [] s' = sroles [] s \<and>
     (\<exists>d. objs s' = (objs s)(row_seq row := q\<lparr>spec_token_ids := d\<rparr>)))"
proof -
  let ?i = "row_seq row"
  note f = row_facts [OF inv v]
  have go: "scheduler_inv cls F s' \<and> sroles [] s' = sroles [] s \<and> frame s s'"
    if s': "s' = s\<lparr>ticks := c, objs := (objs s)(?i := q\<lparr>spec_token_ids := d\<rparr>)\<rparr>" for d s'
  proof -
    let ?q = "q\<lparr>spec_token_ids := d\<rparr>"
    have "running_ok cls (kv_on s) False ?q" using q(5,6)
      by (auto simp: running_ok_def decode_ok_def below_limit_def no_load_def num_planned_tokens_def seq_wf_def hashes_ok_def)
    moreover have "rows_ok (rows_for F ?i) InR ?q"
      using f(6) q(3,7) v by (auto simp: rows_ok_def row_ok_def row_valid_def is_finished_def)
    moreover have "holding_of ?q = holding_of q" by (simp add: holding_of_def)
    moreover have fr: "frame s s'" by (simp add: s' frame_def)
    ultimately have "scheduler_inv cls F s' \<and> sroles [] s' = sroles [] s"
      using bm q by (intro inplace_step [OF inv f(1), where q' = ?q]) (auto simp: s' seq_key_def rows_for_add)
    then show ?thesis using fr by simp
  qed
  have "\<exists>d. settle_row drafts k ?i None s3 = Inr (s\<lparr>ticks := c, objs := (objs s)(?i := q\<lparr>spec_token_ids := d\<rparr>)\<rparr>)"
  proof (cases "drafts \<noteq> None \<and> num_pending_tokens q = 0")
    case True
    then obtain ds where ds: "drafts = Some ds" by blast
    then show ?thesis using True k [OF ds] by (intro exI [of _ "ds ! k"]) (simp add: settle_row_def s3 upd_seq_def put_seq_def)
  next
    case False
    then show ?thesis by (intro exI [of _ "spec_token_ids q"]) (auto simp: settle_row_def s3 split: option.splits)
  qed
  then show ?thesis using go by auto
qed

lemma stamped: "\<exists>c t. stamp_first_token i (s\<lparr>objs := (objs s)(i := q)\<rparr>) = s\<lparr>ticks := c, objs := (objs s)(i := q\<lparr>first_token_time := t\<rparr>)\<rparr>"
proof (cases "first_token_time q")
  case None
  then show ?thesis by (auto simp: stamp_first_token_def perf_counter_def upd_seq_def put_seq_def)
next
  case (Some t)
  have "q\<lparr>first_token_time := first_token_time q\<rparr> = q" by simp
  then have q: "q\<lparr>first_token_time := Some t\<rparr> = q" unfolding Some .
  have "s\<lparr>ticks := ticks s\<rparr> = s" by simp
  then have s: "s\<lparr>ticks := ticks s, objs := ob\<rparr> = s\<lparr>objs := ob\<rparr>" for ob by (simp only:)
  have "stamp_first_token i (s\<lparr>objs := (objs s)(i := q)\<rparr>) = s\<lparr>objs := (objs s)(i := q)\<rparr>"
    using Some by (simp add: stamp_first_token_def)
  then show ?thesis unfolding q by (intro exI [of _ "ticks s"] exI [of _ "Some t"]) (simp only: q s)
qed

lemma reconcile_row_ok:
  assumes inv: "scheduler_inv cls (add_mset row F) s" and k: "k < length toks" "\<And>ds. drafts = Some ds \<Longrightarrow> k < length ds"
    and n: "1 \<le> length (new_tokens (toks ! k))" "py_len (new_tokens (toks ! k)) \<le> 1 + row_num_draft_tokens row"
  shows "okE (reconcile_row cls toks drafts (k, row) (s, st))
    (\<lambda>(s', st'). row_post cls F s row (toks ! k) s' \<and> st' = st @ (if row_valid s row then [row_seq row] else []))"
proof (cases "row_valid s row")
  case False
  then have "reconcile_row cls toks drafts (k, row) (s, st) = Inr (s, st)"
    using k by (auto simp: reconcile_row_def row_valid_def Let_def)
  moreover have "scheduler_inv cls F s"
  proof (rule rows_drop [OF inv])
    assume r: "sroles [] s (row_seq row) = InR"
    have "status (objs s (row_seq row)) = RUNNING" using run_facts(1) [OF inv r] by (simp add: running_ok_def)
    then show "row_num_preemptions row \<noteq> num_preemptions (objs s (row_seq row))"
      using False by (auto simp: row_valid_def is_finished_def)
  qed
  ultimately show ?thesis using False by (simp add: row_post_def)
next
  case True
  let ?i = "row_seq row" and ?smp = "toks ! k"
  let ?q = "objs s ?i" and ?rej = "row_num_draft_tokens row - (py_len (new_tokens ?smp) - 1)"
  let ?q1 = "?q\<lparr>num_cached_tokens := num_cached_tokens ?q - ?rej, num_pending_tokens := num_pending_tokens ?q - ?rej, num_new_tokens := 0\<rparr>"
  note f = row_facts [OF inv True]
  note rf = run_facts [OF inv f(1)]
  have ok: "running_ok cls (kv_on s) False ?q" using rf(1) by simp
  from committed [OF inv True n] obtain q' r hs
    where cm: "commit_tokens cls (eos s) (new_tokens ?smp) ?q1 = Inr (q', r)" and wf: "seq_wf cls q'"
      and q': "q' = grown (row_tokens s row ?smp) (block_hashes ?q @ hs) ?q1"
      and fin: "r = None \<longrightarrow> row_tokens s row ?smp = new_tokens ?smp \<and> below_limit q' \<and>
           num_pending_tokens q' = reserved (rows_for F ?i) (row_num_preemptions row)"
    unfolding okE_iff by auto
  from stamped [of ?i s q'] obtain c t
    where st3: "stamp_first_token ?i (s\<lparr>objs := (objs s)(?i := q')\<rparr>) = s\<lparr>ticks := c, objs := (objs s)(?i := q'\<lparr>first_token_time := t\<rparr>)\<rparr>"
    by blast
  let ?q3 = "q'\<lparr>first_token_time := t\<rparr>"
  let ?s3 = "s\<lparr>ticks := c, objs := (objs s)(?i := ?q3)\<rparr>"
  have h3: "holding_of ?q3 = (block_table ?q, num_published_blocks ?q, block_hashes ?q @ hs)"
    by (simp add: q' grown_def holding_of_def)
  have bm3: "bm_inv cls (block_mgr s) (add_mset (holding_of ?q3) (others (sroles [] s) ?i (objs s)))"
    unfolding h3 using rf(3) unfolding holding_of_def by (rule bm_inv_more_hashes)
  have tk: "token_ids ?q3 = token_ids ?q @ row_tokens s row ?smp" "num_new_tokens ?q3 = py_len (row_tokens s row ?smp)"
    by (simp_all add: q' grown_def)
  have keep: "seq_key ?q3 = seq_key ?q" "request_id ?q3 = request_id ?q" "num_preemptions ?q3 = num_preemptions ?q" "status ?q3 = status ?q"
    by (simp_all add: q' grown_def seq_key_def)
  have wf3: "seq_wf cls ?q3" using wf by (auto simp: seq_wf_def hashes_ok_def split: if_splits)
  have eq: "reconcile_row cls toks drafts (k, row) (s, st) = bindE (settle_row drafts k ?i r ?s3) (\<lambda>s2. Inr (s2, st @ [?i]))"
    using True k cm st3 by (simp add: reconcile_row_def row_valid_def Let_def upd_seq_def put_seq_def)
  show ?thesis
  proof (cases r)
    case (Some x)
    show ?thesis unfolding eq Some
    proof (rule okE_bindI [OF settle_stop [OF inv f(1) refl keep(1-3) wf3 bm3]], clarify)
      fix s'
      assume a: "scheduler_inv cls (add_mset row F) s'" "frame s s'" "is_finished (objs s' ?i)" "token_ids (objs s' ?i) = token_ids ?q3"
        "num_new_tokens (objs s' ?i) = num_new_tokens ?q3"
        "\<forall>j. j \<noteq> ?i \<longrightarrow> objs s' j = objs s j \<and> sroles [] s' j = sroles [] s j"
      have "scheduler_inv cls F s'"
        by (rule rows_drop [OF a(1)]) (use run_facts(1) [OF a(1)] a(3) in \<open>auto simp: running_ok_def is_finished_def\<close>)
      then show "okE (Inr (s', st @ [?i])) (\<lambda>(s', st'). row_post cls F s row ?smp s' \<and> st' = st @ (if row_valid s row then [?i] else []))"
        using a True tk by (simp add: row_post_def)
    qed
  next
    case None
    have all: "row_tokens s row ?smp = new_tokens ?smp" "below_limit q'"
      "num_pending_tokens q' = reserved (rows_for F ?i) (row_num_preemptions row)" using fin None by simp_all
    have q'': "q' = grown (new_tokens ?smp) (block_hashes ?q @ hs) ?q1" using q' unfolding all(1) .
    have "decode_ok cls False ?q" using ok f(2) by (simp add: running_ok_def)
    then have "decode_ok cls False ?q3"
      unfolding q'' using n all(3) f(4,5) by (simp add: decode_ok_def num_planned_tokens_def grown_def py_len_def)
    moreover have "below_limit ?q3" using all(2) by (simp add: below_limit_def)
    moreover have "no_load (kv_on s) ?q3" "num_scheduled_tokens ?q3 = 0" and pre: "\<not> is_prefill ?q3" and run: "status ?q3 = RUNNING"
      unfolding q'' using ok f(2) by (simp_all add: running_ok_def no_load_def grown_def)
    ultimately have ok3: "running_ok cls (kv_on s) False ?q3" using wf3 by (simp add: running_ok_def)
    show ?thesis unfolding eq None
      by (rule okE_bindI [OF settle_go_on [OF inv True refl keep(1-3) run ok3 pre _ bm3 k(2)]])
         (use all(3) tk True in \<open>auto simp: row_post_def\<close>)
  qed
qed

definition sampled_ok :: "sampled list \<Rightarrow> int list list option \<Rightarrow> nat \<Rightarrow> launched_row list \<Rightarrow> bool" where
  "sampled_ok toks drafts k rows \<longleftrightarrow> k + length rows \<le> length toks \<and> (\<forall>ds. drafts = Some ds \<longrightarrow> k + length rows \<le> length ds) \<and>
     (\<forall>n < length rows. 1 \<le> length (new_tokens (toks ! (k + n))) \<and>
        py_len (new_tokens (toks ! (k + n))) \<le> 1 + row_num_draft_tokens (rows ! n))"

lemma sampled_ok_Cons: "sampled_ok toks drafts k (row # rows) \<Longrightarrow> sampled_ok toks drafts (Suc k) rows"
  by (fastforce simp: sampled_ok_def)

definition rows_post :: "scheduler \<Rightarrow> sampled list \<Rightarrow> nat \<Rightarrow> launched_row list \<Rightarrow> scheduler \<Rightarrow> bool" where
  "rows_post s toks k rows s' \<longleftrightarrow>
     (\<forall>j. j \<notin> row_seq ` set rows \<longrightarrow> objs s' j = objs s j \<and> sroles [] s' j = sroles [] s j) \<and>
     (\<forall>n < length rows. if row_valid s (rows ! n)
        then token_ids (objs s' (row_seq (rows ! n))) = token_ids (objs s (row_seq (rows ! n))) @ row_tokens s (rows ! n) (toks ! (k + n)) \<and>
          num_new_tokens (objs s' (row_seq (rows ! n))) = py_len (row_tokens s (rows ! n) (toks ! (k + n)))
        else objs s' (row_seq (rows ! n)) = objs s (row_seq (rows ! n)))"

lemma rows_post_Cons:
  assumes one: "row_post cls F s row (toks ! k) s1" and rest: "rows_post s1 toks (Suc k) rows s'"
    and d: "row_seq row \<notin> row_seq ` set rows"
  shows "rows_post s toks k (row # rows) s'"
proof -
  have same: "objs s1 j = objs s j \<and> sroles [] s1 j = sroles [] s j" if "j \<noteq> row_seq row" for j
    using one that by (auto simp: row_post_def)
  have e: "eos s1 = eos s" using one by (simp add: row_post_def frame_def)
  have hd: "objs s' (row_seq row) = objs s1 (row_seq row)" using rest d by (auto simp: rows_post_def)
  show ?thesis
    unfolding rows_post_def
  proof (intro conjI allI impI)
    fix j assume "j \<notin> row_seq ` set (row # rows)"
    then show "objs s' j = objs s j" "sroles [] s' j = sroles [] s j" using rest same [of j] by (auto simp: rows_post_def)
  next
    fix n assume n: "n < length (row # rows)"
    show "if row_valid s ((row # rows) ! n)
        then token_ids (objs s' (row_seq ((row # rows) ! n))) = token_ids (objs s (row_seq ((row # rows) ! n))) @ row_tokens s ((row # rows) ! n) (toks ! (k + n)) \<and>
          num_new_tokens (objs s' (row_seq ((row # rows) ! n))) = py_len (row_tokens s ((row # rows) ! n) (toks ! (k + n)))
        else objs s' (row_seq ((row # rows) ! n)) = objs s (row_seq ((row # rows) ! n))"
    proof (cases n)
      case 0
      then show ?thesis using one hd by (auto simp: row_post_def)
    next
      case (Suc m)
      then have m: "m < length rows" using n by simp
      then have "row_seq (rows ! m) \<noteq> row_seq row" using d by (metis image_eqI nth_mem)
      then have "objs s1 (row_seq (rows ! m)) = objs s (row_seq (rows ! m))" using same by blast
      then show ?thesis using rest m Suc by (auto simp: rows_post_def row_valid_def e)
    qed
  qed
qed

lemma reconcile_loop:
  "scheduler_inv cls (F + mset rows) s \<Longrightarrow> sampled_ok toks drafts k rows \<Longrightarrow> distinct (map row_seq rows) \<Longrightarrow>
   okE (foldE (reconcile_row cls toks drafts) (List.enumerate k rows) (s, st))
     (\<lambda>(s', st'). scheduler_inv cls F s' \<and> frame s s' \<and> st' = st @ map row_seq (filter (row_valid s) rows) \<and> rows_post s toks k rows s')"
proof (induction rows arbitrary: s k st)
  case Nil
  then show ?case by (simp add: rows_post_def)
next
  case (Cons row rows)
  have inv: "scheduler_inv cls (add_mset row (F + mset rows)) s" using Cons.prems(1) by simp
  have k: "k < length toks" "\<And>ds. drafts = Some ds \<Longrightarrow> k < length ds" "1 \<le> length (new_tokens (toks ! k))"
    "py_len (new_tokens (toks ! k)) \<le> 1 + row_num_draft_tokens row"
    using Cons.prems(2) by (fastforce simp: sampled_ok_def)+
  have d: "row_seq row \<notin> row_seq ` set rows" "distinct (map row_seq rows)" using Cons.prems(3) by auto
  show ?case
    unfolding enumerate_simps foldE.simps
  proof (rule okE_bindI [OF reconcile_row_ok [OF inv k]])
    fix x
    assume "case x of (s', st') \<Rightarrow> row_post cls (F + mset rows) s row (toks ! k) s' \<and> st' = st @ (if row_valid s row then [row_seq row] else [])"
    then obtain s1 where x: "x = (s1, st @ (if row_valid s row then [row_seq row] else []))"
      and one: "row_post cls (F + mset rows) s row (toks ! k) s1" by (cases x) auto
    have i1: "scheduler_inv cls (F + mset rows) s1" using one by (simp add: row_post_def)
    have v: "row_valid s1 r = row_valid s r" if "r \<in> set rows" for r
    proof -
      have "row_seq r \<noteq> row_seq row" using that d(1) by (metis image_eqI)
      then have "objs s1 (row_seq r) = objs s (row_seq r)" using one by (simp add: row_post_def)
      then show ?thesis by (simp add: row_valid_def)
    qed
    have filt: "filter (row_valid s1) rows = filter (row_valid s) rows" using v by (rule filter_cong [OF refl])
    have fr: "frame s s1" using one by (simp add: row_post_def)
    show "okE (foldE (reconcile_row cls toks drafts) (List.enumerate (Suc k) rows) x)
      (\<lambda>(s', st'). scheduler_inv cls F s' \<and> frame s s' \<and> st' = st @ map row_seq (filter (row_valid s) (row # rows)) \<and> rows_post s toks k (row # rows) s')"
      unfolding x by (rule okE_mono [OF Cons.IH [OF i1 sampled_ok_Cons [OF Cons.prems(2)] d(2)]])
         (auto simp: filt intro: rows_post_Cons [OF one _ d(1)] frame_trans [OF fr])
  qed
qed

end
