(* ===== verification/Scheduler_Requests.thy ===== *)
theory Scheduler_Requests
  imports Scheduler_Reconcile
begin

text \<open>
  \<open>abort\<close> and \<open>update_from_kv_connector_output\<close>: a request leaves its queue and gives up or
  hands over its blocks, a load that is being written is only marked as finished, and the end
  of a transfer frees the blocks or lets the request run.  Each keeps the invariant.
\<close>

section \<open>Leaving the queues\<close>

lemma leave_queue:
  assumes u: "uniq (queue_ids [] s)" and q: "queue_ids [] s = add_mset i (queue_ids [] s1)"
    and m: "\<And>j. j \<noteq> i \<Longrightarrow> (j \<in># Wm s1 \<longleftrightarrow> j \<in># Wm s) \<and> (j \<in># Rm [] s1 \<longleftrightarrow> j \<in># Rm [] s) \<and>
      (j \<in># Vm s1 \<longleftrightarrow> j \<in># Vm s) \<and> (j \<in># Sm s1 \<longleftrightarrow> j \<in># Sm s)"
  shows "sroles [] s1 = (sroles [] s)(i := Out)"
proof
  fix j
  have "i \<notin># queue_ids [] s1" using u unfolding q by simp
  then show "sroles [] s1 j = ((sroles [] s)(i := Out)) j"
    using m [of j] unfolding sroles_def roles_def queue_ids_def union_iff fun_upd_apply by (cases "j = i") simp_all
qed

text \<open>The transfer queues are dictionaries.\<close>

lemma transfer_dict_wf:
  assumes inv: "sch_inv cls F [] Q s" and d: "d = recving s \<or> d = sending s"
  shows "wf_dict d"
proof -
  note i = sch_invD [OF inv]
  have fst: "map fst d = map (\<lambda>j. request_id (objs s j)) (map snd d)"
    using i(4) d by (auto simp: keys_ok_def)
  have "uniq (Vm s)" "uniq (Sm s)" using i(2) uniq_plusD unfolding queue_ids_def by blast+
  then have "uniq (mset (map snd d))" using d by blast
  then have dist: "distinct (map snd d)"
    unfolding uniq_def distinct_count_atmost_1 by (metis count_eq_zero_iff in_multiset_in_set le_antisym not_gr0 less_one linorder_not_le)
  have "inj_on (\<lambda>j. request_id (objs s j)) (set (map snd d))"
  proof (rule inj_onI)
    fix x y assume m: "x \<in> set (map snd d)" "y \<in> set (map snd d)" and e: "request_id (objs s x) = request_id (objs s y)"
    have "sroles [] s j \<noteq> Out" if "j \<in> set (map snd d)" for j
      using that d unfolding sroles_iff(5) [OF i(2)] by (auto simp: queue_ids_def)
    then show "x = y" using coreD(2) [OF i(5)] m e by blast
  qed
  then have "distinct (map (\<lambda>j. request_id (objs s j)) (map snd d))" using dist by (subst distinct_map) blast
  then show ?thesis unfolding fst .
qed

section \<open>abort\<close>

definition aborted :: "string \<Rightarrow> scheduler \<Rightarrow> scheduler \<Rightarrow> nat \<Rightarrow> bool" where
  "aborted rid s s' i \<longleftrightarrow> is_finished (objs s' i) \<and> sroles [] s' i \<notin> {InW, InR} \<and>
     (\<forall>j. j \<noteq> i \<longrightarrow> objs s' j = objs s j \<and> sroles [] s' j = sroles [] s j) \<and> seqs s' = dict_del (seqs s) rid"

lemma abort_loading:
  fixes reason :: string
  assumes inv: "scheduler_inv cls F s" and i: "sroles [] s i = InV" "status (objs s i) = WAITING_FOR_REMOTE_KVS" "request_id (objs s i) = rid"
  defines "s' \<equiv> finish i reason (s\<lparr>seqs := dict_del (seqs s) rid\<rparr>)"
  shows "scheduler_inv cls F s' \<and> frame s s' \<and> aborted rid s s' i"
proof -
  let ?q = "(objs s i)\<lparr>status := FINISHED, finish_reason := Some reason, finish_time := Some (clock s (ticks s))\<rparr>"
  note d = sch_invD [OF inv] and c = coreD [OF sch_invD(5) [OF inv]]
  have s': "s' = s\<lparr>seqs := dict_del (seqs s) rid, ticks := Suc (ticks s), objs := (objs s)(i := ?q)\<rparr>"
    by (simp add: s'_def finish_def perf_counter_def upd_seq_def put_seq_def)
  have ro: "sroles [] s' = (sroles [] s)(i := InV)" using i(1) by (auto simp: s' sroles_def)
  have fr: "frame s s'" by (simp add: s' frame_def)
  have rc: "recving_ok cls (kv_on s) (objs s i)" using c(4) [of i] i(1) by simp
  have "scheduler_inv cls F s'"
  proof (rule sch_stepI [OF inv _ ro, where q' = ?q])
    show "cfg_ok cls s'" by (rule cfg_ok_frame [OF d(1) fr]) (use d(1) in \<open>simp add: s' cfg_ok_def\<close>)
    show "uniq (queue_ids [] s')" using d(2) by (simp add: s' queue_ids_def)
    show "w_inv (key_of s') (waiting s')" using w_inv_upd [of ?q "objs s" i "waiting s"] d(3) by (simp add: s' seq_key_def)
    show "keys_ok s'" by (rule keys_ok_upd [OF d(4), where q = ?q]) (auto simp: s')
    show "role_ok cls (kv_on s) (i \<in> set []) InV ?q" using rc by (auto simp: recving_ok_def is_finished_def seq_wf_def hashes_ok_def)
    show "rows_ok (rows_for F i) InV ?q" using c(6) [of i] i(1) by (auto simp: rows_ok_def row_ok_def is_finished_def)
    have "holding_of ?q = holding_of (objs s i)" by (simp add: holding_of_def)
    then show "bm_inv cls (block_mgr s') (own InV ?q + others (sroles [] s) i (objs s))" using core_bm [OF d(5), of i] i(1) by (simp add: s')
    have dead: "\<not> live InV ?q" by (simp add: live_def is_finished_def)
    note del = seqs_delete [OF d(5) _ dead, of i, unfolded i(3)]
    show "wf_dict (seqs s')" using del(1) i(1) by (simp add: s')
    show "map_of (seqs s') r = Some j \<longleftrightarrow> (if j = i then live InV ?q \<and> request_id ?q = r else map_of (seqs s) r = Some j)" for r j
      using del(2) i(1) by (simp add: s')
  qed (use i c(3) [of i] in \<open>auto simp: s'\<close>)
  then show ?thesis using fr ro by (simp add: aborted_def s' is_finished_def)
qed

lemma free_seq_seqs: "free_seq i s = Inr s' \<Longrightarrow> seqs s' = seqs s"
  by (auto simp: free_seq_def with_bm_def bindE_eq_Inr put_seq_def upd_seq_def Let_def split: option.splits prod.splits if_splits)

lemma abort_queued:
  assumes inv: "scheduler_inv cls F s" and i: "sroles [] s i = InW \<or> sroles [] s i = InR" "request_id (objs s i) = rid"
    and s1: "objs s1 = objs s" "block_mgr s1 = block_mgr s" "connector s1 = connector s" "recving s1 = recving s"
      "sending s1 = sending s" "frame s s1" "seqs s1 = dict_del (seqs s) rid" "w_inv (key_of s) (waiting s1)"
      "queue_ids [] s = add_mset i (queue_ids [] s1)" "sroles [] s1 = (sroles [] s)(i := Out)"
  shows "okE (free_seq i (finish i reason (upd_seq i drop_pending s1))) (\<lambda>s'. scheduler_inv cls F s' \<and> frame s s' \<and> aborted rid s s' i)"
proof -
  let ?q = "(drop_pending (objs s i))\<lparr>status := FINISHED, finish_reason := Some reason, finish_time := Some (clock s1 (ticks s1))\<rparr>"
  let ?s2 = "s1\<lparr>ticks := Suc (ticks s1), objs := (objs s)(i := ?q)\<rparr>"
  note d = sch_invD [OF inv]
  have eq: "finish i reason (upd_seq i drop_pending s1) = ?s2"
    using s1(1) by (simp add: finish_def perf_counter_def upd_seq_def put_seq_def)
  have wf: "seq_wf cls (objs s i)" using coreD(4) [OF d(5), of i] i(1) by (auto simp: running_ok_def waiting_ok_def)
  have h: "holding_of ?q = holding_of (objs s i)" by (simp add: holding_of_def drop_pending_def)
  have "okE (free_seq i ?s2) (\<lambda>s'. scheduler_inv cls F s' \<and> frame s s' \<and> (\<forall>j. j \<noteq> i \<longrightarrow> objs s' j = objs s j) \<and>
     is_finished (objs s' i) \<and> running s' = running ?s2 \<and> waiting s' = waiting ?s2 \<and>
     token_ids (objs s' i) = token_ids ?q \<and> num_new_tokens (objs s' i) = num_new_tokens ?q \<and> sroles [] s' i \<in> {Out, InS} \<and>
     (\<forall>j. j \<noteq> i \<longrightarrow> sroles [] s' j = sroles [] s j))"
    by (rule free_end [OF inv i(1)])
       (use s1 i wf held_bm [OF inv i(1)] h in \<open>auto simp: frame_def sroles_def queue_ids_def drop_pending_def is_finished_def seq_key_def seq_wf_def hashes_ok_def\<close>)
  moreover have "okE (free_seq i ?s2) (\<lambda>s'. seqs s' = seqs ?s2)"
    using calculation free_seq_seqs by (auto simp: okE_iff)
  ultimately have "okE (free_seq i ?s2) (\<lambda>s'. (scheduler_inv cls F s' \<and> frame s s' \<and> (\<forall>j. j \<noteq> i \<longrightarrow> objs s' j = objs s j) \<and>
     is_finished (objs s' i) \<and> running s' = running ?s2 \<and> waiting s' = waiting ?s2 \<and>
     token_ids (objs s' i) = token_ids ?q \<and> num_new_tokens (objs s' i) = num_new_tokens ?q \<and> sroles [] s' i \<in> {Out, InS} \<and>
     (\<forall>j. j \<noteq> i \<longrightarrow> sroles [] s' j = sroles [] s j)) \<and> seqs s' = seqs ?s2)" by (rule okE_conj)
  then show ?thesis unfolding eq by (rule okE_mono) (use s1(7) in \<open>auto simp: aborted_def\<close>)
qed

lemma abort_ok:
  assumes inv: "scheduler_inv cls F s"
  shows "okE (abort rid reason s) (\<lambda>(s', b). scheduler_inv cls F s' \<and> frame s s' \<and>
     (case map_of (seqs s) rid of None \<Rightarrow> s' = s \<and> \<not> b | Some i \<Rightarrow> b \<and> aborted rid s s' i))"
proof (cases "map_of (seqs s) rid")
  case None
  then show ?thesis using inv by (simp add: abort_def)
next
  case (Some i)
  note d = sch_invD [OF inv] and c = coreD [OF sch_invD(5) [OF inv]]
  let ?s1 = "s\<lparr>seqs := dict_del (seqs s) rid\<rparr>"
  have live: "live (sroles [] s i) (objs s i)" and rid: "request_id (objs s i) = rid" using c(8) Some by blast+
  then consider (W) "sroles [] s i = InW" "status (objs s i) = WAITING" | (R) "sroles [] s i = InR" "status (objs s i) = RUNNING"
    | (V) "sroles [] s i = InV" "status (objs s i) = WAITING_FOR_REMOTE_KVS"
    using c(4) [of i] by (auto simp: live_def waiting_ok_def running_ok_def recving_ok_def)
  then show ?thesis
  proof cases
    case V
    then show ?thesis using abort_loading [OF inv V rid] Some by (simp add: abort_def)
  next
    case R
    let ?s2 = "?s1\<lparr>running := remove1 i (running s)\<rparr>"
    have m: "i \<in> set (running s)" using R(1) sroles_iff(2) [OF d(2), of i] by simp
    have "okE (free_seq i (finish i reason (upd_seq i drop_pending ?s2))) (\<lambda>s'. scheduler_inv cls F s' \<and> frame s s' \<and> aborted rid s s' i)"
      by (rule abort_queued [OF inv disjI2 [OF R(1)] rid]) (use d(3) leave_running [OF d(2) m, of ?s2] in \<open>auto simp: frame_def\<close>)
    then show ?thesis using R m Some by (auto simp: abort_def running_remove_def okE_iff)
  next
    case W
    have m: "i \<in># Wm s" using W(1) sroles_iff(1) [OF d(2), of i] by simp
    obtain w where w: "w_remove (key_of s i) (waiting s) = Inr w" "w_inv (key_of s) w" "Wm s = add_mset i (w_ids w)"
      using wq.remove [OF d(3) m] by (auto simp: okE_iff)
    let ?s2 = "?s1\<lparr>waiting := w\<rparr>"
    have q: "queue_ids [] s = add_mset i (queue_ids [] ?s2)" using w(3) by (simp add: queue_ids_def)
    have ro: "sroles [] ?s2 = (sroles [] s)(i := Out)" by (rule leave_queue [OF d(2) q]) (simp add: w(3))
    have "okE (free_seq i (finish i reason (upd_seq i drop_pending ?s2))) (\<lambda>s'. scheduler_inv cls F s' \<and> frame s s' \<and> aborted rid s s' i)"
      by (rule abort_queued [OF inv disjI1 [OF W(1)] rid _ _ _ _ _ _ _ _ q ro]) (use w(2) in \<open>auto simp: frame_def\<close>)
    then show ?thesis using W w(1) Some by (auto simp: abort_def okE_iff)
  qed
qed

section \<open>The end of a transfer\<close>

definition only_changes :: "nat \<Rightarrow> scheduler \<Rightarrow> scheduler \<Rightarrow> bool" where
  "only_changes i s s' \<longleftrightarrow> (\<forall>j. j \<noteq> i \<longrightarrow> objs s' j = objs s j \<and> sroles [] s' j = sroles [] s j)"

text \<open>A sequence whose transfer is over gives its blocks back.\<close>

lemma transfer_release:
  assumes inv: "sch_inv cls F [] Q s" and i: "sroles [] s i \<in> {InV, InS}" "is_finished (objs s i)"
    and s1: "s1 = s\<lparr>recving := rv, sending := sn\<rparr>" "set rv \<subseteq> set (recving s)" "set sn \<subseteq> set (sending s)"
      "queue_ids [] s = add_mset i (queue_ids [] s1)" "sroles [] s1 = (sroles [] s)(i := Out)"
  shows "okE (with_bm deallocate i s1) (\<lambda>s'. sch_inv cls F [] Q s' \<and> frame s s' \<and> sroles [] s' i = Out \<and> only_changes i s s' \<and>
     recving s' = rv \<and> sending s' = sn)"
proof -
  let ?q = "(objs s i)\<lparr>num_cached_tokens := 0, num_published_blocks := 0, block_table := []\<rparr>"
  note d = sch_invD [OF inv] and c = coreD [OF sch_invD(5) [OF inv]]
  have "bm_inv cls (block_mgr s) (add_mset (holding_of (objs s i)) (others (sroles [] s) i (objs s)))"
    using core_bm [OF d(5), of i] i(1) by auto
  then obtain bm where dl: "deallocate (block_mgr s) (objs s i) = Inr (bm, ?q)"
    and bm: "bm_inv cls bm (others (sroles [] s) i (objs s))" "same_config (block_mgr s) bm"
    using deallocate_ok by (fastforce simp: okE_iff)
  let ?s' = "s1\<lparr>block_mgr := bm, objs := (objs s)(i := ?q)\<rparr>"
  have run: "with_bm deallocate i s1 = Inr ?s'" using dl by (simp add: with_bm_def s1(1) put_seq_def)
  have fr: "frame s ?s'" using bm(2) by (simp add: frame_def s1(1))
  have ro: "sroles [] ?s' = (sroles [] s)(i := Out)" using s1(5) by (simp add: sroles_def)
  have "sch_inv cls F [] Q ?s'"
  proof (rule sch_stepI [OF inv _ ro, where q' = ?q])
    show "cfg_ok cls ?s'" by (rule cfg_ok_frame [OF d(1) fr]) (use d(1) in \<open>simp add: s1(1) cfg_ok_def\<close>)
    show "uniq (queue_ids [] ?s')" using d(2) s1(4) by (simp add: queue_ids_def)
    show "w_inv (key_of ?s') (waiting ?s')" using w_inv_upd [of ?q "objs s" i "waiting s"] d(3) by (simp add: s1(1) seq_key_def)
    show "keys_ok ?s'" by (rule keys_ok_upd [OF d(4), where q = ?q]) (use s1 in auto)
    show "rows_ok (rows_for F i) Out ?q" using c(6) [of i] i by (auto simp: rows_ok_def row_ok_def is_finished_def)
    show "wf_dict (seqs ?s')" using c(7) by (simp add: s1(1))
    show "map_of (seqs ?s') r = Some j \<longleftrightarrow> (if j = i then live Out ?q \<and> request_id ?q = r else map_of (seqs s) r = Some j)" for r j
      using seqs_same [OF d(5), of Out ?q i r j] i by (auto simp: s1(1) live_def)
  qed (use bm c(5) [of i] i(1) in \<open>auto simp: s1(1)\<close>)
  then show ?thesis using run fr ro by (simp add: s1(1) only_changes_def)
qed

lemma finish_send_ok:
  assumes inv: "sch_inv cls F [] Q s"
  shows "okE (finish_send rid s) (\<lambda>s'. sch_inv cls F [] Q s' \<and> frame s s' \<and> recving s' = recving s \<and> sending s' = dict_del (sending s) rid \<and>
     (case map_of (sending s) rid of None \<Rightarrow> s' = s | Some i \<Rightarrow> sroles [] s' i = Out \<and> only_changes i s s'))"
proof (cases "map_of (sending s) rid")
  case None
  then have "dict_del (sending s) rid = sending s" by (simp add: delete_conv map_of_eq_None_iff)
  then show ?thesis using inv None by (simp add: finish_send_def)
next
  case (Some i)
  note d = sch_invD [OF inv] and c = coreD [OF sch_invD(5) [OF inv]]
  let ?s1 = "s\<lparr>sending := dict_del (sending s) rid\<rparr>"
  have vals: "Sm s = add_mset i (Sm ?s1)"
    using dict_del_vals [OF transfer_dict_wf [OF inv disjI2 [OF refl]] Some] by simp
  have q: "queue_ids [] s = add_mset i (queue_ids [] ?s1)" using vals by (simp add: queue_ids_def)
  have ro: "sroles [] ?s1 = (sroles [] s)(i := Out)" by (rule leave_queue [OF d(2) q]) (use vals in simp)
  have S: "sroles [] s i = InS" using vals sroles_iff(4) [OF d(2), of i] by simp
  have "okE (with_bm deallocate i ?s1) (\<lambda>s'. sch_inv cls F [] Q s' \<and> frame s s' \<and> sroles [] s' i = Out \<and> only_changes i s s' \<and>
     recving s' = recving s \<and> sending s' = dict_del (sending s) rid)"
    by (rule transfer_release [OF inv _ _ _ _ _ q ro])
      (use S c(4) [of i] in \<open>auto simp: AList.delete_eq\<close>)
  then show ?thesis using Some by (auto simp: finish_send_def okE_iff)
qed

text \<open>A sequence whose load ended joins the running ones.\<close>

lemma transfer_resume:
  assumes inv: "sch_inv cls F [] Q s" and V: "sroles [] s i = InV" and nf: "\<not> is_finished (objs s i)"
    and q: "queue_ids [] s = add_mset i (queue_ids [] (s\<lparr>recving := rv\<rparr>))" "sroles [] (s\<lparr>recving := rv\<rparr>) = (sroles [] s)(i := Out)"
      "set rv \<subseteq> set (recving s)"
    and bm: "bm_inv cls bm (add_mset (holding_of q') (others (sroles [] s) i (objs s)))" "same_config (block_mgr s) bm"
    and q': "q' = (objs s i)\<lparr>num_cached_tokens := n, num_published_blocks := p, status := RUNNING\<rparr>" "0 \<le> n" "n < num_tokens (objs s i)"
      "p * cls_block_size cls \<le> n"
    and s': "s' = s\<lparr>recving := rv, block_mgr := bm, objs := (objs s)(i := q'), running := running s @ [i]\<rparr>"
  shows "sch_inv cls F [] Q s' \<and> frame s s' \<and> sroles [] s' i = InR \<and> only_changes i s s'"
proof -
  note d = sch_invD [OF inv] and c = coreD [OF sch_invD(5) [OF inv]]
  have rc: "recving_ok cls (kv_on s) (objs s i)" using c(4) [of i] V by simp
  have no: "i \<notin># queue_ids [] (s\<lparr>recving := rv\<rparr>)" using d(2) q(1) by simp
  have fr: "frame s s'" using bm(2) by (simp add: s' frame_def)
  have "sroles [] s' = (sroles [] (s\<lparr>recving := rv\<rparr>))(i := InR)"
    using no by (simp add: s' sroles_def queue_ids_def roles_R)
  then have ro: "sroles [] s' = (sroles [] s)(i := InR)" unfolding q(2) by simp
  have "sch_inv cls F [] Q s'"
  proof (rule sch_stepI [OF inv _ ro, where q' = q'])
    show "cfg_ok cls s'" by (rule cfg_ok_frame [OF d(1) fr]) (use d(1) in \<open>simp add: s' cfg_ok_def\<close>)
    show "uniq (queue_ids [] s')" using d(2) q(1) no by (simp add: s' queue_ids_def)
    show "w_inv (key_of s') (waiting s')" using w_inv_upd [of q' "objs s" i "waiting s"] d(3) by (simp add: s' q'(1) seq_key_def)
    show "keys_ok s'" by (rule keys_ok_upd [OF d(4), where q = q']) (use q(3) in \<open>auto simp: s' q'(1)\<close>)
    show "role_ok cls (kv_on s) (i \<in> set Q) InR q'"
      using rc nf q'(2-4) by (auto simp: q'(1) recving_ok_def running_ok_def prefill_ok_def below_limit_def no_load_def seq_wf_def hashes_ok_def)
    have rows: "rows_ok (rows_for F i) InV (objs s i)" using c(6) [of i] V by simp
    then have "\<forall>row \<in># rows_for F i. row_num_preemptions row < num_preemptions (objs s i) \<and> 0 \<le> row_num_draft_tokens row"
      using nf by (auto simp: rows_ok_def row_ok_def)
    moreover have "num_pending_tokens (objs s i) = 0" using rc nf by (auto simp: recving_ok_def prefill_ok_def)
    moreover have none: "filter_mset (\<lambda>r. row_num_preemptions r = num_preemptions (objs s i)) (rows_for F i) = {#}"
      using calculation(1) by (intro multiset_eqI) (auto simp: not_in_iff [symmetric])
    moreover have "reserved (rows_for F i) (num_preemptions (objs s i)) = 0" unfolding reserved_def none by simp
    ultimately show "rows_ok (rows_for F i) InR q'" by (auto simp: q'(1) rows_ok_def row_ok_def is_finished_def)
    show "wf_dict (seqs s')" using c(7) by (simp add: s')
    show "map_of (seqs s') r = Some j \<longleftrightarrow> (if j = i then live InR q' \<and> request_id q' = r else map_of (seqs s) r = Some j)" for r j
      using seqs_same [OF d(5), of InR q' i r j] V nf by (simp add: s' q'(1) live_def)
  qed (use bm V c(3) [of i] in \<open>auto simp: s' q'(1)\<close>)
  then show ?thesis using fr ro by (simp add: s' only_changes_def)
qed

lemma finish_recv_ok:
  assumes inv: "sch_inv cls F [] Q s" and i: "map_of (recving s) rid = Some i"
  shows "okE (finish_recv cls fin rid s) (\<lambda>s'. sch_inv cls F [] Q s' \<and> frame s s' \<and> recving s' = dict_del (recving s) rid \<and>
     sending s' = sending s \<and> only_changes i s s' \<and>
     (if is_finished (objs s i) then sroles [] s' i = Out
      else sroles [] s' i = InR \<and> (\<exists>p. objs s' i = (objs s i)\<lparr>
         num_cached_tokens := (if rid \<in> set fin then num_prompt_tokens (objs s i) - 1 else num_cached_tokens (objs s i)),
         num_published_blocks := p, status := RUNNING\<rparr>)))"
proof -
  note d = sch_invD [OF inv] and c = coreD [OF sch_invD(5) [OF inv]]
  let ?s1 = "s\<lparr>recving := dict_del (recving s) rid\<rparr>"
  have vals: "Vm s = add_mset i (Vm ?s1)"
    using dict_del_vals [OF transfer_dict_wf [OF inv disjI1 [OF refl]] i] by simp
  have q: "queue_ids [] s = add_mset i (queue_ids [] ?s1)" using vals by (simp add: queue_ids_def)
  have ro: "sroles [] ?s1 = (sroles [] s)(i := Out)" by (rule leave_queue [OF d(2) q]) (use vals in simp)
  have V: "sroles [] s i = InV" using vals sroles_iff(3) [OF d(2), of i] by simp
  have rc: "recving_ok cls (kv_on s) (objs s i)" using c(4) [of i] V by simp
  have sub: "set (dict_del (recving s) rid) \<subseteq> set (recving s)" by (auto simp: AList.delete_eq)
  show ?thesis
  proof (cases "is_finished (objs s i)")
    case True
    have "okE (with_bm deallocate i ?s1) (\<lambda>s'. sch_inv cls F [] Q s' \<and> frame s s' \<and> sroles [] s' i = Out \<and> only_changes i s s' \<and>
       recving s' = dict_del (recving s) rid \<and> sending s' = sending s)"
      by (rule transfer_release [OF inv _ True _ sub _ q ro]) (use V in auto)
    moreover have "finish_recv cls fin rid s = with_bm deallocate i ?s1" using True i by (simp add: finish_recv_def dict_get_def)
    ultimately show ?thesis using True by (auto simp: okE_iff)
  next
    case False
    then have w: "seq_wf cls (objs s i)" "below_limit (objs s i)" "no_load (kv_on s) (objs s i)" "is_prefill (objs s i)"
      "prefill_ok cls (objs s i)" "num_scheduled_tokens (objs s i) = 0" using rc by (auto simp: recving_ok_def)
    have bm: "bm_inv cls (block_mgr s) (add_mset (holding_of (objs s i)) (others (sroles [] s) i (objs s)))"
      using core_bm [OF d(5), of i] V by auto
    let ?q = "(objs s i)\<lparr>num_cached_tokens := num_prompt_tokens (objs s i) - 1\<rparr>"
    have run0: "0 \<le> num_cached_tokens (objs s i)" "num_cached_tokens (objs s i) < num_tokens (objs s i)"
      "0 \<le> num_prompt_tokens (objs s i) - 1" "num_prompt_tokens (objs s i) - 1 < num_tokens (objs s i)"
      using w by (auto simp: prefill_ok_def seq_wf_def)
    have pub0: "num_published_blocks (objs s i) * cls_block_size cls \<le> num_cached_tokens (objs s i)"
      "num_cached_tokens (objs s i) \<le> num_prompt_tokens (objs s i) - 1"
      using w(5) rc False by (auto simp: prefill_ok_def recving_ok_def)
    show ?thesis
    proof (cases "rid \<in> set fin")
      case True
      have "okE (hash_blocks cls (block_mgr s) ?q (num_cached_tokens ?q)) (\<lambda>(bm', s'). bm_inv cls bm' (add_mset (holding_of s') (others (sroles [] s) i (objs s))) \<and>
         same_config (block_mgr s) bm' \<and> (\<exists>p. s' = ?q\<lparr>num_published_blocks := p\<rparr> \<and>
           (p = num_published_blocks ?q \<or> p * cls_block_size cls \<le> min (num_cached_tokens ?q) (num_tokens ?q))) \<and> free_block_queue bm' = free_block_queue (block_mgr s))"
        by (rule hash_blocks_ok) (use bm w(1,5) d(1) in \<open>auto simp: holding_of_def cfg_ok_def seq_wf_def hashes_ok_def prefill_ok_def\<close>)
      then obtain bm' p where h: "hash_blocks cls (block_mgr s) ?q (num_cached_tokens ?q) = Inr (bm', ?q\<lparr>num_published_blocks := p\<rparr>)"
        and b: "bm_inv cls bm' (add_mset (holding_of (?q\<lparr>num_published_blocks := p\<rparr>)) (others (sroles [] s) i (objs s)))" "same_config (block_mgr s) bm'"
        and "p = num_published_blocks ?q \<or> p * cls_block_size cls \<le> min (num_cached_tokens ?q) (num_tokens ?q)"
        unfolding okE_iff by (auto simp only: prod.case)
      then have pub: "p * cls_block_size cls \<le> num_prompt_tokens (objs s i) - 1" using pub0 by auto
      let ?q' = "(objs s i)\<lparr>num_cached_tokens := num_prompt_tokens (objs s i) - 1, num_published_blocks := p, status := RUNNING\<rparr>"
      let ?s' = "s\<lparr>recving := dict_del (recving s) rid, block_mgr := bm', objs := (objs s)(i := ?q'), running := running s @ [i]\<rparr>"
      have "sch_inv cls F [] Q ?s' \<and> frame s ?s' \<and> sroles [] ?s' i = InR \<and> only_changes i s ?s'"
        by (rule transfer_resume [OF inv V False q ro sub _ b(2) refl run0(3,4) pub refl]) (use b(1) in \<open>simp add: holding_of_def\<close>)
      moreover have "finish_recv cls fin rid s = Inr ?s'"
        using i h True False by (simp add: finish_recv_def with_bm_def upd_seq_def put_seq_def Let_def dict_get_def)
      ultimately show ?thesis using True False by (auto simp: okE_iff)
    next
      case nr: False
      let ?q' = "(objs s i)\<lparr>num_cached_tokens := num_cached_tokens (objs s i), num_published_blocks := num_published_blocks (objs s i), status := RUNNING\<rparr>"
      let ?s' = "s\<lparr>recving := dict_del (recving s) rid, block_mgr := block_mgr s, objs := (objs s)(i := ?q'), running := running s @ [i]\<rparr>"
      have "sch_inv cls F [] Q ?s' \<and> frame s ?s' \<and> sroles [] ?s' i = InR \<and> only_changes i s ?s'"
        by (rule transfer_resume [OF inv V False q ro sub _ same_config_refl refl run0(1,2) pub0(1) refl]) (use bm in \<open>simp add: holding_of_def\<close>)
      moreover have "finish_recv cls fin rid s = Inr ?s'"
        using i nr False by (simp add: finish_recv_def with_bm_def upd_seq_def put_seq_def Let_def dict_get_def)
      moreover have "\<exists>p. (objs s i)\<lparr>status := RUNNING\<rparr> = (objs s i)\<lparr>num_published_blocks := p, status := RUNNING\<rparr>"
        by (rule exI [of _ "num_published_blocks (objs s i)"]) simp
      ultimately show ?thesis using nr False by (simp add: okE_iff)
    qed
  qed
qed

lemma finish_sends_ok:
  assumes inv: "sch_inv cls F [] Q s"
  shows "okE (foldE finish_send rids s) (\<lambda>s'. sch_inv cls F [] Q s' \<and> frame s s' \<and> recving s' = recving s)"
proof (rule okE_foldE_inv [where I = "\<lambda>s'. sch_inv cls F [] Q s' \<and> frame s s' \<and> recving s' = recving s"])
  show "sch_inv cls F [] Q s \<and> frame s s \<and> recving s = recving s" using inv by simp
next
  fix rid s'
  assume a: "sch_inv cls F [] Q s' \<and> frame s s' \<and> recving s' = recving s"
  show "okE (finish_send rid s') (\<lambda>s'. sch_inv cls F [] Q s' \<and> frame s s' \<and> recving s' = recving s)"
    by (rule okE_mono [OF finish_send_ok [of cls F Q s']]) (use a frame_trans in \<open>auto\<close>)
qed

lemma finish_recvs_ok:
  "sch_inv cls F [] Q s \<Longrightarrow> distinct rids \<Longrightarrow> set rids \<subseteq> dict_keys (recving s) \<Longrightarrow>
   okE (foldE (finish_recv cls fin) rids s) (\<lambda>s'. sch_inv cls F [] Q s' \<and> frame s s' \<and> set (recving s') = {(r, i) \<in> set (recving s). r \<notin> set rids})"
proof (induction rids arbitrary: s)
  case (Cons rid rids)
  obtain i where i: "map_of (recving s) rid = Some i"
    using Cons.prems(3) map_of_eq_None_iff [of "recving s" rid] by fastforce
  show ?case unfolding foldE.simps
  proof (rule okE_bindI [OF finish_recv_ok [OF Cons.prems(1) i]])
    fix s1
    assume a: "sch_inv cls F [] Q s1 \<and> frame s s1 \<and> recving s1 = dict_del (recving s) rid \<and> sending s1 = sending s \<and> only_changes i s s1 \<and>
      (if is_finished (objs s i) then sroles [] s1 i = Out
      else sroles [] s1 i = InR \<and> (\<exists>p. objs s1 i = (objs s i)\<lparr>
         num_cached_tokens := (if rid \<in> set fin then num_prompt_tokens (objs s i) - 1 else num_cached_tokens (objs s i)),
         num_published_blocks := p, status := RUNNING\<rparr>))"
    have "dict_keys (recving s1) = dict_keys (recving s) - {rid}" using a by (metis AList.delete_keys list.set_map set_removeAll)
    then have "set rids \<subseteq> dict_keys (recving s1)" using Cons.prems(2,3) by auto
    then have "okE (foldE (finish_recv cls fin) rids s1)
        (\<lambda>s'. sch_inv cls F [] Q s' \<and> frame s1 s' \<and> set (recving s') = {(r, i) \<in> set (recving s1). r \<notin> set rids})"
      by (intro Cons.IH) (use a Cons.prems(2) in auto)
    then show "okE (foldE (finish_recv cls fin) rids s1)
        (\<lambda>s'. sch_inv cls F [] Q s' \<and> frame s s' \<and> set (recving s') = {(r, i) \<in> set (recving s). r \<notin> set (rid # rids)})"
      by (rule okE_mono) (use a frame_trans in \<open>auto simp: AList.delete_eq\<close>)
  qed
qed simp

lemma update_from_kv_ok:
  assumes inv: "sch_inv cls F [] Q s" and kv: "distinct (finished_recving kv)" "distinct (failed_recving kv)"
      "set (finished_recving kv) \<union> set (failed_recving kv) \<subseteq> dict_keys (recving s)"
  shows "okE (update_from_kv_connector_output cls kv s) (\<lambda>s'. sch_inv cls F [] Q s' \<and> frame s s' \<and>
     set (recving s') = {(r, i) \<in> set (recving s). r \<notin> set (finished_recving kv) \<union> set (failed_recving kv)})"
  unfolding update_from_kv_connector_output_def
proof (rule okE_bindI [OF finish_sends_ok [OF inv]])
  fix s1
  assume a: "sch_inv cls F [] Q s1 \<and> frame s s1 \<and> recving s1 = recving s"
  have "okE (foldE (finish_recv cls (finished_recving kv)) (set_union (finished_recving kv) (failed_recving kv)) s1)
      (\<lambda>s'. sch_inv cls F [] Q s' \<and> frame s1 s' \<and>
        set (recving s') = {(r, i) \<in> set (recving s1). r \<notin> set (set_union (finished_recving kv) (failed_recving kv))})"
    by (rule finish_recvs_ok) (use a kv in auto)
  then show "okE (foldE (finish_recv cls (finished_recving kv)) (set_union (finished_recving kv) (failed_recving kv)) s1)
      (\<lambda>s'. sch_inv cls F [] Q s' \<and> frame s s' \<and>
        set (recving s') = {(r, i) \<in> set (recving s). r \<notin> set (finished_recving kv) \<union> set (failed_recving kv)})"
    by (rule okE_mono) (use a frame_trans in auto)
qed
end
