(* ===== verification/Scheduler_Machine.thy ===== *)
theory Scheduler_Machine
  imports Scheduler_Requests
begin

text \<open>
  The scheduler as a state machine: what its caller may do between two calls, the states this
  reaches, and that every one of them satisfies the invariant.  The rows of launched steps whose
  tokens have not come back yet are part of the state: with asynchronous scheduling there may be
  rows of two steps.
\<close>

section \<open>Steps\<close>

definition config_ok :: "seq_class \<Rightarrow> scheduler_config \<Rightarrow> bool" where
  "config_ok cls c \<longleftrightarrow> cls_wf cls \<and> cls_block_size cls = sc_kvcache_block_size c \<and>
     cls_enable_prefix_caching cls = sc_enable_prefix_caching c \<and> 0 \<le> sc_max_num_batched_tokens c \<and>
     0 \<le> sc_long_prefill_token_threshold c \<and> (sc_kv_transfer c \<noteq> None \<longrightarrow> sc_num_speculative_tokens c = None) \<and>
     (\<forall>n. sc_num_speculative_tokens c = Some n \<longrightarrow> 0 \<le> n)"

text \<open>A request the engine accepts: a prompt, room for a token, and a load it can describe.\<close>

definition request_ok :: "bool \<Rightarrow> int list \<Rightarrow> sampling_params \<Rightarrow> bool" where
  "request_ok kv toks sp \<longleftrightarrow> toks \<noteq> [] \<and> 0 < sp_max_tokens sp \<and>
     (kv \<longrightarrow> params_ask (sp_kv_transfer_params sp) ''do_remote_prefill'' \<longrightarrow>
        (case sp_kv_transfer_params sp of None \<Rightarrow> False | Some p \<Rightarrow> remote_prefill p))"

text \<open>A connector reports only loads that are under way, each once.\<close>

definition kv_report_ok :: "kv_connector_output \<Rightarrow> scheduler \<Rightarrow> bool" where
  "kv_report_ok kv s \<longleftrightarrow> distinct (finished_recving kv) \<and> distinct (failed_recving kv) \<and>
     set (finished_recving kv) \<union> set (failed_recving kv) \<subseteq> dict_keys (recving s)"

text \<open>
  A launch is \<open>schedule\<close>, what the connector reports meanwhile, and \<open>advance\<close>; the caller reads
  the clock too.
\<close>

inductive sched_step ::
  "seq_class \<Rightarrow> scheduler \<times> launched_row multiset \<Rightarrow> scheduler \<times> launched_row multiset \<Rightarrow> bool" for cls where
  add: "request_ok (kv_on s) toks sp \<Longrightarrow> new_sequence cls sid now toks sp rid = Inr q \<Longrightarrow>
      sid \<notin># queue_ids [] s \<Longrightarrow> rows_for F sid = {#} \<Longrightarrow> sch_add q s = Inr s' \<Longrightarrow> sched_step cls (s, F) (s', F)"
| abort: "abort rid reason s = Inr (s', b) \<Longrightarrow> sched_step cls (s, F) (s', F)"
| launch: "schedule cls s = Inr (s1, out) \<Longrightarrow>
      s2 = s1 \<or> (kv_report_ok kv s1 \<and> update_from_kv_connector_output cls kv s1 = Inr s2) \<Longrightarrow>
      advance cls (scheduled out) s2 = Inr (s', rows) \<Longrightarrow> sched_step cls (s, F) (s', F + mset rows)"
| reconcile: "distinct (map row_seq rows) \<Longrightarrow> sampled_ok toks drafts 0 rows \<Longrightarrow>
      reconcile cls rows toks drafts s = Inr (s', st) \<Longrightarrow> sched_step cls (s, F + mset rows) (s', F)"
| tick: "sched_step cls (s, F) (snd (perf_counter s), F)"

inductive reachable :: "seq_class \<Rightarrow> scheduler \<times> launched_row multiset \<Rightarrow> bool" for cls where
  start: "config_ok cls c \<Longrightarrow> new_scheduler c ob clk = Inr s \<Longrightarrow> reachable cls (s, {#})"
| step: "reachable cls t \<Longrightarrow> sched_step cls t t' \<Longrightarrow> reachable cls t'"

section \<open>The operations on reachable states\<close>

lemma advance_ok:
  assumes "sch_inv cls F [] Q s" and "distinct Q"
  shows "okE (advance cls Q s) (\<lambda>(s', rows). frame s s' \<and> distinct (map row_seq rows) \<and> set (map row_seq rows) \<subseteq> set Q \<and>
     sroles [] s' = sroles [] s \<and> scheduler_inv cls (F + mset rows) s')"
  using advance_loop [OF assms, of "[]"] by (auto simp: advance_def okE_iff)

lemma reconcile_ok:
  assumes "scheduler_inv cls (F + mset rows) s" "sampled_ok toks drafts 0 rows" "distinct (map row_seq rows)"
  shows "okE (reconcile cls rows toks drafts s) (\<lambda>(s', st'). scheduler_inv cls F s' \<and> frame s s' \<and>
     st' = map row_seq (filter (row_valid s) rows) \<and> rows_post s toks 0 rows s')"
proof -
  have "slice_to rows (py_len toks) = rows" using assms(2) by (simp add: slice_to_nonneg py_len_def sampled_ok_def)
  then show ?thesis using reconcile_loop [OF assms, of "[]"] by (simp add: reconcile_def)
qed

lemma new_request_waits:
  assumes "cls_wf cls" "request_ok kv toks sp" "new_sequence cls sid now toks sp rid = Inr q"
  shows "waiting_ok cls kv q \<and> seq_id q = sid"
  using new_sequence_ok [OF assms(1), of toks sid now sp rid] assms(2,3)
  by (auto simp: request_ok_def waiting_ok_def below_limit_def seq_wf_def split: option.splits)

abbreviation machine_inv :: "seq_class \<Rightarrow> scheduler \<times> launched_row multiset \<Rightarrow> bool" where
  "machine_inv cls t \<equiv> scheduler_inv cls (snd t) (fst t) \<and> 0 \<le> max_num_batched_tokens (fst t)"

lemma report_ok:
  assumes "sch_inv cls F [] Q s" "kv_report_ok kv s"
  shows "okE (update_from_kv_connector_output cls kv s) (\<lambda>s'. sch_inv cls F [] Q s' \<and> frame s s')"
  by (rule okE_mono [OF update_from_kv_ok [OF assms(1)]]) (use assms(2) in \<open>auto simp: kv_report_ok_def\<close>)

lemma launch_ok:
  assumes "scheduler_inv cls F s" "0 \<le> max_num_batched_tokens s"
  shows "okE (schedule cls s) (\<lambda>(s1, out). frame s s1 \<and> (\<exists>b. 0 \<le> b \<and> step_inv cls F (max_num_batched_tokens s) b [] s1 out) \<and>
     sch_inv cls F [] (scheduled out) s1 \<and> distinct (scheduled out))"
  by (rule okE_mono [OF schedule_ok [OF assms]]) (auto simp: schedule_post_def step_inv_def out_ok_def split: prod.splits)

lemma frame_tokens: "frame s s' \<Longrightarrow> max_num_batched_tokens s' = max_num_batched_tokens s"
  by (simp add: frame_def)

lemma inv_tick: "sch_inv cls F X Q (s\<lparr>ticks := n\<rparr>) = sch_inv cls F X Q s"
  by (simp add: sch_inv_def cfg_ok_def keys_ok_def sroles_def queue_ids_def)

lemma step_keeps_inv:
  assumes "sched_step cls (s, F) t" and inv: "scheduler_inv cls F s" "0 \<le> max_num_batched_tokens s"
  shows "machine_inv cls t"
  using assms(1)
proof cases
  case (add toks sp sid now rid q s')
  have cls: "cls_wf cls" using sch_invD(1) [OF inv(1)] by (simp add: cfg_ok_def)
  have w: "waiting_ok cls (kv_on s) q \<and> seq_id q = sid" by (rule new_request_waits [OF cls add(2,3)])
  have "request_id q \<notin> dict_keys (seqs s) \<union> dict_keys (recving s) \<union> dict_keys (sending s)"
    using add(6) by (auto simp: sch_add_def split: if_splits)
  then have "okE (sch_add q s) (\<lambda>s'. scheduler_inv cls F s' \<and> frame s s' \<and> objs s' = (objs s)(seq_id q := q) \<and>
     sroles [] s' = (sroles [] s)(seq_id q := InW))"
    using sch_add_ok [OF inv(1), of q] w add(4,5) by simp
  then show ?thesis using add(1,6) inv(2) by (auto simp: frame_tokens)
next
  case (abort rid reason s' b)
  then show ?thesis using abort_ok [OF inv(1), of rid reason] inv(2) by (auto simp: frame_tokens)
next
  case (launch s1 out s2 kv s' rows)
  have a: "frame s s1" "sch_inv cls F [] (scheduled out) s1" "distinct (scheduled out)" using launch_ok [OF inv] launch(2) by auto
  have b: "sch_inv cls F [] (scheduled out) s2" "frame s1 s2" using launch(3) a(2) report_ok [OF a(2), of kv] by auto
  have "scheduler_inv cls (F + mset rows) s'" "frame s2 s'" using advance_ok [OF b(1) a(3)] launch(4) by auto
  then show ?thesis using launch(1) inv(2) a(1) b(2) by (auto simp: frame_tokens)
next
  case (reconcile rows toks drafts s' st G)
  then show ?thesis using reconcile_ok [of cls G rows s toks drafts] inv by (auto simp: frame_tokens)
next
  case tick
  then show ?thesis using inv by (simp add: inv_tick perf_counter_def)
qed

lemma reachable_inv: "reachable cls t \<Longrightarrow> machine_inv cls t"
proof (induction rule: reachable.induct)
  case (start c ob clk s)
  then have "scheduler_inv cls {#} s" by (intro new_scheduler_inv [of cls c]) (auto simp: config_ok_def)
  moreover have "max_num_batched_tokens s = sc_max_num_batched_tokens c"
    using start(2) by (auto simp: new_scheduler_def bindE_eq_Inr Let_def)
  ultimately show ?case using start(1) by (simp add: config_ok_def)
next
  case (step t t')
  then show ?case using step_keeps_inv [of cls "fst t" "snd t" t'] by simp
qed

end
