(* ===== verification/Scheduler_Properties.thy ===== *)
theory Scheduler_Properties
  imports Scheduler_Machine Block_Properties
begin

text \<open>
  What the scheduler guarantees its caller in every reachable state, with a concrete run as
  witness: two requests are added, a step is scheduled, launched and reconciled.
\<close>

section \<open>A concrete run\<close>

definition demo_config :: scheduler_config where
  "demo_config = \<lparr>sc_max_num_seqs = 4, sc_max_num_batched_tokens = 8, sc_eos = 0, sc_kvcache_block_size = 2,
     sc_num_kvcache_blocks = 6, sc_enable_prefix_caching = True, sc_enable_chunked_prefill = True,
     sc_long_prefill_token_threshold = 0, sc_num_speculative_tokens = None, sc_scheduling_policy = ''fcfs'',
     sc_kv_transfer = None, sc_tensor_parallel_size = 1\<rparr>"

definition the_ok :: "'a res \<Rightarrow> 'a" where
  "the_ok r = (case r of Inr x \<Rightarrow> x)"

lemma the_ok: "\<not> isl r \<Longrightarrow> r = Inr (the_ok r)"
  by (cases r) (auto simp: the_ok_def)

definition demo_start :: scheduler where
  "demo_start = the_ok (new_scheduler demo_config (\<lambda>i. demo_seq True i [1]) (\<lambda>n. of_nat n))"

definition demo_req :: sequence where
  "demo_req = the_ok (new_sequence (demo_cls True) 0 0 [5, 6, 7] sampling_params_default (Some ''a''))"

definition demo_added :: scheduler where
  "demo_added = the_ok (sch_add demo_req demo_start)"

definition demo_sched :: "scheduler \<times> scheduler_output" where
  "demo_sched = the_ok (schedule (demo_cls True) demo_added)"

definition demo_launch :: "scheduler \<times> launched_row list" where
  "demo_launch = the_ok (advance (demo_cls True) (scheduled (snd demo_sched)) (fst demo_sched))"

lemma demo_run:
  "new_scheduler demo_config (\<lambda>i. demo_seq True i [1]) (\<lambda>n. of_nat n) = Inr demo_start"
  "new_sequence (demo_cls True) 0 0 [5, 6, 7] sampling_params_default (Some ''a'') = Inr demo_req"
  "sch_add demo_req demo_start = Inr demo_added"
  "schedule (demo_cls True) demo_added = Inr demo_sched"
  "advance (demo_cls True) (scheduled (snd demo_sched)) (fst demo_sched) = Inr demo_launch"
  unfolding demo_start_def demo_req_def demo_added_def demo_sched_def demo_launch_def
  by (rule the_ok, code_simp)+

lemma demo_reachable:
  "reachable (demo_cls True) (demo_start, {#})" "reachable (demo_cls True) (demo_added, {#})"
  "reachable (demo_cls True) (fst demo_launch, mset (snd demo_launch))"
proof -
  show s: "reachable (demo_cls True) (demo_start, {#})"
    by (rule reachable.start [OF _ demo_run(1)]) (simp add: config_ok_def demo_config_def demo_cls_wf, simp add: demo_cls_def)
  have "request_ok (kv_on demo_start) [5, 6, 7] sampling_params_default" by code_simp
  moreover have "(0::nat) \<notin># queue_ids [] demo_start" by code_simp
  ultimately have "sched_step (demo_cls True) (demo_start, {#}) (demo_added, {#})"
    by (rule sched_step.add [OF _ demo_run(2) _ _ demo_run(3)]) (simp add: rows_for_def)
  then show a: "reachable (demo_cls True) (demo_added, {#})" by (rule reachable.step [OF s])
  have "sched_step (demo_cls True) (demo_added, {#}) (fst demo_launch, {#} + mset (snd demo_launch))"
    by (rule sched_step.launch [of _ _ "fst demo_sched" "snd demo_sched" "fst demo_sched"]) (simp_all add: demo_run)
  then show "reachable (demo_cls True) (fst demo_launch, mset (snd demo_launch))" using reachable.step [OF a] by simp
qed

section \<open>Properties\<close>

text \<open>
  C1: no operation raises.  In every reachable state \<open>schedule\<close> returns, then the report of any
  transfers that are under way, and then the \<open>advance\<close> of what was scheduled; so does \<open>abort\<close> of
  any request id and \<open>reconcile\<close> of any rows in flight with a sampled value per row.
\<close>

theorem steps_never_raise:
  assumes "reachable cls (s, F)"
  shows "okE (schedule cls s) (\<lambda>(s1, out). okE (advance cls (scheduled out) s1) (\<lambda>_. True) \<and>
        (\<forall>kv. kv_report_ok kv s1 \<longrightarrow>
           okE (update_from_kv_connector_output cls kv s1) (\<lambda>s2. okE (advance cls (scheduled out) s2) (\<lambda>_. True)))) \<and>
     okE (abort rid reason s) (\<lambda>_. True) \<and>
     (\<forall>rows toks drafts. mset rows \<subseteq># F \<and> distinct (map row_seq rows) \<and> sampled_ok toks drafts 0 rows \<longrightarrow>
        okE (reconcile cls rows toks drafts s) (\<lambda>_. True))"
proof -
  note inv = reachable_inv [OF assms, simplified]
  have adv: "okE (advance cls Q s1) (\<lambda>_. True)" if "sch_inv cls F [] Q s1" "distinct Q" for Q s1
    by (rule okE_mono [OF advance_ok [OF that]]) simp
  have "okE (schedule cls s) (\<lambda>(s1, out). okE (advance cls (scheduled out) s1) (\<lambda>_. True) \<and>
        (\<forall>kv. kv_report_ok kv s1 \<longrightarrow>
           okE (update_from_kv_connector_output cls kv s1) (\<lambda>s2. okE (advance cls (scheduled out) s2) (\<lambda>_. True))))"
    by (rule okE_mono [OF launch_ok [of cls F]])
       (use inv adv in \<open>auto intro!: okE_mono [OF report_ok]\<close>)
  moreover have "okE (abort rid reason s) (\<lambda>_. True)" using inv by (intro okE_mono [OF abort_ok]) auto
  moreover have "okE (reconcile cls rows toks drafts s) (\<lambda>_. True)"
    if "mset rows \<subseteq># F" "distinct (map row_seq rows)" "sampled_ok toks drafts 0 rows" for rows toks drafts
    using inv that by (intro okE_mono [OF reconcile_ok [of cls "F - mset rows"]]) auto
  ultimately show ?thesis by blast
qed

theorem steps_never_raise_witness:
  "okE (schedule (demo_cls True) (fst demo_launch)) (\<lambda>_. True) \<and>
   okE (reconcile (demo_cls True) (snd demo_launch) [OneToken 9] None (fst demo_launch)) (\<lambda>_. True)"
proof -
  note n = steps_never_raise [OF demo_reachable(3)]
  have "distinct (map row_seq (snd demo_launch))" by code_simp
  moreover have "sampled_ok [OneToken 9] None 0 (snd demo_launch)"
  proof -
    have "snd demo_launch = [\<lparr>row_seq = 0, row_num_preemptions = 0, row_num_draft_tokens = 0\<rparr>]" by code_simp
    then show ?thesis by (simp add: sampled_ok_def py_len_def)
  qed
  moreover have "okE (schedule (demo_cls True) (fst demo_launch)) (\<lambda>_. True)"
    by (rule okE_mono [OF conjunct1 [OF n]]) simp
  ultimately show ?thesis using n by simp
qed

text \<open>
  C2: a step stays within its limits.  Whatever the state, the sequences scheduled are distinct,
  running and at most \<open>max_num_seqs\<close>; their tokens sum to the reported prefill and decode tokens
  and to at most \<open>max_num_batched_tokens\<close>; every scheduled token has a slot in the sequence's
  block table; a preempted sequence is back in the waiting queue without blocks; a dropped one is
  finished and in no queue.
\<close>

theorem schedule_within_limits:
  assumes "reachable cls (s, F)" and "schedule cls s = Inr (s', out)"
  shows "distinct (scheduled out) \<and> int (length (scheduled out)) \<le> max 0 (max_num_seqs s) \<and>
     (\<Sum>i \<leftarrow> scheduled out. num_scheduled_tokens (objs s' i)) = num_prefill_tokens out + num_decode_tokens out \<and>
     num_prefill_tokens out + num_decode_tokens out \<le> max_num_batched_tokens s \<and>
     (\<forall>i \<in> set (scheduled out). i \<in> set (running s') \<and>
        num_cached_tokens (objs s' i) + num_scheduled_tokens (objs s' i) \<le> int (length (block_table (objs s' i))) * cls_block_size cls) \<and>
     (\<forall>i \<in> set (preempted out). i \<in># w_ids (waiting s') \<and> block_table (objs s' i) = []) \<and>
     (\<forall>i \<in> set (dropped out). is_finished (objs s' i) \<and> i \<notin># queue_ids [] s')"
proof -
  note inv = reachable_inv [OF assms(1), simplified]
  obtain b where b: "0 \<le> b" "step_inv cls F (max_num_batched_tokens s) b [] s' out" and fr: "frame s s'"
    using launch_ok [of cls F s] inv assms(2) by auto
  have si: "sch_inv cls F [] (scheduled out) s'" and out: "out_ok (max_num_batched_tokens s) b [] s' out"
    using b(2) by (auto simp: step_inv_def)
  note d = sch_invD [OF si] and c = coreD [OF sch_invD(5) [OF si]]
  have run: "sroles [] s' i = InR" "running_ok cls (kv_on s') True (objs s' i)" if "i \<in> set (scheduled out)" for i
    using c(4) [of i] c(5) [OF that] that by auto
  have "i \<in> set (running s')" if "i \<in> set (scheduled out)" for i
    using run(1) [OF that] sroles_iff(2) [OF d(2), of i] by simp
  moreover have "num_cached_tokens (objs s' i) + num_scheduled_tokens (objs s' i) \<le> int (length (block_table (objs s' i))) * cls_block_size cls"
    if "i \<in> set (scheduled out)" for i
    using run(2) [OF that] by (auto simp: running_ok_def prefill_ok_def decode_ok_def split: if_splits)
  moreover have "i \<in># w_ids (waiting s') \<and> block_table (objs s' i) = []" if "i \<in> set (preempted out)" for i
  proof -
    have w: "sroles [] s' i = InW" using out that by (simp add: out_ok_def)
    then show ?thesis using c(4) [of i] sroles_iff(1) [OF d(2), of i] by (simp add: waiting_ok_def)
  qed
  moreover have "is_finished (objs s' i) \<and> i \<notin># queue_ids [] s'" if "i \<in> set (dropped out)" for i
    using out that sroles_iff(5) [OF d(2), of i] by (auto simp: out_ok_def)
  moreover have "max_num_seqs s' = max_num_seqs s" using fr by (simp add: frame_def)
  ultimately show ?thesis using out b(1) by (auto simp: out_ok_def)
qed

theorem schedule_within_limits_witness:
  "scheduled (snd demo_sched) = [0] \<and> num_prefill_tokens (snd demo_sched) + num_decode_tokens (snd demo_sched) \<le> max_num_batched_tokens demo_added"
proof -
  have "scheduled (snd demo_sched) = [0]" by code_simp
  then show ?thesis
    using schedule_within_limits [OF demo_reachable(2), of "fst demo_sched" "snd demo_sched"] demo_run(4) by simp
qed

lemma holders_count:
  "finite A \<Longrightarrow> count (held (image_mset (\<lambda>j. holding_of (ob j)) (mset_set A))) b = (\<Sum>i \<in> A. count_list (block_table (ob i)) b)"
  by (induction A rule: finite_induct) (auto simp: holding_of_def count_mset)

text \<open>
  C5: every block is accounted for.  In every reachable state the reference count of a block is
  the number of entries that name it in the tables of the sequences that run, load or are held
  for a reader; the free queue lists exactly the blocks with count 0, each once; and a waiting
  or finished sequence keeps none.
\<close>

theorem blocks_accounted:
  assumes "reachable cls (s, F)" and "b < length (blocks (block_mgr s))"
  shows "ref_count (blocks (block_mgr s) ! b) = int (\<Sum>i \<in> {i. sroles [] s i \<in> {InR, InV, InS}}. count_list (block_table (objs s i)) b) \<and>
     (b \<in> set (free_block_queue (block_mgr s)) \<longleftrightarrow> ref_count (blocks (block_mgr s) ! b) = 0) \<and>
     distinct (free_block_queue (block_mgr s)) \<and>
     (\<forall>i. i \<in># w_ids (waiting s) \<longrightarrow> block_table (objs s i) = [])"
proof -
  have inv: "scheduler_inv cls F s" using reachable_inv [OF assms(1)] by simp
  note d = sch_invD [OF inv] and c = coreD [OF sch_invD(5) [OF inv]]
  let ?A = "{j. holds (sroles [] s j)}"
  let ?H = "held (image_mset (\<lambda>j. holding_of (objs s j)) (mset_set ?A))"
  have A: "?A = {i. sroles [] s i \<in> {InR, InV, InS}}" by (simp add: holds_def)
  have ok: "counts_ok ?H (block_mgr s)" using d(5) by (simp add: core_def bm_inv_def)
  note k = counts_okD [OF ok]
  have n: "count ?H b = (\<Sum>i \<in> ?A. count_list (block_table (objs s i)) b)" by (rule holders_count [OF finite_holds [OF c(1)]])
  have "i \<in># w_ids (waiting s) \<Longrightarrow> block_table (objs s i) = []" for i
    using c(4) [of i] sroles_iff(1) [OF d(2), of i] by (simp add: waiting_ok_def)
  moreover have "b \<in> set (free_block_queue (block_mgr s)) \<longleftrightarrow> ref_count (blocks (block_mgr s) ! b) = 0"
    using k(2) [OF assms(2)] k(5) [of b] assms(2) by (simp add: not_in_iff)
  moreover have "ref_count (blocks (block_mgr s) ! b) = int (\<Sum>i \<in> ?A. count_list (block_table (objs s i)) b)"
    using k(2) [OF assms(2)] unfolding n .
  ultimately show ?thesis using k(4) unfolding A by blast
qed

theorem blocks_accounted_witness:
  "(0 \<in> set (free_block_queue (block_mgr (fst demo_launch))) \<longleftrightarrow> ref_count (blocks (block_mgr (fst demo_launch)) ! 0) = 0) \<and>
   ref_count (blocks (block_mgr (fst demo_launch)) ! 0) = 1"
proof -
  have "0 < length (blocks (block_mgr (fst demo_launch)))" by code_simp
  moreover have "ref_count (blocks (block_mgr (fst demo_launch)) ! 0) = 1" by code_simp
  ultimately show ?thesis using blocks_accounted [OF demo_reachable(3), of 0] by blast
qed

text \<open>
  C9: nothing leaks.  Once \<open>is_finished\<close> says the scheduler has nothing left, whatever aborts,
  preemptions, drops and transfers happened, every block of the cache is free and none is in use.
\<close>

theorem idle_frees_all:
  assumes "reachable cls (s, F)" and "sch_is_finished s"
  shows "set (free_block_queue (block_mgr s)) = {..<length (blocks (block_mgr s))} \<and>
     distinct (free_block_queue (block_mgr s)) \<and> used_block_ids (block_mgr s) = {} \<and> seqs s = []"
proof -
  have inv: "scheduler_inv cls F s" using reachable_inv [OF assms(1)] by simp
  note d = sch_invD [OF inv]
  have "queue_ids [] s = {#}"
    using assms(2) wq.len [of "waiting s"] by (simp add: sch_is_finished_def queue_ids_def)
  then have out: "sroles [] s i = Out" for i using sroles_iff(5) [OF d(2), of i] by simp
  then have "bm_inv cls (block_mgr s) {#}" using d(5) by (simp add: core_def)
  moreover have "map_of (seqs s) r = None" for r
    using coreD(8) [OF d(5), of r] out by (cases "map_of (seqs s) r") (auto simp: live_def)
  then have "dict_keys (seqs s) = {}" by (metis equals0I map_of_eq_None_iff)
  then have "seqs s = []" by simp
  ultimately show ?thesis by (auto simp: bm_inv_def counts_ok_def)
qed

theorem idle_frees_all_witness:
  "sch_is_finished demo_start \<and> set (free_block_queue (block_mgr demo_start)) = {..<length (blocks (block_mgr demo_start))}"
proof -
  have "sch_is_finished demo_start" by code_simp
  then show ?thesis using idle_frees_all [OF demo_reachable(1)] by simp
qed

text \<open>
  C6: \<open>reconcile\<close> commits what was sampled.  It forgets exactly the given rows, keeps the state
  reachable-shaped, and processes the rows whose sequence was neither finished nor requeued since
  the launch, in order: each of them appends its tokens up to and including the first that is the
  eos token (unless ignored), a stop token of the request, or fills its length limit.  A void row
  and every other sequence are untouched.
\<close>

theorem reconcile_commits:
  assumes "reachable cls (s, F + mset rows)" "distinct (map row_seq rows)" "sampled_ok toks drafts 0 rows"
  shows "okE (reconcile cls rows toks drafts s) (\<lambda>(s', stepped). scheduler_inv cls F s' \<and>
     stepped = map row_seq (filter (row_valid s) rows) \<and>
     (\<forall>j. j \<notin> row_seq ` set rows \<longrightarrow> objs s' j = objs s j) \<and>
     (\<forall>n < length rows. let i = row_seq (rows ! n) in if row_valid s (rows ! n)
        then token_ids (objs s' i) = token_ids (objs s i) @ kept (stops (eos s) (objs s i))
               (max_tokens (objs s i) - num_completion_tokens (objs s i)) (new_tokens (toks ! n))
        else objs s' i = objs s i))"
  by (rule okE_mono [OF reconcile_ok [OF _ assms(3,2)]])
     (use reachable_inv [OF assms(1)] in \<open>auto simp: rows_post_def Let_def\<close>)

lemma demo_rows: "snd demo_launch = [\<lparr>row_seq = 0, row_num_preemptions = 0, row_num_draft_tokens = 0\<rparr>]"
  by code_simp

lemma demo_sampled: "sampled_ok [OneToken 9] None 0 (snd demo_launch)"
  by (simp add: sampled_ok_def py_len_def demo_rows)

theorem reconcile_commits_witness:
  "okE (reconcile (demo_cls True) (snd demo_launch) [OneToken 9] None (fst demo_launch)) (\<lambda>(s', stepped).
     stepped = [0] \<and> token_ids (objs s' 0) = [5, 6, 7, 9])"
proof -
  have v: "row_valid (fst demo_launch) \<lparr>row_seq = 0, row_num_preemptions = 0, row_num_draft_tokens = 0\<rparr>" by code_simp
  have k: "token_ids (objs (fst demo_launch) 0) @ kept (stops (eos (fst demo_launch)) (objs (fst demo_launch) 0))
      (max_tokens (objs (fst demo_launch) 0) - num_completion_tokens (objs (fst demo_launch) 0)) [9] = [5, 6, 7, 9]" by code_simp
  have "reachable (demo_cls True) (fst demo_launch, {#} + mset (snd demo_launch))" using demo_reachable(3) by simp
  from reconcile_commits [OF this _ demo_sampled] have "okE (reconcile (demo_cls True) (snd demo_launch) [OneToken 9] None (fst demo_launch))
     (\<lambda>(s', stepped). stepped = map row_seq (filter (row_valid (fst demo_launch)) (snd demo_launch)) \<and>
       token_ids (objs s' 0) = token_ids (objs (fst demo_launch) 0) @ kept (stops (eos (fst demo_launch)) (objs (fst demo_launch) 0))
         (max_tokens (objs (fst demo_launch) 0) - num_completion_tokens (objs (fst demo_launch) 0)) [9])"
    using v by (auto simp: demo_rows Let_def elim!: okE_mono)
  then show ?thesis using v unfolding k by (simp add: demo_rows)
qed

lemma length_kept: "1 \<le> room \<Longrightarrow> int (length (kept stop room ts)) \<le> room"
  by (induction stop room ts rule: kept.induct) auto

text \<open>
  C11: no request gets more tokens than it asked for.  A request that is in a queue has room for
  another token, and what \<open>reconcile\<close> appends to a row's sequence never goes past \<open>max_tokens\<close>
  completion tokens, also when a speculative step brings several tokens at once.
\<close>

theorem completion_within_limit:
  assumes "reachable cls (s, F + mset rows)" "distinct (map row_seq rows)" "sampled_ok toks drafts 0 rows"
    and "reconcile cls rows toks drafts s = Inr (s', stepped)" "i \<in> set stepped"
  shows "num_completion_tokens (objs s i) < max_tokens (objs s i) \<and>
     int (length (token_ids (objs s' i))) - num_prompt_tokens (objs s i) \<le> max_tokens (objs s i)"
proof -
  have inv: "scheduler_inv cls (F + mset rows) s" using reachable_inv [OF assms(1)] by simp
  have post: "stepped = map row_seq (filter (row_valid s) rows)" "rows_post s toks 0 rows s'"
    using reconcile_ok [OF inv assms(3,2)] assms(4) by auto
  then obtain n where n: "n < length rows" "row_valid s (rows ! n)" "i = row_seq (rows ! n)"
    using assms(5) by (auto simp: in_set_conv_nth)
  then have tk: "token_ids (objs s' i) = token_ids (objs s i) @ row_tokens s (rows ! n) (toks ! n)"
    using post(2) by (auto simp: rows_post_def)
  have "rows ! n \<in># F + mset rows" using n(1) by simp
  then obtain G where "F + mset rows = add_mset (rows ! n) G" by (metis insert_DiffM)
  then have r: "sroles [] s i = InR" using row_facts(1) [of cls "rows ! n" G s] inv n by simp
  have ok: "seq_wf cls (objs s i)" "below_limit (objs s i)" using run_facts(1) [OF inv r] by (simp_all add: running_ok_def)
  then have lim: "num_completion_tokens (objs s i) < max_tokens (objs s i)" by (simp add: below_limit_def num_completion_tokens_def)
  then have "int (length (row_tokens s (rows ! n) (toks ! n))) \<le> max_tokens (objs s i) - num_completion_tokens (objs s i)"
    unfolding n(3) by (intro length_kept) simp
  then show ?thesis using lim ok(1) tk by (simp add: seq_wf_def num_completion_tokens_def)
qed

definition demo_done :: "scheduler \<times> nat list" where
  "demo_done = the_ok (reconcile (demo_cls True) (snd demo_launch) [OneToken 9] None (fst demo_launch))"

theorem completion_within_limit_witness:
  "0 \<in> set (snd demo_done) \<and> int (length (token_ids (objs (fst demo_done) 0))) - num_prompt_tokens (objs (fst demo_launch) 0)
     \<le> max_tokens (objs (fst demo_launch) 0)"
proof -
  have run: "reconcile (demo_cls True) (snd demo_launch) [OneToken 9] None (fst demo_launch) = Inr demo_done"
    unfolding demo_done_def by (rule the_ok, code_simp)
  have m: "0 \<in> set (snd demo_done)" by code_simp
  have "reachable (demo_cls True) (fst demo_launch, {#} + mset (snd demo_launch))" using demo_reachable(3) by simp
  from completion_within_limit [OF this _ demo_sampled, of "fst demo_done" "snd demo_done" 0] show ?thesis
    using run m by (simp add: demo_rows)
qed

text \<open>
  C15: \<open>abort\<close> ends the one request it names.  It returns False and changes nothing when the id is
  not alive; otherwise the request is finished and no longer waits or runs, its id can be used
  again by \<open>seqs\<close>, and every other sequence keeps its state and its queue.
\<close>

theorem abort_ends_request:
  assumes "reachable cls (s, F)"
  shows "okE (abort rid reason s) (\<lambda>(s', found). scheduler_inv cls F s' \<and>
     (case map_of (seqs s) rid of
        None \<Rightarrow> \<not> found \<and> s' = s
      | Some i \<Rightarrow> found \<and> request_id (objs s i) = rid \<and> is_finished (objs s' i) \<and>
          i \<notin># w_ids (waiting s') \<and> i \<notin> set (running s') \<and> rid \<notin> dict_keys (seqs s') \<and>
          (\<forall>j. j \<noteq> i \<longrightarrow> objs s' j = objs s j \<and> sroles [] s' j = sroles [] s j)))"
proof -
  have inv: "scheduler_inv cls F s" using reachable_inv [OF assms] by simp
  have rid: "request_id (objs s i) = rid" if "map_of (seqs s) rid = Some i" for i
    using coreD(8) [OF sch_invD(5) [OF inv]] that by blast
  show ?thesis
  proof (rule okE_mono [OF abort_ok [OF inv]], clarify, goal_cases)
    case (1 s' found)
    have "i \<notin># w_ids (waiting s')" "i \<notin> set (running s')" if "aborted rid s s' i" for i
      using that sroles_iff(1,2) [OF sch_invD(2) [OF 1(2)], of i] by (auto simp: aborted_def)
    moreover have "rid \<notin> dict_keys (seqs s')" if "aborted rid s s' i" for i
      using that by (auto simp: aborted_def AList.delete_eq)
    ultimately show ?case using 1 rid by (auto simp: aborted_def split: option.splits)
  qed
qed

theorem abort_ends_request_witness:
  "okE (abort ''a'' ''abort'' (fst demo_launch)) (\<lambda>(s', found). found \<and> is_finished (objs s' 0))"
proof -
  have "map_of (seqs (fst demo_launch)) ''a'' = Some 0" by code_simp
  then show ?thesis using abort_ends_request [OF demo_reachable(3), of "''a''" "''abort''"] by (auto elim!: okE_mono)
qed

text \<open>
  Request ids are unique.  \<open>add\<close> refuses a request with \<open>DuplicateRequestId\<close> exactly when a
  request with that id is still in some queue: waiting, running, loading (also when it was
  aborted meanwhile) or held for a reader.
\<close>

lemma duplicate_id_refused:
  assumes "reachable cls (s, F)"
  shows "sch_add q s = Inl (DuplicateRequestId (request_id q)) \<longleftrightarrow>
     (\<exists>i. i \<in># queue_ids [] s \<and> request_id (objs s i) = request_id q)"
proof -
  have inv: "scheduler_inv cls F s" using reachable_inv [OF assms] by simp
  note d = sch_invD [OF inv] and c = coreD [OF sch_invD(5) [OF inv]]
  have "request_id q \<in> dict_keys (seqs s) \<union> dict_keys (recving s) \<union> dict_keys (sending s) \<longleftrightarrow>
      (\<exists>i. i \<in># queue_ids [] s \<and> request_id (objs s i) = request_id q)" (is "?l = ?r")
  proof
    assume ?l
    then consider "request_id q \<in> dict_keys (seqs s)" | i where "(request_id q, i) \<in> set (recving s) \<union> set (sending s)" by fastforce
    then show ?r
    proof cases
      case 1
      then have "map_of (seqs s) (request_id q) \<noteq> None" unfolding map_of_eq_None_iff by simp
      then obtain i where "map_of (seqs s) (request_id q) = Some i" by blast
      then have "sroles [] s i \<noteq> Out" "request_id (objs s i) = request_id q" using c(8) by (auto simp: live_def)
      then show ?thesis using sroles_iff(5) [OF d(2), of i] by blast
    next
      case (2 i)
      then have "request_id (objs s i) = request_id q" using d(4) by (auto simp: keys_ok_def)
      moreover have "i \<in># queue_ids [] s" using 2 by (force simp: queue_ids_def)
      ultimately show ?thesis by blast
    qed
  next
    assume ?r
    then show ?l using used_ids [OF inv] sroles_iff(5) [OF d(2)] by metis
  qed
  then show ?thesis by (auto simp: sch_add_def Let_def)
qed

text \<open>
  C16: the end of a load.  When the workers report that the blocks of a request have arrived, or
  failed to, the request leaves the loading queue: an aborted one gives its blocks back, any
  other runs, after a success with all but the last prompt token computed, so that this instance
  samples the first token, after a failure from its locally cached prefix.
\<close>

theorem load_end:
  assumes "reachable cls (s0, F)" and "schedule cls s0 = Inr (s, out)" and "map_of (recving s) rid = Some i"
  shows "okE (finish_recv cls finished rid s) (\<lambda>s'. sch_inv cls F [] (scheduled out) s' \<and> rid \<notin> dict_keys (recving s') \<and>
     (\<forall>j. j \<noteq> i \<longrightarrow> objs s' j = objs s j \<and> sroles [] s' j = sroles [] s j) \<and>
     (if is_finished (objs s i) then i \<notin># queue_ids [] s'
      else i \<in> set (running s') \<and> status (objs s' i) = RUNNING \<and> block_table (objs s' i) = block_table (objs s i) \<and>
        num_cached_tokens (objs s' i) = (if rid \<in> set finished then num_prompt_tokens (objs s i) - 1 else num_cached_tokens (objs s i))))"
proof -
  have inv: "sch_inv cls F [] (scheduled out) s"
    using launch_ok [of cls F s0] reachable_inv [OF assms(1)] assms(2) by auto
  show ?thesis
  proof (rule okE_mono [OF finish_recv_ok [OF inv assms(3)]], goal_cases)
    case (1 s')
    then have inv': "sch_inv cls F [] (scheduled out) s'" by simp
    have "rid \<notin> dict_keys (recving s')" using 1 by (auto simp: AList.delete_eq)
    then show ?case using 1 sroles_iff(2,5) [OF sch_invD(2) [OF inv'], of i] by (auto simp: only_changes_def)
  qed
qed

definition demo_kv_config :: scheduler_config where
  "demo_kv_config = demo_config\<lparr>sc_kv_transfer := Some \<lparr>kv_connector = ''NixlConnector'', kv_role = Kv_Both, kv_ip = ''h'', kv_port = 1, engine_id = ''e''\<rparr>\<rparr>"

definition demo_kv_params :: sampling_params where
  "demo_kv_params = sampling_params_default\<lparr>sp_kv_transfer_params := Some
     [(''do_remote_prefill'', JBool True), (''remote_block_ids'', JList [JInt 3, JInt 4]), (''remote_request_id'', JStr ''r''),
      (''remote_engine_id'', JStr ''p''), (''remote_host'', JStr ''h''), (''remote_port'', JInt 2)]\<rparr>"

definition demo_kv_start :: scheduler where
  "demo_kv_start = the_ok (new_scheduler demo_kv_config (\<lambda>i. demo_seq True i [1]) (\<lambda>n. of_nat n))"

definition demo_kv_req :: sequence where
  "demo_kv_req = the_ok (new_sequence (demo_cls True) 0 0 [5, 6, 7] demo_kv_params (Some ''a''))"

definition demo_kv_added :: scheduler where
  "demo_kv_added = the_ok (sch_add demo_kv_req demo_kv_start)"

definition demo_kv_sched :: "scheduler \<times> scheduler_output" where
  "demo_kv_sched = the_ok (schedule (demo_cls True) demo_kv_added)"

lemma demo_kv_run:
  "new_scheduler demo_kv_config (\<lambda>i. demo_seq True i [1]) (\<lambda>n. of_nat n) = Inr demo_kv_start"
  "new_sequence (demo_cls True) 0 0 [5, 6, 7] demo_kv_params (Some ''a'') = Inr demo_kv_req"
  "sch_add demo_kv_req demo_kv_start = Inr demo_kv_added"
  "schedule (demo_cls True) demo_kv_added = Inr demo_kv_sched"
  unfolding demo_kv_start_def demo_kv_req_def demo_kv_added_def demo_kv_sched_def
  by (rule the_ok, code_simp)+

lemma demo_kv_reachable: "reachable (demo_cls True) (demo_kv_added, {#})"
proof -
  have s: "reachable (demo_cls True) (demo_kv_start, {#})"
    by (rule reachable.start [OF _ demo_kv_run(1)])
       (simp add: config_ok_def demo_kv_config_def demo_config_def demo_cls_wf, simp add: demo_cls_def)
  have "request_ok (kv_on demo_kv_start) [5, 6, 7] demo_kv_params" by code_simp
  moreover have "(0::nat) \<notin># queue_ids [] demo_kv_start" by code_simp
  ultimately have "sched_step (demo_cls True) (demo_kv_start, {#}) (demo_kv_added, {#})"
    by (rule sched_step.add [OF _ demo_kv_run(2) _ _ demo_kv_run(3)]) (simp add: rows_for_def)
  then show ?thesis by (rule reachable.step [OF s])
qed

theorem load_end_witness:
  "okE (finish_recv (demo_cls True) [''a''] ''a'' (fst demo_kv_sched)) (\<lambda>s'. 0 \<in> set (running s') \<and> num_cached_tokens (objs s' 0) = 2)"
proof -
  have mem: "map_of (recving (fst demo_kv_sched)) ''a'' = Some 0" by code_simp
  have run: "schedule (demo_cls True) demo_kv_added = Inr (fst demo_kv_sched, snd demo_kv_sched)" by (simp add: demo_kv_run(4))
  from load_end [OF demo_kv_reachable run mem, of "[''a'']"] show ?thesis
  proof (rule okE_mono, goal_cases)
    case (1 s')
    have "\<not> is_finished (objs (fst demo_kv_sched) 0)" "num_prompt_tokens (objs (fst demo_kv_sched) 0) = 3" by code_simp+
    then show ?case using 1 by simp
  qed
qed

section \<open>Sharing blocks\<close>

lemma two_holders:
  assumes "sch_inv cls F X Q s" "holds (sroles X s i)" "holds (sroles X s j)" "i \<noteq> j"
  shows "\<exists>M. bm_inv cls (block_mgr s) (add_mset (holding_of (objs s i)) (add_mset (holding_of (objs s j)) M))"
proof -
  have f: "finite ({k. holds (sroles X s k)} - {i})"
    using finite_holds [OF coreD(1) [OF sch_invD(5) [OF assms(1)]]] by simp
  have "mset_set ({k. holds (sroles X s k)} - {i}) = add_mset j (mset_set ({k. holds (sroles X s k)} - {i} - {j}))"
    by (rule mset_set.remove [OF f]) (use assms(3,4) in simp)
  then show ?thesis
    using core_bm [OF sch_invD(5) [OF assms(1)], of i] assms(2)
    by (subst add_mset_commute) (auto simp: others_def)
qed

lemma holder_wf: "sch_inv cls F X Q s \<Longrightarrow> holds (sroles X s i) \<Longrightarrow> seq_wf cls (objs s i)"
  using coreD(4) [OF sch_invD(5), of cls F X Q s i]
  by (cases "sroles X s i") (auto simp: running_ok_def recving_ok_def)

text \<open>A published block is full, and only with prefix caching is any published.\<close>

lemma published_full:
  assumes "bm_inv cls bm (add_mset (holding_of q) M)" "seq_wf cls q" "int k < num_published_blocks q"
  shows "cls_enable_prefix_caching cls" "Suc k * bsz cls \<le> length (token_ids q)"
proof -
  have k: "k < length (block_hashes q)"
    using bm_invD(3) [OF assms(1), of "holding_of q"] assms(3) by (auto simp: holding_ok_def holding_of_def)
  then show c: "cls_enable_prefix_caching cls" using assms(2) by (auto simp: seq_wf_def hashes_ok_def split: if_splits)
  then have "k < length (token_ids q) div bsz cls" using k assms(2) by (simp add: seq_wf_def hashes_ok_def)
  then show "Suc k * bsz cls \<le> length (token_ids q)"
    by (metis Suc_leI div_times_less_eq_dividend le_trans mult_le_mono1)
qed

lemma div_less_of_less_mult: "0 < b \<Longrightarrow> a < k * b \<Longrightarrow> a div b < (k :: int)"
  using div_times_le [of b a] by (meson mult_less_cancel_right_pos order.strict_trans1)

lemma le_div_of_mult_le: "0 < b \<Longrightarrow> k * b \<le> a \<Longrightarrow> k \<le> a div (b :: int)"
  using zdiv_mono1 [of "k * b" a b] by simp

lemma running_published: "running_ok cls kv sched q \<Longrightarrow> num_published_blocks q * cls_block_size cls \<le> num_cached_tokens q"
  by (auto simp: running_ok_def prefill_ok_def decode_ok_def split: if_splits)


text \<open>Two requests with a common first block; the second is added once the first was launched.\<close>

definition twin_req :: "nat \<Rightarrow> string \<Rightarrow> int list \<Rightarrow> sequence" where
  "twin_req i rid toks = the_ok (new_sequence inj_cls i 0 toks sampling_params_default (Some rid))"

definition twin_first :: scheduler where
  "twin_first = the_ok (sch_add (twin_req 0 ''a'' [5, 6, 7]) demo_start)"

definition twin_sched1 :: "scheduler \<times> scheduler_output" where
  "twin_sched1 = the_ok (schedule inj_cls twin_first)"

definition twin_launch1 :: "scheduler \<times> launched_row list" where
  "twin_launch1 = the_ok (advance inj_cls (scheduled (snd twin_sched1)) (fst twin_sched1))"

definition twin_second :: scheduler where
  "twin_second = the_ok (sch_add (twin_req 1 ''b'' [5, 6, 8]) (fst twin_launch1))"

definition twin_sched2 :: "scheduler \<times> scheduler_output" where
  "twin_sched2 = the_ok (schedule inj_cls twin_second)"

definition twin_launch2 :: "scheduler \<times> launched_row list" where
  "twin_launch2 = the_ok (advance inj_cls (scheduled (snd twin_sched2)) (fst twin_sched2))"

lemma twin_run:
  "new_sequence inj_cls 0 0 [5, 6, 7] sampling_params_default (Some ''a'') = Inr (twin_req 0 ''a'' [5, 6, 7])"
  "new_sequence inj_cls 1 0 [5, 6, 8] sampling_params_default (Some ''b'') = Inr (twin_req 1 ''b'' [5, 6, 8])"
  "sch_add (twin_req 0 ''a'' [5, 6, 7]) demo_start = Inr twin_first"
  "schedule inj_cls twin_first = Inr twin_sched1"
  "advance inj_cls (scheduled (snd twin_sched1)) (fst twin_sched1) = Inr twin_launch1"
  "sch_add (twin_req 1 ''b'' [5, 6, 8]) (fst twin_launch1) = Inr twin_second"
  "schedule inj_cls twin_second = Inr twin_sched2"
  "advance inj_cls (scheduled (snd twin_sched2)) (fst twin_sched2) = Inr twin_launch2"
  unfolding twin_req_def twin_first_def twin_sched1_def twin_launch1_def twin_second_def twin_sched2_def twin_launch2_def
  by (rule the_ok, code_simp)+

lemma twin_reachable:
  "reachable inj_cls (twin_second, mset (snd twin_launch1))"
  "reachable inj_cls (fst twin_launch2, mset (snd twin_launch1) + mset (snd twin_launch2))"
proof -
  have s: "reachable inj_cls (demo_start, {#})"
    by (rule reachable.start [OF _ demo_run(1)]) (simp add: config_ok_def demo_config_def inj_cls_wf, simp add: inj_cls_def)
  have "request_ok (kv_on demo_start) [5, 6, 7] sampling_params_default" by code_simp
  moreover have "(0::nat) \<notin># queue_ids [] demo_start" by code_simp
  ultimately have "sched_step inj_cls (demo_start, {#}) (twin_first, {#})"
    by (rule sched_step.add [OF _ twin_run(1) _ _ twin_run(3)]) (simp add: rows_for_def)
  from reachable.step [OF s this] have a: "reachable inj_cls (twin_first, {#})" .
  have "sched_step inj_cls (twin_first, {#}) (fst twin_launch1, {#} + mset (snd twin_launch1))"
    by (rule sched_step.launch [of _ _ "fst twin_sched1" "snd twin_sched1" "fst twin_sched1"]) (simp_all add: twin_run)
  from reachable.step [OF a this] have l: "reachable inj_cls (fst twin_launch1, mset (snd twin_launch1))" by simp
  have r: "snd twin_launch1 = [\<lparr>row_seq = 0, row_num_preemptions = 0, row_num_draft_tokens = 0\<rparr>]" by code_simp
  have "request_ok (kv_on (fst twin_launch1)) [5, 6, 8] sampling_params_default" by code_simp
  moreover have "(1::nat) \<notin># queue_ids [] (fst twin_launch1)" by code_simp
  ultimately have "sched_step inj_cls (fst twin_launch1, mset (snd twin_launch1)) (twin_second, mset (snd twin_launch1))"
    by (rule sched_step.add [OF _ twin_run(2) _ _ twin_run(6)]) (simp add: rows_for_def r)
  from reachable.step [OF l this] show b: "reachable inj_cls (twin_second, mset (snd twin_launch1))" .
  have "sched_step inj_cls (twin_second, mset (snd twin_launch1)) (fst twin_launch2, mset (snd twin_launch1) + mset (snd twin_launch2))"
    by (rule sched_step.launch [of _ _ "fst twin_sched2" "snd twin_sched2" "fst twin_sched2"]) (simp_all add: twin_run)
  from reachable.step [OF b this] show "reachable inj_cls (fst twin_launch2, mset (snd twin_launch1) + mset (snd twin_launch2))" .
qed


text \<open>
  C10: what a step writes is its own.  The keys of a scheduled token go to a block of the
  sequence's table that no other sequence holds and that the prefix-cache index does not name.
\<close>

theorem written_block_exclusive:
  assumes "reachable cls (s0, F)" "schedule cls s0 = Inr (s, out)" "i \<in> set (scheduled out)"
    and "num_cached_tokens (objs s i) \<le> pos" "pos < num_cached_tokens (objs s i) + num_scheduled_tokens (objs s i)"
  defines "k \<equiv> nat (pos div cls_block_size cls)"
  shows "k < length (block_table (objs s i)) \<and>
     (\<forall>j. j \<noteq> i \<longrightarrow> holds (sroles [] s j) \<longrightarrow> block_table (objs s i) ! k \<notin> set (block_table (objs s j))) \<and>
     (\<forall>h. hash_to_block_id (block_mgr s) h \<noteq> Some (block_table (objs s i) ! k))"
proof -
  let ?q = "objs s i"
  have inv: "sch_inv cls F [] (scheduled out) s"
    using launch_ok [of cls F s0] reachable_inv [OF assms(1)] assms(2) by auto
  have r: "sroles [] s i = InR" using coreD(5) [OF sch_invD(5) [OF inv] assms(3)] .
  have ok: "running_ok cls (kv_on s) True ?q" using coreD(4) [OF sch_invD(5) [OF inv], of i] r assms(3) by simp
  have bs: "0 < cls_block_size cls" using sch_invD(1) [OF inv] by (simp add: cfg_ok_def cls_wf_def)
  have b: "bm_inv cls (block_mgr s) (add_mset (holding_of ?q) (others (sroles [] s) i (objs s)))"
    using core_bm [OF sch_invD(5) [OF inv], of i] r by simp
  have h: "holding_ok (held (add_mset (holding_of ?q) (others (sroles [] s) i (objs s)))) (blocks (block_mgr s)) (holding_of ?q)"
    by (rule bm_invD(3) [OF b]) simp
  have pos: "0 \<le> pos" "pos < int (length (block_table ?q)) * cls_block_size cls"
    using ok assms(4,5) by (auto simp: running_ok_def prefill_ok_def decode_ok_def num_planned_tokens_def seq_wf_def split: if_splits)
  have k: "int k = pos div cls_block_size cls" using pos(1) bs by (simp add: k_def pos_imp_zdiv_nonneg_iff)
  have len: "k < length (block_table ?q)" using div_less_of_less_mult [OF bs pos(2)] k by simp
  have "num_published_blocks ?q \<le> pos div cls_block_size cls"
    using running_published [OF ok] assms(4) bs by (intro le_div_of_mult_le) auto
  then have low: "num_published_blocks ?q \<le> int k" by (simp add: k)
  have "block_table ?q ! k \<notin> set (block_table (objs s j))" if "j \<noteq> i" "holds (sroles [] s j)" for j
    using two_holders [OF inv _ that(2), of i] that(1) r unpublished_block_exclusive [OF _ low len] by (force simp: in_set_conv_nth)
  moreover have "blk_hash (blocks (block_mgr s) ! (block_table ?q ! k)) = -1"
    using h low len by (auto simp: holding_ok_def holding_of_def)
  then have "hash_to_block_id (block_mgr s) h \<noteq> Some (block_table ?q ! k)" for h
    using bm_invD(2) [OF b] by (auto simp: index_ok_def)
  ultimately show ?thesis using len by blast
qed

theorem written_block_exclusive_witness:
  "block_table (objs (fst twin_sched2) 1) ! 1 \<notin> set (block_table (objs (fst twin_sched2) 0))"
proof -
  have "1 \<in> set (scheduled (snd twin_sched2))" "num_cached_tokens (objs (fst twin_sched2) 1) \<le> 2"
    "2 < num_cached_tokens (objs (fst twin_sched2) 1) + num_scheduled_tokens (objs (fst twin_sched2) 1)"
    "holds (sroles [] (fst twin_sched2) 0)" by code_simp+
  moreover have "nat (2 div cls_block_size inj_cls) = 1" by (simp add: inj_cls_def)
  ultimately show ?thesis
    using written_block_exclusive [OF twin_reachable(1), of "fst twin_sched2" "snd twin_sched2" 1 2] twin_run(7) by simp
qed

end
