(* ===== verification/Output_Processor.thy ===== *)
theory Output_Processor
  imports Sequences "HOL-Library.Sublist"
begin

text \<open>
  \<open>engine/output_processor.py\<close>, \<open>utils/detokenizer.py\<close> and \<open>RequestOutput\<close> of
  \<open>engine/output.py\<close>: the per-request state on the client side.  A stream is a queue of items, kept
  in a store by a number, because the processor and its reader share it.  \<open>DecodeStream\<close> of the
  tokenizers library is a parameter: how one is made and what a step of it answers.
\<close>

section \<open>Detokenizer\<close>

text \<open>What \<open>stream.step\<close> does: text or None, an exception for an invalid id, another exception.\<close>

datatype step_result = Text "string option" | BadToken py_error | OtherError string

record 'ds decode_streams =
  ds_new :: "int list \<Rightarrow> bool \<Rightarrow> 'ds"
  ds_step :: "'ds \<Rightarrow> int \<Rightarrow> 'ds \<times> step_result"

record 'ds detokenizer =
  dt_skip_special_tokens :: bool
  dt_stream :: 'ds

definition INVALID_PREFIX_ERR_MSG :: string where
  "INVALID_PREFIX_ERR_MSG = ''Invalid prefix encountered''"

definition new_detokenizer :: "'ds decode_streams \<Rightarrow> int list \<Rightarrow> bool \<Rightarrow> 'ds detokenizer" where
  "new_detokenizer lib prompt skip = \<lparr>dt_skip_special_tokens = skip, dt_stream = ds_new lib prompt skip\<rparr>"

text \<open>\<open>x or ""\<close>\<close>

definition or_empty :: "string option \<Rightarrow> string" where
  "or_empty x = (case x of None \<Rightarrow> [] | Some t \<Rightarrow> t)"

definition decode :: "'ds decode_streams \<Rightarrow> int \<Rightarrow> 'ds detokenizer \<Rightarrow> (string \<times> 'ds detokenizer) res" where
  "decode lib t d =
     (let (st, r) = ds_step lib (dt_stream d) t; d1 = d\<lparr>dt_stream := st\<rparr>
      in case r of
           Text x \<Rightarrow> Inr (or_empty x, d1)
         | BadToken _ \<Rightarrow> Inr ([], d1)
         | OtherError msg \<Rightarrow>
             if \<not> prefix INVALID_PREFIX_ERR_MSG msg then Inl (RuntimeError msg)
             else
               let (st', r') = ds_step lib (ds_new lib [] (dt_skip_special_tokens d)) t;
                   d2 = d\<lparr>dt_stream := st'\<rparr>
               in case r' of
                    Text x \<Rightarrow> Inr (or_empty x, d2)
                  | BadToken e \<Rightarrow> Inl e
                  | OtherError msg' \<Rightarrow> Inl (RuntimeError msg'))"

fun decode_all :: "'ds decode_streams \<Rightarrow> int list \<Rightarrow> 'ds detokenizer \<Rightarrow> (string \<times> 'ds detokenizer) res" where
  "decode_all lib [] d = Inr ([], d)"
| "decode_all lib (t # ts) d =
     bindE (decode lib t d) (\<lambda>(x, d1). bindE (decode_all lib ts d1) (\<lambda>(y, d2). Inr (x @ y, d2)))"

section \<open>Outputs and streams\<close>

record request_output =
  ro_request_id :: string
  ro_token_ids :: "int list"
  ro_text :: string
  ro_finished :: bool
  ro_finish_reason :: "string option"
  ro_metrics :: "request_metrics option"
  ro_kv_transfer_params :: "(string, json) dict option"

datatype item = Output request_output | Failure py_error

fun ends_stream :: "item \<Rightarrow> bool" where
  "ends_stream (Output out) = ro_finished out"
| "ends_stream (Failure e) = True"

text \<open>\<open>AsyncStream.__aiter__\<close> over what was put so far: the outputs yielded and how it stands.\<close>

datatype stream_end = Waiting | Returned | Raised py_error

fun aiter :: "item list \<Rightarrow> request_output list \<times> stream_end" where
  "aiter [] = ([], Waiting)"
| "aiter (Failure e # q) = ([], Raised e)"
| "aiter (Output out # q) =
     (if ro_finished out then ([out], Returned) else let (outs, e) = aiter q in (out # outs, e))"

section \<open>The processor\<close>

record 'ds request_state =
  rs_detokenizer :: "'ds detokenizer option"
  rs_stream :: "nat option"

record 'ds output_processor =
  op_tokenizer :: "'ds decode_streams option"
  request_states :: "(string, 'ds request_state) dict"
  queues :: "nat \<Rightarrow> item list"

definition new_output_processor :: "'ds decode_streams option \<Rightarrow> 'ds output_processor" where
  "new_output_processor tok = \<lparr>op_tokenizer = tok, request_states = [], queues = (\<lambda>_. [])\<rparr>"

text \<open>\<open>stream.put(item)\<close>\<close>

definition put :: "nat \<Rightarrow> item \<Rightarrow> 'ds output_processor \<Rightarrow> 'ds output_processor" where
  "put k x p = p\<lparr>queues := (queues p)(k := queues p k @ [x])\<rparr>"

definition op_add_request ::
  "string \<Rightarrow> int list \<Rightarrow> bool \<Rightarrow> nat option \<Rightarrow> 'ds output_processor \<Rightarrow> 'ds output_processor" where
  "op_add_request rid prompt skip stream p =
     (let d = map_option (\<lambda>lib. new_detokenizer lib prompt skip) (op_tokenizer p)
      in p\<lparr>request_states := dict_put (request_states p) rid \<lparr>rs_detokenizer = d, rs_stream = stream\<rparr>\<rparr>)"

definition aborted_output :: "string \<Rightarrow> request_output" where
  "aborted_output rid = \<lparr>ro_request_id = rid, ro_token_ids = [], ro_text = [], ro_finished = True,
     ro_finish_reason = Some ''abort'', ro_metrics = None, ro_kv_transfer_params = None\<rparr>"

definition op_abort_request :: "string \<Rightarrow> 'ds output_processor \<Rightarrow> 'ds request_state option \<times> 'ds output_processor" where
  "op_abort_request rid p =
     (let st = map_of (request_states p) rid; p1 = p\<lparr>request_states := dict_del (request_states p) rid\<rparr>
      in (st, case st of
                Some s \<Rightarrow> (case rs_stream s of Some k \<Rightarrow> put k (Output (aborted_output rid)) p1 | None \<Rightarrow> p1)
              | None \<Rightarrow> p1))"

text \<open>
  One turn of the loop of \<open>process_outputs\<close>: fill in the text with the request's detokenizer,
  then forget a finished request and hand the output to its stream or to the caller.
\<close>

definition fill_text ::
  "'ds decode_streams option \<Rightarrow> request_output \<Rightarrow> 'ds request_state \<Rightarrow> (request_output \<times> 'ds request_state) res" where
  "fill_text tok out st =
     (case (tok, rs_detokenizer st) of
        (Some lib, Some d) \<Rightarrow>
          bindE (decode_all lib (ro_token_ids out) d) (\<lambda>(text, d').
          Inr (out\<lparr>ro_text := text\<rparr>, st\<lparr>rs_detokenizer := Some d'\<rparr>))
      | _ \<Rightarrow> Inr (out, st))"

definition route_output ::
  "request_output \<Rightarrow> 'ds request_state \<Rightarrow> 'ds output_processor \<times> request_output list \<Rightarrow> 'ds output_processor \<times> request_output list" where
  "route_output out st = (\<lambda>(p, unstreamed).
     let p1 = p\<lparr>request_states :=
           (if ro_finished out then dict_del (request_states p) (ro_request_id out)
            else dict_put (request_states p) (ro_request_id out) st)\<rparr>
     in case rs_stream st of
          Some k \<Rightarrow> (put k (Output out) p1, unstreamed)
        | None \<Rightarrow> (p1, unstreamed @ [out]))"

definition process_output ::
  "request_output \<Rightarrow> 'ds output_processor \<times> request_output list \<Rightarrow> ('ds output_processor \<times> request_output list) res" where
  "process_output out = (\<lambda>(p, unstreamed).
     case map_of (request_states p) (ro_request_id out) of
       None \<Rightarrow> Inr (p, unstreamed)
     | Some st \<Rightarrow> bindE (fill_text (op_tokenizer p) out st) (\<lambda>(out1, st1). Inr (route_output out1 st1 (p, unstreamed))))"

definition process_outputs ::
  "request_output list \<Rightarrow> 'ds output_processor \<Rightarrow> ('ds output_processor \<times> request_output list) res" where
  "process_outputs outs p = foldE process_output outs (p, [])"

definition fail_all :: "py_error \<Rightarrow> 'ds output_processor \<Rightarrow> 'ds output_processor" where
  "fail_all e p =
     foldl (\<lambda>p st. case rs_stream st of Some k \<Rightarrow> put k (Failure e) p | None \<Rightarrow> p)
       (p\<lparr>request_states := []\<rparr>) (dict_vals (request_states p))"

section \<open>Every stream ends once\<close>

definition stream_of :: "'ds output_processor \<Rightarrow> string \<Rightarrow> nat option" where
  "stream_of p rid = Option.bind (map_of (request_states p) rid) rs_stream"

definition live_stream :: "'ds output_processor \<Rightarrow> nat \<Rightarrow> bool" where
  "live_stream p k \<longleftrightarrow> k \<in> ran (stream_of p)"

definition still_open :: "item list \<Rightarrow> bool" where
  "still_open q \<longleftrightarrow> (\<forall>x \<in> set q. \<not> ends_stream x)"

definition ended_once :: "item list \<Rightarrow> bool" where
  "ended_once q \<longleftrightarrow> q \<noteq> [] \<and> still_open (butlast q) \<and> ends_stream (last q)"

text \<open>\<open>S\<close>: the streams made so far.\<close>

definition queues_ok :: "nat set \<Rightarrow> nat set \<Rightarrow> (nat \<Rightarrow> item list) \<Rightarrow> bool" where
  "queues_ok S L q \<longleftrightarrow> L \<subseteq> S \<and> (\<forall>k \<in> L. still_open (q k)) \<and> (\<forall>k \<in> S - L. ended_once (q k)) \<and> (\<forall>k. k \<notin> S \<longrightarrow> q k = [])"

definition streams_ok :: "nat set \<Rightarrow> 'ds output_processor \<Rightarrow> bool" where
  "streams_ok S p \<longleftrightarrow> wf_dict (request_states p) \<and> inj_on (stream_of p) (dom (stream_of p)) \<and>
     queues_ok S (ran (stream_of p)) (queues p)"

lemma ended_snoc: "still_open q \<Longrightarrow> ends_stream x \<Longrightarrow> ended_once (q @ [x])"
  by (simp add: ended_once_def)

lemma open_snoc: "still_open q \<Longrightarrow> \<not> ends_stream x \<Longrightarrow> still_open (q @ [x])"
  by (auto simp: still_open_def)

lemma queues_ok_end: "queues_ok S L q \<Longrightarrow> k \<in> L \<Longrightarrow> ends_stream x \<Longrightarrow> queues_ok S (L - {k}) (q(k := q k @ [x]))"
proof -
  assume a: "queues_ok S L q" "k \<in> L" "ends_stream x"
  have "ended_once (q k @ [x])" using a by (intro ended_snoc) (simp_all add: queues_ok_def)
  then have "ended_once ((q(k := q k @ [x])) j)" if "j \<in> S - (L - {k})" for j
    using a(1) that by (cases "j = k") (simp_all add: queues_ok_def)
  moreover have "k \<in> S" using a(1,2) by (auto simp: queues_ok_def)
  ultimately show ?thesis using a(1) by (auto simp: queues_ok_def)
qed

lemma queues_ok_go_on: "queues_ok S L q \<Longrightarrow> k \<in> L \<Longrightarrow> \<not> ends_stream x \<Longrightarrow> queues_ok S L (q(k := q k @ [x]))"
proof -
  assume a: "queues_ok S L q" "k \<in> L" "\<not> ends_stream x"
  have "still_open (q k @ [x])" using a by (intro open_snoc) (simp_all add: queues_ok_def)
  then have "still_open ((q(k := q k @ [x])) j)" if "j \<in> L" for j
    using a(1) that by (cases "j = k") (simp_all add: queues_ok_def)
  moreover have "k \<in> S" using a(1,2) by (auto simp: queues_ok_def)
  ultimately show ?thesis using a(1,2) by (auto simp: queues_ok_def)
qed

lemma ran_drop: "inj_on f (dom f) \<Longrightarrow> f r = Some k \<Longrightarrow> ran (f(r := None)) = ran f - {k}"
proof -
  assume inj: "inj_on f (dom f)" and r: "f r = Some k"
  have "f a \<noteq> Some k" if "a \<noteq> r" for a using inj r that by (metis domI inj_onD)
  then show ?thesis using r unfolding ran_def by (auto split: if_splits) (metis option.inject)
qed

lemma inj_drop: "inj_on f (dom f) \<Longrightarrow> inj_on (f(r := None)) (dom (f(r := None)))"
  by (auto simp: inj_on_def dom_def)

lemma stream_of_del: "stream_of (p\<lparr>request_states := dict_del (request_states p) rid\<rparr>) = (stream_of p)(rid := None)"
  by (auto simp: stream_of_def delete_conv')

lemma stream_of_put: "stream_of (p\<lparr>request_states := dict_put (request_states p) rid st\<rparr>) = (stream_of p)(rid := rs_stream st)"
  by (auto simp: stream_of_def update_conv')

lemma stream_of_queue [simp]: "stream_of (put k x p) = stream_of p"
  by (auto simp: stream_of_def put_def)

lemma aiter_open: "still_open q \<Longrightarrow> snd (aiter q) = Waiting \<and> map Output (fst (aiter q)) = q"
proof (induction q)
  case (Cons x q)
  then show ?case by (cases x) (auto simp: still_open_def split: prod.splits)
qed simp

lemma aiter_ended:
  "ended_once q \<Longrightarrow> snd (aiter q) \<noteq> Waiting \<and>
     q = map Output (fst (aiter q)) @ (case snd (aiter q) of Raised e \<Rightarrow> [Failure e] | _ \<Rightarrow> [])"
proof (induction q)
  case (Cons x q)
  show ?case
  proof (cases q)
    case Nil
    then show ?thesis using Cons.prems by (cases x) (auto simp: ended_once_def)
  next
    case (Cons y ys)
    then have "ended_once q" "\<not> ends_stream x" using Cons.prems by (auto simp: ended_once_def still_open_def split: if_splits)
    then show ?thesis using Cons.IH by (cases x) (auto split: prod.splits)
  qed
qed (simp add: ended_once_def)

text \<open>A request ends, with a last item for its stream if it has one.\<close>

lemma leave_ok:
  assumes ok: "streams_ok S p" and st: "map_of (request_states p) rid = Some st"
  defines "p1 \<equiv> p\<lparr>request_states := dict_del (request_states p) rid\<rparr>"
  shows "rs_stream st = None \<Longrightarrow> streams_ok S p1"
    and "rs_stream st = Some k \<Longrightarrow> ends_stream x \<Longrightarrow> streams_ok S (put k x p1)"
proof -
  have wf: "wf_dict (request_states p1)" and inj: "inj_on (stream_of p) (dom (stream_of p))"
    and q: "queues_ok S (ran (stream_of p)) (queues p)" using ok by (simp_all add: streams_ok_def p1_def)
  have s1: "stream_of p1 = (stream_of p)(rid := None)" unfolding p1_def by (rule stream_of_del)
  have sr: "stream_of p rid = rs_stream st" using st by (simp add: stream_of_def)
  have inj1: "inj_on (stream_of p1) (dom (stream_of p1))" unfolding s1 by (rule inj_drop [OF inj])
  show "streams_ok S p1" if "rs_stream st = None"
  proof -
    have "stream_of p1 = stream_of p" using s1 sr that by (metis fun_upd_triv)
    then show ?thesis using wf inj q by (simp add: streams_ok_def p1_def)
  qed
  show "streams_ok S (put k x p1)" if some: "rs_stream st = Some k" and e: "ends_stream x"
  proof -
    have "ran (stream_of p1) = ran (stream_of p) - {k}" unfolding s1 using ran_drop [OF inj] sr some by simp
    moreover have "k \<in> ran (stream_of p)" using sr some by (metis ranI)
    ultimately show ?thesis using wf inj1 queues_ok_end [OF q _ e] by (simp add: streams_ok_def) (simp add: put_def p1_def)
  qed
qed

lemma stay_ok:
  assumes ok: "streams_ok S p" and st: "map_of (request_states p) rid = Some st" and st': "rs_stream st' = rs_stream st"
  defines "p1 \<equiv> p\<lparr>request_states := dict_put (request_states p) rid st'\<rparr>"
  shows "streams_ok S p1"
    and "rs_stream st = Some k \<Longrightarrow> \<not> ends_stream x \<Longrightarrow> streams_ok S (put k x p1)"
proof -
  have sr: "stream_of p rid = rs_stream st" using st by (simp add: stream_of_def)
  then have s1: "stream_of p1 = stream_of p" unfolding p1_def stream_of_put st' by (metis fun_upd_triv)
  show ok1: "streams_ok S p1" using ok s1 by (simp add: streams_ok_def p1_def)
  show "streams_ok S (put k x p1)" if some: "rs_stream st = Some k" and e: "\<not> ends_stream x"
  proof -
    have "k \<in> ran (stream_of p)" using sr some by (metis ranI)
    then have "queues_ok S (ran (stream_of p)) ((queues p)(k := queues p k @ [x]))"
      using ok e by (intro queues_ok_go_on) (simp_all add: streams_ok_def)
    moreover have "queues (put k x p1) = (queues p)(k := queues p k @ [x])" by (simp add: put_def p1_def)
    moreover have "wf_dict (request_states (put k x p1))" using ok1 by (simp add: streams_ok_def put_def)
    ultimately show ?thesis using ok by (simp add: streams_ok_def s1)
  qed
qed

lemma add_ok:
  assumes ok: "streams_ok S p" and new: "map_of (request_states p) rid = None" "\<And>k. stream = Some k \<Longrightarrow> k \<notin> S"
  shows "streams_ok (S \<union> set_option stream) (op_add_request rid prompt skip stream p)" (is "streams_ok ?S ?p")
proof -
  have s: "stream_of ?p = (stream_of p)(rid := stream)" by (simp add: op_add_request_def Let_def stream_of_put)
  have old: "stream_of p rid = None" using new(1) by (simp add: stream_of_def)
  have q: "queues_ok S (ran (stream_of p)) (queues p)" and inj: "inj_on (stream_of p) (dom (stream_of p))"
    and wf: "wf_dict (request_states p)" using ok by (simp_all add: streams_ok_def)
  have ran: "ran (stream_of ?p) = ran (stream_of p) \<union> set_option stream"
    unfolding s using old by (cases stream) (simp_all add: ran_map_upd fun_upd_idem)
  have fresh: "k \<notin> ran (stream_of p)" if "stream = Some k" for k using q new(2) [OF that] by (auto simp: queues_ok_def)
  have "inj_on (stream_of ?p) (dom (stream_of ?p))"
  proof (cases stream)
    case None
    then show ?thesis unfolding s using inj old by (simp add: fun_upd_idem)
  next
    case (Some k)
    then have "stream_of p r \<noteq> Some k" for r using fresh by (metis ranI)
    moreover have "stream_of ?p = (stream_of p)(rid := Some k)" using s Some by simp
    ultimately show ?thesis using inj by (auto simp: inj_on_def split: if_splits)
  qed
  moreover have "queues_ok ?S (ran (stream_of ?p)) (queues p)"
    unfolding ran using q new(2) by (cases stream) (auto simp: queues_ok_def still_open_def)
  ultimately show ?thesis using wf by (simp add: streams_ok_def op_add_request_def Let_def)
qed

lemma abort_stream_ok:
  assumes ok: "streams_ok S p"
  shows "streams_ok S (snd (op_abort_request rid p))"
proof (cases "map_of (request_states p) rid")
  case None
  then have "dict_del (request_states p) rid = request_states p" by (simp add: map_of_eq_None_iff)
  then show ?thesis using ok None by (simp add: op_abort_request_def Let_def)
next
  case (Some st)
  show ?thesis
    using leave_ok [OF ok Some] Some by (cases "rs_stream st") (auto simp: op_abort_request_def Let_def aborted_output_def)
qed

lemma process_output_ok:
  assumes ok: "streams_ok S p" and run: "process_output out (p, us) = Inr (p', us')"
  shows "streams_ok S p'"
proof (cases "map_of (request_states p) (ro_request_id out)")
  case None
  then show ?thesis using ok run by (simp add: process_output_def)
next
  case (Some st)
  from run Some obtain out1 st1 where f: "fill_text (op_tokenizer p) out st = Inr (out1, st1)"
    and r: "(p', us') = route_output out1 st1 (p, us)" by (auto simp: process_output_def)
  have o: "rs_stream st1 = rs_stream st" "ro_request_id out1 = ro_request_id out"
    using f by (auto simp: fill_text_def split: option.splits)
  show ?thesis
  proof (cases "ro_finished out1")
    case True
    then show ?thesis using leave_ok [OF ok Some] r o by (cases "rs_stream st") (auto simp: Let_def route_output_def)
  next
    case False
    then show ?thesis using stay_ok [OF ok Some o(1)] r o by (cases "rs_stream st") (auto simp: Let_def route_output_def)
  qed
qed

lemma process_outputs_ok:
  "streams_ok S p \<Longrightarrow> foldE process_output outs (p, us) = Inr (p', us') \<Longrightarrow> streams_ok S p'"
proof (induction outs arbitrary: p us)
  case (Cons out outs)
  then obtain p1 us1 where "process_output out (p, us) = Inr (p1, us1)" "foldE process_output outs (p1, us1) = Inr (p', us')" by auto
  then show ?case using Cons.IH Cons.prems(1) process_output_ok by blast
qed simp

lemma fail_all_queues:
  "queues (foldl (\<lambda>p st. case rs_stream st of Some k \<Rightarrow> put k (Failure e) p | None \<Rightarrow> p) p sts) k =
     queues p k @ replicate (length (filter (\<lambda>st. rs_stream st = Some k) sts)) (Failure e) \<and>
   request_states (foldl (\<lambda>p st. case rs_stream st of Some k \<Rightarrow> put k (Failure e) p | None \<Rightarrow> p) p sts) = request_states p"
proof (induction sts arbitrary: p)
  case (Cons st sts)
  show ?case using Cons.IH [of p] Cons.IH [of "put (the (rs_stream st)) (Failure e) p"]
    by (cases "rs_stream st") (auto simp: put_def replicate_append_same)
qed simp

lemma one_state:
  assumes "wf_dict d" "(rid, st) \<in> set d" "P st" "\<And>r a. (r, a) \<in> set d \<Longrightarrow> P a \<Longrightarrow> r = rid"
  shows "length (filter P (dict_vals d)) = 1"
  using assms
proof (induction d)
  case (Cons x d)
  obtain r a where x: "x = (r, a)" by force
  show ?case
  proof (cases "r = rid")
    case True
    then have "a = st" using Cons.prems(1,2) x by force
    have "\<not> P b" if "(r', b) \<in> set d" for r' b
      using that Cons.prems(1) Cons.prems(4) [of r' b] x True by force
    then have "filter P (dict_vals d) = []" by (auto simp: filter_empty_conv)
    then show ?thesis using x \<open>a = st\<close> Cons.prems(3) by simp
  next
    case False
    then have "\<not> P a" using Cons.prems(4) [of r a] x by auto
    moreover have "length (filter P (dict_vals d)) = 1"
    proof (rule Cons.IH)
      show "wf_dict d" "(rid, st) \<in> set d" "P st" using Cons.prems(1,2,3) x False by auto
      show "r' = rid" if "(r', b) \<in> set d" "P b" for r' b using Cons.prems(4) [of r' b] that by simp
    qed
    ultimately show ?thesis using x by simp
  qed
qed simp

lemma fail_all_ok:
  assumes ok: "streams_ok S p"
  shows "streams_ok S (fail_all e p) \<and> request_states (fail_all e p) = []"
proof -
  let ?sts = "dict_vals (request_states p)"
  let ?n = "\<lambda>k. length (filter (\<lambda>st. rs_stream st = Some k) ?sts)"
  have wf: "wf_dict (request_states p)" and inj: "inj_on (stream_of p) (dom (stream_of p))"
    and qs: "queues_ok S (ran (stream_of p)) (queues p)" using ok by (simp_all add: streams_ok_def)
  have r: "request_states (fail_all e p) = []" by (simp add: fail_all_def fail_all_queues)
  have q: "queues (fail_all e p) k = queues p k @ replicate (?n k) (Failure e)" for k
    by (simp add: fail_all_def fail_all_queues)
  have so: "stream_of p r = rs_stream a" if "(r, a) \<in> set (request_states p)" for r a
    using that wf by (simp add: stream_of_def map_of_is_SomeI)
  have live: "?n k = 1" if l: "k \<in> ran (stream_of p)" for k
  proof -
    obtain rid where "stream_of p rid = Some k" using l by (auto simp: ran_def)
    then obtain st where st: "(rid, st) \<in> set (request_states p)" "rs_stream st = Some k"
      by (auto simp: stream_of_def bind_eq_Some_conv dest: map_of_SomeD)
    show ?thesis
    proof (rule one_state [where P = "\<lambda>st. rs_stream st = Some k" and st = st and rid = rid])
      fix r a assume a: "(r, a) \<in> set (request_states p)" "rs_stream a = Some k"
      then have "stream_of p r = Some k" "stream_of p rid = Some k" using so st by auto
      then show "r = rid" using inj by (auto simp: inj_on_def dom_def)
    qed (use wf st in auto)
  qed
  have dead: "?n k = 0" if "k \<notin> ran (stream_of p)" for k
    using that so by (fastforce simp: ran_def filter_empty_conv)
  have none: "ran (stream_of (fail_all e p)) = {}" by (auto simp: stream_of_def r ran_def)
  have "ended_once (queues (fail_all e p) k)" if "k \<in> S" for k
    using qs that live [of k] dead [of k] unfolding q queues_ok_def by (cases "k \<in> ran (stream_of p)") (auto intro: ended_snoc)
  moreover have "queues (fail_all e p) k = []" if "k \<notin> S" for k
    using qs that dead [of k] unfolding q queues_ok_def by auto
  ultimately have "queues_ok S (ran (stream_of (fail_all e p))) (queues (fail_all e p))" by (simp add: queues_ok_def none)
  moreover have "inj_on (stream_of (fail_all e p)) (dom (stream_of (fail_all e p)))" using none by (auto simp: inj_on_def dom_def ran_def)
  ultimately show ?thesis using r by (simp add: streams_ok_def)
qed

section \<open>Properties\<close>

text \<open>What the client may do with a processor; \<open>S\<close> collects the streams it made.\<close>

inductive processor :: "'ds output_processor \<Rightarrow> nat set \<Rightarrow> bool" where
  start: "processor (new_output_processor tok) {}"
| add: "processor p S \<Longrightarrow> rid \<notin> dict_keys (request_states p) \<Longrightarrow> (\<And>k. stream = Some k \<Longrightarrow> k \<notin> S) \<Longrightarrow>
     processor (op_add_request rid prompt skip stream p) (S \<union> set_option stream)"
| abort: "processor p S \<Longrightarrow> processor (snd (op_abort_request rid p)) S"
| process: "processor p S \<Longrightarrow> process_outputs outs p = Inr (p', unstreamed) \<Longrightarrow> processor p' S"
| fail: "processor p S \<Longrightarrow> processor (fail_all e p) S"

lemma processor_ok: "processor p S \<Longrightarrow> streams_ok S p"
proof (induction rule: processor.induct)
  case (start tok)
  have "stream_of (new_output_processor tok) = Map.empty" by (auto simp: stream_of_def new_output_processor_def)
  then show ?case by (simp add: streams_ok_def queues_ok_def new_output_processor_def)
next
  case (add p S rid stream prompt skip)
  then show ?case by (intro add_ok) (auto simp: map_of_eq_None_iff)
next
  case (process p S outs p' unstreamed)
  then show ?case using process_outputs_ok unfolding process_outputs_def by blast
qed (simp_all add: abort_stream_ok fail_all_ok)

text \<open>
  C21: no reader is left waiting.  Whatever requests are added, aborted, served and failed, the
  reader of a stream sees every item put into it, in order; it waits for more exactly while its
  request is tracked, and otherwise it has returned on a last output or raised the failure.
\<close>

theorem stream_ends_once:
  assumes "processor p S" and "k \<in> S"
  shows "(snd (aiter (queues p k)) = Waiting \<longleftrightarrow> live_stream p k) \<and>
     queues p k = map Output (fst (aiter (queues p k))) @ (case snd (aiter (queues p k)) of Raised e \<Rightarrow> [Failure e] | _ \<Rightarrow> [])"
proof -
  have ok: "streams_ok S p" by (rule processor_ok [OF assms(1)])
  show ?thesis
  proof (cases "live_stream p k")
    case True
    then have "still_open (queues p k)" using ok by (simp add: streams_ok_def queues_ok_def live_stream_def)
    from aiter_open [OF this] show ?thesis using True by simp
  next
    case False
    then have "ended_once (queues p k)" using ok assms(2) by (simp add: streams_ok_def queues_ok_def live_stream_def)
    from aiter_ended [OF this] show ?thesis using False by simp
  qed
qed

definition echo_streams :: "unit decode_streams" where
  "echo_streams = \<lparr>ds_new = (\<lambda>_ _. ()), ds_step = (\<lambda>_ t. ((), Text (Some [char_of t])))\<rparr>"

definition demo_proc :: "unit output_processor" where
  "demo_proc = snd (op_abort_request ''a'' (op_add_request ''a'' [1, 2] True (Some 7) (new_output_processor (Some echo_streams))))"

theorem stream_ends_once_witness:
  "processor demo_proc {7} \<and> \<not> live_stream demo_proc 7 \<and> snd (aiter (queues demo_proc 7)) = Returned"
proof -
  have p: "processor demo_proc {7}"
    unfolding demo_proc_def using processor.abort [OF processor.add [OF processor.start [of "Some echo_streams"], where rid = "''a''" and stream = "Some 7"
        and prompt = "[1, 2]" and skip = True], of "''a''"] by (simp add: new_output_processor_def)
  have r: "snd (aiter (queues demo_proc 7)) = Returned" by code_simp
  then have "snd (aiter (queues demo_proc 7)) \<noteq> Waiting" by simp
  then show ?thesis using stream_ends_once [OF p, of 7] p r by simp
qed

text \<open>
  The text of an output is the concatenation of what the detokenizer answers for its tokens,
  one after the other, and a request's text does not depend on how its tokens were grouped into
  outputs: decoding two groups after each other gives what decoding them at once gives.
\<close>

lemma decode_all_append:
  "decode_all lib (ts @ us) d = bindE (decode_all lib ts d) (\<lambda>(x, d1). bindE (decode_all lib us d1) (\<lambda>(y, d2). Inr (x @ y, d2)))"
proof (induction ts arbitrary: d)
  case Nil
  have "decode_all lib us d = bindE (decode_all lib us d) (\<lambda>(y, d2). Inr (y, d2))" by (cases "decode_all lib us d") auto
  then show ?case by simp
next
  case (Cons t ts)
  have push: "bindE (bindE m (\<lambda>(y, d2). Inr (x @ y, d2))) (\<lambda>(z, d3). bindE (n d3) (\<lambda>(y, d2). Inr (z @ y, d2))) =
     bindE (bindE m (\<lambda>(x', d1). bindE (n d1) (\<lambda>(y, d2). Inr (x' @ y, d2)))) (\<lambda>(y, d2). Inr (x @ y, d2))"
    for m :: "(string \<times> 'a detokenizer) res" and n :: "'a detokenizer \<Rightarrow> (string \<times> 'a detokenizer) res" and x
  proof (cases m)
    case (Inr a)
    then show ?thesis by (cases "n (snd a)") (auto split: prod.splits)
  qed simp
  show ?case
  proof (cases "decode lib t d")
    case (Inr a)
    then show ?thesis using Cons.IH push [of _ "fst a" "\<lambda>d1. decode_all lib us d1"] by (cases a) (simp add: Cons.IH)
  qed simp
qed

end
