(* ===== verification/Metrics.thy ===== *)
theory Metrics
  imports Scheduler Output_Processor
begin

text \<open>
  \<open>engine/metrics.py\<close>: the server's counters.  A counter of the Prometheus client is its value, a
  labelled one a value per label, a gauge its last value and a histogram what it observed, oldest
  first; the text the client renders from them is not modelled.  The lock makes each method one
  step.
\<close>

type_synonym labelled = "(string, rat) dict"

record metrics =
  m_running :: int
  m_waiting :: int
  m_kv_usage :: rat
  requests_received :: rat
  requests_aborted :: rat
  requests_finished :: labelled
  m_preemptions :: rat
  prompt_tokens :: rat
  generation_tokens :: rat
  prefill_tokens :: rat
  decode_tokens :: rat
  prefix_cache_queries :: rat
  prefix_cache_hits :: rat
  steps :: rat
  graph_steps :: rat
  eager_steps :: labelled
  step_seconds :: labelled
  model_busy :: rat
  m_ttft :: "rat list"
  m_tpot :: "rat list"
  m_queue_time :: "rat list"
  m_e2e :: "rat list"
  request_prompt_tokens :: "rat list"
  request_generation_tokens :: "rat list"
  step_duration :: "rat list"
  iteration_tokens :: "rat list"
  kv_transfers :: rat
  kv_transfer_failures :: rat
  kv_transfer_expired :: rat
  kv_transfer_time :: "rat list"
  kv_transfer_bytes :: "rat list"
  spec_drafts :: rat
  spec_draft_tokens :: rat
  spec_accepted_tokens :: rat
  spec_accepted_per_pos :: labelled

definition new_metrics :: metrics where
  "new_metrics = \<lparr>m_running = 0, m_waiting = 0, m_kv_usage = 0, requests_received = 0, requests_aborted = 0,
     requests_finished = [], m_preemptions = 0, prompt_tokens = 0, generation_tokens = 0, prefill_tokens = 0,
     decode_tokens = 0, prefix_cache_queries = 0, prefix_cache_hits = 0, steps = 0, graph_steps = 0,
     eager_steps = [], step_seconds = [], model_busy = 0, m_ttft = [], m_tpot = [], m_queue_time = [], m_e2e = [],
     request_prompt_tokens = [], request_generation_tokens = [], step_duration = [], iteration_tokens = [],
     kv_transfers = 0, kv_transfer_failures = 0, kv_transfer_expired = 0, kv_transfer_time = [], kv_transfer_bytes = [],
     spec_drafts = 0, spec_draft_tokens = 0, spec_accepted_tokens = 0, spec_accepted_per_pos = []\<rparr>"

text \<open>\<open>counter.labels(l).inc(x)\<close>\<close>

definition inc_label :: "labelled \<Rightarrow> string \<Rightarrow> rat \<Rightarrow> labelled" where
  "inc_label c l x = dict_put c l ((case map_of c l of None \<Rightarrow> 0 | Some n \<Rightarrow> n) + x)"

text \<open>\<open>labels(None)\<close> is the text of None.\<close>

definition reason_label :: "string option \<Rightarrow> string" where
  "reason_label r = (case r of None \<Rightarrow> ''None'' | Some s \<Rightarrow> s)"

definition GRAPH_KINDS :: "string list" where
  "GRAPH_KINDS = [''graph'', ''piecewise'']"

text \<open>\<open>if value is not None: histogram.observe(value)\<close>\<close>

definition observe_opt :: "rat option \<Rightarrow> rat list \<Rightarrow> rat list" where
  "observe_opt x h = (case x of None \<Rightarrow> h | Some v \<Rightarrow> h @ [v])"

definition record_received :: "metrics \<Rightarrow> metrics" where
  "record_received m = m\<lparr>requests_received := requests_received m + 1\<rparr>"

definition record_finished :: "request_output \<Rightarrow> metrics \<Rightarrow> metrics" where
  "record_finished out m =
     (let m1 = m\<lparr>requests_finished := inc_label (requests_finished m) (reason_label (ro_finish_reason out)) 1\<rparr>
      in case ro_metrics out of
           None \<Rightarrow> m1
         | Some rm \<Rightarrow>
             m1\<lparr>prompt_tokens := prompt_tokens m1 + of_int (rm_num_prompt_tokens rm),
                generation_tokens := generation_tokens m1 + of_int (rm_num_completion_tokens rm),
                request_prompt_tokens := request_prompt_tokens m1 @ [of_int (rm_num_prompt_tokens rm)],
                request_generation_tokens := request_generation_tokens m1 @ [of_int (rm_num_completion_tokens rm)],
                m_ttft := observe_opt (ttft rm) (m_ttft m1),
                m_tpot := observe_opt (tpot rm) (m_tpot m1),
                m_queue_time := observe_opt (queue_time rm) (m_queue_time m1),
                m_e2e := observe_opt (e2e rm) (m_e2e m1)\<rparr>)"

definition record_aborted :: "request_output \<Rightarrow> metrics \<Rightarrow> metrics" where
  "record_aborted out m =
     (if ro_finish_reason out = Some ''abort'' then m\<lparr>requests_aborted := requests_aborted m + 1\<rparr>
      else record_finished out m)"

text \<open>The part of \<open>record_step\<close> for a step that ran the model.\<close>

definition record_ran :: "scheduler_output \<Rightarrow> rat \<Rightarrow> string \<Rightarrow> metrics \<Rightarrow> metrics" where
  "record_ran out duration step_kind m =
     (let m1 = m\<lparr>steps := steps m + 1\<rparr>;
          m2 = (if step_kind \<in> set GRAPH_KINDS then m1\<lparr>graph_steps := graph_steps m1 + 1\<rparr>
                else m1\<lparr>eager_steps := inc_label (eager_steps m1) step_kind 1\<rparr>)
      in m2\<lparr>step_seconds := inc_label (step_seconds m2) step_kind duration,
            model_busy := model_busy m2 + duration,
            step_duration := step_duration m2 @ [duration],
            iteration_tokens := iteration_tokens m2 @ [of_int (num_prefill_tokens out + num_decode_tokens out)],
            prefill_tokens := prefill_tokens m2 + of_int (num_prefill_tokens out),
            decode_tokens := decode_tokens m2 + of_int (num_decode_tokens out)\<rparr>)"

definition record_step :: "scheduler \<Rightarrow> scheduler_output \<Rightarrow> request_output list \<Rightarrow> rat \<Rightarrow> string \<Rightarrow> metrics \<Rightarrow> metrics" where
  "record_step s out outs duration step_kind m =
     (let m1 = (if output_bool out then record_ran out duration step_kind m else m);
          m2 = m1\<lparr>m_preemptions := m_preemptions m1 + of_int (py_len (preempted out)),
                  prefix_cache_queries := prefix_cache_queries m1 + of_int (num_queried_blocks out),
                  prefix_cache_hits := prefix_cache_hits m1 + of_int (out_num_cached_blocks out),
                  m_running := py_len (running s),
                  m_waiting := w_len (waiting s) + py_len (recving s),
                  m_kv_usage := usage (block_mgr s)\<rparr>
      in fold record_finished (filter ro_finished outs) m2)"

definition record_transfer :: "string \<times> kv_transfer_stats \<Rightarrow> metrics \<Rightarrow> metrics" where
  "record_transfer = (\<lambda>(_, stats) m. m\<lparr>kv_transfers := kv_transfers m + 1,
     kv_transfer_time := kv_transfer_time m @ [seconds stats],
     kv_transfer_bytes := kv_transfer_bytes m @ [of_int (num_bytes stats)]\<rparr>)"

definition record_kv_transfer :: "kv_connector_output \<Rightarrow> metrics \<Rightarrow> metrics" where
  "record_kv_transfer kv m =
     (let m1 = fold record_transfer (recv_stats kv) m
      in m1\<lparr>kv_transfer_failures := kv_transfer_failures m1 + of_int (py_len (failed_recving kv)),
            kv_transfer_expired := kv_transfer_expired m1 + of_int (py_len (expired_sending kv))\<rparr>)"

definition record_spec_row :: "launched_row \<times> int list \<Rightarrow> metrics \<Rightarrow> metrics" where
  "record_spec_row = (\<lambda>(row, tokens) m.
     if row_num_draft_tokens row = 0 then m
     else
       let num_accepted = py_len tokens - 1
       in m\<lparr>spec_drafts := spec_drafts m + 1,
            spec_draft_tokens := spec_draft_tokens m + of_int (row_num_draft_tokens row),
            spec_accepted_tokens := spec_accepted_tokens m + of_int num_accepted,
            spec_accepted_per_pos := foldl (\<lambda>c pos. inc_label c (show_nat (nat pos)) 1) (spec_accepted_per_pos m)
              (py_range 0 num_accepted)\<rparr>)"

definition record_spec_decoding :: "launched_row list \<Rightarrow> int list list \<Rightarrow> metrics \<Rightarrow> metrics" where
  "record_spec_decoding rows toks m = fold record_spec_row (zip rows toks) m"

section \<open>The counters agree\<close>

definition total :: "labelled \<Rightarrow> rat" where
  "total c = sum_list (dict_vals c)"

lemma total_put: "wf_dict c \<Longrightarrow> total (dict_put c l x) = total c + x - (case map_of c l of None \<Rightarrow> 0 | Some n \<Rightarrow> n)"
proof (induction c)
  case (Cons p c)
  obtain k v where p: "p = (k, v)" by force
  show ?case
  proof (cases "k = l")
    case False
    then show ?thesis using Cons p by (auto simp: total_def split: option.splits)
  qed (use p in \<open>simp add: total_def\<close>)
qed (simp add: total_def)

lemma inc_label_total: "wf_dict c \<Longrightarrow> wf_dict (inc_label c l x) \<and> total (inc_label c l x) = total c + x"
  by (auto simp: inc_label_def total_put split: option.splits)

lemma inc_labels_total: "wf_dict c \<Longrightarrow> wf_dict (foldl (\<lambda>c p. inc_label c (f p) 1) c ps) \<and>
     total (foldl (\<lambda>c p. inc_label c (f p) 1) c ps) = total c + of_nat (length ps)"
  by (induction ps arbitrary: c) (auto simp: inc_label_total)

definition step_counts_ok :: "metrics \<Rightarrow> bool" where
  "step_counts_ok m \<longleftrightarrow> wf_dict (eager_steps m) \<and> wf_dict (step_seconds m) \<and> steps m = graph_steps m + total (eager_steps m) \<and>
     steps m = of_nat (length (step_duration m)) \<and>
     model_busy m = total (step_seconds m) \<and> model_busy m = sum_list (step_duration m) \<and>
     prefill_tokens m + decode_tokens m = sum_list (iteration_tokens m)"

definition request_counts_ok :: "metrics \<Rightarrow> bool" where
  "request_counts_ok m \<longleftrightarrow> wf_dict (requests_finished m) \<and> prompt_tokens m = sum_list (request_prompt_tokens m) \<and>
     generation_tokens m = sum_list (request_generation_tokens m) \<and>
     of_nat (length (request_generation_tokens m)) \<le> total (requests_finished m)"

definition kv_counts_ok :: "metrics \<Rightarrow> bool" where
  "kv_counts_ok m \<longleftrightarrow> kv_transfers m = of_nat (length (kv_transfer_time m)) \<and> kv_transfers m = of_nat (length (kv_transfer_bytes m))"

definition spec_counts_ok :: "metrics \<Rightarrow> bool" where
  "spec_counts_ok m \<longleftrightarrow> wf_dict (spec_accepted_per_pos m) \<and> spec_accepted_tokens m = total (spec_accepted_per_pos m) \<and>
     0 \<le> spec_accepted_tokens m \<and> spec_accepted_tokens m \<le> spec_draft_tokens m \<and> spec_drafts m \<le> spec_draft_tokens m"

abbreviation counts_agree :: "metrics \<Rightarrow> bool" where
  "counts_agree m \<equiv> step_counts_ok m \<and> request_counts_ok m \<and> kv_counts_ok m \<and> spec_counts_ok m"

lemmas counts_defs = step_counts_ok_def request_counts_ok_def kv_counts_ok_def spec_counts_ok_def

lemma finished_ok: "counts_agree m \<Longrightarrow> counts_agree (record_finished out m)"
  by (auto simp: counts_defs record_finished_def Let_def inc_label_total split: option.splits)

lemma all_finished_ok: "counts_agree m \<Longrightarrow> counts_agree (fold record_finished outs m)"
proof (induction outs arbitrary: m)
  case (Cons out outs)
  then show ?case using finished_ok [of m out] by simp
qed simp

lemma ran_ok: "counts_agree m \<Longrightarrow> counts_agree (record_ran out d kind m)"
  by (auto simp: counts_defs record_ran_def Let_def inc_label_total)

lemma step_ok: "counts_agree m \<Longrightarrow> counts_agree (record_step s out outs d kind m)"
  unfolding record_step_def Let_def
  by (rule all_finished_ok) (use ran_ok [of m out d kind] in \<open>auto simp: counts_defs\<close>)

lemma transfers_ok: "counts_agree m \<Longrightarrow> counts_agree (fold record_transfer xs m)"
proof (induction xs arbitrary: m)
  case (Cons x xs)
  have "counts_agree (record_transfer x m)" using Cons.prems by (cases x) (simp add: counts_defs record_transfer_def)
  then show ?case using Cons.IH [of "record_transfer x m"] by simp
qed simp

lemma spec_row_ok:
  assumes "counts_agree m" "tokens \<noteq> []" "0 \<le> row_num_draft_tokens row" "py_len tokens \<le> 1 + row_num_draft_tokens row"
  shows "counts_agree (record_spec_row (row, tokens) m)"
proof (cases "row_num_draft_tokens row = 0")
  case False
  have n: "0 \<le> py_len tokens - 1" "py_len tokens - 1 \<le> row_num_draft_tokens row" "1 \<le> row_num_draft_tokens row"
    using assms False by (cases tokens; simp add: py_len_def)+
  have l: "(of_nat (length (py_range 0 (py_len tokens - 1))) :: rat) = of_int (py_len tokens - 1)"
    using n(1) by (simp add: length_py_range)
  have le: "(of_int (py_len tokens - 1) :: rat) \<le> of_int (row_num_draft_tokens row)" "(1::rat) \<le> of_int (row_num_draft_tokens row)"
    "0 \<le> (of_int (py_len tokens - 1) :: rat)"
    using n by (simp_all only: of_int_le_iff of_int_0_le_iff of_int_1_le_iff)
  have "wf_dict (spec_accepted_per_pos m)" using assms(1) by (simp add: spec_counts_ok_def)
  note t = inc_labels_total [OF this, of "\<lambda>p. show_nat (nat p)" "py_range 0 (py_len tokens - 1)"]
  show ?thesis using assms(1) False t le unfolding l by (auto simp: counts_defs record_spec_row_def Let_def)
qed (use assms in \<open>simp add: record_spec_row_def\<close>)

text \<open>Every sequence of reports, where a row's tokens are its kept drafts and one more.\<close>

inductive recorded :: "metrics \<Rightarrow> bool" where
  start: "recorded new_metrics"
| received: "recorded m \<Longrightarrow> recorded (record_received m)"
| aborted: "recorded m \<Longrightarrow> recorded (record_aborted out m)"
| stepped: "recorded m \<Longrightarrow> recorded (record_step s out outs d kind m)"
| transfer: "recorded m \<Longrightarrow> recorded (record_kv_transfer kv m)"
| spec: "recorded m \<Longrightarrow>
    \<forall>(row, tokens) \<in> set (zip rows toks). tokens \<noteq> [] \<and> 0 \<le> row_num_draft_tokens row \<and> py_len tokens \<le> 1 + row_num_draft_tokens row \<Longrightarrow>
    recorded (record_spec_decoding rows toks m)"

text \<open>
  C22: the counters agree with each other.  Whatever is reported, the steps are the graph steps
  plus the eager steps over all reasons, the busy seconds are the seconds over all kinds and the
  sum of the step durations, the tokens through the model are those of the batches, the tokens of
  finished requests are the sums of the histograms, every load has a time and a size, and the
  accepted drafts are those over all places and no more than the drafts verified.
\<close>

theorem counters_agree:
  assumes "recorded m"
  shows "steps m = graph_steps m + total (eager_steps m) \<and> steps m = of_nat (length (step_duration m)) \<and>
     model_busy m = total (step_seconds m) \<and> model_busy m = sum_list (step_duration m) \<and>
     prefill_tokens m + decode_tokens m = sum_list (iteration_tokens m) \<and>
     prompt_tokens m = sum_list (request_prompt_tokens m) \<and> generation_tokens m = sum_list (request_generation_tokens m) \<and>
     kv_transfers m = of_nat (length (kv_transfer_time m)) \<and> kv_transfers m = of_nat (length (kv_transfer_bytes m)) \<and>
     spec_accepted_tokens m = total (spec_accepted_per_pos m) \<and> spec_accepted_tokens m \<le> spec_draft_tokens m"
proof -
  have "counts_agree m"
    using assms
  proof induction
    case start
    show ?case by (simp add: counts_defs new_metrics_def total_def)
  next
    case (received m)
    then show ?case by (simp add: counts_defs record_received_def)
  next
    case (aborted m out)
    then show ?case using finished_ok [of m out] by (auto simp: record_aborted_def counts_defs)
  next
    case (transfer m kv)
    then show ?case using transfers_ok [of m "recv_stats kv"] by (simp add: record_kv_transfer_def Let_def counts_defs)
  next
    case (spec m rows toks)
    have "counts_agree (fold record_spec_row xs m)"
      if "counts_agree m" "\<forall>(row, tokens) \<in> set xs. tokens \<noteq> [] \<and> 0 \<le> row_num_draft_tokens row \<and> py_len tokens \<le> 1 + row_num_draft_tokens row" for xs m
      using that
    proof (induction xs arbitrary: m)
      case (Cons x xs)
      then show ?case using spec_row_ok [of m "snd x" "fst x"] by auto
    qed simp
    then show ?case using spec by (simp add: record_spec_decoding_def)
  qed (rule step_ok)
  then show ?thesis by (simp add: counts_defs)
qed

definition demo_metrics :: metrics where
  "demo_metrics = record_spec_decoding [\<lparr>row_seq = 0, row_num_preemptions = 0, row_num_draft_tokens = 2\<rparr>] [[4, 5]] (record_received new_metrics)"

theorem counters_agree_witness: "spec_accepted_tokens demo_metrics = 1 \<and> spec_accepted_tokens demo_metrics = total (spec_accepted_per_pos demo_metrics)"
proof -
  have "recorded demo_metrics" unfolding demo_metrics_def by (intro recorded.intros) (simp add: py_len_def)
  moreover have "spec_accepted_tokens demo_metrics = 1" by code_simp
  ultimately show ?thesis using counters_agree by blast
qed

end
