(* ===== verification/Tensors.thy ===== *)
theory Tensors
  imports Prelude "HOL-Library.Option_ord"
begin

text \<open>
  The tensor operations the modelled code uses, on lists: what their documentation says of them on
  integer and rational entries.  A matrix is the list of its rows.  An index that the code computes
  as a difference of a running total and one of its parts is a natural number.
\<close>

section \<open>Operations\<close>

definition cumsum :: "nat list \<Rightarrow> nat list" where
  "cumsum xs = map (\<lambda>i. sum_list (take (Suc i) xs)) [0..<length xs]"

fun cumprod :: "nat list \<Rightarrow> nat list" where
  "cumprod [] = []"
| "cumprod (x # xs) = x # map ((*) x) (cumprod xs)"

definition repeat_interleave :: "'a list \<Rightarrow> nat list \<Rightarrow> 'a list" where
  "repeat_interleave xs ns = concat (map2 (\<lambda>x n. replicate n x) xs ns)"

definition gather :: "'a list \<Rightarrow> nat list \<Rightarrow> 'a list" where
  "gather xs is = map (\<lambda>i. xs ! i) is"

text \<open>\<open>m[rows, cols] = vals\<close>.\<close>

definition put_entry :: "nat \<times> nat \<times> 'a \<Rightarrow> 'a list list \<Rightarrow> 'a list list" where
  "put_entry = (\<lambda>(r, c, v) m. m[r := (m ! r)[c := v]])"

definition put_entries :: "nat list \<Rightarrow> nat list \<Rightarrow> 'a list \<Rightarrow> 'a list list \<Rightarrow> 'a list list" where
  "put_entries rs cs vs m = fold put_entry (zip rs (zip cs vs)) m"

definition full :: "nat \<Rightarrow> nat \<Rightarrow> 'a \<Rightarrow> 'a list list" where
  "full rows cols x = replicate rows (replicate cols x)"

text \<open>\<open>argmax\<close> of a non-empty row: the first of the largest entries.\<close>

fun argmax :: "'a::linorder list \<Rightarrow> nat" where
  "argmax [] = 0"
| "argmax [x] = 0"
| "argmax (x # y # ys) = (let i = argmax (y # ys) in if (y # ys) ! i \<le> x then 0 else Suc i)"

text \<open>\<open>searchsorted(xs, t, right=True)\<close> on an ascending \<open>xs\<close>.\<close>

definition searchsorted_right :: "int list \<Rightarrow> int \<Rightarrow> nat" where
  "searchsorted_right xs t = length (takeWhile (\<lambda>x. x \<le> t) xs)"

section \<open>Rows laid out one after the other\<close>

definition row_starts :: "nat list \<Rightarrow> nat list" where
  "row_starts ns = map2 (-) (cumsum ns) ns"

definition index_of_rows :: "nat list \<Rightarrow> nat list" where
  "index_of_rows ns = repeat_interleave [0..<length ns] ns"

lemma length_cumsum [simp]: "length (cumsum ns) = length ns"
  by (simp add: cumsum_def)

lemma nth_cumsum [simp]: "i < length ns \<Longrightarrow> cumsum ns ! i = sum_list (take (Suc i) ns)"
  by (simp add: cumsum_def)

lemma length_row_starts [simp]: "length (row_starts ns) = length ns"
  by (simp add: row_starts_def)

lemma nth_row_starts [simp]: "i < length ns \<Longrightarrow> row_starts ns ! i = sum_list (take i ns)"
  by (simp add: row_starts_def take_Suc_conv_app_nth)

lemma length_repeat_interleave: "length xs = length ns \<Longrightarrow> length (repeat_interleave xs ns) = sum_list ns"
  by (induction xs ns rule: list_induct2) (simp_all add: repeat_interleave_def)

lemma length_index_of_rows [simp]: "length (index_of_rows ns) = sum_list ns"
  by (simp add: index_of_rows_def length_repeat_interleave)

lemma index_of_rows_Nil [simp]: "index_of_rows [] = []"
  by (simp add: index_of_rows_def repeat_interleave_def)

lemma index_of_rows_snoc: "index_of_rows (ns @ [n]) = index_of_rows ns @ replicate n (length ns)"
  by (simp add: index_of_rows_def repeat_interleave_def)

lemma index_of_rows_less: "r \<in> set (index_of_rows ns) \<Longrightarrow> r < length ns"
  by (induction ns rule: rev_induct) (auto simp: index_of_rows_snoc)

lemma map2_cong_set: "(\<And>x y. (x, y) \<in> set (zip xs ys) \<Longrightarrow> f x y = g x y) \<Longrightarrow> map2 f xs ys = map2 g xs ys"
  by auto

lemma map2_maps: "map2 f (map g xs) (map h xs) = map (\<lambda>x. f (g x) (h x)) xs"
  by (induction xs) auto

text \<open>The place of an entry within its row.\<close>

lemma cols_of_rows:
  "map2 (\<lambda>j r. j - row_starts ns ! r) [0..<sum_list ns] (index_of_rows ns) = concat (map (\<lambda>n. [0..<n]) ns)"
proof (induction ns rule: rev_induct)
  case (snoc n ns)
  have zip: "zip [0..<sum_list ns + n] (index_of_rows (ns @ [n])) =
      zip [0..<sum_list ns] (index_of_rows ns) @ zip [sum_list ns..<sum_list ns + n] (replicate n (length ns))"
    unfolding index_of_rows_snoc upt_add_eq_append [OF le0] by (rule zip_append) simp
  have "map2 (\<lambda>j r. j - row_starts (ns @ [n]) ! r) [0..<sum_list ns] (index_of_rows ns) =
      map2 (\<lambda>j r. j - row_starts ns ! r) [0..<sum_list ns] (index_of_rows ns)"
  proof (rule map2_cong_set)
    fix j r
    assume "(j, r) \<in> set (zip [0..<sum_list ns] (index_of_rows ns))"
    then have "r < length ns" by (meson index_of_rows_less set_zip_rightD)
    then show "j - row_starts (ns @ [n]) ! r = j - row_starts ns ! r" by simp
  qed
  moreover have "map2 (\<lambda>j r. j - row_starts (ns @ [n]) ! r) [sum_list ns..<sum_list ns + n] (replicate n (length ns)) = [0..<n]"
    by (rule nth_equalityI) auto
  ultimately show ?case using snoc.IH by (simp add: zip del: upt_Suc)
qed simp

text \<open>Where an entry of a row is, when the rows of another layout are at \<open>st\<close>.\<close>

lemma entries_of_rows:
  "map2 (\<lambda>r c. st ! r + c) (index_of_rows ns) (concat (map (\<lambda>n. [0..<n]) ns)) =
   concat (map2 (\<lambda>r n. map ((+) (st ! r)) [0..<n]) [0..<length ns] ns)"
proof (induction ns rule: rev_induct)
  case (snoc n ns)
  have "length (index_of_rows ns) = length (concat (map (\<lambda>n. [0..<n]) ns))" by (simp add: length_concat comp_def)
  moreover have "map2 (\<lambda>r c. st ! r + c) (replicate n (length ns)) [0..<n] = map ((+) (st ! length ns)) [0..<n]"
    by (rule nth_equalityI) auto
  ultimately show ?case using snoc.IH by (simp add: index_of_rows_snoc)
qed simp

lemma concat_nth:
  "r < length xss \<Longrightarrow> a < length (xss ! r) \<Longrightarrow> concat xss ! (sum_list (map length (take r xss)) + a) = xss ! r ! a"
proof (induction xss arbitrary: r)
  case (Cons xs xss)
  then show ?case by (cases r) (auto simp: nth_append add.assoc)
qed simp

lemma concat_in_range:
  "r < length xss \<Longrightarrow> a < length (xss ! r) \<Longrightarrow> sum_list (map length (take r xss)) + a < length (concat xss)"
proof (induction xss arbitrary: r)
  case (Cons xs xss)
  then show ?case by (cases r) auto
qed simp

text \<open>\<open>concat\<close> of rows of one length, by index.\<close>

lemma concat_same_length:
  assumes "\<forall>xs \<in> set xss. length xs = k" "0 < k" "p < length xss * k"
  shows "concat xss ! p = xss ! (p div k) ! (p mod k)"
proof -
  have p: "p div k < length xss" "p mod k < k" using assms(2,3) by (simp_all add: less_mult_imp_div_less)
  have "map length (take (p div k) xss) = replicate (p div k) k"
    using assms(1) p(1) by (intro replicate_eqI) (auto dest: in_set_takeD)
  then have "sum_list (map length (take (p div k) xss)) = p div k * k" by (simp add: sum_list_replicate)
  then show ?thesis using concat_nth [of "p div k" xss "p mod k"] p assms(1) by simp
qed

lemma concat_rows_nth:
  "g < n \<Longrightarrow> l < length xs \<Longrightarrow> concat (map (\<lambda>g. map (f g) xs) [0..<n]) ! (g * length xs + l) = f g (xs ! l)"
proof -
  assume a: "g < n" "l < length xs"
  have "g * length xs + l < n * length xs"
    using a mult_le_mono1 [of "Suc g" n "length xs"] by simp
  moreover have "(g * length xs + l) div length xs = g" "0 < length xs" using a by (auto intro: div_nat_eqI)
  ultimately show ?thesis using a by (subst concat_same_length [where k = "length xs"]) auto
qed

lemma gather_concat: "gather xs (concat iss) = concat (map (gather xs) iss)"
  by (induction iss) (simp_all add: gather_def)

section \<open>Writing rows\<close>

definition overwrite :: "'a list \<Rightarrow> 'a list \<Rightarrow> 'a list" where
  "overwrite row vs = vs @ drop (length vs) row"

lemma put_entry_row:
  assumes "r < length m" "k + length vs \<le> length (m ! r)"
  shows "fold put_entry (zip (replicate (length vs) r) (zip [k..<k + length vs] vs)) m =
    m[r := take k (m ! r) @ vs @ drop (k + length vs) (m ! r)]"
  using assms
proof (induction vs arbitrary: k m)
  case (Cons v vs)
  have up: "[k..<k + length (v # vs)] = k # [Suc k..<Suc k + length vs]" by (simp add: upt_rec)
  let ?m = "m[r := (m ! r)[k := v]]"
  have "fold put_entry (zip (replicate (length vs) r) (zip [Suc k..<Suc k + length vs] vs)) ?m =
      ?m[r := take (Suc k) (?m ! r) @ vs @ drop (Suc k + length vs) (?m ! r)]"
    by (rule Cons.IH) (use Cons.prems in auto)
  moreover have "fold put_entry (zip (replicate (length (v # vs)) r) (zip [k..<k + length (v # vs)] (v # vs))) m =
      fold put_entry (zip (replicate (length vs) r) (zip [Suc k..<Suc k + length vs] vs)) ?m"
    unfolding up by (simp add: put_entry_def del: upt_Suc)
  ultimately show ?case using Cons.prems by (simp add: take_Suc_conv_app_nth)
qed simp

lemma zip_concat:
  "list_all2 (\<lambda>xs ys. length xs = length ys) xss yss \<Longrightarrow> zip (concat xss) (concat yss) = concat (map2 zip xss yss)"
  by (induction xss yss rule: list_all2_induct) auto

lemma put_entries_snoc:
  assumes "length (concat cs) = sum_list ns" "length vs0 = sum_list ns"
  shows "put_entries (index_of_rows (ns @ [n])) (concat (cs @ [[0..<n]])) (vs0 @ vs) m =
    fold put_entry (zip (replicate n (length ns)) (zip [0..<n] vs)) (put_entries (index_of_rows ns) (concat cs) vs0 m)"
  using assms by (simp add: put_entries_def index_of_rows_snoc zip_append)

lemma put_entries_rows:
  assumes "map length vss = ns" "length ns \<le> length m" "\<forall>r < length ns. ns ! r \<le> length (m ! r)"
  shows "put_entries (index_of_rows ns) (concat (map (\<lambda>n. [0..<n]) ns)) (concat vss) m =
    map2 overwrite (take (length ns) m) vss @ drop (length ns) m"
  using assms
proof (induction vss arbitrary: ns rule: rev_induct)
  case Nil
  then show ?case by (simp add: put_entries_def)
next
  case (snoc vs vss)
  let ?k = "length vss" and ?ns = "map length vss"
  have ns: "ns = ?ns @ [length vs]" using snoc.prems(1) by simp
  let ?m = "map2 overwrite (take ?k m) vss @ drop ?k m"
  have k: "?k < length m" "length vs \<le> length (m ! ?k)" using snoc.prems(2,3) unfolding ns by (auto simp: nth_append)
  have small: "?ns ! r \<le> length (m ! r)" if "r < ?k" for r using that snoc.prems(3) [rule_format, of r] unfolding ns by (simp add: nth_append)
  have IH: "put_entries (index_of_rows ?ns) (concat (map (\<lambda>n. [0..<n]) ?ns)) (concat vss) m = ?m"
    using snoc.IH [OF refl] k(1) small by simp
  have "length (concat (map (\<lambda>n. [0..<n]) ?ns)) = sum_list ?ns" "length (concat vss) = sum_list ?ns" by (simp_all add: length_concat comp_def)
  then have "put_entries (index_of_rows ns) (concat (map (\<lambda>n. [0..<n]) ns)) (concat (vss @ [vs])) m =
      fold put_entry (zip (replicate (length vs) ?k) (zip [0..<length vs] vs)) ?m"
    using put_entries_snoc [of "map (\<lambda>n. [0..<n]) ?ns" ?ns "concat vss" "length vs" vs m] IH unfolding ns by simp
  also have "\<dots> = ?m[?k := vs @ drop (length vs) (m ! ?k)]"
    using put_entry_row [of ?k ?m 0 vs] k by (simp add: nth_append)
  also have "\<dots> = map2 overwrite (take (length ns) m) (vss @ [vs]) @ drop (length ns) m"
    using k(1) by (simp add: ns take_Suc_conv_app_nth list_update_append overwrite_def Cons_nth_drop_Suc [symmetric])
  finally show ?case .
qed

lemma overwrite_full:
  "length vss = n \<Longrightarrow> map2 overwrite (take n (full n k x)) vss @ drop n (full n k x) = map (\<lambda>vs. vs @ replicate (k - length vs) x) vss"
  by (rule nth_equalityI) (auto simp: full_def overwrite_def)

section \<open>The largest entry\<close>

lemma argmax_less: "xs \<noteq> [] \<Longrightarrow> argmax xs < length xs"
  by (induction xs rule: argmax.induct) (auto simp: Let_def)

lemma argmax_max: "i < length xs \<Longrightarrow> xs ! i \<le> xs ! argmax xs"
proof (induction xs arbitrary: i rule: argmax.induct)
  case (3 x y ys)
  let ?j = "argmax (y # ys)"
  show ?case
  proof (cases i)
    case 0
    then show ?thesis by (auto simp: Let_def)
  next
    case (Suc k)
    then have "(y # ys) ! k \<le> (y # ys) ! ?j" using 3 by simp
    then show ?thesis using Suc by (auto simp: Let_def)
  qed
qed auto

lemma argmax_first: "i < argmax xs \<Longrightarrow> xs ! i < xs ! argmax xs"
proof (induction xs arbitrary: i rule: argmax.induct)
  case (3 x y ys)
  then show ?case by (cases i) (auto simp: Let_def not_le split: if_splits)
qed auto

end
