(* ===== verification/Sampling.thy ===== *)
theory Sampling
  imports Tensors
begin

text \<open>
  \<open>layers/sampler.py\<close>: top-k and top-p filtering of a row of logits, and the sampler.  A masked
  logit, minus infinity, is \<open>None\<close>, which is below every other.  Softmax, the order \<open>sort\<close> gives
  equal logits and the exponential noise are parameters; floats are rationals.
\<close>

section \<open>Filtering\<close>

type_synonym logit = "rat option"

definition mask :: "bool \<Rightarrow> logit \<Rightarrow> logit" where
  "mask b x = (if b then None else x)"

text \<open>\<open>cumsum\<close> of the probabilities.\<close>

definition partial_sums :: "rat list \<Rightarrow> rat list" where
  "partial_sums xs = map (\<lambda>i. sum_list (take (Suc i) xs)) [0..<length xs]"

text \<open>The filters on the sorted row.\<close>

definition top_k_filter :: "int \<Rightarrow> logit list \<Rightarrow> logit list" where
  "top_k_filter k srt =
     (let vocab_size = int (length srt);
          k' = min (if 0 < k then k else vocab_size) vocab_size;
          cutoff = srt ! nat (vocab_size - k')
      in map (\<lambda>x. mask (x < cutoff) x) srt)"

definition top_p_filter :: "(logit list \<Rightarrow> rat list) \<Rightarrow> rat \<Rightarrow> logit list \<Rightarrow> logit list" where
  "top_p_filter softmax p srt =
     (let top_p_mask = (map (\<lambda>s. s \<le> 1 - p) (partial_sums (softmax srt)))[length srt - 1 := False]
      in map2 mask top_p_mask srt)"

definition scatter :: "nat list \<Rightarrow> 'a list \<Rightarrow> 'a list \<Rightarrow> 'a list" where
  "scatter idx src xs = fold (\<lambda>(i, x) ys. ys[i := x]) (zip idx src) xs"

definition apply_top_k_top_p ::
  "(logit list \<Rightarrow> nat list) \<Rightarrow> (logit list \<Rightarrow> rat list) \<Rightarrow> int option \<Rightarrow> rat option \<Rightarrow> logit list \<Rightarrow> logit list" where
  "apply_top_k_top_p argsort softmax k p logits =
     (if k = None \<and> p = None then logits
      else let logits_idx = argsort logits;
               logits_sort = gather logits logits_idx;
               after_k = (case k of None \<Rightarrow> logits_sort | Some k \<Rightarrow> top_k_filter k logits_sort);
               after_p = (case p of None \<Rightarrow> after_k | Some p \<Rightarrow> top_p_filter softmax p after_k)
           in scatter logits_idx after_p logits)"

section \<open>The sampler\<close>

text \<open>One row; \<open>noise\<close> is its independent exponential draws.\<close>

definition tiny :: rat where
  "tiny = 1 / 10 ^ 10"

definition sample ::
  "(logit list \<Rightarrow> nat list) \<Rightarrow> (logit list \<Rightarrow> rat list) \<Rightarrow> rat list \<Rightarrow> rat \<Rightarrow> int option \<Rightarrow> rat option \<Rightarrow> rat list \<Rightarrow> nat" where
  "sample argsort softmax noise temperature k p logits =
     (let greedy_token = argmax logits;
          scaled = map (\<lambda>x. Some (x / max temperature tiny)) logits;
          probs = softmax (apply_top_k_top_p argsort softmax k p scaled);
          sample_token = argmax (map2 (\<lambda>q e. q / max e tiny) probs noise)
      in if temperature = 0 then greedy_token else sample_token)"

definition sampler_forward ::
  "(logit list \<Rightarrow> nat list) \<Rightarrow> (logit list \<Rightarrow> rat list) \<Rightarrow> rat list list \<Rightarrow> rat list option \<Rightarrow> int list option \<Rightarrow> rat list option \<Rightarrow>
     rat list list \<Rightarrow> nat list" where
  "sampler_forward argsort softmax noise temperatures top_k top_p logits =
     (case temperatures of
        None \<Rightarrow> map argmax logits
      | Some ts \<Rightarrow> map (\<lambda>r. sample argsort softmax (noise ! r) (ts ! r) (map_option (\<lambda>ks. ks ! r) top_k)
                          (map_option (\<lambda>ps. ps ! r) top_p) (logits ! r)) [0..<length logits])"

section \<open>What the libraries promise\<close>

text \<open>\<open>sort\<close>: the indices list every position once, in ascending order of the logits.\<close>

definition argsort_ok :: "(logit list \<Rightarrow> nat list) \<Rightarrow> bool" where
  "argsort_ok argsort \<longleftrightarrow> (\<forall>xs. mset (argsort xs) = mset [0..<length xs] \<and> sorted (gather xs (argsort xs)))"

text \<open>\<open>softmax\<close>: no probability for a masked logit, some for the largest.\<close>

definition softmax_ok :: "(logit list \<Rightarrow> rat list) \<Rightarrow> bool" where
  "softmax_ok softmax \<longleftrightarrow> (\<forall>xs. length (softmax xs) = length xs \<and> (\<forall>q \<in> set (softmax xs). 0 \<le> q) \<and>
     (\<forall>i < length xs. xs ! i = None \<longrightarrow> softmax xs ! i = 0) \<and>
     (set xs \<noteq> {None} \<and> xs \<noteq> [] \<longrightarrow> (\<exists>i < length xs. 0 < softmax xs ! i)))"

section \<open>The filters, position by position\<close>

lemma argsort_okD:
  assumes "argsort_ok argsort"
  shows "length (argsort xs) = length xs" "distinct (argsort xs)" "set (argsort xs) = {..<length xs}"
    "sorted (gather xs (argsort xs))" "mset (gather xs (argsort xs)) = mset xs"
proof -
  have m: "mset (argsort xs) = mset [0..<length xs]" using assms by (simp add: argsort_ok_def)
  show "length (argsort xs) = length xs" using mset_eq_length [OF m] by simp
  show "distinct (argsort xs)" using mset_eq_imp_distinct_iff [OF m] by simp
  show "set (argsort xs) = {..<length xs}" using mset_eq_setD [OF m] by (simp add: atLeast0LessThan)
  show "sorted (gather xs (argsort xs))" using assms by (simp add: argsort_ok_def)
  show "mset (gather xs (argsort xs)) = mset xs" unfolding gather_def mset_map m unfolding mset_map [symmetric] map_nth ..
qed

lemma scatter_snoc: "length idx = length src \<Longrightarrow> scatter (idx @ [i]) (src @ [x]) xs = (scatter idx src xs)[i := x]"
  by (simp add: scatter_def)

lemma length_scatter [simp]: "length idx = length src \<Longrightarrow> length (scatter idx src xs) = length xs"
proof (induction src arbitrary: idx rule: rev_induct)
  case (snoc x src)
  then show ?case by (cases idx rule: rev_cases) (auto simp: scatter_snoc)
qed (simp add: scatter_def)

lemma scatter_nth:
  "length idx = length src \<Longrightarrow> distinct idx \<Longrightarrow> set idx \<subseteq> {..<length xs} \<Longrightarrow> j < length idx \<Longrightarrow>
   scatter idx src xs ! (idx ! j) = src ! j"
proof (induction src arbitrary: idx rule: rev_induct)
  case (snoc x src)
  then obtain js i where idx: "idx = js @ [i]" by (cases idx rule: rev_cases) auto
  have "js ! j \<noteq> i" if "j < length js" using that snoc.prems(2) idx by (auto simp: nth_mem)
  then show ?case using snoc.prems snoc.IH [of js] by (auto simp: idx scatter_snoc nth_append less_Suc_eq)
qed simp

lemma sorted_above:
  fixes ys :: "'a::linorder list"
  assumes "sorted ys" "0 < k" "k \<le> length ys"
  shows "x < ys ! (length ys - k) \<longleftrightarrow> k \<le> length (filter (\<lambda>y. x < y) ys)"
proof
  assume a: "x < ys ! (length ys - k)"
  have "\<forall>y \<in> set (drop (length ys - k) ys). x < y"
    using a assms(1) by (auto simp: in_set_conv_nth intro!: less_le_trans [OF a] sorted_nth_mono)
  then have "filter (\<lambda>y. x < y) (drop (length ys - k) ys) = drop (length ys - k) ys" by (rule filter_True)
  then have "length (filter (\<lambda>y. x < y) ys) \<ge> k"
    using assms(3) append_take_drop_id [of "length ys - k" ys] by (metis add.commute diff_diff_cancel filter_append le_add1 length_append length_drop)
  then show "k \<le> length (filter (\<lambda>y. x < y) ys)" .
next
  assume a: "k \<le> length (filter (\<lambda>y. x < y) ys)"
  show "x < ys ! (length ys - k)"
  proof (rule ccontr)
    assume n: "\<not> x < ys ! (length ys - k)"
    have "\<not> x < y" if "y \<in> set (take (Suc (length ys - k)) ys)" for y
    proof -
      obtain j where j: "j < length ys" "j \<le> length ys - k" "y = ys ! j"
        using \<open>y \<in> set (take (Suc (length ys - k)) ys)\<close> by (auto simp: in_set_conv_nth)
      have "ys ! j \<le> ys ! (length ys - k)" using assms j by (intro sorted_nth_mono) auto
      then show ?thesis using n j(3) by auto
    qed
    then have "filter (\<lambda>y. x < y) (take (Suc (length ys - k)) ys) = []" by (simp add: filter_empty_conv)
    then have "length (filter (\<lambda>y. x < y) ys) = length (filter (\<lambda>y. x < y) (drop (Suc (length ys - k)) ys))"
      using append_take_drop_id [of "Suc (length ys - k)" ys] by (metis append_Nil filter_append)
    also have "\<dots> \<le> length ys - Suc (length ys - k)" using length_filter_le [of _ "drop (Suc (length ys - k)) ys"] by simp
    finally show False using a assms(2,3) by simp
  qed
qed

definition num_above :: "'a::linorder list \<Rightarrow> 'a \<Rightarrow> nat" where
  "num_above xs x = length (filter (\<lambda>y. x < y) xs)"

lemma num_above_mset: "mset xs = mset ys \<Longrightarrow> num_above xs x = num_above ys x"
  unfolding num_above_def by (metis mset_filter size_mset)

lemma top_k_filter_nth:
  assumes "sorted ys" "0 < k" "j < length ys"
  shows "top_k_filter k ys ! j = mask (k \<le> int (num_above ys (ys ! j))) (ys ! j)"
proof (cases "k \<le> int (length ys)")
  case True
  have "ys ! j < ys ! (length ys - nat k) \<longleftrightarrow> nat k \<le> num_above ys (ys ! j)"
    unfolding num_above_def by (rule sorted_above) (use assms True in auto)
  then show ?thesis using assms True by (auto simp: top_k_filter_def Let_def nat_diff_distrib mask_def)
next
  case False
  have "num_above ys (ys ! j) \<le> length ys" by (simp add: num_above_def)
  moreover have "\<not> ys ! j < ys ! 0" using assms by (simp add: not_less sorted_nth_mono)
  ultimately show ?thesis using False assms by (auto simp: top_k_filter_def Let_def mask_def)
qed

lemma length_filters [simp]:
  "length (top_k_filter k ys) = length ys"
  "length (softmax ys) = length ys \<Longrightarrow> length (top_p_filter softmax p ys) = length ys"
  by (simp_all add: top_k_filter_def top_p_filter_def Let_def partial_sums_def)

lemma top_p_filter_nth:
  assumes "length (softmax ys) = length ys" "j < length ys"
  shows "top_p_filter softmax p ys ! j \<in> {None, ys ! j}" "j = length ys - 1 \<Longrightarrow> top_p_filter softmax p ys ! j = ys ! j"
  using assms by (auto simp: top_p_filter_def Let_def partial_sums_def mask_def)

lemma last_largest:
  assumes "sorted ys" "ys \<noteq> []"
  shows "num_above ys (ys ! (length ys - 1)) = 0"
proof -
  have "\<not> ys ! (length ys - 1) < y" if "y \<in> set ys" for y
  proof -
    obtain j where "j < length ys" "y = ys ! j" using \<open>y \<in> set ys\<close> by (metis in_set_conv_nth)
    then show ?thesis using sorted_nth_mono [OF assms(1), of j "length ys - 1"] by (auto simp: not_less)
  qed
  then show ?thesis by (simp add: num_above_def filter_empty_conv)
qed

text \<open>The two filters in a row, on the sorted logits.\<close>

definition filters :: "(logit list \<Rightarrow> rat list) \<Rightarrow> int option \<Rightarrow> rat option \<Rightarrow> logit list \<Rightarrow> logit list" where
  "filters softmax k p srt =
     (let after_k = (case k of None \<Rightarrow> srt | Some k \<Rightarrow> top_k_filter k srt)
      in case p of None \<Rightarrow> after_k | Some p \<Rightarrow> top_p_filter softmax p after_k)"

lemma top_k_filter_cases: "j < length ys \<Longrightarrow> top_k_filter k ys ! j \<in> {None, ys ! j}"
  by (auto simp: top_k_filter_def Let_def mask_def)

lemma top_k_filter_last:
  assumes "sorted ys" "ys \<noteq> []"
  shows "top_k_filter k ys ! (length ys - 1) = ys ! (length ys - 1)"
proof -
  let ?m = "nat (int (length ys) - min (if 0 < k then k else int (length ys)) (int (length ys)))"
  have "?m < length ys" using assms(2) by (auto simp: min_def)
  then have "ys ! ?m \<le> ys ! (length ys - 1)" using assms by (intro sorted_nth_mono) auto
  then have "mask (ys ! (length ys - 1) < ys ! ?m) (ys ! (length ys - 1)) = ys ! (length ys - 1)" by (simp only: mask_def not_less [symmetric] if_False)
  moreover have "length ys - 1 < length ys" using assms(2) by simp
  ultimately show ?thesis by (simp only: top_k_filter_def Let_def nth_map)
qed

lemma filters_nth:
  assumes "sorted ys" "\<And>xs. length (softmax xs) = length xs"
  shows "length (filters softmax k p ys) = length ys"
    "j < length ys \<Longrightarrow> filters softmax k p ys ! j \<in> {None, ys ! j}"
    "j < length ys \<Longrightarrow> k = Some kk \<Longrightarrow> 0 < kk \<Longrightarrow> filters softmax k p ys ! j \<noteq> None \<Longrightarrow> int (num_above ys (ys ! j)) < kk"
    "j < length ys \<Longrightarrow> k = Some kk \<Longrightarrow> 0 < kk \<Longrightarrow> p = None \<Longrightarrow>
       filters softmax k p ys ! j = mask (kk \<le> int (num_above ys (ys ! j))) (ys ! j)"
    "ys \<noteq> [] \<Longrightarrow> filters softmax k p ys ! (length ys - 1) = ys ! (length ys - 1)"
proof -
  let ?ak = "case k of None \<Rightarrow> ys | Some k \<Rightarrow> top_k_filter k ys"
  have lk: "length ?ak = length ys" by (simp split: option.split)
  have p: "filters softmax k p ys ! j \<in> {None, ?ak ! j}" "j = length ys - 1 \<Longrightarrow> filters softmax k p ys ! j = ?ak ! j" if "j < length ys" for j
    using top_p_filter_nth [where ys = ?ak and j = j and softmax = softmax, OF assms(2)] that unfolding filters_def Let_def lk by (cases p; cases k; simp; blast)+
  show "length (filters softmax k p ys) = length ys" using lk assms(2) by (simp add: filters_def Let_def split: option.split)
  show "filters softmax k p ys ! j \<in> {None, ys ! j}" if "j < length ys"
    using p(1) [OF that] top_k_filter_cases [OF that, of "the k"] by (cases k) auto
  show "int (num_above ys (ys ! j)) < kk" if "j < length ys" "k = Some kk" "0 < kk" "filters softmax k p ys ! j \<noteq> None"
    using p(1) [OF that(1)] top_k_filter_nth [OF assms(1) that(3,1)] that(2,4) by (auto simp: mask_def split: if_splits)
  show "filters softmax k p ys ! j = mask (kk \<le> int (num_above ys (ys ! j))) (ys ! j)"
    if "j < length ys" "k = Some kk" "0 < kk" "p = None"
    using top_k_filter_nth [OF assms(1) that(3,1)] that(2,4) by (simp add: filters_def)
  show "filters softmax k p ys ! (length ys - 1) = ys ! (length ys - 1)" if "ys \<noteq> []"
    using p(2) [of "length ys - 1"] top_k_filter_last [OF assms(1) that] that by (cases k) auto
qed

lemma apply_filters:
  assumes "argsort_ok argsort" "softmax_ok softmax"
  defines "ys \<equiv> \<lambda>xs. gather xs (argsort xs)"
  shows "length (apply_top_k_top_p argsort softmax k p xs) = length xs"
    "j < length xs \<Longrightarrow> argsort xs ! j < length xs \<and> ys xs ! j = xs ! (argsort xs ! j) \<and>
       apply_top_k_top_p argsort softmax k p xs ! (argsort xs ! j) = filters softmax k p (ys xs) ! j"
proof -
  note a = argsort_okD [OF assms(1), of xs]
  have sm: "length (softmax zs) = length zs" for zs using assms(2) by (simp add: softmax_ok_def)
  have ls: "length (ys xs) = length xs" using a(1) by (simp add: gather_def ys_def)
  have lf: "length (filters softmax k p (ys xs)) = length xs" using filters_nth(1) [of "ys xs" softmax k p] a(4) sm ls by (simp add: ys_def)
  have ap: "apply_top_k_top_p argsort softmax k p xs = (if k = None \<and> p = None then xs else scatter (argsort xs) (filters softmax k p (ys xs)) xs)"
    by (simp add: apply_top_k_top_p_def filters_def ys_def Let_def)
  show "length (apply_top_k_top_p argsort softmax k p xs) = length xs" using a(1) lf by (simp add: ap)
  assume j: "j < length xs"
  have mem: "argsort xs ! j < length xs" using nth_mem [of j "argsort xs"] j a(1,3) by simp
  have nth: "ys xs ! j = xs ! (argsort xs ! j)" using j a(1) by (simp add: gather_def ys_def)
  have "scatter (argsort xs) (filters softmax k p (ys xs)) xs ! (argsort xs ! j) = filters softmax k p (ys xs) ! j"
    by (rule scatter_nth) (use j a(1,2,3) lf in simp_all)
  then show "argsort xs ! j < length xs \<and> ys xs ! j = xs ! (argsort xs ! j) \<and>
       apply_top_k_top_p argsort softmax k p xs ! (argsort xs ! j) = filters softmax k p (ys xs) ! j"
    using mem nth by (auto simp: ap filters_def)
qed

lemma filtered_nth:
  assumes "argsort_ok argsort" "softmax_ok softmax" "i < length xs"
  shows "apply_top_k_top_p argsort softmax k p xs ! i \<in> {None, xs ! i}"
    "k = Some kk \<Longrightarrow> 0 < kk \<Longrightarrow> apply_top_k_top_p argsort softmax k p xs ! i \<noteq> None \<Longrightarrow> int (num_above xs (xs ! i)) < kk"
    "k = Some kk \<Longrightarrow> 0 < kk \<Longrightarrow> p = None \<Longrightarrow> apply_top_k_top_p argsort softmax k p xs ! i = mask (kk \<le> int (num_above xs (xs ! i))) (xs ! i)"
    "\<exists>m < length xs. num_above xs (xs ! m) = 0 \<and> apply_top_k_top_p argsort softmax k p xs ! m = xs ! m"
proof -
  note a = argsort_okD [OF assms(1), of xs]
  let ?ys = "gather xs (argsort xs)"
  have sm: "length (softmax zs) = length zs" for zs using assms(2) by (simp add: softmax_ok_def)
  have ls: "length ?ys = length xs" using a(1) by (simp add: gather_def)
  note f = filters_nth [where k = k and p = p, OF a(4) sm] and ap = apply_filters(2) [where k = k and p = p, OF assms(1,2)]
  have above: "num_above ?ys x = num_above xs x" for x by (rule num_above_mset [OF a(5)])
  have "i \<in> set (argsort xs)" using assms(3) a(3) by simp
  then obtain j where j: "j < length xs" "i = argsort xs ! j" using a(1) by (metis in_set_conv_nth)
  note j' = ap [OF j(1), folded j(2)]
  show "apply_top_k_top_p argsort softmax k p xs ! i \<in> {None, xs ! i}" using f(2) [of j] j' j(1) ls by simp
  show "k = Some kk \<Longrightarrow> 0 < kk \<Longrightarrow> apply_top_k_top_p argsort softmax k p xs ! i \<noteq> None \<Longrightarrow> int (num_above xs (xs ! i)) < kk"
    using f(3) [of j kk] j' j(1) ls by (simp add: above)
  show "k = Some kk \<Longrightarrow> 0 < kk \<Longrightarrow> p = None \<Longrightarrow> apply_top_k_top_p argsort softmax k p xs ! i = mask (kk \<le> int (num_above xs (xs ! i))) (xs ! i)"
    using f(4) [of j kk] j' j(1) ls by (simp add: above)
  have ne: "?ys \<noteq> []" "length xs - 1 < length xs" using assms(3) ls by auto
  show "\<exists>m < length xs. num_above xs (xs ! m) = 0 \<and> apply_top_k_top_p argsort softmax k p xs ! m = xs ! m"
    using ap [OF ne(2)] f(5) [OF ne(1)] last_largest [OF a(4) ne(1)] unfolding ls above by metis
qed

section \<open>Properties\<close>

lemma num_above_map:
  assumes "\<And>x y. (f x < f y) = (x < y)"
  shows "num_above (map f xs) (f x) = num_above xs x"
  by (simp add: num_above_def filter_map comp_def assms)

lemma num_above_scaled:
  assumes "0 < t"
  shows "num_above (map (\<lambda>x. Some (x / t)) xs) (Some (x / t)) = num_above xs (x::rat)"
  by (rule num_above_map) (use assms in \<open>simp add: divide_less_cancel\<close>)

lemma race_winner:
  assumes "length noise = length probs" "\<forall>q \<in> set probs. 0 \<le> q" "i < length probs" "0 < probs ! i"
  shows "argmax (map2 (\<lambda>q e. q / max e tiny) probs noise) < length probs \<and>
    0 < probs ! argmax (map2 (\<lambda>q e. q / max e tiny) probs noise)"
proof -
  let ?race = "map2 (\<lambda>q e. q / max e tiny) probs noise"
  have t: "0 < max e tiny" for e :: rat by (simp add: tiny_def less_max_iff_disj)
  have len: "length ?race = length probs" using assms(1) by simp
  have nth: "?race ! j = probs ! j / max (noise ! j) tiny" if "j < length probs" for j using that assms(1) by simp
  have w: "argmax ?race < length probs" using argmax_less [of ?race] len assms(3) by fastforce
  have "0 < ?race ! i" using nth [OF assms(3)] assms(4) t by (simp add: zero_less_divide_iff)
  then have "0 < ?race ! argmax ?race" by (rule less_le_trans) (rule argmax_max, unfold len, rule assms(3))
  then have "0 < probs ! argmax ?race / max (noise ! argmax ?race) tiny" unfolding nth [OF w] .
  then have "0 < probs ! argmax ?race" by (simp add: zero_less_divide_iff tiny_def)
  then show ?thesis using w by simp
qed

text \<open>
  C25: the sampler respects the filters.  With temperature 0 it takes the first largest logit.
  Otherwise the token it draws, whatever the noise, was not masked, so with top-k on fewer than
  \<open>k\<close> tokens have a larger logit; in particular \<open>k = 1\<close> always gives a largest one.
\<close>

theorem sample_respects_filters:
  assumes "argsort_ok argsort" "softmax_ok softmax" "logits \<noteq> []" "length noise = length logits"
    and tok: "tok = sample argsort softmax noise temperature k p logits"
  shows "tok < length logits \<and> (temperature = 0 \<longrightarrow> tok = argmax logits) \<and>
    (temperature \<noteq> 0 \<longrightarrow> apply_top_k_top_p argsort softmax k p (map (\<lambda>x. Some (x / max temperature tiny)) logits) ! tok \<noteq> None) \<and>
    (\<forall>kk. k = Some kk \<and> 0 < kk \<longrightarrow> int (num_above logits (logits ! tok)) < kk)"
proof (cases "temperature = 0")
  case True
  then have "tok = argmax logits" by (simp add: tok sample_def)
  moreover have "num_above logits (logits ! argmax logits) = 0"
    using argmax_max [of _ logits] by (auto simp: num_above_def filter_empty_conv in_set_conv_nth not_less)
  ultimately show ?thesis using True argmax_less [OF assms(3)] by simp
next
  case False
  let ?t = "max temperature tiny"
  let ?xs = "map (\<lambda>x. Some (x / ?t)) logits" and ?ys = "apply_top_k_top_p argsort softmax k p (map (\<lambda>x. Some (x / ?t)) logits)"
  have t: "0 < ?t" by (simp add: tiny_def less_max_iff_disj)
  have len: "length ?ys = length logits" using apply_filters(1) [OF assms(1,2)] by simp
  have n0: "0 < length ?xs" using assms(3) by simp
  obtain m where m: "m < length logits" "?ys ! m = Some (logits ! m / ?t)"
    using filtered_nth(4) [OF assms(1,2) n0, of k p] by auto
  have sm: "length (softmax ?ys) = length ?ys" "\<forall>q \<in> set (softmax ?ys). 0 \<le> q"
    "\<And>i. i < length ?ys \<Longrightarrow> ?ys ! i = None \<Longrightarrow> softmax ?ys ! i = 0"
    "set ?ys \<noteq> {None} \<Longrightarrow> ?ys \<noteq> [] \<Longrightarrow> \<exists>i < length ?ys. 0 < softmax ?ys ! i"
    using assms(2) unfolding softmax_ok_def by blast+
  have "set ?ys \<noteq> {None}" using m len nth_mem [of m ?ys] by force
  then obtain i where i: "i < length ?ys" "0 < softmax ?ys ! i" using sm(4) m(1) len by fastforce
  have win: "tok = argmax (map2 (\<lambda>q e. q / max e tiny) (softmax ?ys) noise)" using False by (simp add: tok sample_def Let_def)
  have w: "tok < length logits" "0 < softmax ?ys ! tok"
    unfolding win using race_winner [of noise "softmax ?ys" i] sm(1,2) i len assms(4) by auto
  then have ok: "?ys ! tok \<noteq> None" using sm(3) [of tok] len by fastforce
  have nth: "?xs ! tok = Some (logits ! tok / ?t)" using w(1) by simp
  have "int (num_above logits (logits ! tok)) < kk" if "k = Some kk" "0 < kk" for kk
    using filtered_nth(2) [OF assms(1,2), of tok ?xs k kk p] w(1) ok that num_above_scaled [OF t, of logits "logits ! tok"]
    unfolding nth by simp
  then show ?thesis using False w(1) ok by blast
qed

text \<open>A concrete order and a concrete softmax, for a witness.\<close>

definition stable_argsort :: "logit list \<Rightarrow> nat list" where
  "stable_argsort xs = sort_key (\<lambda>i. xs ! i) [0..<length xs]"

definition flat_softmax :: "logit list \<Rightarrow> rat list" where
  "flat_softmax xs = map (\<lambda>x. if x = None then 0 else 1) xs"

lemma stable_argsort_ok: "argsort_ok stable_argsort"
proof -
  have "sorted (map (\<lambda>i. xs ! i) (sort_key (\<lambda>i. xs ! i) [0..<length xs]))" for xs :: "logit list" by (rule sorted_sort_key)
  then show ?thesis by (simp add: argsort_ok_def stable_argsort_def gather_def)
qed

lemma flat_softmax_ok: "softmax_ok flat_softmax"
proof -
  have "\<exists>i < length xs. xs ! i \<noteq> None" if "set xs \<noteq> {None}" "xs \<noteq> []" for xs :: "logit list"
  proof (rule ccontr)
    assume "\<not> ?thesis"
    then have "set xs \<subseteq> {None}" by (auto simp: in_set_conv_nth)
    then show False using that by (cases xs) auto
  qed
  then have "\<exists>i < length xs. 0 < flat_softmax xs ! i" if "set xs \<noteq> {None}" "xs \<noteq> []" for xs :: "logit list"
    using that by (fastforce simp: flat_softmax_def)
  then show ?thesis by (auto simp: softmax_ok_def flat_softmax_def [of "_ :: logit list"])
qed

theorem sample_respects_filters_witness:
  "num_above [1, 5, 3 :: rat] ([1, 5, 3] ! sample stable_argsort flat_softmax [1, 2, 1] 1 (Some 1) None [1, 5, 3]) = 0 \<and>
   sample stable_argsort flat_softmax [1, 2, 1] 1 (Some 2) None [1, 5, 3] = 2"
proof -
  have "sample stable_argsort flat_softmax [1, 2, 1] 1 (Some 2) None [1, 5, 3] = 2" by code_simp
  then show ?thesis
    using sample_respects_filters [OF stable_argsort_ok flat_softmax_ok, of "[1, 5, 3]" "[1, 2, 1]" _ 1 "Some 1" None, OF _ _ refl] by simp
qed

text \<open>
  Top-k alone keeps exactly the tokens with fewer than \<open>k\<close> larger logits, ties with the
  last kept included, and leaves their logits as they are; 0 keeps all.
\<close>

lemma top_k_exact:
  assumes "argsort_ok argsort" "softmax_ok softmax" "i < length xs"
  shows "apply_top_k_top_p argsort softmax (Some k) None xs ! i =
    (if k \<le> 0 \<or> int (num_above xs (xs ! i)) < k then xs ! i else None)"
proof (cases "0 < k")
  case True
  then show ?thesis using filtered_nth(3) [OF assms, of "Some k" k None] by (auto simp: mask_def)
next
  case False
  note a = argsort_okD [OF assms(1), of xs]
  have "i \<in> set (argsort xs)" using assms(3) a(3) by simp
  then obtain j where j: "j < length xs" "i = argsort xs ! j" using a(1) by (metis in_set_conv_nth)
  have ls: "length (gather xs (argsort xs)) = length xs" using a(1) by (simp add: gather_def)
  have "gather xs (argsort xs) ! 0 \<le> gather xs (argsort xs) ! j" using a(4) j(1) ls by (simp add: sorted_nth_mono)
  then have "filters softmax (Some k) None (gather xs (argsort xs)) ! j = gather xs (argsort xs) ! j"
    using False j(1) ls by (simp add: filters_def top_k_filter_def Let_def mask_def not_less [symmetric])
  then show ?thesis using apply_filters(2) [OF assms(1,2) j(1), of "Some k" None] False j(2) by simp
qed

end
