(* ===== verification/Spec_Decode.thy ===== *)
theory Spec_Decode
  imports Sampling Scheduler_Reconcile
begin

text \<open>
  \<open>spec_decode/config.py\<close> and \<open>spec_decode/rejection_sampler.py\<close>: how a speculative step's rows
  are verified, packed and taken apart again.
\<close>

section \<open>Rows of a speculative step\<close>

text \<open>\<open>SpeculativeConfig\<close>; its JSON is parsed and validated by pydantic.\<close>

record speculative_config =
  spec_method :: string
  spec_num_speculative_tokens :: int

definition split_sampled :: "int list list \<Rightarrow> int \<Rightarrow> int list list \<times> int list list" where
  "split_sampled rows num_spec =
     (let width = num_spec + 1
      in (map (\<lambda>row. filter (\<lambda>t. 0 \<le> t) (slice_to row width)) rows, map (\<lambda>row. slice_from row width) rows))"

section \<open>The rejection sampler\<close>

text \<open>
  The index tensors of \<open>forward\<close>: each draft's row, its place in the row, and its logits row.
\<close>

definition first_logits :: "nat list \<Rightarrow> nat list" where
  "first_logits num_draft_tokens = (let num_logits = map Suc num_draft_tokens in map2 (-) (cumsum num_logits) num_logits)"

definition draft_rows :: "nat list \<Rightarrow> nat list" where
  "draft_rows num_draft_tokens = repeat_interleave [0..<length num_draft_tokens] num_draft_tokens"

definition draft_cols :: "nat list \<Rightarrow> nat list" where
  "draft_cols num_draft_tokens =
     (let before = map2 (-) (cumsum num_draft_tokens) num_draft_tokens
      in map2 (\<lambda>j r. j - before ! r) [0..<sum_list num_draft_tokens] (draft_rows num_draft_tokens))"

definition draft_index :: "nat list \<Rightarrow> nat list" where
  "draft_index num_draft_tokens =
     map2 (\<lambda>r c. first_logits num_draft_tokens ! r + c) (draft_rows num_draft_tokens) (draft_cols num_draft_tokens)"

text \<open>
  Which drafts are accepted, and the token to put after the accepted ones: the greedy token, or
  one sampled from the target's distribution without the draft.  \<open>uniform\<close> is a draw per draft,
  \<open>noise\<close> one per logit.
\<close>

definition target_of ::
  "(logit list \<Rightarrow> nat list) \<Rightarrow> (logit list \<Rightarrow> rat list) \<Rightarrow> nat list \<Rightarrow> rat list \<Rightarrow> int list option \<Rightarrow> rat list option \<Rightarrow>
     rat list list \<Rightarrow> rat list list" where
  "target_of argsort softmax num_draft_tokens temperatures topk topp logits =
     (let num_logits = map Suc num_draft_tokens;
          ts = repeat_interleave temperatures num_logits;
          ks = map_option (\<lambda>k. repeat_interleave k num_logits) topk;
          ps = map_option (\<lambda>p. repeat_interleave p num_logits) topp
      in map (\<lambda>i. softmax (apply_top_k_top_p argsort softmax (map_option (\<lambda>k. k ! i) ks) (map_option (\<lambda>p. p ! i) ps)
                     (map (\<lambda>x. Some (x / max (ts ! i) tiny)) (logits ! i)))) [0..<length logits])"

definition accepted_greedy :: "nat list \<Rightarrow> nat list \<Rightarrow> nat list \<Rightarrow> bool list" where
  "accepted_greedy gr num_draft_tokens draft_token_ids =
     map2 (=) (gather gr (draft_index num_draft_tokens)) draft_token_ids"

definition accepted_sampled ::
  "nat list \<Rightarrow> rat list list \<Rightarrow> rat list \<Rightarrow> rat list \<Rightarrow> nat list \<Rightarrow> nat list \<Rightarrow> bool list" where
  "accepted_sampled gr probs uniform temperatures num_draft_tokens draft_token_ids =
     (let idx = draft_index num_draft_tokens; rows = draft_rows num_draft_tokens
      in map (\<lambda>j. if temperatures ! (rows ! j) = 0 then gr ! (idx ! j) = draft_token_ids ! j
                  else uniform ! j < probs ! (idx ! j) ! (draft_token_ids ! j)) [0..<length draft_token_ids])"

definition candidates_sampled ::
  "nat list \<Rightarrow> rat list list \<Rightarrow> rat list list \<Rightarrow> rat list \<Rightarrow> nat list \<Rightarrow> nat list \<Rightarrow> nat list" where
  "candidates_sampled gr probs noise temperatures num_draft_tokens draft_token_ids =
     (let without = put_entries (draft_index num_draft_tokens) draft_token_ids (replicate (length draft_token_ids) 0) probs;
          race = map2 (map2 (\<lambda>q e. q / max e tiny)) without noise;
          row_temperatures = repeat_interleave temperatures (map Suc num_draft_tokens)
      in map (\<lambda>i. if row_temperatures ! i = 0 then gr ! i else argmax (race ! i)) [0..<length gr])"

text \<open>
  A row keeps its drafts up to the first rejection; the last column is never a draft.
\<close>

definition num_accepted :: "nat list \<Rightarrow> bool list \<Rightarrow> nat \<Rightarrow> nat list" where
  "num_accepted num_draft_tokens accepted max_num_drafts =
     (let keep = put_entries (draft_rows num_draft_tokens) (draft_cols num_draft_tokens) (map of_bool accepted)
                   (full (length num_draft_tokens) (max_num_drafts + 1) 0)
      in map (\<lambda>row. sum_list (cumprod row)) keep)"

definition pack_tokens :: "nat list \<Rightarrow> nat list \<Rightarrow> bool list \<Rightarrow> nat list \<Rightarrow> nat \<Rightarrow> int list list" where
  "pack_tokens num_draft_tokens draft_token_ids accepted candidates max_num_drafts =
     (let rows = [0..<length num_draft_tokens];
          num_acc = num_accepted num_draft_tokens accepted max_num_drafts;
          first = first_logits num_draft_tokens;
          output = full (length num_draft_tokens) (max_num_drafts + 1) PLACEHOLDER_TOKEN_ID;
          output = put_entries (draft_rows num_draft_tokens) (draft_cols num_draft_tokens) (map int draft_token_ids) output;
          output = map2 (\<lambda>row n. map (\<lambda>c. if n \<le> c then PLACEHOLDER_TOKEN_ID else row ! c) [0..<max_num_drafts + 1]) output num_acc
      in put_entries rows num_acc (map2 (\<lambda>f n. int (candidates ! (f + n))) first num_acc) output)"

definition rejection_forward ::
  "(logit list \<Rightarrow> nat list) \<Rightarrow> (logit list \<Rightarrow> rat list) \<Rightarrow> rat list \<Rightarrow> rat list list \<Rightarrow>
     rat list list \<Rightarrow> nat list \<Rightarrow> nat list \<Rightarrow> rat list option \<Rightarrow> nat \<Rightarrow> int list option \<Rightarrow> rat list option \<Rightarrow> int list list" where
  "rejection_forward argsort softmax uniform noise logits draft_token_ids num_draft_tokens temperatures max_num_drafts topk topp =
     (let gr = map argmax logits
      in case temperatures of
           None \<Rightarrow> pack_tokens num_draft_tokens draft_token_ids (accepted_greedy gr num_draft_tokens draft_token_ids) gr max_num_drafts
         | Some ts \<Rightarrow>
             let probs = target_of argsort softmax num_draft_tokens ts topk topp logits
             in pack_tokens num_draft_tokens draft_token_ids
                  (accepted_sampled gr probs uniform ts num_draft_tokens draft_token_ids)
                  (candidates_sampled gr probs noise ts num_draft_tokens draft_token_ids) max_num_drafts)"

section \<open>Row by row\<close>

text \<open>The reference: one row's drafts, which of them are accepted, and its candidates.\<close>

definition verify_row :: "nat \<Rightarrow> nat list \<Rightarrow> bool list \<Rightarrow> nat list \<Rightarrow> int list" where
  "verify_row width drafts acc cands =
     (let n = length (takeWhile id acc)
      in map int (take n drafts) @ int (cands ! n) # replicate (width - n) PLACEHOLDER_TOKEN_ID)"

lemma draft_layout:
  "draft_rows ns = index_of_rows ns" "draft_cols ns = concat (map (\<lambda>n. [0..<n]) ns)"
  "draft_index ns = concat (map2 (\<lambda>r n. map ((+) (first_logits ns ! r)) [0..<n]) [0..<length ns] ns)"
proof -
  show r: "draft_rows ns = index_of_rows ns" by (simp add: draft_rows_def index_of_rows_def)
  show c: "draft_cols ns = concat (map (\<lambda>n. [0..<n]) ns)"
    unfolding cols_of_rows [symmetric] draft_cols_def Let_def r row_starts_def [symmetric] ..
  show "draft_index ns = concat (map2 (\<lambda>r n. map ((+) (first_logits ns ! r)) [0..<n]) [0..<length ns] ns)"
    unfolding draft_index_def r c by (rule entries_of_rows)
qed

lemma first_logits_nth:
  "r < length ns \<Longrightarrow> first_logits ns ! r = sum_list (map Suc (take r ns))" "length (first_logits ns) = length ns"
  using nth_row_starts [of r "map Suc ns"] by (simp_all add: first_logits_def row_starts_def Let_def take_map)

lemma sum_cumprod: "sum_list (cumprod (map of_bool acc @ replicate k 0)) = length (takeWhile id acc)"
proof (induction acc)
  case Nil
  have "sum_list (cumprod (replicate k 0)) = 0" by (cases k) (auto simp: sum_list_eq_0_iff)
  then show ?case by simp
next
  case (Cons a acc)
  have "sum_list (map ((*) 0) xs) = 0" "map ((*) (Suc 0)) xs = xs" for xs :: "nat list" by (simp_all add: map_idI sum_list_eq_0_iff)
  then show ?case using Cons.IH by (cases a) simp_all
qed

lemma num_accepted_rows:
  assumes "ns = map length accs" "\<forall>n \<in> set ns. n \<le> K"
  shows "num_accepted ns (concat accs) K = map (\<lambda>acc. length (takeWhile id acc)) accs"
proof -
  let ?vss = "map (map of_bool) accs :: nat list list"
  have "put_entries (draft_rows ns) (draft_cols ns) (concat ?vss) (full (length ns) (K + 1) 0) =
      map2 overwrite (take (length ns) (full (length ns) (K + 1) 0)) ?vss @ drop (length ns) (full (length ns) (K + 1) 0)"
    unfolding draft_layout by (rule put_entries_rows) (use assms in \<open>auto simp: full_def le_SucI\<close>)
  also have "\<dots> = map (\<lambda>acc. map of_bool acc @ replicate (K + 1 - length acc) 0) accs"
    using overwrite_full [of ?vss "length ns" "K + 1" 0] by (simp add: assms)
  finally show ?thesis
    by (simp add: num_accepted_def Let_def map_concat comp_def sum_cumprod)
qed

lemma put_column:
  assumes "length cs = length m" "length vs = length m" "\<forall>r < length m. cs ! r < length (m ! r)"
  shows "put_entries [0..<length m] cs vs m = map (\<lambda>r. (m ! r)[cs ! r := vs ! r]) [0..<length m]"
proof -
  have "k \<le> length m \<Longrightarrow> put_entries [0..<k] (take k cs) (take k vs) m = map (\<lambda>r. (m ! r)[cs ! r := vs ! r]) [0..<k] @ drop k m" for k
  proof (induction k)
    case (Suc k)
    then have k: "k < length m" "length (take k vs) = k" "length (take k cs) = k" using assms by auto
    have z: "zip [0..<Suc k] (zip (take (Suc k) cs) (take (Suc k) vs)) = zip [0..<k] (zip (take k cs) (take k vs)) @ [(k, cs ! k, vs ! k)]"
      using k assms(1,2) by (simp add: take_Suc_conv_app_nth zip_append)
    have "put_entries [0..<Suc k] (take (Suc k) cs) (take (Suc k) vs) m =
        put_entry (k, cs ! k, vs ! k) (map (\<lambda>r. (m ! r)[cs ! r := vs ! r]) [0..<k] @ drop k m)"
      using Suc k unfolding put_entries_def z by simp
    also have "\<dots> = map (\<lambda>r. (m ! r)[cs ! r := vs ! r]) [0..<Suc k] @ drop (Suc k) m"
      using k by (simp add: put_entry_def nth_append list_update_append Cons_nth_drop_Suc [symmetric])
    finally show ?case .
  qed (simp add: put_entries_def)
  from this [of "length m"] show ?thesis using assms by simp
qed

lemma put_column_maps:
  "\<forall>r < R. c r < length (m r) \<Longrightarrow>
   put_entries [0..<R] (map c [0..<R]) (map v [0..<R]) (map m [0..<R]) = map (\<lambda>r. (m r)[c r := v r]) [0..<R]"
  using put_column [of "map c [0..<R]" "map m [0..<R]" "map v [0..<R]"] by simp

text \<open>The vectorised packing is the reference row by row.\<close>

lemma pack_tokens_rows:
  assumes ns: "ns = map length dss" "map length accs = ns" "map length cands = map Suc ns" and K: "\<forall>n \<in> set ns. n \<le> K"
  shows "pack_tokens ns (concat dss) (concat accs) (concat cands) K =
    map (\<lambda>r. verify_row K (dss ! r) (accs ! r) (cands ! r)) [0..<length ns]"
proof -
  let ?n = "\<lambda>r. length (takeWhile id (accs ! r))"
  have len: "length accs = length ns" "length dss = length ns" "length cands = length ns"
    using ns by (metis length_map)+
  have lens: "length (accs ! r) = ns ! r" "length (dss ! r) = ns ! r" "length (cands ! r) = Suc (ns ! r)" if "r < length ns" for r
    using that ns len by (metis nth_map)+
  have acc: "num_accepted ns (concat accs) K = map ?n [0..<length ns]"
    using num_accepted_rows [of ns accs K] ns(2) K len(1) by (auto intro!: nth_equalityI)
  have n: "?n r \<le> ns ! r" "ns ! r \<le> K" if "r < length ns" for r
    using lens(1) [OF that] length_takeWhile_le [of id "accs ! r"] K that by (auto dest: nth_mem)
  let ?out = "put_entries (draft_rows ns) (draft_cols ns) (map int (concat dss)) (full (length ns) (K + 1) PLACEHOLDER_TOKEN_ID)"
  have out: "?out = map (\<lambda>r. map int (dss ! r) @ replicate (K + 1 - ns ! r) PLACEHOLDER_TOKEN_ID) [0..<length ns]"
  proof -
    have "?out = map2 overwrite (take (length ns) (full (length ns) (K + 1) PLACEHOLDER_TOKEN_ID)) (map (map int) dss) @
        drop (length ns) (full (length ns) (K + 1) PLACEHOLDER_TOKEN_ID)"
      unfolding draft_layout map_concat by (rule put_entries_rows) (use ns K in \<open>auto simp: full_def le_SucI\<close>)
    also have "\<dots> = map (\<lambda>r. map int (dss ! r) @ replicate (K + 1 - ns ! r) PLACEHOLDER_TOKEN_ID) [0..<length ns]"
      unfolding overwrite_full [of "map (map int) dss", simplified, OF len(2)] using len lens by (intro nth_equalityI) simp_all
    finally show ?thesis .
  qed
  let ?cut = "\<lambda>r. map (\<lambda>c. if ?n r \<le> c then PLACEHOLDER_TOKEN_ID else (map int (dss ! r) @ replicate (K + 1 - ns ! r) PLACEHOLDER_TOKEN_ID) ! c) [0..<K + 1]"
  have masked: "map2 (\<lambda>row n. map (\<lambda>c. if n \<le> c then PLACEHOLDER_TOKEN_ID else row ! c) [0..<K + 1]) ?out (map ?n [0..<length ns]) = map ?cut [0..<length ns]"
    unfolding out map2_maps ..
  have cand: "concat cands ! (first_logits ns ! r + ?n r) = cands ! r ! ?n r" if "r < length ns" for r
  proof -
    have "map Suc (take r ns) = map length (take r cands)" using ns(3) by (metis take_map)
    then show ?thesis using concat_nth [of r cands "?n r"] that len(3) lens(3) [OF that] n(1) [OF that] by (simp add: first_logits_nth(1))
  qed
  have vs: "map2 (\<lambda>f n. int (concat cands ! (f + n))) (first_logits ns) (map ?n [0..<length ns]) = map (\<lambda>r. int (cands ! r ! ?n r)) [0..<length ns]"
    by (rule nth_equalityI) (simp_all add: first_logits_nth(2) cand)
  have row: "(?cut r)[?n r := int (cands ! r ! ?n r)] = verify_row K (dss ! r) (accs ! r) (cands ! r)" if "r < length ns" for r
    using n [OF that] lens(2) [OF that] by (intro nth_equalityI) (auto simp: verify_row_def Let_def nth_append nth_Cons' nth_list_update)
  have "pack_tokens ns (concat dss) (concat accs) (concat cands) K =
      put_entries [0..<length ns] (map ?n [0..<length ns]) (map2 (\<lambda>f n. int (concat cands ! (f + n))) (first_logits ns) (map ?n [0..<length ns]))
        (map ?cut [0..<length ns])"
    unfolding pack_tokens_def Let_def acc masked [symmetric] ..
  also have "\<dots> = map (\<lambda>r. (?cut r)[?n r := int (cands ! r ! ?n r)]) [0..<length ns]"
    unfolding vs by (rule put_column_maps) (use n in \<open>fastforce simp: less_Suc_eq_le intro: le_trans\<close>)
  finally show ?thesis using row by simp
qed

lemma split_rows: "length xs = sum_list ns \<Longrightarrow> \<exists>xss. concat xss = xs \<and> map length xss = ns"
proof (induction ns arbitrary: xs)
  case (Cons n ns)
  then have "length (drop n xs) = sum_list ns" by simp
  then obtain xss where "concat xss = drop n xs" "map length xss = ns" using Cons.IH by blast
  then show ?case using Cons.prems by (intro exI [of _ "take n xs # xss"]) simp
qed simp

lemma length_draft_index [simp]: "length (draft_index ns) = sum_list ns"
  by (simp add: draft_index_def draft_layout length_concat comp_def)

lemma draft_index_greedy:
  assumes "map length gs = map Suc ns"
  shows "gather (concat gs) (draft_index ns) = concat (map2 take ns gs)"
proof -
  have len: "length gs = length ns" using assms by (metis length_map)
  have "gather (concat gs) (map ((+) (first_logits ns ! r)) [0..<n]) = take n (gs ! r)" if "r < length ns" "n = ns ! r" for r n
  proof (rule nth_equalityI)
    have l: "length (gs ! r) = Suc n" using that assms len by (metis nth_map)
    have "map Suc (take r ns) = map length (take r gs)" using assms by (metis take_map)
    then have f: "first_logits ns ! r = sum_list (map length (take r gs))" using that by (simp add: first_logits_nth(1))
    show "length (gather (concat gs) (map ((+) (first_logits ns ! r)) [0..<n])) = length (take n (gs ! r))" using l by (simp add: gather_def)
    fix j assume "j < length (gather (concat gs) (map ((+) (first_logits ns ! r)) [0..<n]))"
    then have j: "j < n" by (simp add: gather_def)
    then show "gather (concat gs) (map ((+) (first_logits ns ! r)) [0..<n]) ! j = take n (gs ! r) ! j"
      using concat_nth [of r gs j] that(1) len l by (simp add: gather_def f)
  qed
  then show ?thesis unfolding draft_layout(3) gather_concat using len
    by (intro arg_cong [where f = concat] nth_equalityI) simp_all
qed

lemma accepted_greedy_rows:
  assumes "ns = map length dss" "map length gs = map Suc ns"
  shows "accepted_greedy (concat gs) ns (concat dss) = concat (map2 (\<lambda>g ds. map2 (=) g ds) gs dss)"
    "map length (map2 (\<lambda>g ds. map2 (=) g ds) gs dss) = ns"
proof -
  have len: "length gs = length dss" using assms by (metis length_map)
  have lens: "length (gs ! r) = Suc (length (dss ! r))" if "r < length dss" for r
    using that assms len by (metis length_map nth_map)
  have "list_all2 (\<lambda>xs ys. length xs = length ys) (map2 take ns gs) dss"
    using len lens assms(1) by (auto simp: list_all2_conv_all_nth)
  then have "accepted_greedy (concat gs) ns (concat dss) = map (\<lambda>(a, b). a = b) (concat (map2 zip (map2 take ns gs) dss))"
    by (simp add: accepted_greedy_def draft_index_greedy [OF assms(2)] zip_concat)
  also have "\<dots> = concat (map2 (\<lambda>g ds. map2 (=) g ds) gs dss)"
    unfolding map_concat using len lens assms(1)
    by (intro arg_cong [where f = concat] nth_equalityI) (auto intro!: nth_equalityI)
  finally show "accepted_greedy (concat gs) ns (concat dss) = concat (map2 (\<lambda>g ds. map2 (=) g ds) gs dss)" .
  show "map length (map2 (\<lambda>g ds. map2 (=) g ds) gs dss) = ns"
    using len lens assms(1) by (intro nth_equalityI) auto
qed

text \<open>In a greedy row the accepted drafts and the token after them are the target's own tokens.\<close>

lemma verify_row_greedy:
  assumes "length g = Suc (length ds)"
  defines "n \<equiv> length (takeWhile id (map2 (=) g ds))"
  shows "verify_row K ds (map2 (=) g ds) g = map int (take (Suc n) g) @ replicate (K - n) PLACEHOLDER_TOKEN_ID" "n \<le> length ds"
proof -
  show nd: "n \<le> length ds" unfolding n_def using length_takeWhile_le [of id "map2 (=) g ds"] assms(1) by simp
  have "take n ds = take n g"
  proof (rule nth_equalityI)
    show "length (take n ds) = length (take n g)" using nd assms(1) by simp
    fix j assume "j < length (take n ds)"
    then have j: "j < n" "j < length ds" by auto
    then have "id (takeWhile id (map2 (=) g ds) ! j)" unfolding n_def by (meson nth_mem set_takeWhileD)
    then have "map2 (=) g ds ! j" using j(1) unfolding n_def by (simp add: takeWhile_nth)
    then show "take n ds ! j = take n g ! j" using j assms(1) by simp
  qed
  then show "verify_row K ds (map2 (=) g ds) g = map int (take (Suc n) g) @ replicate (K - n) PLACEHOLDER_TOKEN_ID"
    using nd assms(1) by (simp add: verify_row_def Let_def n_def [symmetric] take_Suc_conv_app_nth)
qed

section \<open>Properties\<close>

text \<open>
  C23: greedy speculative decoding is lossless.  Without temperatures, whatever was drafted, a row
  comes out as the first tokens the target would have chosen itself at the row's positions: as
  many as leading drafts agree with it, and one more; the rest of the row is padding.  The flat
  index arithmetic over all rows at once gives exactly this, row by row.
\<close>

theorem greedy_lossless:
  assumes "ns = map length dss" "map length lss = map Suc ns" "\<forall>n \<in> set ns. n \<le> K" "r < length dss"
  shows "rejection_forward argsort softmax uniform noise (concat lss) (concat dss) ns None K topk topp ! r =
    (let target = map argmax (lss ! r); n = length (takeWhile id (map2 (=) target (dss ! r)))
     in map int (take (Suc n) target) @ replicate (K - n) PLACEHOLDER_TOKEN_ID)"
proof -
  let ?gs = "map (map argmax) lss"
  have gs: "map length ?gs = map Suc ns" using assms(2) by (simp add: comp_def)
  have len: "length lss = length dss" using assms(1,2) by (metis length_map)
  have l: "length (map argmax (lss ! r)) = Suc (length (dss ! r))" using assms(1,2,4) len by (metis length_map nth_map)
  note acc = accepted_greedy_rows [OF assms(1) gs]
  have "rejection_forward argsort softmax uniform noise (concat lss) (concat dss) ns None K topk topp =
      map (\<lambda>r. verify_row K (dss ! r) (map2 (\<lambda>g ds. map2 (=) g ds) ?gs dss ! r) (?gs ! r)) [0..<length ns]"
    unfolding rejection_forward_def Let_def option.case map_concat acc(1)
    by (rule pack_tokens_rows [OF assms(1) acc(2) gs assms(3)])
  then show ?thesis using assms(1,4) len verify_row_greedy(1) [OF l, of K] by (simp add: Let_def)
qed

theorem greedy_lossless_witness:
  "rejection_forward stable_argsort flat_softmax [] [] [[0, 1], [5, 1], [2, 3], [1, 0], [0, 4]] [1, 1, 0] [2, 1] None 2 None None ! 0 = [1, 0, -1] \<and>
   rejection_forward stable_argsort flat_softmax [] [] [[0, 1], [5, 1], [2, 3], [1, 0], [0, 4]] [1, 1, 0] [2, 1] None 2 None None ! 1 = [0, 1, -1]"
  using greedy_lossless [of "[2, 1]" "[[1, 1], [0]]" "[[[0, 1], [5, 1], [2, 3]], [[1, 0], [0, 4]]]" 2 0 stable_argsort flat_softmax "[]" "[]" None None]
    greedy_lossless [of "[2, 1]" "[[1, 1], [0]]" "[[[0, 1], [5, 1], [2, 3]], [[1, 0], [0, 4]]]" 2 1 stable_argsort flat_softmax "[]" "[]" None None]
  by (simp add: PLACEHOLDER_TOKEN_ID_def Let_def numeral_2_eq_2)

lemma rejection_rows:
  assumes "ns = map length dss" "length logits = sum_list (map Suc ns)" "\<forall>n \<in> set ns. n \<le> K"
  shows "\<exists>accs cands. map length accs = ns \<and> map length cands = map Suc ns \<and>
    rejection_forward argsort softmax uniform noise logits (concat dss) ns ts K topk topp =
      map (\<lambda>r. verify_row K (dss ! r) (accs ! r) (cands ! r)) [0..<length ns]"
proof -
  let ?gr = "map argmax logits"
  have d: "length (concat dss) = sum_list ns" by (simp add: assms(1) length_concat)
  have ex: "\<exists>accs cands. map length accs = ns \<and> map length cands = map Suc ns \<and>
      pack_tokens ns (concat dss) acc cand K = map (\<lambda>r. verify_row K (dss ! r) (accs ! r) (cands ! r)) [0..<length ns]"
    if "length acc = sum_list ns" "length cand = sum_list (map Suc ns)" for acc :: "bool list" and cand :: "nat list"
  proof -
    note l = that
    obtain accs cands where "concat accs = acc" "map length accs = ns" "concat cands = cand" "map length cands = map Suc ns"
      using split_rows [OF l(1)] split_rows [OF l(2)] by blast
    then show ?thesis using pack_tokens_rows [OF assms(1) _ _ assms(3), of accs cands] by blast
  qed
  show ?thesis
  proof (cases ts)
    case None
    have "length (accepted_greedy ?gr ns (concat dss)) = sum_list ns" using d by (simp add: accepted_greedy_def gather_def)
    then show ?thesis using ex [of _ ?gr] assms(2) None by (simp add: rejection_forward_def Let_def)
  next
    case (Some t)
    let ?pr = "target_of argsort softmax ns t topk topp logits"
    have "length (accepted_sampled ?gr ?pr uniform t ns (concat dss)) = sum_list ns" using d by (simp add: accepted_sampled_def Let_def)
    moreover have "length (candidates_sampled ?gr ?pr noise t ns (concat dss)) = sum_list (map Suc ns)"
      using assms(2) by (simp add: candidates_sampled_def Let_def)
    ultimately show ?thesis using ex Some by (simp add: rejection_forward_def Let_def)
  qed
qed

lemma verify_row_tokens:
  assumes "length acc = length ds"
  defines "n \<equiv> length (takeWhile id acc)"
  shows "filter (\<lambda>t. 0 \<le> t) (verify_row K ds acc cands) = map int (take n ds) @ [int (cands ! n)]" "n \<le> length ds"
    "length ds \<le> K \<Longrightarrow> length (verify_row K ds acc cands) = Suc K"
proof -
  show n: "n \<le> length ds" using length_takeWhile_le [of id acc] assms by simp
  show "filter (\<lambda>t. 0 \<le> t) (verify_row K ds acc cands) = map int (take n ds) @ [int (cands ! n)]"
    by (simp add: verify_row_def Let_def n_def PLACEHOLDER_TOKEN_ID_def filter_map comp_def)
  show "length ds \<le> K \<Longrightarrow> length (verify_row K ds acc cands) = Suc K"
    using n by (simp add: verify_row_def Let_def n_def [symmetric])
qed

text \<open>
  C24: what the runner packs, the engine takes apart.  The rows of verified tokens with the next
  step's drafts after them split into, per row, an accepted prefix of its drafts and one more
  token, and the same drafts; so the scheduler gets one to \<open>1 + num_draft_tokens\<close> tokens per row,
  as \<open>reconcile\<close> needs, whatever the temperatures, filters and random draws are.
\<close>

theorem packed_rows_split:
  assumes "ns = map length dss" "length logits = sum_list (map Suc ns)" "\<forall>n \<in> set ns. n \<le> K" "length nxt = length ns"
    and "map row_num_draft_tokens rows = map int ns"
    and "split_sampled (map2 (@) (rejection_forward argsort softmax uniform noise logits (concat dss) ns ts K topk topp) nxt) (int K) = (toks, drafts)"
  shows "drafts = nxt \<and> length toks = length ns \<and>
    (\<forall>r < length ns. \<exists>n \<le> ns ! r. \<exists>t. toks ! r = map int (take n (dss ! r)) @ [int t]) \<and>
    sampled_ok (map Tokens toks) (Some drafts) 0 rows"
proof -
  obtain accs cands where a: "map length accs = ns" "map length cands = map Suc ns"
    and rf: "rejection_forward argsort softmax uniform noise logits (concat dss) ns ts K topk topp =
      map (\<lambda>r. verify_row K (dss ! r) (accs ! r) (cands ! r)) [0..<length ns]"
    using rejection_rows [OF assms(1,2,3)] by blast
  let ?row = "\<lambda>r. verify_row K (dss ! r) (accs ! r) (cands ! r)"
  let ?n = "\<lambda>r. length (takeWhile id (accs ! r))"
  have len: "length dss = length ns" "length accs = length ns" "length rows = length ns" using assms(1,5) a(1) by (metis length_map)+
  have lens: "length (dss ! r) = ns ! r" "length (accs ! r) = length (dss ! r)" "ns ! r \<le> K" "row_num_draft_tokens (rows ! r) = int (ns ! r)"
    if "r < length ns" for r
    using that assms(1,3,5) a(1) len by (metis nth_map nth_mem)+
  have row: "filter (\<lambda>t. 0 \<le> t) (?row r) = map int (take (?n r) (dss ! r)) @ [int (cands ! r ! ?n r)]" "?n r \<le> ns ! r" "length (?row r) = Suc K"
    if "r < length ns" for r
    using verify_row_tokens(1,3) [of "accs ! r" "dss ! r" K "cands ! r"] verify_row_tokens(2) [of "accs ! r" "dss ! r"] lens [OF that] by simp_all
  have packed: "map2 (@) (map ?row [0..<length ns]) nxt = map (\<lambda>r. ?row r @ nxt ! r) [0..<length ns]"
    using assms(4) by (intro nth_equalityI) auto
  have K1: "nat (int K + 1) = Suc K" by simp
  have toks: "toks = map (\<lambda>r. map int (take (?n r) (dss ! r)) @ [int (cands ! r ! ?n r)]) [0..<length ns]" and dr: "drafts = nxt"
    using assms(4,6) row unfolding rf packed split_sampled_def Let_def by (auto simp: slice_to_nonneg slice_from_nonneg K1 intro!: nth_equalityI)
  have "length (toks ! r) \<le> Suc (ns ! r) \<and> toks ! r \<noteq> []" if "r < length ns" for r using that row(2) [OF that] lens(1) [OF that] by (simp add: toks)
  then have "sampled_ok (map Tokens toks) (Some drafts) 0 rows"
    using len lens assms(4) by (auto simp: sampled_ok_def toks dr py_len_def Suc_le_eq)
  then show ?thesis using dr row(2) by (auto simp: toks)
qed

theorem packed_rows_split_witness:
  "split_sampled (map2 (@) (rejection_forward stable_argsort flat_softmax [] [] [[0, 1], [5, 1], [2, 3], [1, 0], [0, 4]] [1, 1, 0] [2, 1] None 2 None None)
     [[7, 8], [9, 9]]) 2 = ([[1, 0], [0, 1]], [[7, 8], [9, 9]]) \<and>
   sampled_ok [Tokens [1, 0], Tokens [0, 1]] (Some [[7, 8], [9, 9]]) 0
     [\<lparr>row_seq = 0, row_num_preemptions = 0, row_num_draft_tokens = 2\<rparr>, \<lparr>row_seq = 1, row_num_preemptions = 0, row_num_draft_tokens = 1\<rparr>]"
proof -
  let ?out = "split_sampled (map2 (@) (rejection_forward stable_argsort flat_softmax [] [] [[0, 1], [5, 1], [2, 3], [1, 0], [0, 4]]
     (concat [[1, 1], [0]]) [2, 1] None 2 None None) [[7, 8], [9, 9]]) (int 2)"
  have "?out = ([[1, 0], [0, 1]], [[7, 8], [9, 9]])" by code_simp
  then show ?thesis
    using packed_rows_split [where ns = "[2, 1]" and dss = "[[1, 1], [0]]" and nxt = "[[7, 8], [9, 9]]" and K = 2 and toks = "[[1, 0], [0, 1]]"
        and rows = "[\<lparr>row_seq = 0, row_num_preemptions = 0, row_num_draft_tokens = 2\<rparr>, \<lparr>row_seq = 1, row_num_preemptions = 0, row_num_draft_tokens = 1\<rparr>]",
        OF _ _ _ _ _ \<open>?out = ([[1, 0], [0, 1]], [[7, 8], [9, 9]])\<close>] by simp
qed

end
