(* ===== verification/Model_Runner.thy ===== *)
theory Model_Runner
  imports Spec_Decode Scheduler_Machine
begin

text \<open>
  \<open>engine/model_runner.py\<close>: how a step's sequences become the flat tensors of one forward pass,
  which graph runs it and how its results are acc for the next step.  The model itself, the
  device and the graphs' contents are parameters; tensors are lists, device positions included.
\<close>

section \<open>Capture sizes and query length\<close>

definition cudagraph_capture_sizes :: "int \<Rightarrow> int \<Rightarrow> int list" where
  "cudagraph_capture_sizes max_seqs max_tokens_per_step =
     (let top = min (min (max_seqs * 2) 512) max_tokens_per_step;
          sizes = filter (\<lambda>size. size \<le> top) [1, 2, 4];
          sizes = sizes @ filter (\<lambda>n. n mod 8 = 0) [8..min (top + 1) 256 - 1];
          sizes = sizes @ filter (\<lambda>n. n mod 16 = 0) [256..top];
          sizes = (if max_tokens_per_step \<le> top then sizes @ [max_tokens_per_step] else sizes)
      in sort (remdups sizes))"

text \<open>\<open>np.bincount\<close> of non-negative lengths.\<close>

definition bincount :: "int list \<Rightarrow> int list" where
  "bincount xs = map (\<lambda>v. int (count_list xs (int v))) [0..<nat (fold max xs 0 + 1)]"

definition decode_query_len :: "int list \<Rightarrow> int \<Rightarrow> int" where
  "decode_query_len lens num_spec =
     (let short = filter (\<lambda>l. l \<le> 1 + num_spec) lens
      in if short = [] then 1 else int (argmax (bincount short)))"

section \<open>State\<close>

record in_flight_drafts =
  ifd_next_token_ids :: "int list"
  ifd_draft_token_ids :: "int list list"
  ifd_num_rejected :: "int list"

record model_runner =
  r_block_size :: int
  r_num_spec :: int
  r_decodes_latents :: bool
  r_cudagraph_mode :: string
  r_graph_bs :: "int list"
  r_graph_query_len :: int
  r_piecewise_bs :: "int list"
  r_step_kind :: string
  r_prev_tokens :: "int list option"
  r_prev_rows :: "(nat, nat) dict option"
  r_in_flight_drafts :: "in_flight_drafts option"

section \<open>Order of the batch\<close>

definition batch_order :: "int list \<Rightarrow> int \<Rightarrow> nat list" where
  "batch_order lens query_len = sort_key (\<lambda>i. lens ! i \<noteq> query_len) [0..<length lens]"

definition rows_of_order :: "nat list \<Rightarrow> nat list" where
  "rows_of_order order = scatter order [0..<length order] (replicate (length order) 0)"

text \<open>Rows whose scheduled chunk reaches the end of their planned tokens, in scheduler order.\<close>

definition sampling_of :: "nat list \<Rightarrow> int list \<Rightarrow> int list \<Rightarrow> int list \<Rightarrow> nat list" where
  "sampling_of row_of starts lens planned =
     filter (\<lambda>i. planned ! i \<le> starts ! (row_of ! i) + lens ! (row_of ! i)) [0..<length planned]"

definition prev_row :: "model_runner \<Rightarrow> sequence \<Rightarrow> nat res" where
  "prev_row r q = (case Option.bind (r_prev_rows r) (\<lambda>d. map_of d (seq_id q)) of
     None \<Rightarrow> Inl AssertionError | Some row \<Rightarrow> Inr row)"

section \<open>Flat positions\<close>

definition cu_seqlens :: "int list \<Rightarrow> int list" where
  "cu_seqlens lens = map (\<lambda>i. sum_list (take i lens)) [0..<Suc (length lens)]"

definition token_rows :: "int list \<Rightarrow> nat list" where
  "token_rows lens = repeat_interleave [0..<length lens] (map nat lens)"

definition token_positions :: "int list \<Rightarrow> int list \<Rightarrow> int list" where
  "token_positions starts lens =
     (let cu_q = cu_seqlens lens
      in map2 (\<lambda>j r. starts ! r + int j - cu_q ! r) [0..<nat (last cu_q)] (token_rows lens))"

section \<open>Token ids\<close>

record fill =
  f_token_ids :: "int list"
  f_pending_dst :: "nat list"
  f_pending_src :: "nat list"
  f_draft_dst :: "nat list"
  f_draft_src :: "nat list"

definition empty_fill :: fill where
  "empty_fill = \<lparr>f_token_ids = [], f_pending_dst = [], f_pending_src = [], f_draft_dst = [], f_draft_src = []\<rparr>"

text \<open>A decode row with a pending token: its token and its drafts come from the device.\<close>

definition fill_from_device :: "model_runner \<Rightarrow> sequence \<Rightarrow> nat \<Rightarrow> fill \<Rightarrow> fill" where
  "fill_from_device r q src f =
     (let pos = length (f_token_ids f); n = length (spec_token_ids q); k = nat (r_num_spec r);
          f1 = f\<lparr>f_pending_dst := f_pending_dst f @ [pos], f_pending_src := f_pending_src f @ [src]\<rparr>
      in if r_in_flight_drafts r = None then f1
         else f1\<lparr>f_draft_dst := f_draft_dst f @ [pos + 1..<pos + 1 + n],
                 f_draft_src := f_draft_src f @ [src * k..<src * k + n]\<rparr>)"

definition fill_row :: "model_runner \<Rightarrow> sequence \<times> int \<times> int \<Rightarrow> fill \<Rightarrow> fill res" where
  "fill_row r = (\<lambda>(q, start, stop) f.
     if is_prefill q then
       bindE (assertE (num_pending_tokens q = 0)) (\<lambda>_.
       Inr (f\<lparr>f_token_ids := f_token_ids f @ slice_from (slice_to (token_ids q) stop) start\<rparr>))
     else
       bindE (if num_pending_tokens q \<noteq> 0 then bindE (prev_row r q) (\<lambda>src. Inr (fill_from_device r q src f)) else Inr f) (\<lambda>f1.
       Inr (f1\<lparr>f_token_ids := f_token_ids f1 @ last_token q # spec_token_ids q\<rparr>)))"

text \<open>
  \<open>input_ids.index_copy_(0, dst, prev.index_select(0, src))\<close>; an index outside raises.
\<close>

definition index_copy :: "nat list \<Rightarrow> nat list \<Rightarrow> int list \<Rightarrow> int list \<Rightarrow> int list res" where
  "index_copy dst src from xs =
     (if (\<exists>i \<in> set src. length from \<le> i) \<or> (\<exists>i \<in> set dst. length xs \<le> i) then Inl IndexError
      else Inr (scatter dst (gather from src) xs))"

text \<open>Pending tokens at the front of both tensors are copied as one slice.\<close>

definition copy_pending :: "nat list \<Rightarrow> nat list \<Rightarrow> int list \<Rightarrow> int list \<Rightarrow> int list res" where
  "copy_pending dst src prev xs =
     (let n = length dst
      in if dst = [0..<n] \<and> [0..<n] = src then
           (if length (take n prev) = length (take n xs) then Inr (take n prev @ drop n xs) else Inl (RuntimeError ''shape''))
         else index_copy dst src prev xs)"

definition fill_pending :: "model_runner \<Rightarrow> fill \<Rightarrow> int list res" where
  "fill_pending r f =
     bindE (if f_pending_dst f = [] then Inr (f_token_ids f)
            else case r_in_flight_drafts r of
                   Some d \<Rightarrow> copy_pending (f_pending_dst f) (f_pending_src f) (ifd_next_token_ids d) (f_token_ids f)
                 | None \<Rightarrow> (case r_prev_tokens r of
                     None \<Rightarrow> Inl AssertionError
                   | Some prev \<Rightarrow> copy_pending (f_pending_dst f) (f_pending_src f) prev (f_token_ids f))) (\<lambda>xs.
     if f_draft_dst f = [] then Inr xs
     else case r_in_flight_drafts r of
            None \<Rightarrow> Inl AssertionError
          | Some d \<Rightarrow> index_copy (f_draft_dst f) (f_draft_src f) (concat (ifd_draft_token_ids d)) xs)"

section \<open>Logits rows and cache slots\<close>

definition logits_offsets :: "nat list \<Rightarrow> nat list" where
  "logits_offsets num_logits =
     map2 (-) [0..<sum_list num_logits] (repeat_interleave (map2 (-) (cumsum num_logits) num_logits) num_logits)"

definition logits_indices :: "int list \<Rightarrow> nat list \<Rightarrow> int list" where
  "logits_indices last_index sampling_drafts =
     (let num_logits = map Suc sampling_drafts
      in map2 (\<lambda>first offset. first + int offset)
           (repeat_interleave (map2 (\<lambda>l d. l - int d) last_index sampling_drafts) num_logits) (logits_offsets num_logits))"

text \<open>The block tables padded with -1 to one width; no table, as in warmup, makes no matrix.\<close>

definition table_matrix :: "nat list list \<Rightarrow> int list list option" where
  "table_matrix tables =
     (if \<forall>t \<in> set tables. t = [] then None
      else let width = fold max (map length tables) 0
           in Some (map (\<lambda>t. map int t @ replicate (width - length t) (-1)) tables))"

definition cache_slot :: "int \<Rightarrow> int list list \<Rightarrow> nat \<Rightarrow> int \<Rightarrow> int res" where
  "cache_slot block_size table row pos =
     bindE (py_get (table ! row) (pos div block_size)) (\<lambda>b. Inr (b * block_size + pos mod block_size))"

definition slots_of :: "int \<Rightarrow> nat list list \<Rightarrow> int list list \<Rightarrow> nat list \<Rightarrow> int list \<Rightarrow> int list res" where
  "slots_of block_size tables table rows positions =
     mapE (\<lambda>(row, pos). cache_slot block_size table row pos)
       (filter (\<lambda>(row, _). tables ! row \<noteq> []) (zip rows positions))"

section \<open>The batch\<close>

record draft_inputs =
  di_input_ids :: "int list"
  di_positions :: "int list"
  di_max_position :: int
  di_last_index :: "int list"
  di_next_token_ids :: "int list"
  di_sampling_rows :: "nat list"
  di_num_draft_tokens :: "nat list"
  di_block_table :: "int list list option"

record batch =
  b_input_ids :: "int list"
  b_positions :: "int list"
  b_temperatures :: "rat list option"
  b_is_prefill :: bool
  b_cu_seqlens_q :: "int list"
  b_cu_seqlens_k :: "int list"
  b_max_seqlen_q :: int
  b_max_seqlen_k :: int
  b_slot_mapping :: "int list"
  b_context_lens :: "int list"
  b_block_tables :: "int list list option"
  b_logits_indices :: "int list option"
  b_query_len :: int
  b_top_k_top_p :: "(int list \<times> rat list) option"
  b_spec_inputs :: "(int list \<times> nat list) option"
  b_draft_inputs :: "draft_inputs option"
  b_sampling_rows :: "sequence list"

text \<open>
  \<open>_move_back\<close>: the rows whose previous step rejected drafts move back on the device.
\<close>

definition move_back :: "int \<Rightarrow> int list \<Rightarrow> nat list \<Rightarrow> nat list \<Rightarrow> nat list \<Rightarrow> batch \<Rightarrow> batch res" where
  "move_back block_size num_rejected rows moved moved_src b =
     (case b_block_tables b of
        None \<Rightarrow> Inl AssertionError
      | Some table \<Rightarrow>
          bindE (index_copy moved moved_src num_rejected (replicate (length (b_context_lens b)) 0)) (\<lambda>back.
          let positions = map2 (\<lambda>p r. p - back ! r) (b_positions b) rows;
              lens = map2 (-) (b_context_lens b) back
          in bindE (mapE (\<lambda>(r, p). cache_slot block_size table r p) (zip rows positions)) (\<lambda>slots.
             if length slots \<noteq> length (b_slot_mapping b) then Inl (RuntimeError ''shape'')
             else Inr (b\<lparr>b_positions := positions, b_context_lens := lens, b_cu_seqlens_k := cu_seqlens lens,
                         b_slot_mapping := slots\<rparr>))))"

text \<open>
  Which rows are placed as if the previous step acc every draft, and when their exact lengths
  must be waited for.
\<close>

definition moved_rows :: "model_runner \<Rightarrow> sequence list \<Rightarrow> nat list" where
  "moved_rows r qs = (if r_in_flight_drafts r = None then [] else filter (\<lambda>i. num_pending_tokens (qs ! i) \<noteq> 0) [0..<length qs])"

definition needs_exact :: "model_runner \<Rightarrow> bool \<Rightarrow> int list \<Rightarrow> int \<Rightarrow> nat list \<Rightarrow> bool" where
  "needs_exact r prefill lens query_len moved \<longleftrightarrow>
     moved \<noteq> [] \<and> (\<not> r_decodes_latents r \<or> prefill \<and> (\<exists>i \<in> set moved. lens ! i \<noteq> query_len))"

definition exact_starts :: "model_runner \<Rightarrow> nat list \<Rightarrow> nat list \<Rightarrow> int list \<Rightarrow> int list res" where
  "exact_starts r moved moved_src starts =
     (case r_in_flight_drafts r of
        None \<Rightarrow> Inl AssertionError
      | Some d \<Rightarrow>
          if \<exists>src \<in> set moved_src. length (ifd_num_rejected d) \<le> src then Inl IndexError
          else Inr (fold (\<lambda>(i, src) st. st[i := st ! i - ifd_num_rejected d ! src]) (zip moved moved_src) starts))"

definition uses_prefill :: "model_runner \<Rightarrow> sequence list \<Rightarrow> int list \<Rightarrow> int list \<Rightarrow> int \<Rightarrow> bool" where
  "uses_prefill r sqs num_drafts lens query_len \<longleftrightarrow>
     (let has_prompt = (\<exists>q \<in> set sqs. is_prefill q);
          uniform = (\<not> has_prompt \<and> r_decodes_latents r \<and> (\<forall>l \<in> set lens. l = query_len))
      in has_prompt \<or> ((\<exists>n \<in> set num_drafts. n \<noteq> 0) \<and> \<not> uniform))"

text \<open>What the drafter needs of the batch.\<close>

definition next_tokens :: "sequence list \<Rightarrow> int list \<Rightarrow> nat list \<Rightarrow> int list res" where
  "next_tokens qs ends sampled_rows =
     mapE (\<lambda>i. if i \<in> set sampled_rows then Inr (-1) else py_get (token_ids (qs ! i)) (ends ! i)) [0..<length qs]"

definition draft_tokens_of :: "int list \<Rightarrow> int list \<Rightarrow> nat list \<Rightarrow> int list res" where
  "draft_tokens_of ids indices sampling_drafts =
     (let num_logits = map Suc sampling_drafts;
          is_draft = map2 (<) (logits_offsets num_logits) (repeat_interleave sampling_drafts num_logits)
      in mapE (\<lambda>i. py_get ids (i + 1)) (map fst (filter snd (zip indices is_draft))))"

definition spec_parts ::
  "model_runner \<Rightarrow> sequence list \<Rightarrow> int list \<Rightarrow> nat list \<Rightarrow> nat list \<Rightarrow> int list \<Rightarrow> int list \<Rightarrow> batch \<Rightarrow> batch res" where
  "spec_parts r qs ends sampled_rows sampling_drafts last_index indices b =
     (if r_num_spec r = 0 then Inr b
      else
        bindE (draft_tokens_of (b_input_ids b) indices sampling_drafts) (\<lambda>drafts.
        bindE (next_tokens qs ends sampled_rows) (\<lambda>nexts.
        Inr (b\<lparr>b_spec_inputs := Some (drafts, sampling_drafts),
               b_draft_inputs := Some \<lparr>di_input_ids = b_input_ids b, di_positions = b_positions b,
                 di_max_position = fold max (map (\<lambda>i. b_positions b ! nat (last_index ! i)) sampled_rows) 0,
                 di_last_index = last_index, di_next_token_ids = nexts, di_sampling_rows = sampled_rows,
                 di_num_draft_tokens = sampling_drafts, di_block_table = b_block_tables b\<rparr>\<rparr>))))"

definition sampling_filters :: "sequence list \<Rightarrow> (int list \<times> rat list) option" where
  "sampling_filters qs =
     (if \<exists>q \<in> set qs. 0 < top_k q \<or> top_p q < 1 then Some (map top_k qs, map top_p qs) else None)"

definition drafts_of :: "sequence list \<Rightarrow> int list" where
  "drafts_of sqs = map (\<lambda>q. if is_prefill q then 0 else num_scheduled_tokens q - 1) sqs"

definition order_of :: "model_runner \<Rightarrow> sequence list \<Rightarrow> nat list" where
  "order_of r sqs = (let lens = map num_scheduled_tokens sqs in batch_order lens (decode_query_len lens (r_num_spec r)))"

definition sampling_indices :: "model_runner \<Rightarrow> sequence list \<Rightarrow> nat list" where
  "sampling_indices r sqs =
     (let order = order_of r sqs
      in sampling_of (rows_of_order order) (gather (map num_cached_tokens sqs) order) (gather (map num_scheduled_tokens sqs) order)
           (map num_planned_tokens sqs))"

definition batch_prefill :: "model_runner \<Rightarrow> sequence list \<Rightarrow> bool" where
  "batch_prefill r sqs =
     (let lens = map num_scheduled_tokens sqs
      in uses_prefill r sqs (drafts_of sqs) (gather lens (order_of r sqs)) (decode_query_len lens (r_num_spec r)))"

text \<open>The tensors, once the rows' first positions are known.\<close>

definition batch_slots :: "model_runner \<Rightarrow> nat list list \<Rightarrow> nat list \<Rightarrow> int list \<Rightarrow> (int list list option \<times> int list) res" where
  "batch_slots r tables rows positions =
     (case table_matrix tables of
        None \<Rightarrow> Inr (None, [])
      | Some table \<Rightarrow> bindE (slots_of (r_block_size r) tables table rows positions) (\<lambda>slots. Inr (Some table, slots)))"

definition batch_tensors ::
  "model_runner \<Rightarrow> sequence list \<Rightarrow> int list \<Rightarrow> int list \<Rightarrow> int list list option \<Rightarrow> int list \<Rightarrow> int list \<Rightarrow> batch" where
  "batch_tensors r sqs starts input_ids block_tables slots indices =
     (let lens = gather (map num_scheduled_tokens sqs) (order_of r sqs); ends = map2 (+) starts lens;
          sampling_rows = gather sqs (sampling_indices r sqs); temps = map temperature sampling_rows
      in \<lparr>b_input_ids = input_ids, b_positions = token_positions starts lens,
          b_temperatures = (if \<forall>t \<in> set temps. t = 0 then None else Some temps),
          b_is_prefill = batch_prefill r sqs, b_cu_seqlens_q = cu_seqlens lens, b_cu_seqlens_k = cu_seqlens ends,
          b_max_seqlen_q = fold max lens (hd lens), b_max_seqlen_k = fold max ends (hd ends),
          b_slot_mapping = slots, b_context_lens = ends, b_block_tables = block_tables,
          b_logits_indices = (if batch_prefill r sqs then Some indices else None),
          b_query_len = decode_query_len (map num_scheduled_tokens sqs) (r_num_spec r),
          b_top_k_top_p = sampling_filters sampling_rows, b_spec_inputs = None, b_draft_inputs = None,
          b_sampling_rows = sampling_rows\<rparr>)"

definition fill_batch :: "model_runner \<Rightarrow> sequence list \<Rightarrow> int list \<Rightarrow> batch res" where
  "fill_batch r sqs starts =
     (let order = order_of r sqs; qs = gather sqs order; lens = gather (map num_scheduled_tokens sqs) order;
          ends = map2 (+) starts lens; last_index = map (\<lambda>x. x - 1) (tl (cu_seqlens lens));
          sampling = sampling_indices r sqs; sampled_rows = gather (rows_of_order order) sampling;
          sampling_drafts = map (\<lambda>i. nat (drafts_of sqs ! i)) sampling;
          indices = logits_indices (gather last_index sampled_rows) sampling_drafts
      in bindE (foldE (fill_row r) (zip qs (zip starts ends)) empty_fill) (\<lambda>f.
         bindE (batch_slots r (map block_table qs) (token_rows lens) (token_positions starts lens)) (\<lambda>(block_tables, slots).
         if qs = [] then Inl ValueError
         else bindE (fill_pending r f) (\<lambda>input_ids.
              spec_parts r qs ends sampled_rows sampling_drafts last_index indices
                (batch_tensors r sqs starts input_ids block_tables slots indices)))))"

definition prepare_batch :: "model_runner \<Rightarrow> sequence list \<Rightarrow> batch res" where
  "prepare_batch r sqs =
     (let order = order_of r sqs; qs = gather sqs order; lens = gather (map num_scheduled_tokens sqs) order;
          query_len = decode_query_len (map num_scheduled_tokens sqs) (r_num_spec r);
          moved0 = moved_rows r qs;
          exact = needs_exact r (batch_prefill r sqs) lens query_len moved0;
          moved = (if exact then [] else moved0);
          starts0 = gather (map num_cached_tokens sqs) order
      in bindE (mapE (\<lambda>i. prev_row r (qs ! i)) moved0) (\<lambda>moved_src.
         bindE (if exact then exact_starts r moved0 moved_src starts0 else Inr starts0) (\<lambda>starts.
         bindE (fill_batch r sqs starts) (\<lambda>b.
         case r_in_flight_drafts r of
           Some d \<Rightarrow> (if moved = [] then Inr b
                      else move_back (r_block_size r) (ifd_num_rejected d) (token_rows lens) moved moved_src b)
         | None \<Rightarrow> Inr b))))"

section \<open>Graphs\<close>

definition FULL_MODES :: "string list" where
  "FULL_MODES = [''full'', ''full_and_piecewise'']"

definition PIECEWISE_MODES :: "string list" where
  "PIECEWISE_MODES = [''piecewise'', ''full_and_piecewise'']"

definition runner_cudagraph_mode :: "string \<Rightarrow> bool list \<Rightarrow> string" where
  "runner_cudagraph_mode mode layers_support =
     (if mode \<in> set FULL_MODES \<and> \<not> (\<forall>b \<in> set layers_support. b)
      then (if mode \<in> set PIECEWISE_MODES then ''piecewise'' else ''none'') else mode)"

definition next_size :: "int list \<Rightarrow> int \<Rightarrow> int option" where
  "next_size sizes n = List.find (\<lambda>size. n \<le> size) sizes"

definition piecewise_bucket :: "model_runner \<Rightarrow> int \<Rightarrow> int option" where
  "piecewise_bucket r num_toks =
     (case next_size (r_piecewise_bs r) num_toks of
        None \<Rightarrow> None
      | Some bucket \<Rightarrow> if num_toks < hd (r_piecewise_bs r) then None else Some bucket)"

text \<open>A bucket counts as found when it is not \<open>None\<close> and not 0.\<close>

definition step_kind :: "model_runner \<Rightarrow> bool \<Rightarrow> int \<Rightarrow> int \<Rightarrow> string" where
  "step_kind r prefill num_toks query_len =
     (if r_cudagraph_mode r = ''none'' then ''enforced''
      else if \<not> prefill \<and> r_cudagraph_mode r \<in> set FULL_MODES \<and> r_graph_bs r \<noteq> [] \<and>
              query_len = r_graph_query_len r \<and> num_toks \<le> last (r_graph_bs r) * query_len then ''graph''
      else if r_cudagraph_mode r \<in> set PIECEWISE_MODES \<and> piecewise_bucket r num_toks \<notin> {None, Some 0} then ''piecewise''
      else if prefill then ''prefill'' else ''decode'')"

text \<open>
  \<open>_replay_full\<close>: the buffers of the smallest captured graph that fits, padded so that padding
  rows write no slot and attend nothing.
\<close>

record graph_inputs =
  g_size :: int
  g_slot_mapping :: "int list"
  g_context_lens :: "int list"

definition replay_full :: "model_runner \<Rightarrow> batch \<Rightarrow> graph_inputs res" where
  "replay_full r b =
     (let num_toks = py_len (b_input_ids b); bs = num_toks div r_graph_query_len r; largest = last (r_graph_bs r)
      in case next_size (r_graph_bs r) bs of
           None \<Rightarrow> Inl (RuntimeError ''StopIteration'')
         | Some graph_bs \<Rightarrow>
             if nat (largest * r_graph_query_len r) < length (b_slot_mapping b) \<or> nat largest < length (b_context_lens b)
             then Inl (RuntimeError ''shape'')
             else Inr \<lparr>g_size = graph_bs,
               g_slot_mapping = overwrite (replicate (nat (largest * r_graph_query_len r)) (-1)) (b_slot_mapping b),
               g_context_lens = overwrite (replicate (nat largest) 0) (b_context_lens b)\<rparr>)"

definition decode_graph_sizes :: "int \<Rightarrow> int \<Rightarrow> int list" where
  "decode_graph_sizes max_seqs max_tokens_per_step =
     filter (\<lambda>size. size \<le> max_seqs) (cudagraph_capture_sizes max_seqs max_tokens_per_step)"

definition capture_cudagraph :: "int \<Rightarrow> int \<Rightarrow> model_runner \<Rightarrow> model_runner" where
  "capture_cudagraph max_seqs max_tokens_per_step r =
     (let q = 1 + r_num_spec r
      in r\<lparr>r_graph_query_len := q,
           r_graph_bs := filter (\<lambda>bs. bs * q \<le> max_tokens_per_step) (decode_graph_sizes max_seqs max_tokens_per_step)\<rparr>)"

definition capture_piecewise :: "int \<Rightarrow> int \<Rightarrow> model_runner \<Rightarrow> model_runner" where
  "capture_piecewise max_seqs max_tokens_per_step r =
     r\<lparr>r_piecewise_bs := cudagraph_capture_sizes max_seqs max_tokens_per_step\<rparr>"

definition max_num_blocks :: "int \<Rightarrow> model_runner \<Rightarrow> int" where
  "max_num_blocks max_model_len r = (max_model_len + r_num_spec r + r_block_size r - 1) div r_block_size r"

section \<open>A step\<close>

text \<open>
  The forward pass and the drafter are parameters: the logits of a batch, and the drafts after
  its verified tokens.  Without a drafter the sampler's tokens are the result.  \<open>pending\<close> is what
  \<open>SampledTokens.tolist\<close> gives: a token per row, or a row of tokens and drafts.
\<close>

record step_model =
  sm_logits :: "batch \<Rightarrow> rat list list"
  sm_propose :: "batch \<Rightarrow> int list \<Rightarrow> int list \<Rightarrow> int list list"
  sm_argsort :: "logit list \<Rightarrow> nat list"
  sm_softmax :: "logit list \<Rightarrow> rat list"
  sm_noise :: "rat list list"
  sm_uniform :: "rat list"

datatype pending = Plain "int list" | Speculative "int list list"

definition run_plain :: "step_model \<Rightarrow> batch \<Rightarrow> int list" where
  "run_plain m b = map int (sampler_forward (sm_argsort m) (sm_softmax m) (sm_noise m) (b_temperatures b)
     (map_option fst (b_top_k_top_p b)) (map_option snd (b_top_k_top_p b)) (sm_logits m b))"

definition verify :: "step_model \<Rightarrow> model_runner \<Rightarrow> batch \<Rightarrow> int list list res" where
  "verify m r b =
     (case b_spec_inputs b of
        None \<Rightarrow> Inl AssertionError
      | Some (drafts, num_draft_tokens) \<Rightarrow>
          Inr (rejection_forward (sm_argsort m) (sm_softmax m) (sm_uniform m) (sm_noise m) (sm_logits m b) (map nat drafts)
            num_draft_tokens (b_temperatures b) (nat (r_num_spec r))
            (map_option fst (b_top_k_top_p b)) (map_option snd (b_top_k_top_p b))))"

definition num_kept :: "int list \<Rightarrow> int" where
  "num_kept row = py_len (filter (\<lambda>t. 0 \<le> t) row) - 1"

definition run_step :: "step_model \<Rightarrow> sequence list \<Rightarrow> model_runner \<Rightarrow> (pending \<times> model_runner) res" where
  "run_step m sqs r =
     bindE (prepare_batch r sqs) (\<lambda>b.
     let r1 = r\<lparr>r_step_kind := step_kind r (b_is_prefill b) (py_len (b_input_ids b)) (b_query_len b),
                r_prev_rows := Some (map (\<lambda>(i, q). (seq_id q, i)) (List.enumerate 0 (b_sampling_rows b)))\<rparr>
     in if r_num_spec r = 0 then
          (let toks = run_plain m b in Inr (Plain toks, r1\<lparr>r_prev_tokens := Some toks\<rparr>))
        else bindE (verify m r b) (\<lambda>verified.
          let acc = map num_kept verified;
              next_token_ids = map2 (\<lambda>row n. row ! nat n) verified acc;
              drafts = sm_propose m b acc next_token_ids;
              num_draft_tokens = (case b_spec_inputs b of None \<Rightarrow> [] | Some (_, n) \<Rightarrow> n);
              packed = map2 (@) verified drafts
          in Inr (Speculative packed, r1\<lparr>r_prev_tokens := Some (concat packed),
                r_in_flight_drafts := Some \<lparr>ifd_next_token_ids = next_token_ids, ifd_draft_token_ids = drafts,
                  ifd_num_rejected = map2 (\<lambda>n k. int n - k) num_draft_tokens acc\<rparr>\<rparr>)))"

section \<open>Memory and ranks\<close>

text \<open>\<open>warmup_model\<close>: how many sequences of which length the profiling step runs.\<close>

definition warmup_shape :: "int \<Rightarrow> int \<Rightarrow> int \<Rightarrow> (int \<times> int) res" where
  "warmup_shape max_tokens_per_step max_model_len max_seqs =
     (let seq_len = min max_tokens_per_step max_model_len
      in if seq_len = 0 then Inl (RuntimeError ''ZeroDivisionError'')
         else Inr (seq_len, min (max_tokens_per_step div seq_len) max_seqs))"

definition dummy_sampler_rows :: "int \<Rightarrow> int \<Rightarrow> int \<Rightarrow> int" where
  "dummy_sampler_rows max_seqs max_tokens_per_step num_spec =
     (let num_logits = 1 + num_spec in max (min (max_seqs * num_logits) max_tokens_per_step div num_logits) 1)"

text \<open>
  \<open>allocate_kv_cache\<close>: how many blocks the cache gets; \<open>shapes\<close> are the layers' shapes of one
  block and \<open>budget\<close> the bytes the device leaves for the cache.
\<close>

definition kv_cache_blocks :: "int list list \<Rightarrow> int \<Rightarrow> int \<Rightarrow> int \<Rightarrow> int res" where
  "kv_cache_blocks shapes itemsize budget configured =
     (let block_bytes = sum_list (map (\<lambda>shape. fold (*) shape 1) shapes) * itemsize
      in bindE (if configured \<le> 0 then (if block_bytes = 0 then Inl (RuntimeError ''ZeroDivisionError'') else Inr (budget div block_bytes))
                else Inr configured) (\<lambda>n.
         if 0 < n then Inr n else Inl AssertionError))"

text \<open>
  \<open>kv_connector_step\<close> on rank 0: one rank reports for itself, several through the aggregator.
\<close>

definition runner_kv_connector_step :: "aggregator \<Rightarrow> kv_connector_output list \<Rightarrow> (kv_connector_output \<times> aggregator) res" where
  "runner_kv_connector_step ag outputs =
     (case outputs of
        [] \<Rightarrow> Inl AssertionError
      | [out] \<Rightarrow> Inr (out, ag)
      | _ \<Rightarrow> (let (ag', res) = aggregate ag outputs in Inr (res, ag')))"

end
