(* ===== verification/Llm_Engine.thy ===== *)
theory Llm_Engine
  imports Model_Runner Metrics
begin

text \<open>
  \<open>engine/llm_engine.py\<close>: the engine that ties the scheduler, the model runner, the metrics and the
  output processor together.  The tokenizer and what a call of the model runner returns are
  parameters (\<open>model_calls\<close>): the sampled values of a launched step, one per sampling row, and the
  transfers the connector finished.  \<open>perf_counter\<close> reads the scheduler's clock.
\<close>

section \<open>Validation\<close>

text \<open>
  The text of an \<open>InvalidRequest\<close> is shortened to which check failed.
\<close>

definition refusal_text :: "kv_refusal \<Rightarrow> string" where
  "refusal_text r = (case r of
     NotAnObject \<Rightarrow> ''kv: not an object'' | NoKvTransferConfig \<Rightarrow> ''kv: no config''
   | NeedsProducer \<Rightarrow> ''kv: not a producer'' | NeedsConsumer \<Rightarrow> ''kv: not a consumer'' | NeedsField f \<Rightarrow> ''kv: '' @ f)"

definition validate_request ::
  "((string, json) dict \<Rightarrow> string option) \<Rightarrow> int list \<Rightarrow> sampling_params \<Rightarrow> int \<Rightarrow> int \<Rightarrow> kv_transfer_config option \<Rightarrow> unit res" where
  "validate_request validate prompt sp vocab_size max_model_len kv =
     (if prompt = [] then Inl (InvalidRequest ''the prompt is empty'')
      else case List.find (\<lambda>t. \<not> (0 \<le> t \<and> t < vocab_size)) prompt of
        Some bad \<Rightarrow> Inl (InvalidRequest ''token id outside the vocabulary'')
      | None \<Rightarrow>
          if max_model_len \<le> py_len prompt then Inl (InvalidRequest ''no room in the context'')
          else if max_model_len < py_len prompt + sp_max_tokens sp then Inl (InvalidRequest ''max_tokens over the context'')
          else case sp_kv_transfer_params sp of
            None \<Rightarrow> Inr ()
          | Some params \<Rightarrow>
              (case check_kv_transfer_params validate (JObj params) kv of
                 Some problem \<Rightarrow> Inl (InvalidRequest (refusal_text problem))
               | None \<Rightarrow> Inr ()))"

section \<open>State\<close>

record in_flight =
  if_output :: scheduler_output
  if_rows :: "launched_row list"
  if_pending :: pending

record 'r model_calls =
  kv_connector_step :: "kv_connector_metadata \<Rightarrow> 'r \<Rightarrow> (kv_connector_output \<times> 'r) res"
  run :: "scheduler \<Rightarrow> nat list \<Rightarrow> 'r \<Rightarrow> (pending \<times> 'r) res"
  runner_step_kind :: "'r \<Rightarrow> string"

record engine_config =
  ec_vocab_size :: int
  ec_max_model_len :: int
  ec_kv_transfer :: "kv_transfer_config option"
  ec_async_scheduling :: bool
  ec_speculative :: "speculative_config option"

record ('r, 'ds) llm_engine =
  e_config :: engine_config
  e_scheduler :: scheduler
  e_runner :: 'r
  e_metrics :: metrics
  e_output_processor :: "'ds output_processor option"
  e_in_flight :: "in_flight option"
  e_next_seq_id :: nat

datatype prompt = Str string | Ids "int list"

definition encode_prompt :: "(string \<Rightarrow> int list) \<Rightarrow> prompt \<Rightarrow> int list" where
  "encode_prompt encode p = (case p of Str s \<Rightarrow> encode s | Ids ts \<Rightarrow> ts)"

definition e_perf_counter :: "('r, 'ds) llm_engine \<Rightarrow> rat \<times> ('r, 'ds) llm_engine" where
  "e_perf_counter e = (let (t, s) = perf_counter (e_scheduler e) in (t, e\<lparr>e_scheduler := s\<rparr>))"

section \<open>Requests\<close>

text \<open>
  A refusal leaves the engine as it was, but for the sequence number the refused \<open>Sequence\<close> took.
\<close>

definition add_request ::
  "seq_class \<Rightarrow> ((string, json) dict \<Rightarrow> string option) \<Rightarrow> (string \<Rightarrow> int list) \<Rightarrow> prompt \<Rightarrow> sampling_params \<Rightarrow> string option \<Rightarrow>
     ('r, 'ds) llm_engine \<Rightarrow> string res \<times> ('r, 'ds) llm_engine" where
  "add_request cls validate encode p sp rid e =
     (let toks = encode_prompt encode p; c = e_config e
      in case validate_request validate toks sp (ec_vocab_size c) (ec_max_model_len c) (ec_kv_transfer c) of
           Inl err \<Rightarrow> (Inl err, e)
         | Inr _ \<Rightarrow>
             let (now, e1) = e_perf_counter e; sid = e_next_seq_id e1; e2 = e1\<lparr>e_next_seq_id := Suc sid\<rparr>
             in case new_sequence cls sid now toks sp rid of
                  Inl err \<Rightarrow> (Inl err, e2)
                | Inr q \<Rightarrow>
                    (case sch_add q (e_scheduler e2) of
                       Inl err \<Rightarrow> (Inl err, e2)
                     | Inr s \<Rightarrow>
                         let e3 = e2\<lparr>e_scheduler := s, e_metrics := record_received (e_metrics e2)\<rparr>;
                             e4 = e3\<lparr>e_output_processor :=
                                     map_option (op_add_request (request_id q) toks (skip_special_tokens q) None)
                                       (e_output_processor e3)\<rparr>
                         in (Inr (request_id q), e4)))"

text \<open>\<open>_output\<close> and \<open>_dropped\<close>.\<close>

definition step_output :: "sequence \<Rightarrow> request_output" where
  "step_output q = \<lparr>ro_request_id = request_id q, ro_token_ids = slice_from (token_ids q) (- num_new_tokens q),
     ro_text = [], ro_finished = is_finished q, ro_finish_reason = finish_reason q,
     ro_metrics = (if is_finished q then Some (metrics q) else None), ro_kv_transfer_params = kv_transfer_result q\<rparr>"

definition dropped_output :: "sequence \<Rightarrow> request_output" where
  "dropped_output q = \<lparr>ro_request_id = request_id q, ro_token_ids = [], ro_text = [], ro_finished = True,
     ro_finish_reason = finish_reason q, ro_metrics = Some (metrics q), ro_kv_transfer_params = None\<rparr>"

definition abort_request :: "string \<Rightarrow> string \<Rightarrow> ('r, 'ds) llm_engine \<Rightarrow> (('r, 'ds) llm_engine \<times> bool) res" where
  "abort_request rid reason e =
     (let seq = map_of (seqs (e_scheduler e)) rid
      in bindE (abort rid reason (e_scheduler e)) (\<lambda>(s, aborted).
         let e1 = e\<lparr>e_scheduler := s,
                    e_output_processor := map_option (\<lambda>p. snd (op_abort_request rid p)) (e_output_processor e)\<rparr>
         in if \<not> aborted then Inr (e1, False)
            else case seq of
                   None \<Rightarrow> Inl AssertionError
                 | Some i \<Rightarrow> Inr (e1\<lparr>e_metrics := record_aborted (dropped_output (objs s i)) (e_metrics e1)\<rparr>, True)))"

section \<open>Steps\<close>

definition launch_kv :: "seq_class \<Rightarrow> 'r model_calls \<Rightarrow> scheduler_output \<Rightarrow> ('r, 'ds) llm_engine \<Rightarrow> ('r, 'ds) llm_engine res" where
  "launch_kv cls calls out e =
     (case kv_metadata out of
        None \<Rightarrow> Inr e
      | Some meta \<Rightarrow>
          bindE (kv_connector_step calls meta (e_runner e)) (\<lambda>(kv, r).
          bindE (update_from_kv_connector_output cls kv (e_scheduler e)) (\<lambda>s.
          Inr (e\<lparr>e_runner := r, e_scheduler := s, e_metrics := record_kv_transfer kv (e_metrics e)\<rparr>))))"

definition launch_model :: "seq_class \<Rightarrow> 'r model_calls \<Rightarrow> scheduler_output \<Rightarrow> ('r, 'ds) llm_engine \<Rightarrow> ('r, 'ds) llm_engine res" where
  "launch_model cls calls out e =
     (if \<not> output_bool out then Inr e
      else bindE (run calls (e_scheduler e) (scheduled out) (e_runner e)) (\<lambda>(pend, r).
           bindE (advance cls (scheduled out) (e_scheduler e)) (\<lambda>(s, rows).
           Inr (e\<lparr>e_runner := r, e_scheduler := s,
                  e_in_flight := Some \<lparr>if_output = out, if_rows = rows, if_pending = pend\<rparr>\<rparr>))))"

definition launch :: "seq_class \<Rightarrow> 'r model_calls \<Rightarrow> ('r, 'ds) llm_engine \<Rightarrow> (('r, 'ds) llm_engine \<times> scheduler_output) res" where
  "launch cls calls e =
     bindE (schedule cls (e_scheduler e)) (\<lambda>(s, out).
     bindE (launch_kv cls calls out (e\<lparr>e_scheduler := s\<rparr>)) (\<lambda>e1.
     bindE (launch_model cls calls out e1) (\<lambda>e2. Inr (e2, out))))"

text \<open>
  What \<open>_reconcile\<close> hands to the scheduler.  Without speculation the pending values are single
  tokens, with it each row is split.
\<close>

definition drained :: "engine_config \<Rightarrow> pending \<Rightarrow> (sampled list \<times> int list list option) res" where
  "drained c p =
     (case (ec_speculative c, p) of
        (None, Plain ts) \<Rightarrow> Inr (map OneToken ts, None)
      | (None, Speculative rows) \<Rightarrow> Inr (map Tokens rows, None)
      | (Some sc, Speculative rows) \<Rightarrow>
          (let (toks, drafts) = split_sampled rows (spec_num_speculative_tokens sc) in Inr (map Tokens toks, Some drafts))
      | (Some sc, Plain ts) \<Rightarrow> if ts = [] then Inr ([], Some []) else Inl TypeError)"

definition engine_reconcile ::
  "seq_class \<Rightarrow> in_flight option \<Rightarrow> ('r, 'ds) llm_engine \<Rightarrow> (('r, 'ds) llm_engine \<times> nat list) res" where
  "engine_reconcile cls draining e =
     (case draining of
        None \<Rightarrow> Inr (e, [])
      | Some f \<Rightarrow>
          bindE (drained (e_config e) (if_pending f)) (\<lambda>(toks, drafts).
          let m = (if ec_speculative (e_config e) = None then e_metrics e
                   else record_spec_decoding (if_rows f) (map new_tokens toks) (e_metrics e))
          in bindE (reconcile cls (if_rows f) toks drafts (e_scheduler e)) (\<lambda>(s, stepped).
             Inr (e\<lparr>e_scheduler := s, e_metrics := m\<rparr>, stepped))))"

text \<open>\<open>async_scheduling\<close> launches the next step before it processes the previous one's results.\<close>

definition overlap ::
  "seq_class \<Rightarrow> 'r model_calls \<Rightarrow> in_flight option \<Rightarrow> ('r, 'ds) llm_engine \<Rightarrow>
     (('r, 'ds) llm_engine \<times> scheduler_output \<times> nat list) res" where
  "overlap cls calls draining e =
     (if ec_async_scheduling (e_config e) then
        bindE (launch cls calls e) (\<lambda>(e1, out).
        bindE (engine_reconcile cls draining e1) (\<lambda>(e2, stepped). Inr (e2, out, stepped)))
      else
        bindE (engine_reconcile cls draining e) (\<lambda>(e1, stepped).
        bindE (launch cls calls e1) (\<lambda>(e2, out). Inr (e2, out, stepped))))"

definition step_outputs :: "scheduler \<Rightarrow> nat list \<Rightarrow> nat list \<Rightarrow> request_output list" where
  "step_outputs s stepped drops =
     map (\<lambda>i. step_output (objs s i)) stepped @
     map (\<lambda>i. dropped_output (objs s i)) (filter (\<lambda>i. i \<notin> set stepped) drops)"

definition engine_step ::
  "seq_class \<Rightarrow> 'r model_calls \<Rightarrow> ('r, 'ds) llm_engine \<Rightarrow>
     (('r, 'ds) llm_engine \<times> request_output list \<times> int \<times> int) res" where
  "engine_step cls calls e =
     (let (started, e1) = e_perf_counter e; draining = e_in_flight e1
      in bindE (overlap cls calls draining (e1\<lparr>e_in_flight := None\<rparr>)) (\<lambda>(e2, out, stepped).
         let outs = step_outputs (e_scheduler e2) stepped (dropped out);
             (now, e3) = e_perf_counter e2;
             e4 = e3\<lparr>e_metrics := record_step (e_scheduler e3) out outs (now - started)
                       (runner_step_kind calls (e_runner e3)) (e_metrics e3)\<rparr>
         in bindE (case e_output_processor e4 of
                     None \<Rightarrow> Inr (e4, outs)
                   | Some p \<Rightarrow> bindE (process_outputs outs p) (\<lambda>(p', outs'). Inr (e4\<lparr>e_output_processor := Some p'\<rparr>, outs')))
              (\<lambda>(e5, outs'). Inr (e5, outs', num_prefill_tokens out, num_decode_tokens out))))"

definition engine_is_finished :: "('r, 'ds) llm_engine \<Rightarrow> bool" where
  "engine_is_finished e \<longleftrightarrow> e_in_flight e = None \<and> sch_is_finished (e_scheduler e)"

section \<open>Generation\<close>

text \<open>
  \<open>generate\<close>.  A single set of sampling parameters is repeated.  When a request is refused, those
  added before it are aborted and the refusal is raised.  \<open>collected\<close> is a dict in the order of the
  prompts; the loop ends when the engine is finished, \<open>None\<close> is a loop that did not.  The progress bar
  is left out.
\<close>

datatype sampling_arg = OneSp sampling_params | ManySp "sampling_params list"

definition sampling_list :: "nat \<Rightarrow> sampling_arg \<Rightarrow> sampling_params list" where
  "sampling_list n a = (case a of OneSp sp \<Rightarrow> replicate n sp | ManySp sps \<Rightarrow> sps)"

fun add_all ::
  "(prompt \<Rightarrow> sampling_params \<Rightarrow> 'e \<Rightarrow> string res \<times> 'e) \<Rightarrow> (prompt \<times> sampling_params) list \<Rightarrow> string list \<Rightarrow> 'e \<Rightarrow>
     py_error option \<times> string list \<times> 'e" where
  "add_all add [] rids e = (None, rids, e)"
| "add_all add ((p, sp) # rest) rids e =
     (case add p sp e of
        (Inl err, e') \<Rightarrow> (Some err, rids, e')
      | (Inr rid, e') \<Rightarrow> add_all add rest (rids @ [rid]) e')"

fun abort_all :: "string list \<Rightarrow> ('r, 'ds) llm_engine \<Rightarrow> ('r, 'ds) llm_engine res" where
  "abort_all [] e = Inr e"
| "abort_all (rid # rids) e = bindE (abort_request rid ''abort'' e) (\<lambda>(e', _). abort_all rids e')"

type_synonym collected = "(string, string \<times> int list) dict"

definition collect_output :: "request_output \<Rightarrow> collected \<Rightarrow> collected res" where
  "collect_output out d =
     (case map_of d (ro_request_id out) of
        None \<Rightarrow> Inl KeyError
      | Some (text, toks) \<Rightarrow> Inr (dict_put d (ro_request_id out) (text @ ro_text out, toks @ ro_token_ids out)))"

partial_function (option) generate_loop ::
  "seq_class \<Rightarrow> 'r model_calls \<Rightarrow> collected \<Rightarrow> ('r, 'ds) llm_engine \<Rightarrow> ((collected \<times> ('r, 'ds) llm_engine) res) option" where
  "generate_loop cls calls d e =
     (if engine_is_finished e then Some (Inr (d, e))
      else case engine_step cls calls e of
             Inl err \<Rightarrow> Some (Inl err)
           | Inr (e', outs, num_prefill, num_decode) \<Rightarrow>
               (case foldE collect_output outs d of
                  Inl err \<Rightarrow> Some (Inl err)
                | Inr d' \<Rightarrow> generate_loop cls calls d' e'))"

definition generate ::
  "seq_class \<Rightarrow> 'r model_calls \<Rightarrow> ((string, json) dict \<Rightarrow> string option) \<Rightarrow> (string \<Rightarrow> int list) \<Rightarrow> prompt list \<Rightarrow> sampling_arg \<Rightarrow>
     ('r, 'ds) llm_engine \<Rightarrow> (((string \<times> int list) list \<times> ('r, 'ds) llm_engine) res) option" where
  "generate cls calls validate encode prompts sps_arg e =
     (let sps = sampling_list (length prompts) sps_arg
      in if length sps \<noteq> length prompts then Some (Inl ValueError)
         else case add_all (\<lambda>p sp. add_request cls validate encode p sp None) (zip prompts sps) [] e of
                (Some err, rids, e1) \<Rightarrow> Some (bindE (abort_all rids e1) (\<lambda>_. Inl err))
              | (None, rids, e1) \<Rightarrow>
                  map_option (\<lambda>r. bindE r (\<lambda>(d, e2). Inr (map (\<lambda>rid. the (map_of d rid)) rids, e2)))
                    (generate_loop cls calls (map (\<lambda>rid. (rid, ([], []))) rids) e1))"

end
