(* ===== verification/Scheduler_Ids.thy ===== *)
theory Scheduler_Ids
  imports Scheduler_Machine
begin

text \<open>
  Which sequence is which object: every operation of the scheduler leaves the number of every
  object as it is, so that a number no object carries yet is free for the next request.
\<close>

section \<open>Numbers are kept\<close>

definition sids :: "scheduler \<Rightarrow> nat \<Rightarrow> nat" where
  "sids s = (\<lambda>j. seq_id (objs s j))"

lemma sids_simps [simp]:
  "sids (put_seq i q s) = (sids s)(i := seq_id q)" "sids (s\<lparr>running := r\<rparr>) = sids s" "sids (s\<lparr>waiting := w\<rparr>) = sids s"
  "sids (s\<lparr>recving := v\<rparr>) = sids s" "sids (s\<lparr>sending := v\<rparr>) = sids s" "sids (s\<lparr>seqs := d\<rparr>) = sids s"
  "sids (s\<lparr>block_mgr := bm\<rparr>) = sids s" "sids (s\<lparr>connector := c\<rparr>) = sids s" "sids (s\<lparr>ticks := n\<rparr>) = sids s"
  by (auto simp: sids_def put_seq_def)

lemma sids_apply [simp]: "seq_id (objs s i) = sids s i"
  by (simp add: sids_def)

lemma sids_upd: "(\<And>q. seq_id (f q) = seq_id q) \<Longrightarrow> sids (upd_seq i f s) = sids s"
  by (simp add: upd_seq_def)

lemma foldE_same: "(\<And>x a b. f x a = Inr b \<Longrightarrow> g b = g a) \<Longrightarrow> foldE f xs a = Inr b \<Longrightarrow> g b = g a"
  by (induction xs arbitrary: a) (auto simp: bindE_eq_Inr)

section \<open>The block manager\<close>

lemma deallocate_id: "deallocate bm q = Inr (bm', q') \<Longrightarrow> seq_id q' = seq_id q"
  by (auto simp: deallocate_def bindE_eq_Inr)

lemma allocate_one_id:
  "allocate_new k x = Inr y \<Longrightarrow> seq_id (snd y) = seq_id (snd x)" "allocate_cached k x = Inr y \<Longrightarrow> seq_id (snd y) = seq_id (snd x)"
  by (auto simp: allocate_new_def allocate_cached_def bindE_eq_Inr split: prod.splits)

lemma may_append_id: "may_append bm q la = Inr (bm', q') \<Longrightarrow> seq_id q' = seq_id q"
  using foldE_same [of allocate_new "\<lambda>x. seq_id (snd x)" _ "(bm, q)" "(bm', q')", OF allocate_one_id(1)] by (simp add: may_append_def)

lemma allocate_id:
  assumes "allocate bm q c la = Inr (bm', q')"
  shows "seq_id q' = seq_id q"
proof -
  obtain bm1 q1 bm2 q2 where "foldE allocate_cached (py_range 0 c) (bm, q) = Inr (bm1, q1)"
    "foldE allocate_new (py_range c (bm_num_blocks bm q1 la)) (bm1, q1) = Inr (bm2, q2)" "seq_id q' = seq_id q2"
    using assms by (auto simp: allocate_def bindE_eq_Inr)
  then show ?thesis
    using foldE_same [of allocate_cached "\<lambda>x. seq_id (snd x)", OF allocate_one_id(2)]
      foldE_same [of allocate_new "\<lambda>x. seq_id (snd x)", OF allocate_one_id(1)] by fastforce
qed

lemma hash_blocks_id: "hash_blocks cls bm q n = Inr (bm', q') \<Longrightarrow> seq_id q' = seq_id q"
  by (auto simp: hash_blocks_def Let_def bindE_eq_Inr split: if_splits)

lemma with_bm_sids:
  assumes "with_bm f i s = Inr s'" "\<And>bm q bm' q'. f bm q = Inr (bm', q') \<Longrightarrow> seq_id q' = seq_id q"
  shows "sids s' = sids s"
  using assms(1) by (auto simp: with_bm_def bindE_eq_Inr dest!: assms(2))

lemma with_bm_ids:
  "with_bm deallocate i s = Inr s' \<Longrightarrow> sids s' = sids s"
  "with_bm (\<lambda>bm q. may_append bm q la) i s = Inr s' \<Longrightarrow> sids s' = sids s"
  "with_bm (\<lambda>bm q. allocate bm q c la) i s = Inr s' \<Longrightarrow> sids s' = sids s"
  "with_bm (\<lambda>bm q. hash_blocks cls bm q (num_cached_tokens q)) i s = Inr s' \<Longrightarrow> sids s' = sids s"
  by (erule with_bm_sids, erule deallocate_id may_append_id allocate_id hash_blocks_id)+

section \<open>Scheduling\<close>

lemma finish_sids: "sids (finish i reason s) = sids s"
  by (simp add: finish_def perf_counter_def sids_upd)

lemma drop_seq_sids: "drop_seq i reason s = Inr s' \<Longrightarrow> sids s' = sids s"
  by (auto simp: drop_seq_def Let_def finish_sids sids_upd drop_pending_def split: if_splits)

lemma drop_to_sids: "drop_to i reason out s = Inr (s', out') \<Longrightarrow> sids s' = sids s"
  by (auto simp: drop_to_def bindE_eq_Inr dest: drop_seq_sids)

lemma preempt_sids: "preempt i out s = Inr (s', out') \<Longrightarrow> sids s' = sids s"
  by (auto simp: preempt_def bindE_eq_Inr sids_upd drop_pending_def dest!: with_bm_ids(1))

lemma running_remove_sids: "running_remove i s = Inr s' \<Longrightarrow> sids s' = sids s"
  by (auto simp: running_remove_def split: if_splits)

lemma make_room_sids: "make_room i la still out s = Inr (b, still', s', out') \<Longrightarrow> sids s' = sids s"
proof (induction i la still out s arbitrary: b still' s' out' rule: make_room.induct)
  case (1 i la still out s)
  show ?case
  proof (cases "can_append (block_mgr s) (objs s i) la \<or> running s = []")
    case True
    with "1.prems" show ?thesis
      by (subst (asm) make_room.simps)
         (auto simp: bindE_eq_Inr split: if_splits dest!: preempt_sids with_bm_ids(1) drop_to_sids)
  next
    case False
    with "1.prems" obtain v s1 s2 out2 where v: "w_victim (key_of s) (waiting s) (running s) = Inr v"
      and s1: "running_remove v s = Inr s1" and s2: "preempt v out s1 = Inr (s2, out2)"
      and rest: "make_room i la still out2 s2 = Inr (b, still', s', out')"
      by (subst (asm) make_room.simps) (auto simp: bindE_eq_Inr)
    show ?thesis
      using "1.IH" [OF _ _ v s1 s2 refl rest] False running_remove_sids [OF s1] preempt_sids [OF s2] by simp
  qed
qed

lemma schedule_seq_sids: "schedule_seq i budget out s = (n, s', out') \<Longrightarrow> sids s' = sids s"
  by (auto simp: schedule_seq_def Let_def perf_counter_def sids_upd split: if_splits)

lemma serve_sids: "serve i budget still out s = Inr (b, still', s', out') \<Longrightarrow> sids s' = sids s"
  by (auto simp: serve_def split: prod.splits dest: schedule_seq_sids)

lemma run_one_sids:
  assumes "run_one i budget still out s = Inr (b, still', s', out')"
  shows "sids s' = sids s"
proof -
  let ?s = "upd_seq i (trim_drafts budget) s"
  let ?la = "py_len (spec_token_ids (objs ?s i)) + num_lookahead_tokens ?s"
  show ?thesis
  proof (cases "budget \<le> 0 \<or> max_num_seqs s \<le> py_len (scheduled out) \<or>
      max_tokens (objs s i) \<le> num_planned_tokens (objs s i) - num_prompt_tokens (objs s i) \<or> is_prefill (objs s i)")
    case True
    then show ?thesis using assms serve_sids [of i budget still out s] by (fastforce simp: run_one_def Let_def split: if_splits)
  next
    case False
    with assms obtain ok still2 s2 out2 where m: "make_room i ?la still out ?s = Inr (ok, still2, s2, out2)"
      and r: "(if \<not> ok then Inr (budget, still2, s2, out2)
        else bindE (with_bm (\<lambda>bm q. may_append bm q ?la) i s2) (serve i budget still2 out2)) = Inr (b, still', s', out')"
      by (auto simp: run_one_def Let_def)
    have "sids s2 = sids s" using make_room_sids [OF m] by (simp add: sids_upd trim_drafts_def)
    moreover have "sids s' = sids s2"
    proof (cases ok)
      case True
      then obtain s3 where "with_bm (\<lambda>bm q. may_append bm q ?la) i s2 = Inr s3" "serve i budget still2 out2 s3 = Inr (b, still', s', out')"
        using r by (auto simp only: bindE_eq_Inr if_True not_True_eq_False if_False)
      then show ?thesis using with_bm_ids(2) serve_sids by metis
    qed (use r in simp)
    ultimately show ?thesis by simp
  qed
qed

lemma run_loop_sids: "run_loop budget still out s = Inr (b, still', s', out') \<Longrightarrow> sids s' = sids s"
proof (induction budget still out s arbitrary: b still' s' out' rule: run_loop.induct)
  case (1 budget still out s)
  show ?case
  proof (cases "running s")
    case Nil
    then show ?thesis using "1.prems" by (simp add: run_loop.simps [of budget])
  next
    case (Cons i rest)
    then obtain b1 st1 s1 o1 where one: "run_one i budget still out (s\<lparr>running := rest\<rparr>) = Inr (b1, st1, s1, o1)"
      and more: "run_loop b1 st1 o1 s1 = Inr (b, still', s', out')"
      using "1.prems" by (auto simp: run_loop.simps [of budget] bindE_eq_Inr)
    show ?thesis using "1.IH" [OF Cons one refl refl refl more] run_one_sids [OF one] by simp
  qed
qed

lemma admit_run_sids: "admit_run i budget out s = Inr (n, s', out') \<Longrightarrow> sids s' = sids s"
  by (auto simp: admit_run_def sids_upd split: prod.splits dest!: schedule_seq_sids)

lemma matched_tokens_id: "get_num_new_matched_tokens ns q n = Inr (k, a, q') \<Longrightarrow> seq_id q' = seq_id q"
  by (auto simp: get_num_new_matched_tokens_def bindE_eq_Inr clear_remote_prefill_def split: if_splits)

lemma after_alloc_id: "update_state_after_alloc ns q n = Inr (ns', q') \<Longrightarrow> seq_id q' = seq_id q"
  by (auto simp: update_state_after_alloc_def bindE_eq_Inr Let_def clear_remote_prefill_def)

lemma admit_load_sids: "admit_load i k a ns out s = Inr (n, s', out') \<Longrightarrow> sids s' = sids s"
  by (auto simp: admit_load_def bindE_eq_Inr Let_def sids_upd dest!: after_alloc_id)

lemma admit_sids: "admit cls i c budget out s = Inr (n, s', out') \<Longrightarrow> sids s' = sids s"
  by (auto simp: admit_def bindE_eq_Inr Let_def split: option.splits if_splits
      dest!: with_bm_ids(3) admit_run_sids admit_load_sids matched_tokens_id)

lemma admit_loop_sids: "admit_loop cls budget out s = Inr (s', out') \<Longrightarrow> sids s' = sids s"
proof (induction cls budget out s arbitrary: s' out' rule: admit_loop.induct)
  case (1 cls budget out s)
  show ?case
  proof (cases "0 < w_len (waiting s) \<and> py_len (scheduled out) < max_num_seqs s \<and> 0 < budget")
    case True
    then obtain i where i: "w_peek (waiting s) = Inr i" using "1.prems" by (auto simp: admit_loop.simps [of cls] bindE_eq_Inr)
    show ?thesis
    proof (cases "never_fits s i")
      case nf: True
      then obtain j w s1 o1 where "w_pop (waiting s) = Inr (j, w)" "drop_to i ''capacity'' out (s\<lparr>waiting := w\<rparr>) = Inr (s1, o1)"
        "admit_loop cls budget o1 s1 = Inr (s', out')"
        using "1.prems" True i by (auto simp: admit_loop.simps [of cls budget out] bindE_eq_Inr)
      then show ?thesis using "1.IH"(1) [OF True i nf] drop_to_sids by fastforce
    next
      case nf: False
      then obtain c where c: "can_allocate cls (block_mgr s) (objs s i) (num_lookahead_tokens s) = Inr c"
        using "1.prems" True i by (auto simp: admit_loop.simps [of cls budget out] bindE_eq_Inr)
      show ?thesis
      proof (cases "c = -1")
        case False
        then obtain n s1 o1 where a: "admit cls i c budget out s = Inr (n, s1, o1)" "admit_loop cls (budget - n) o1 s1 = Inr (s', out')"
          using "1.prems" True i nf c by (auto simp: admit_loop.simps [of cls budget out] bindE_eq_Inr)
        then show ?thesis using "1.IH"(2) [OF True i nf c False a(1) refl refl a(2)] admit_sids [OF a(1)] by simp
      qed (use "1.prems" True i nf c in \<open>simp add: admit_loop.simps [of cls budget out]\<close>)
    qed
  qed (use "1.prems" in \<open>auto simp: admit_loop.simps [of cls budget out] split: if_splits\<close>)
qed

lemma whole_loop_sids: "whole_loop cls budget out s = Inr (s', out') \<Longrightarrow> sids s' = sids s"
proof (induction cls budget out s arbitrary: s' out' rule: whole_loop.induct)
  case (1 cls budget out s)
  show ?case
  proof (cases "0 < w_len (waiting s) \<and> py_len (scheduled out) < max_num_seqs s")
    case True
    then obtain i where i: "w_peek (waiting s) = Inr i" using "1.prems" by (auto simp: whole_loop.simps [of cls] bindE_eq_Inr)
    show ?thesis
    proof (cases "never_fits s i")
      case nf: True
      then obtain j w s1 o1 where "w_pop (waiting s) = Inr (j, w)" "drop_to i ''capacity'' out (s\<lparr>waiting := w\<rparr>) = Inr (s1, o1)"
        "whole_loop cls budget o1 s1 = Inr (s', out')"
        using "1.prems" True i by (auto simp: whole_loop.simps [of cls budget out] bindE_eq_Inr)
      then show ?thesis using "1.IH"(1) [OF True i nf] drop_to_sids by fastforce
    next
      case nf: False
      then obtain c where c: "can_allocate cls (block_mgr s) (objs s i) (num_lookahead_tokens s) = Inr c"
        using "1.prems" True i by (auto simp: whole_loop.simps [of cls budget out] bindE_eq_Inr)
      define n where "n = (if loads_remotely s i then 0 else num_tokens (objs s i) - c * sch_block_size s)"
      show ?thesis
      proof (cases "c = -1")
        case c1: False
        show ?thesis
        proof (cases "max_num_batched_tokens s < n")
          case big: True
          then obtain j w s1 o1 where "w_pop (waiting s) = Inr (j, w)" "drop_to i ''capacity'' out (s\<lparr>waiting := w\<rparr>) = Inr (s1, o1)"
            "whole_loop cls budget o1 s1 = Inr (s', out')"
            using "1.prems" True i nf c c1 by (auto simp: whole_loop.simps [of cls budget out] bindE_eq_Inr n_def)
          then show ?thesis using "1.IH"(2) [OF True i nf c c1 n_def big] drop_to_sids by fastforce
        next
          case big: False
          show ?thesis
          proof (cases "budget < n")
            case False
            then obtain m s1 o1 where a: "admit cls i c budget out s = Inr (m, s1, o1)" "whole_loop cls (budget - m) o1 s1 = Inr (s', out')"
              using "1.prems" True i nf c c1 big by (auto simp: whole_loop.simps [of cls budget out] bindE_eq_Inr n_def)
            then show ?thesis using "1.IH"(3) [OF True i nf c c1 n_def big False a(1) refl refl a(2)] admit_sids [OF a(1)] by simp
          qed (use "1.prems" True i nf c c1 big in \<open>simp add: whole_loop.simps [of cls budget out] n_def\<close>)
        qed
      qed (use "1.prems" True i nf c in \<open>simp add: whole_loop.simps [of cls budget out]\<close>)
    qed
  qed (use "1.prems" in \<open>auto simp: whole_loop.simps [of cls budget out] split: if_splits\<close>)
qed

lemma meta_sids: "sids (fst (with_connector_meta s out)) = sids s"
  by (auto simp: with_connector_meta_def build_connector_meta_def split: option.splits)

lemma schedule_mixed_sids: "schedule_mixed cls drops s = Inr (s', out) \<Longrightarrow> sids s' = sids s"
  using meta_sids [of s] by (auto simp: schedule_mixed_def Let_def bindE_eq_Inr split: if_splits dest!: run_loop_sids admit_loop_sids)
    (metis fst_conv meta_sids sids_simps(2))+

lemma schedule_sids: "schedule cls s = Inr (s', out) \<Longrightarrow> sids s' = sids s"
  by (auto simp: schedule_def schedule_whole_prompts_def bindE_eq_Inr split: if_splits dest!: whole_loop_sids schedule_mixed_sids)
    (metis fst_conv meta_sids)

section \<open>Results\<close>

lemma advance_one_sids: "advance_one cls i x = Inr y \<Longrightarrow> sids (fst y) = sids (fst x)"
  by (auto simp: advance_one_def bindE_eq_Inr Let_def sids_upd reserve_token_def split: if_splits prod.splits dest!: with_bm_ids(4))

lemma advance_sids: "advance cls ids s = Inr (s', rows) \<Longrightarrow> sids s' = sids s"
  using foldE_same [of "advance_one cls" "\<lambda>x. sids (fst x)" ids "(s, [])" "(s', rows)", OF advance_one_sids] by (simp add: advance_def)

lemma extend_hashes_id: "extend_block_hashes cls q = Inr q' \<Longrightarrow> seq_id q' = seq_id q"
proof (unfold extend_block_hashes_def, goal_cases)
  case 1
  have "seq_id q' = seq_id q" if "foldE (\<lambda>i s. bindE (if block_hashes s \<noteq> [] then py_get (block_hashes s) (-1) else Inr (-1)) (\<lambda>prefix.
      bindE (block cls s i) (\<lambda>b. Inr (s\<lparr>block_hashes := block_hashes s @ [algo b prefix]\<rparr>)))) xs q = Inr q'" for algo xs
    by (rule foldE_same [OF _ that]) (auto simp: bindE_eq_Inr)
  then show ?case using 1 by (auto simp: bindE_eq_Inr split: if_splits)
qed

lemma commit_token_id: "commit_token cls t q = Inr q' \<Longrightarrow> seq_id q' = seq_id q"
  by (auto simp: commit_token_def bindE_eq_Inr dest!: extend_hashes_id)

lemma commit_tokens_id: "commit_tokens cls e ts q = Inr (q', r) \<Longrightarrow> seq_id q' = seq_id q"
proof (induction ts arbitrary: q)
  case (Cons t ts)
  then obtain q1 where q1: "commit_token cls t q = Inr q1" by (auto simp: bindE_eq_Inr)
  show ?case
    using Cons.prems Cons.IH [of "q1\<lparr>num_new_tokens := num_new_tokens q1 + 1\<rparr>"] commit_token_id [OF q1]
    by (auto simp: q1 Let_def split: option.splits)
qed simp

lemma free_seq_sids: "free_seq i s = Inr s' \<Longrightarrow> sids s' = sids s"
  by (auto simp: free_seq_def Let_def sids_upd split: option.splits prod.splits if_splits dest!: with_bm_ids(1))

lemma settle_row_sids: "settle_row drafts k i reason s = Inr s' \<Longrightarrow> sids s' = sids s"
  by (auto simp: settle_row_def bindE_eq_Inr sids_upd drop_pending_def split: option.splits if_splits
      dest!: running_remove_sids drop_seq_sids free_seq_sids)

lemma stamp_sids: "sids (stamp_first_token i s) = sids s"
  by (simp add: stamp_first_token_def perf_counter_def sids_upd)

lemma reconcile_row_sids: "reconcile_row cls toks drafts x y = Inr z \<Longrightarrow> sids (fst z) = sids (fst y)"
  by (auto simp: reconcile_row_def bindE_eq_Inr Let_def stamp_sids sids_upd split: prod.splits if_splits
      dest!: settle_row_sids commit_tokens_id)

lemma reconcile_sids: "reconcile cls rows toks drafts s = Inr (s', st) \<Longrightarrow> sids s' = sids s"
  using foldE_same [of "reconcile_row cls toks drafts" "\<lambda>x. sids (fst x)" _ "(s, [])" "(s', st)", OF reconcile_row_sids]
  by (simp add: reconcile_def)

lemma abort_sids: "abort rid reason s = Inr (s', b) \<Longrightarrow> sids s' = sids s"
  by (auto simp: abort_def bindE_eq_Inr Let_def finish_sids sids_upd drop_pending_def split: option.splits if_splits
      dest!: free_seq_sids running_remove_sids)

lemma finish_send_sids: "finish_send rid s = Inr s' \<Longrightarrow> sids s' = sids s"
  by (auto simp: finish_send_def split: option.splits dest!: with_bm_ids(1))

lemma finish_recv_sids: "finish_recv cls fin rid s = Inr s' \<Longrightarrow> sids s' = sids s"
  by (auto simp: finish_recv_def bindE_eq_Inr Let_def sids_upd split: if_splits dest!: with_bm_ids(1) with_bm_ids(4))

lemma update_from_kv_sids: "update_from_kv_connector_output cls kv s = Inr s' \<Longrightarrow> sids s' = sids s"
  using foldE_same [of finish_send sids, OF finish_send_sids] foldE_same [of "finish_recv cls (finished_recving kv)" sids, OF finish_recv_sids]
  by (fastforce simp: update_from_kv_connector_output_def bindE_eq_Inr)

end
