(* ===== verification/Engine_Machine.thy ===== *)
theory Engine_Machine
  imports Llm_Engine Scheduler_Ids
begin

text \<open>
  The engine over the scheduler's machine.  \<open>engine_reach\<close> are the states a caller reaches by adding
  and aborting requests and stepping; each of them stands for a state of the scheduler's machine,
  with the rows of the step in flight.  The locale \<open>model_worker\<close> is what the engine relies on of the
  model runner: a launched step brings one sampled value per row the scheduler waits for.
\<close>

section \<open>Reachable engines\<close>

definition in_flight_rows :: "in_flight option \<Rightarrow> launched_row list" where
  "in_flight_rows f = (case f of None \<Rightarrow> [] | Some x \<Rightarrow> if_rows x)"

text \<open>The rows of the step launched last, when \<open>rows0\<close> are those of the one before.\<close>

definition last_rows :: "launched_row list \<Rightarrow> in_flight option \<Rightarrow> launched_row list" where
  "last_rows rows0 f = (case f of None \<Rightarrow> rows0 | Some x \<Rightarrow> if_rows x)"

lemma last_rows_simps [simp]: "last_rows rows0 None = rows0" "last_rows rows0 (Some x) = if_rows x"
  by (simp_all add: last_rows_def)

text \<open>The parameters of a request, as \<open>SamplingParams\<close> and the validation of a transfer leave them.\<close>

definition params_ok :: "bool \<Rightarrow> sampling_params \<Rightarrow> bool" where
  "params_ok kv sp \<longleftrightarrow> 0 < sp_max_tokens sp \<and>
     (kv \<longrightarrow> params_ask (sp_kv_transfer_params sp) ''do_remote_prefill'' \<longrightarrow>
        (case sp_kv_transfer_params sp of None \<Rightarrow> False | Some p \<Rightarrow> remote_prefill p))"

lemma request_ok_params: "request_ok kv toks sp \<longleftrightarrow> toks \<noteq> [] \<and> params_ok kv sp"
  by (auto simp: request_ok_def params_ok_def)

text \<open>The scheduler a step launches from: with asynchronous scheduling the current one.\<close>

definition launch_scheduler :: "seq_class \<Rightarrow> ('r, 'ds) llm_engine \<Rightarrow> scheduler" where
  "launch_scheduler cls e =
     (let e1 = snd (e_perf_counter e)
      in if ec_async_scheduling (e_config e) then e_scheduler e1
         else case engine_reconcile cls (e_in_flight e1) (e1\<lparr>e_in_flight := None\<rparr>) of
                Inl _ \<Rightarrow> e_scheduler e1 | Inr (e2, _) \<Rightarrow> e_scheduler e2)"

text \<open>The connectors report only loads that are under way, each once.\<close>

definition reports_ok :: "seq_class \<Rightarrow> 'r model_calls \<Rightarrow> scheduler \<Rightarrow> 'r \<Rightarrow> bool" where
  "reports_ok cls calls s r \<longleftrightarrow>
     (\<forall>s1 out meta kv r'. schedule cls s = Inr (s1, out) \<longrightarrow> kv_metadata out = Some meta \<longrightarrow>
        kv_connector_step calls meta r = Inr (kv, r') \<longrightarrow> kv_report_ok kv s1)"

text \<open>A new engine; the store holds no request yet.\<close>

definition new_engine_ok :: "seq_class \<Rightarrow> engine_config \<Rightarrow> ('r, 'ds) llm_engine \<Rightarrow> bool" where
  "new_engine_ok cls cfg e \<longleftrightarrow> e_config e = cfg \<and> e_in_flight e = None \<and>
     (\<exists>c ob clk. config_ok cls c \<and> new_scheduler c ob clk = Inr (e_scheduler e) \<and> (\<forall>i. seq_id (ob i) \<noteq> i))"

inductive engine_reach ::
  "seq_class \<Rightarrow> 'r model_calls \<Rightarrow> ((string, json) dict \<Rightarrow> string option) \<Rightarrow> (string \<Rightarrow> int list) \<Rightarrow> ('r, 'ds) llm_engine \<Rightarrow>
     ('r, 'ds) llm_engine \<Rightarrow> bool" for cls calls validate encode e0 where
  start: "engine_reach cls calls validate encode e0 e0"
| add: "engine_reach cls calls validate encode e0 e \<Longrightarrow> params_ok (kv_on (e_scheduler e)) sp \<Longrightarrow>
     add_request cls validate encode p sp rid e = (r, e') \<Longrightarrow> engine_reach cls calls validate encode e0 e'"
| abort: "engine_reach cls calls validate encode e0 e \<Longrightarrow> abort_request rid reason e = Inr (e', b) \<Longrightarrow>
     engine_reach cls calls validate encode e0 e'"
| step: "engine_reach cls calls validate encode e0 e \<Longrightarrow> reports_ok cls calls (launch_scheduler cls e) (e_runner e) \<Longrightarrow>
     engine_step cls calls e = Inr (e', outs, n, m) \<Longrightarrow> engine_reach cls calls validate encode e0 e'"

section \<open>Steps over the scheduler's machine\<close>

definition fresh_from :: "nat \<Rightarrow> scheduler \<Rightarrow> bool" where
  "fresh_from n s \<longleftrightarrow> (\<forall>i \<ge> n. sids s i \<noteq> i)"

definition rows_known :: "launched_row list \<Rightarrow> scheduler \<Rightarrow> bool" where
  "rows_known rows s \<longleftrightarrow> (\<forall>row \<in> set rows. sids s (row_seq row) = row_seq row)"

lemma known_cong: "sids s' = sids s \<Longrightarrow> fresh_from n s' = fresh_from n s \<and> rows_known rows s' = rows_known rows s"
  by (simp add: fresh_from_def rows_known_def)

text \<open>What the results of the step in flight look like.\<close>

definition pend_ok :: "engine_config \<Rightarrow> in_flight \<Rightarrow> bool" where
  "pend_ok cfg f \<longleftrightarrow> distinct (map row_seq (if_rows f)) \<and>
     okE (drained cfg (if_pending f)) (\<lambda>(toks, drafts). sampled_ok toks drafts 0 (if_rows f))"

lemma reachable_launch:
  assumes r: "reachable cls (s, F)" and s1: "schedule cls s = Inr (s1, out)"
    and s2: "s2 = s1 \<or> (kv_report_ok kv s1 \<and> update_from_kv_connector_output cls kv s1 = Inr s2)"
  shows "sch_inv cls F [] (scheduled out) s2" "distinct (scheduled out)" "sids s2 = sids s"
    "okE (advance cls (scheduled out) s2) (\<lambda>(s', rows). reachable cls (s', F + mset rows) \<and> distinct (map row_seq rows) \<and>
       rows_known rows s' \<and> sids s' = sids s)"
proof -
  note inv = reachable_inv [OF r, simplified]
  have a: "sch_inv cls F [] (scheduled out) s1" and d: "distinct (scheduled out)" using launch_ok [of cls F s] inv s1 by auto
  show b: "sch_inv cls F [] (scheduled out) s2" "distinct (scheduled out)" using s2 a d report_ok [OF a, of kv] by auto
  show k: "sids s2 = sids s" using s2 schedule_sids [OF s1] update_from_kv_sids [of cls kv s1 s2] by auto
  show "okE (advance cls (scheduled out) s2) (\<lambda>(s', rows). reachable cls (s', F + mset rows) \<and> distinct (map row_seq rows) \<and>
       rows_known rows s' \<and> sids s' = sids s)"
  proof (rule okE_mono [OF advance_ok [OF b]], clarify)
    fix s' rows
    assume adv: "advance cls (scheduled out) s2 = Inr (s', rows)" and "frame s2 s'" "distinct (map row_seq rows)"
      "set (map row_seq rows) \<subseteq> set (scheduled out)" "sroles [] s' = sroles [] s2" "scheduler_inv cls (F + mset rows) s'"
    moreover have "sids s2 i = i" if "i \<in> set (scheduled out)" for i
      using coreD(3,5) [OF sch_invD(5) [OF b(1)]] that by fastforce
    ultimately show "reachable cls (s', F + mset rows) \<and> distinct (map row_seq rows) \<and> rows_known rows s' \<and> sids s' = sids s"
      using reachable.step [OF r sched_step.launch [OF s1 s2 adv]] advance_sids [OF adv] k by (auto simp: rows_known_def)
  qed
qed

lemma reachable_reconcile:
  assumes "reachable cls (s, F + mset rows)" "distinct (map row_seq rows)" "sampled_ok toks drafts 0 rows"
  shows "okE (reconcile cls rows toks drafts s) (\<lambda>(s', st). reachable cls (s', F) \<and> sids s' = sids s)"
proof -
  have "scheduler_inv cls (F + mset rows) s" using reachable_inv [OF assms(1)] by simp
  from reconcile_ok [OF this assms(3,2)] show ?thesis
    by (rule okE_mono)
       (use reachable.step [OF assms(1) sched_step.reconcile [OF assms(2,3)]] reconcile_sids in \<open>auto split: prod.splits\<close>)
qed

lemma reachable_tick: "reachable cls (s, F) \<Longrightarrow> reachable cls (snd (perf_counter s), F)"
  using reachable.step [OF _ sched_step.tick] by blast

lemma tick_sids [simp]: "sids (snd (perf_counter s)) = sids s"
  by (simp add: perf_counter_def)

text \<open>What an engine's step leaves as it was.\<close>

definition same_engine :: "('r, 'ds) llm_engine \<Rightarrow> ('r, 'ds) llm_engine \<Rightarrow> bool" where
  "same_engine e e' \<longleftrightarrow> e_config e' = e_config e \<and> e_output_processor e' = e_output_processor e \<and>
     e_next_seq_id e' = e_next_seq_id e \<and> sids (e_scheduler e') = sids (e_scheduler e)"

lemma same_engine_trans: "same_engine a b \<Longrightarrow> same_engine b c \<Longrightarrow> same_engine a c"
  by (simp add: same_engine_def)

lemma e_perf_counter_eq: "e_perf_counter e = (fst (perf_counter (e_scheduler e)), e\<lparr>e_scheduler := snd (perf_counter (e_scheduler e))\<rparr>)"
  by (simp add: e_perf_counter_def case_prod_beta)

section \<open>What the engine relies on\<close>

text \<open>
  \<open>tracks rows r\<close>: the runner remembers the rows of the step it launched last.  When the next one is
  launched these rows are in flight, or were reconciled before.
\<close>

locale model_worker =
  fixes cls :: seq_class and cfg :: engine_config and calls :: "'r model_calls" and tracks :: "launched_row list \<Rightarrow> 'r \<Rightarrow> bool"
  assumes run_law: "tracks rows0 r \<Longrightarrow> F = mset rows0 \<or> F = {#} \<Longrightarrow> sch_inv cls F [] Q s \<Longrightarrow> distinct Q \<Longrightarrow> Q \<noteq> [] \<Longrightarrow>
      advance cls Q s = Inr (s', rows) \<Longrightarrow>
      okE (run calls s Q r) (\<lambda>(pend, r'). tracks rows r' \<and> okE (drained cfg pend) (\<lambda>(toks, drafts). sampled_ok toks drafts 0 rows))"
    and kv_law: "tracks rows0 r \<Longrightarrow> okE (kv_connector_step calls meta r) (\<lambda>(kv, r'). tracks rows0 r')"
begin

definition launched_ok :: "launched_row list \<Rightarrow> launched_row multiset \<Rightarrow> ('r, 'ds) llm_engine \<Rightarrow> bool" where
  "launched_ok rows0 F e \<longleftrightarrow> reachable cls (e_scheduler e, F + mset (in_flight_rows (e_in_flight e))) \<and>
     rows_known (in_flight_rows (e_in_flight e)) (e_scheduler e) \<and>
     tracks (last_rows rows0 (e_in_flight e)) (e_runner e) \<and> (\<forall>f. e_in_flight e = Some f \<longrightarrow> pend_ok cfg f)"

lemma launch_kv_step:
  assumes e: "tracks rows0 (e_runner e)" "reports_ok cls calls s (e_runner e)"
    and s: "reachable cls (s, F)" "schedule cls s = Inr (e_scheduler e, out)"
  shows "okE (launch_kv cls calls out e) (\<lambda>e1. tracks rows0 (e_runner e1) \<and> e_config e1 = e_config e \<and>
     e_output_processor e1 = e_output_processor e \<and> e_next_seq_id e1 = e_next_seq_id e \<and> e_in_flight e1 = e_in_flight e \<and>
     (\<exists>kv. e_scheduler e1 = e_scheduler e \<or>
        (kv_report_ok kv (e_scheduler e) \<and> update_from_kv_connector_output cls kv (e_scheduler e) = Inr (e_scheduler e1))))"
proof (cases "kv_metadata out")
  case None
  then show ?thesis using e by (simp add: launch_kv_def)
next
  case (Some meta)
  obtain kv r where k: "kv_connector_step calls meta (e_runner e) = Inr (kv, r)" "tracks rows0 r"
    using kv_law [OF e(1), of meta] by (auto simp: okE_iff)
  have rep: "kv_report_ok kv (e_scheduler e)" using e(2) s(2) Some k(1) by (auto simp: reports_ok_def)
  have "sch_inv cls F [] (scheduled out) (e_scheduler e)" by (rule reachable_launch(1) [OF s]) simp
  then obtain s2 where "update_from_kv_connector_output cls kv (e_scheduler e) = Inr s2" using report_ok [OF _ rep] by (fastforce simp: okE_iff)
  then show ?thesis using Some k rep by (auto simp: launch_kv_def)
qed

lemma launch_step:
  assumes e: "tracks rows0 (e_runner e)" "F = mset rows0 \<or> F = {#}" "reachable cls (e_scheduler e, F)"
    "reports_ok cls calls (e_scheduler e) (e_runner e)" "e_in_flight e = None"
  shows "okE (launch cls calls e) (\<lambda>(e', out). same_engine e e' \<and> launched_ok rows0 F e')"
proof -
  have "okE (schedule cls (e_scheduler e)) (\<lambda>_. True)"
    by (rule okE_mono [OF launch_ok [of cls F]]) (use reachable_inv [OF e(3)] in auto)
  then obtain s out where s: "schedule cls (e_scheduler e) = Inr (s, out)" by (auto simp: okE_iff)
  let ?e = "e\<lparr>e_scheduler := s\<rparr>"
  have "okE (launch_kv cls calls out ?e) (\<lambda>e1. tracks rows0 (e_runner e1) \<and> e_config e1 = e_config ?e \<and>
     e_output_processor e1 = e_output_processor ?e \<and> e_next_seq_id e1 = e_next_seq_id ?e \<and> e_in_flight e1 = e_in_flight ?e \<and>
     (\<exists>kv. e_scheduler e1 = e_scheduler ?e \<or>
        (kv_report_ok kv (e_scheduler ?e) \<and> update_from_kv_connector_output cls kv (e_scheduler ?e) = Inr (e_scheduler e1))))"
    by (rule launch_kv_step) (use e s in auto)
  then obtain e1 kv where e1: "launch_kv cls calls out ?e = Inr e1" "tracks rows0 (e_runner e1)" "e_config e1 = e_config e"
      "e_output_processor e1 = e_output_processor e" "e_next_seq_id e1 = e_next_seq_id e" "e_in_flight e1 = None"
    and kv: "e_scheduler e1 = s \<or> (kv_report_ok kv s \<and> update_from_kv_connector_output cls kv s = Inr (e_scheduler e1))"
    using e(5) by (auto simp: okE_iff)
  note l = reachable_launch [OF e(3) s kv]
  obtain s' rows where adv: "advance cls (scheduled out) (e_scheduler e1) = Inr (s', rows)"
    and a: "reachable cls (s', F + mset rows)" "distinct (map row_seq rows)" "rows_known rows s'" "sids s' = sids (e_scheduler e)"
    using l(4) by (auto simp: okE_iff)
  have "okE (launch_model cls calls out e1) (\<lambda>e2. same_engine e e2 \<and> launched_ok rows0 F e2)"
  proof (cases "scheduled out = []")
    case True
    then have "s' = e_scheduler e1" "rows = []" using adv by (simp_all add: advance_def)
    then show ?thesis using True e1 a by (simp add: launch_model_def output_bool_def same_engine_def launched_ok_def in_flight_rows_def)
  next
    case False
    obtain pend r where "run calls (e_scheduler e1) (scheduled out) (e_runner e1) = Inr (pend, r)" "tracks rows r"
      "okE (drained cfg pend) (\<lambda>(toks, drafts). sampled_ok toks drafts 0 rows)"
      using run_law [OF e1(2) e(2) l(1,2) False adv] by (auto simp: okE_iff)
    then show ?thesis using False e1 a adv
      by (simp add: launch_model_def output_bool_def same_engine_def launched_ok_def in_flight_rows_def pend_ok_def)
  qed
  then show ?thesis using s e1(1) by (auto simp: launch_def okE_iff)
qed

lemma reconcile_step:
  assumes "e_config e = cfg" "reachable cls (e_scheduler e, F + mset (in_flight_rows d))" "\<And>f. d = Some f \<Longrightarrow> pend_ok cfg f"
  shows "okE (engine_reconcile cls d e) (\<lambda>(e', st). same_engine e e' \<and> e_in_flight e' = e_in_flight e \<and> e_runner e' = e_runner e \<and>
     reachable cls (e_scheduler e', F))"
proof (cases d)
  case None
  then show ?thesis using assms(2) by (simp add: engine_reconcile_def in_flight_rows_def same_engine_def)
next
  case (Some f)
  obtain toks drafts where t: "drained cfg (if_pending f) = Inr (toks, drafts)" "sampled_ok toks drafts 0 (if_rows f)"
    "distinct (map row_seq (if_rows f))" using assms(3) [OF Some] by (auto simp: pend_ok_def okE_iff)
  obtain s st where "reconcile cls (if_rows f) toks drafts (e_scheduler e) = Inr (s, st)" "reachable cls (s, F)" "sids s = sids (e_scheduler e)"
    using reachable_reconcile [of cls "e_scheduler e" F "if_rows f" toks drafts] assms(2) t Some by (auto simp: in_flight_rows_def okE_iff)
  then show ?thesis using t Some assms(1) by (simp add: engine_reconcile_def same_engine_def Let_def)
qed

text \<open>The invariant of the engine.\<close>

definition engine_ok :: "('r, 'ds) llm_engine \<Rightarrow> bool" where
  "engine_ok e \<longleftrightarrow> e_config e = cfg \<and> fresh_from (e_next_seq_id e) (e_scheduler e) \<and> (\<exists>rows0. launched_ok rows0 {#} e)"

lemma engine_okD:
  assumes "engine_ok e"
  obtains rows0 where "e_config e = cfg" "fresh_from (e_next_seq_id e) (e_scheduler e)" "tracks rows0 (e_runner e)"
    "reachable cls (e_scheduler e, mset (in_flight_rows (e_in_flight e)))" "rows_known (in_flight_rows (e_in_flight e)) (e_scheduler e)"
    "\<And>f. e_in_flight e = Some f \<Longrightarrow> if_rows f = rows0 \<and> pend_ok cfg f"
  using assms by (cases "e_in_flight e") (auto simp: engine_ok_def launched_ok_def)

lemma engine_ok_cong:
  assumes "engine_ok e" "same_engine e e'" "e_in_flight e' = e_in_flight e" "e_runner e' = e_runner e"
    "reachable cls (e_scheduler e', mset (in_flight_rows (e_in_flight e)))"
  shows "engine_ok e'"
  using assms by (auto simp: engine_ok_def launched_ok_def same_engine_def fresh_from_def rows_known_def)

lemma overlap_step:
  assumes e: "e_config e = cfg" "tracks rows0 (e_runner e)" "reachable cls (e_scheduler e, mset (in_flight_rows d))" "e_in_flight e = None"
    and d: "\<And>f. d = Some f \<Longrightarrow> if_rows f = rows0 \<and> pend_ok cfg f"
    and rep: "reports_ok cls calls (if ec_async_scheduling cfg then e_scheduler e
       else case engine_reconcile cls d e of Inl _ \<Rightarrow> e_scheduler e | Inr (e2, _) \<Rightarrow> e_scheduler e2) (e_runner e)"
  shows "okE (overlap cls calls d e) (\<lambda>(e', out, st). same_engine e e' \<and> launched_ok rows0 {#} e')"
proof (cases "ec_async_scheduling cfg")
  case True
  have F: "mset (in_flight_rows d) = mset rows0 \<or> mset (in_flight_rows d) = {#}" using d by (cases d) (auto simp: in_flight_rows_def)
  obtain e1 out where l: "launch cls calls e = Inr (e1, out)" "same_engine e e1" "launched_ok rows0 (mset (in_flight_rows d)) e1"
    using launch_step [OF e(2) F e(3) _ e(4)] rep True by (auto simp: okE_iff)
  then have cfg1: "e_config e1 = cfg" and r1: "reachable cls (e_scheduler e1, mset (in_flight_rows (e_in_flight e1)) + mset (in_flight_rows d))"
    using e(1) by (simp_all add: same_engine_def launched_ok_def add.commute)
  obtain e2 st where rc: "engine_reconcile cls d e1 = Inr (e2, st)" "same_engine e1 e2" "e_in_flight e2 = e_in_flight e1" "e_runner e2 = e_runner e1"
    "reachable cls (e_scheduler e2, mset (in_flight_rows (e_in_flight e1)))"
    using reconcile_step [OF cfg1 r1] d by (auto simp: okE_iff)
  have "launched_ok rows0 {#} e2" using l(3) rc(2-5) by (simp add: launched_ok_def same_engine_def rows_known_def)
  then show ?thesis using True e(1) l rc same_engine_trans by (auto simp: overlap_def)
next
  case False
  obtain e1 st where rc: "engine_reconcile cls d e = Inr (e1, st)" "same_engine e e1" "e_in_flight e1 = None" "e_runner e1 = e_runner e"
    "reachable cls (e_scheduler e1, {#})"
    using reconcile_step [OF e(1), of "{#}" d] e(3,4) d by (auto simp: okE_iff)
  have "reports_ok cls calls (e_scheduler e1) (e_runner e1)" using rep False rc(1,4) by simp
  then obtain e2 out where l: "launch cls calls e1 = Inr (e2, out)" "same_engine e1 e2" "launched_ok rows0 {#} e2"
    using launch_step [of rows0 e1 "{#}"] e(2) rc by (auto simp: okE_iff)
  then show ?thesis using False e(1) rc same_engine_trans by (auto simp: overlap_def)
qed

lemma engine_step_ok:
  assumes "engine_ok e" "reports_ok cls calls (launch_scheduler cls e) (e_runner e)"
  shows "e_output_processor e = None \<Longrightarrow> okE (engine_step cls calls e) (\<lambda>_. True)"
    "engine_step cls calls e = Inr (e', outs, n, m) \<Longrightarrow> engine_ok e'"
proof -
  obtain rows0 where a: "e_config e = cfg" "fresh_from (e_next_seq_id e) (e_scheduler e)" "tracks rows0 (e_runner e)"
    "reachable cls (e_scheduler e, mset (in_flight_rows (e_in_flight e)))" "rows_known (in_flight_rows (e_in_flight e)) (e_scheduler e)"
    "\<And>f. e_in_flight e = Some f \<Longrightarrow> if_rows f = rows0 \<and> pend_ok cfg f" using engine_okD [OF assms(1)] by metis
  let ?s = "snd (perf_counter (e_scheduler e))"
  let ?e = "e\<lparr>e_scheduler := ?s, e_in_flight := None\<rparr>"
  have "okE (overlap cls calls (e_in_flight e) ?e) (\<lambda>(e', out, st). same_engine ?e e' \<and> launched_ok rows0 {#} e')"
  proof (rule overlap_step)
    show "reports_ok cls calls (if ec_async_scheduling cfg then e_scheduler ?e
       else case engine_reconcile cls (e_in_flight e) ?e of Inl _ \<Rightarrow> e_scheduler ?e | Inr (e2, _) \<Rightarrow> e_scheduler e2) (e_runner ?e)"
      using assms(2) a(1) by (simp add: launch_scheduler_def e_perf_counter_eq Let_def cong: sum.case_cong split: if_splits)
  qed (use a reachable_tick in auto)
  then obtain e2 out st where o: "overlap cls calls (e_in_flight e) ?e = Inr (e2, out, st)" "same_engine ?e e2" "launched_ok rows0 {#} e2"
    by (auto simp: okE_iff)
  let ?outs = "step_outputs (e_scheduler e2) st (dropped out)"
  let ?e3 = "e2\<lparr>e_scheduler := snd (perf_counter (e_scheduler e2))\<rparr>"
  have ok3: "launched_ok rows0 {#} ?e3" "fresh_from (e_next_seq_id ?e3) (e_scheduler ?e3)" "e_config ?e3 = cfg"
    using o(2,3) a(1,2) reachable_tick by (auto simp: launched_ok_def same_engine_def fresh_from_def rows_known_def)
  define e4 where "e4 = ?e3\<lparr>e_metrics := record_step (e_scheduler ?e3) out ?outs
      (fst (perf_counter (e_scheduler e2)) - fst (perf_counter (e_scheduler e))) (runner_step_kind calls (e_runner ?e3)) (e_metrics ?e3)\<rparr>"
  have run: "engine_step cls calls e = bindE (case e_output_processor e4 of
                     None \<Rightarrow> Inr (e4, ?outs)
                   | Some p \<Rightarrow> bindE (process_outputs ?outs p) (\<lambda>(p', outs'). Inr (e4\<lparr>e_output_processor := Some p'\<rparr>, outs')))
              (\<lambda>(e5, outs'). Inr (e5, outs', num_prefill_tokens out, num_decode_tokens out))"
    using o(1) unfolding e4_def by (simp add: engine_step_def e_perf_counter_eq Let_def cong: option.case_cong)
  have "engine_ok (e4\<lparr>e_output_processor := p\<rparr>)" for p using ok3 by (auto simp: engine_ok_def launched_ok_def e4_def)
  moreover have "engine_ok e4" using ok3 by (auto simp: engine_ok_def launched_ok_def e4_def)
  ultimately show "engine_step cls calls e = Inr (e', outs, n, m) \<Longrightarrow> engine_ok e'"
    by (auto simp: run bindE_eq_Inr split: option.splits)
  show "okE (engine_step cls calls e) (\<lambda>_. True)" if "e_output_processor e = None"
    using that o(2) by (simp add: run e4_def same_engine_def)
qed

lemma abort_ok_engine:
  assumes "engine_ok e"
  shows "okE (abort_request rid reason e) (\<lambda>(e', found). engine_ok e' \<and> (found \<longleftrightarrow> rid \<in> dict_keys (seqs (e_scheduler e))))"
proof -
  let ?s = "e_scheduler e" and ?F = "mset (in_flight_rows (e_in_flight e))"
  have r: "reachable cls (?s, ?F)" using assms by (auto simp: engine_ok_def launched_ok_def)
  have inv: "scheduler_inv cls ?F ?s" using reachable_inv [OF r] by simp
  obtain s b where ab: "abort rid reason ?s = Inr (s, b)" "b \<longleftrightarrow> map_of (seqs ?s) rid \<noteq> None"
    using abort_ok [OF inv, of rid reason] by (auto simp: okE_iff split: option.splits)
  have k: "rid \<in> dict_keys (seqs ?s) \<longleftrightarrow> map_of (seqs ?s) rid \<noteq> None" by (simp add: map_of_eq_None_iff)
  have ok: "engine_ok (e\<lparr>e_scheduler := s, e_output_processor := p, e_metrics := m\<rparr>)" for p m
    using assms reachable.step [OF r sched_step.abort [OF ab(1)]] abort_sids [OF ab(1)]
    by (auto simp: engine_ok_def launched_ok_def fresh_from_def rows_known_def)
  have "engine_ok (e\<lparr>e_scheduler := s, e_output_processor := p\<rparr>)" for p using ok [of "e_metrics e" p] by simp
  then show ?thesis using ok ab k by (auto simp: abort_request_def Let_def)
qed

lemma add_ok_engine:
  assumes "engine_ok e" "params_ok (kv_on (e_scheduler e)) sp" "add_request cls validate encode p sp rid e = (r, e')"
  shows "engine_ok e' \<and> (case r of Inr _ \<Rightarrow> True | Inl (InvalidRequest _) \<Rightarrow> True | Inl (DuplicateRequestId _) \<Rightarrow> True | _ \<Rightarrow> False)"
proof -
  let ?toks = "encode_prompt encode p" and ?n = "e_next_seq_id e" and ?s = "snd (perf_counter (e_scheduler e))"
  let ?F = "mset (in_flight_rows (e_in_flight e))"
  let ?now = "fst (perf_counter (e_scheduler e))"
  have r: "reachable cls (e_scheduler e, ?F)" using assms(1) by (auto simp: engine_ok_def launched_ok_def)
  have r1: "reachable cls (?s, ?F)" by (rule reachable_tick [OF r])
  note inv = reachable_inv [OF r1, simplified]
  have cls: "cls_wf cls" using sch_invD(1) [of cls ?F "[]" "[]" ?s] inv by (simp add: cfg_ok_def)
  have kv: "kv_on ?s = kv_on (e_scheduler e)" by (simp add: perf_counter_def)
  have fresh: "sids (e_scheduler e) i \<noteq> i" if "?n \<le> i" for i using assms(1) that by (simp add: engine_ok_def fresh_from_def)
  have e2: "engine_ok (e\<lparr>e_scheduler := ?s, e_next_seq_id := Suc ?n\<rparr>)"
    using assms(1) r1 by (auto simp: engine_ok_def launched_ok_def fresh_from_def rows_known_def)
  show ?thesis
  proof (cases "validate_request validate ?toks sp (ec_vocab_size (e_config e)) (ec_max_model_len (e_config e)) (ec_kv_transfer (e_config e))")
    case (Inl err)
    then have "\<exists>x. err = InvalidRequest x"
      by (auto simp: validate_request_def split: if_splits option.splits)
    then show ?thesis using assms(1,3) Inl by (auto simp: add_request_def Let_def)
  next
    case (Inr u)
    then have ne: "?toks \<noteq> []" by (auto simp: validate_request_def)
    obtain q where q: "new_sequence cls ?n ?now ?toks sp rid = Inr q" "seq_id q = ?n"
      using new_sequence_ok [OF cls ne, of ?n ?now sp rid] by (auto simp: okE_iff)
    show ?thesis
    proof (cases "sch_add q ?s")
      case (Inl err)
      then have "err = DuplicateRequestId (request_id q)" by (auto simp: sch_add_def Let_def split: if_splits)
      then show ?thesis using e2 assms(3) Inr q(1) Inl by (auto simp: add_request_def Let_def e_perf_counter_eq)
    next
      case (Inr s')
      have out: "?n \<notin># queue_ids [] ?s"
        using sroles_iff(5) [OF sch_invD(2), of cls ?F "[]" "[]" ?s ?n] coreD(3) [OF sch_invD(5), of cls ?F "[]" "[]" ?s ?n] inv fresh [of ?n] by auto
      have rows: "rows_for ?F ?n = {#}"
        using assms(1) fresh [of ?n] by (auto simp: rows_for_def engine_ok_def launched_ok_def rows_known_def)
      have "reachable cls (s', ?F)"
        by (rule reachable.step [OF r1 sched_step.add [OF _ q(1) out rows Inr]]) (use assms(2) ne kv in \<open>simp add: request_ok_params\<close>)
      moreover have "sids s' = (sids (e_scheduler e))(?n := ?n)" using Inr q(2) by (auto simp: sch_add_def Let_def split: if_splits)
      ultimately have "engine_ok (e\<lparr>e_scheduler := s', e_next_seq_id := Suc ?n, e_metrics := m, e_output_processor := o'\<rparr>)" for m o'
        using assms(1) by (auto simp: engine_ok_def launched_ok_def fresh_from_def rows_known_def)
      moreover have "e' = e\<lparr>e_scheduler := s', e_next_seq_id := Suc ?n, e_metrics := record_received (e_metrics e),
          e_output_processor := map_option (op_add_request (request_id q) ?toks (skip_special_tokens q) None) (e_output_processor e)\<rparr>"
        "r = Inr (request_id q)"
        using assms(3) \<open>validate_request _ _ _ _ _ _ = Inr u\<close> q(1) Inr
        by (auto simp: add_request_def Let_def e_perf_counter_eq)
      ultimately show ?thesis by auto
    qed
  qed
qed

lemma reach_ok:
  assumes "engine_reach cls calls validate encode e0 e" "engine_ok e0"
  shows "engine_ok e"
  using assms
proof (induction rule: engine_reach.induct)
  case (add e sp p rid r e')
  then show ?case using add_ok_engine by blast
next
  case (abort e rid reason e' b)
  then show ?case using abort_ok_engine [of e rid reason] by simp
next
  case (step e e' outs n m)
  then show ?case using engine_step_ok(2) by blast
qed

lemma new_engine: "new_engine_ok cls cfg e \<Longrightarrow> tracks [] (e_runner e) \<Longrightarrow> engine_ok e"
proof -
  assume a: "new_engine_ok cls cfg e" and t: "tracks [] (e_runner e)"
  then obtain c ob clk where c: "config_ok cls c" "new_scheduler c ob clk = Inr (e_scheduler e)" "\<forall>i. seq_id (ob i) \<noteq> i"
    by (auto simp: new_engine_ok_def)
  have "objs (e_scheduler e) = ob" using c(2) by (auto simp: new_scheduler_def bindE_eq_Inr Let_def dest!: sym [of _ "e_scheduler e"])
  then have "fresh_from n (e_scheduler e)" for n using c(3) by (simp add: fresh_from_def sids_def)
  moreover have "launched_ok [] {#} e"
    using a t reachable.start [OF c(1,2)] by (simp add: new_engine_ok_def launched_ok_def in_flight_rows_def rows_known_def)
  ultimately show ?thesis using a by (auto simp: new_engine_ok_def engine_ok_def)
qed

end

end
