(* ===== verification/Runner_Properties.thy ===== *)
theory Runner_Properties
  imports Model_Runner Scheduler_Properties
begin

text \<open>
  What the model runner guarantees the engine: the order of its batch is a permutation, the rows
  it samples are the rows the scheduler waits for, its flat positions and cache slots are those of
  the sequences' tokens, and a step it runs in a graph fits one.
\<close>

section \<open>The order of the batch\<close>

lemma batch_order_perm:
  "mset (batch_order lens q) = mset [0..<length lens]" "length (batch_order lens q) = length lens"
  "distinct (batch_order lens q)" "set (batch_order lens q) = {..<length lens}"
proof -
  show m: "mset (batch_order lens q) = mset [0..<length lens]" by (simp add: batch_order_def)
  show "length (batch_order lens q) = length lens" "distinct (batch_order lens q)" by (simp_all add: batch_order_def)
  show "set (batch_order lens q) = {..<length lens}" by (simp add: batch_order_def atLeast0LessThan)
qed

lemma rows_of_order_inverse:
  assumes "distinct order" "set order = {..<length order}" "i < length order"
  shows "rows_of_order order ! i < length order \<and> order ! (rows_of_order order ! i) = i" "length (rows_of_order order) = length order"
proof -
  have "i \<in> set order" using assms(2,3) by simp
  then obtain j where j: "j < length order" "order ! j = i" by (metis in_set_conv_nth)
  have "scatter order [0..<length order] (replicate (length order) 0) ! (order ! j) = [0..<length order] ! j"
    by (rule scatter_nth) (use assms j in auto)
  then show "rows_of_order order ! i < length order \<and> order ! (rows_of_order order ! i) = i"
    using j by (simp add: rows_of_order_def)
  show "length (rows_of_order order) = length order" by (simp add: rows_of_order_def)
qed

lemma gather_order:
  assumes "length xs = length lens" "i < length lens"
  shows "gather xs (batch_order lens q) ! (rows_of_order (batch_order lens q) ! i) = xs ! i"
  using rows_of_order_inverse [of "batch_order lens q" i] batch_order_perm [of lens q] assms by (simp add: gather_def)

lemma map_filter_upt: "map ((!) xs) (filter (\<lambda>i. P (xs ! i)) [0..<length xs]) = filter P xs"
  by (metis (no_types, lifting) comp_apply filter_cong filter_map map_nth)

definition reaches_end :: "sequence \<Rightarrow> bool" where
  "reaches_end q \<longleftrightarrow> num_planned_tokens q \<le> num_cached_tokens q + num_scheduled_tokens q"

lemma sampling_indices_eq: "sampling_indices r sqs = filter (\<lambda>i. reaches_end (sqs ! i)) [0..<length sqs]"
proof -
  let ?lens = "map num_scheduled_tokens sqs" and ?order = "order_of r sqs"
  have "gather (map num_cached_tokens sqs) ?order ! (rows_of_order ?order ! i) = num_cached_tokens (sqs ! i)"
    "gather ?lens ?order ! (rows_of_order ?order ! i) = num_scheduled_tokens (sqs ! i)" if "i < length sqs" for i
    using gather_order [of "map num_cached_tokens sqs" ?lens i] gather_order [of ?lens ?lens i] that by (simp_all add: order_of_def Let_def)
  then show ?thesis by (auto simp: sampling_indices_def Let_def sampling_of_def reaches_end_def intro!: filter_cong)
qed

lemma sampling_rows_order: "gather sqs (sampling_indices r sqs) = filter reaches_end sqs"
  by (simp add: sampling_indices_eq gather_def map_filter_upt)

section \<open>Logits rows\<close>

lemma repeat_interleave_gather: "length xs = length ns \<Longrightarrow> repeat_interleave xs ns = gather xs (index_of_rows ns)"
proof (induction ns arbitrary: xs rule: rev_induct)
  case (snoc n ns)
  then obtain ys y where xs: "xs = ys @ [y]" by (cases xs rule: rev_cases) auto
  then have len: "length ys = length ns" using snoc.prems by simp
  have "gather (ys @ [y]) (index_of_rows ns) = gather ys (index_of_rows ns)"
    using index_of_rows_less len by (auto simp: gather_def nth_append)
  moreover have "repeat_interleave (ys @ [y]) (ns @ [n]) = repeat_interleave ys ns @ replicate n y" using len by (simp add: repeat_interleave_def)
  ultimately show ?case using snoc.IH [OF len] len by (simp add: xs index_of_rows_snoc) (simp add: gather_def nth_append map_replicate_const)
qed (simp add: repeat_interleave_def gather_def)

lemma logits_offsets_rows: "logits_offsets ns = concat (map (\<lambda>n. [0..<n]) ns)"
proof -
  have "logits_offsets ns = map2 (-) [0..<sum_list ns] (map ((!) (row_starts ns)) (index_of_rows ns))"
    unfolding logits_offsets_def row_starts_def [symmetric] using repeat_interleave_gather [of "row_starts ns" ns] by (simp add: gather_def)
  also have "\<dots> = map2 (\<lambda>j r. j - row_starts ns ! r) [0..<sum_list ns] (index_of_rows ns)"
    by (simp add: zip_map2 case_prod_beta)
  finally show ?thesis unfolding cols_of_rows .
qed

lemma count_drafts: "length (filter id (map2 (<) (logits_offsets (map Suc sd)) (repeat_interleave sd (map Suc sd)))) = sum_list sd"
proof -
  have "map2 (<) (concat (map (\<lambda>n. [0..<Suc n]) sd)) (repeat_interleave sd (map Suc sd)) = concat (map (\<lambda>n. replicate n True @ [False]) sd)"
  proof (induction sd)
    case (Cons n sd)
    have "map2 (<) [0..<Suc n] (replicate (Suc n) n) = replicate n True @ [False]" by (rule nth_equalityI) (auto simp: nth_append less_Suc_eq simp del: replicate_Suc)
    moreover have "repeat_interleave (n # sd) (map Suc (n # sd)) = replicate (Suc n) n @ repeat_interleave sd (map Suc sd)" by (simp add: repeat_interleave_def)
    ultimately show ?case using Cons.IH by (simp only: list.map concat.simps zip_append length_upt length_replicate map_append diff_zero)
  qed (simp add: repeat_interleave_def)
  moreover have "length (filter id (concat (map (\<lambda>n. replicate n True @ [False]) sd))) = sum_list sd"
    by (induction sd) (simp_all add: filter_replicate)
  ultimately show ?thesis unfolding logits_offsets_rows by (simp add: comp_def)
qed

lemma length_draft_tokens:
  assumes "draft_tokens_of ids ix sd = Inr ds" "length ix = sum_list (map Suc sd)"
  shows "length ds = sum_list sd"
proof -
  let ?d = "map2 (<) (logits_offsets (map Suc sd)) (repeat_interleave sd (map Suc sd))"
  have l: "length ?d = sum_list (map Suc sd)"
    by (simp add: logits_offsets_rows length_concat comp_def length_repeat_interleave)
  have "length ds = length (filter snd (zip ix ?d))"
    using assms(1) length_mapE by (fastforce simp: draft_tokens_of_def Let_def)
  also have "\<dots> = length (filter id (map snd (zip ix ?d)))" by (simp add: filter_map comp_def)
  also have "\<dots> = length (filter id ?d)" using l assms(2) by (simp only: map_snd_zip)
  finally show ?thesis unfolding count_drafts .
qed

lemma length_logits_indices: "length li = length sd \<Longrightarrow> length (logits_indices li sd) = sum_list (map Suc sd)"
  by (simp add: logits_indices_def Let_def logits_offsets_rows length_concat comp_def length_repeat_interleave)

section \<open>The parts of a prepared batch\<close>

lemma spec_parts_keep:
  assumes "spec_parts r qs e sr sd li ix b = Inr b'"
  shows "b_sampling_rows b' = b_sampling_rows b \<and> b_positions b' = b_positions b \<and> b_slot_mapping b' = b_slot_mapping b \<and>
    b_input_ids b' = b_input_ids b \<and> b_is_prefill b' = b_is_prefill b \<and> b_query_len b' = b_query_len b \<and>
    b_context_lens b' = b_context_lens b \<and>
    (r_num_spec r \<noteq> 0 \<longrightarrow> (\<exists>ds. b_spec_inputs b' = Some (ds, sd) \<and> (length ix = sum_list (map Suc sd) \<longrightarrow> length ds = sum_list sd)))"
  using assms by (auto simp: spec_parts_def bindE_eq_Inr dest: length_draft_tokens split: if_splits)

lemma move_back_keep:
  assumes "move_back bs rej rows mv src b = Inr b'"
  shows "b_sampling_rows b' = b_sampling_rows b \<and> b_spec_inputs b' = b_spec_inputs b \<and> b_input_ids b' = b_input_ids b"
  using assms by (auto simp: move_back_def bindE_eq_Inr Let_def split: option.splits if_splits)

text \<open>What \<open>prepare_batch\<close> returned was built from these parts.\<close>

lemma fill_batch_parts:
  assumes "fill_batch r sqs starts = Inr b"
  shows "b_sampling_rows b = filter reaches_end sqs"
    "r_num_spec r \<noteq> 0 \<Longrightarrow> \<exists>ds. b_spec_inputs b = Some (ds, map (\<lambda>i. nat (drafts_of sqs ! i)) (sampling_indices r sqs)) \<and>
       length ds = sum_list (map (\<lambda>i. nat (drafts_of sqs ! i)) (sampling_indices r sqs))"
    "\<exists>bt. batch_slots r (map block_table (gather sqs (order_of r sqs))) (token_rows (gather (map num_scheduled_tokens sqs) (order_of r sqs)))
       (token_positions starts (gather (map num_scheduled_tokens sqs) (order_of r sqs))) = Inr (bt, b_slot_mapping b)"
    "b_positions b = token_positions starts (gather (map num_scheduled_tokens sqs) (order_of r sqs))"
proof -
  let ?lens = "gather (map num_scheduled_tokens sqs) (order_of r sqs)"
  obtain f bt slots ids e sr li ix where bs: "batch_slots r (map block_table (gather sqs (order_of r sqs))) (token_rows ?lens) (token_positions starts ?lens) = Inr (bt, slots)"
    and b: "spec_parts r (gather sqs (order_of r sqs)) e sr (map (\<lambda>i. nat (drafts_of sqs ! i)) (sampling_indices r sqs)) li ix
       (batch_tensors r sqs starts ids bt slots ix) = Inr b"
    and ix: "length ix = sum_list (map Suc (map (\<lambda>i. nat (drafts_of sqs ! i)) (sampling_indices r sqs)))"
    using assms unfolding fill_batch_def Let_def
    by (auto simp: bindE_eq_Inr gather_def length_logits_indices split: if_splits simp del: map_map)
  note k = spec_parts_keep [OF b]
  show "b_sampling_rows b = filter reaches_end sqs" using k by (simp add: batch_tensors_def Let_def sampling_rows_order)
  show "r_num_spec r \<noteq> 0 \<Longrightarrow> \<exists>ds. b_spec_inputs b = Some (ds, map (\<lambda>i. nat (drafts_of sqs ! i)) (sampling_indices r sqs)) \<and>
       length ds = sum_list (map (\<lambda>i. nat (drafts_of sqs ! i)) (sampling_indices r sqs))" using k ix by blast
  show "\<exists>bt. batch_slots r (map block_table (gather sqs (order_of r sqs))) (token_rows ?lens) (token_positions starts ?lens) = Inr (bt, b_slot_mapping b)"
    using k bs by (auto simp: batch_tensors_def Let_def)
  show "b_positions b = token_positions starts ?lens" using k by (simp add: batch_tensors_def Let_def)
qed

lemma prepare_batch_parts:
  assumes "prepare_batch r sqs = Inr b"
  shows "b_sampling_rows b = filter reaches_end sqs"
    "r_num_spec r \<noteq> 0 \<Longrightarrow> \<exists>ds. b_spec_inputs b = Some (ds, map (\<lambda>i. nat (drafts_of sqs ! i)) (sampling_indices r sqs)) \<and>
       length ds = sum_list (map (\<lambda>i. nat (drafts_of sqs ! i)) (sampling_indices r sqs))"
    "r_in_flight_drafts r = None \<Longrightarrow> fill_batch r sqs (gather (map num_cached_tokens sqs) (order_of r sqs)) = Inr b"
proof -
  obtain starts b0 where b0: "fill_batch r sqs starts = Inr b0" and b: "b_sampling_rows b = b_sampling_rows b0 \<and> b_spec_inputs b = b_spec_inputs b0"
    and n: "r_in_flight_drafts r = None \<Longrightarrow> starts = gather (map num_cached_tokens sqs) (order_of r sqs) \<and> b = b0"
    using assms unfolding prepare_batch_def Let_def
    by (auto simp: bindE_eq_Inr needs_exact_def moved_rows_def split: if_splits option.splits dest!: move_back_keep)
  show "b_sampling_rows b = filter reaches_end sqs" using fill_batch_parts(1) [OF b0] b by simp
  show "r_num_spec r \<noteq> 0 \<Longrightarrow> \<exists>ds. b_spec_inputs b = Some (ds, map (\<lambda>i. nat (drafts_of sqs ! i)) (sampling_indices r sqs)) \<and>
       length ds = sum_list (map (\<lambda>i. nat (drafts_of sqs ! i)) (sampling_indices r sqs))"
    using fill_batch_parts(2) [OF b0] b by simp
  show "r_in_flight_drafts r = None \<Longrightarrow> fill_batch r sqs (gather (map num_cached_tokens sqs) (order_of r sqs)) = Inr b"
    using n b0 by simp
qed

section \<open>Rows of the scheduler\<close>

lemma advance_one_rows:
  assumes "advance_one cls i (s, rows) = Inr (s', rows')"
  shows "rows' = rows @ (if reaches_end (objs s i) then [\<lparr>row_seq = i, row_num_preemptions = num_preemptions (objs s i),
      row_num_draft_tokens = py_len (spec_token_ids (objs s i))\<rparr>] else [])"
    "j \<noteq> i \<Longrightarrow> objs s' j = objs s j"
  using assms
  by (auto simp: advance_one_def bindE_eq_Inr Let_def with_bm_def hash_blocks_def upd_seq_def put_seq_def reserve_token_def
      reaches_end_def num_planned_tokens_def split: if_splits)

lemma advance_rows:
  "foldE (advance_one cls) ids (s, rows) = Inr (s', rows') \<Longrightarrow> distinct ids \<Longrightarrow>
   rows' = rows @ map (\<lambda>i. \<lparr>row_seq = i, row_num_preemptions = num_preemptions (objs s i),
     row_num_draft_tokens = py_len (spec_token_ids (objs s i))\<rparr>) (filter (\<lambda>i. reaches_end (objs s i)) ids)"
proof (induction ids arbitrary: s rows)
  case (Cons i ids)
  then obtain s1 rows1 where 1: "advance_one cls i (s, rows) = Inr (s1, rows1)" and 2: "foldE (advance_one cls) ids (s1, rows1) = Inr (s', rows')"
    by (auto simp: bindE_eq_Inr)
  have "objs s1 j = objs s j" if "j \<in> set ids" for j using advance_one_rows(2) [OF 1, of j] that Cons.prems(2) by auto
  then have "map (\<lambda>i. \<lparr>row_seq = i, row_num_preemptions = num_preemptions (objs s1 i), row_num_draft_tokens = py_len (spec_token_ids (objs s1 i))\<rparr>)
      (filter (\<lambda>i. reaches_end (objs s1 i)) ids) =
    map (\<lambda>i. \<lparr>row_seq = i, row_num_preemptions = num_preemptions (objs s i), row_num_draft_tokens = py_len (spec_token_ids (objs s i))\<rparr>)
      (filter (\<lambda>i. reaches_end (objs s i)) ids)"
    by (auto cong: filter_cong)
  then show ?case using Cons.IH [OF 2] Cons.prems(2) advance_one_rows(1) [OF 1] by simp
qed simp

lemma scheduled_facts:
  assumes "sch_inv cls F [] Q s" "i \<in> set Q"
  shows "seq_id (objs s i) = i" "reaches_end (objs s i) \<Longrightarrow> (if is_prefill (objs s i) then 0 else num_scheduled_tokens (objs s i) - 1) = py_len (spec_token_ids (objs s i))"
    "running_ok cls (kv_on s) True (objs s i)"
proof -
  note c = coreD [OF sch_invD(5) [OF assms(1)]]
  have r: "sroles [] s i = InR" using c(5) [OF assms(2)] .
  then show "seq_id (objs s i) = i" using c(3) [of i] by simp
  show ro: "running_ok cls (kv_on s) True (objs s i)" using c(4) [of i] r assms(2) by simp
  then show "(if is_prefill (objs s i) then 0 else num_scheduled_tokens (objs s i) - 1) = py_len (spec_token_ids (objs s i))"
    by (auto simp: running_ok_def prefill_ok_def decode_ok_def py_len_def)
qed

lemma rows_match:
  assumes inv: "sch_inv cls F [] Q s" "distinct Q" and b: "prepare_batch r (map (objs s) Q) = Inr b" and adv: "advance cls Q s = Inr (s', rows)"
  shows "map seq_id (b_sampling_rows b) = map row_seq rows"
    "r_num_spec r \<noteq> 0 \<Longrightarrow> \<exists>ds ns. b_spec_inputs b = Some (ds, ns) \<and> map int ns = map row_num_draft_tokens rows \<and> length ds = sum_list ns"
proof -
  let ?fin = "\<lambda>i. reaches_end (objs s i)"
  have rows: "rows = map (\<lambda>i. \<lparr>row_seq = i, row_num_preemptions = num_preemptions (objs s i),
     row_num_draft_tokens = py_len (spec_token_ids (objs s i))\<rparr>) (filter ?fin Q)"
    using advance_rows [of cls Q s "[]" s' rows] adv inv(2) by (simp add: advance_def)
  have "b_sampling_rows b = map (objs s) (filter ?fin Q)"
    using prepare_batch_parts(1) [OF b] by (simp add: filter_map comp_def)
  moreover have "map (\<lambda>i. seq_id (objs s i)) (filter ?fin Q) = filter ?fin Q"
    by (rule map_idI) (use scheduled_facts(1) [OF inv(1)] in auto)
  ultimately show "map seq_id (b_sampling_rows b) = map row_seq rows" by (simp add: rows comp_def)
  assume "r_num_spec r \<noteq> 0"
  then obtain ds where ds: "b_spec_inputs b = Some (ds, map (\<lambda>i. nat (drafts_of (map (objs s) Q) ! i)) (sampling_indices r (map (objs s) Q)))"
    "length ds = sum_list (map (\<lambda>i. nat (drafts_of (map (objs s) Q) ! i)) (sampling_indices r (map (objs s) Q)))"
    using prepare_batch_parts(2) [OF b] by blast
  let ?n = "\<lambda>i. if is_prefill (objs s i) then 0 else num_scheduled_tokens (objs s i) - 1"
  have "map (\<lambda>k. nat (drafts_of (map (objs s) Q) ! k)) (sampling_indices r (map (objs s) Q)) = map (\<lambda>i. nat (?n i)) (map ((!) Q) (filter (\<lambda>k. ?fin (Q ! k)) [0..<length Q]))"
  proof -
    have "filter (\<lambda>k. reaches_end (map (objs s) Q ! k)) [0..<length Q] = filter (\<lambda>k. ?fin (Q ! k)) [0..<length Q]" by (rule filter_cong) auto
    then show ?thesis unfolding sampling_indices_eq by (auto simp: drafts_of_def)
  qed
  also have "\<dots> = map (\<lambda>i. nat (?n i)) (filter ?fin Q)" unfolding map_filter_upt [of Q ?fin] ..
  finally have "map int (map (\<lambda>k. nat (drafts_of (map (objs s) Q) ! k)) (sampling_indices r (map (objs s) Q))) = map row_num_draft_tokens rows"
    using scheduled_facts(2) [OF inv(1)] by (simp add: rows py_len_def)
  then show "\<exists>ds ns. b_spec_inputs b = Some (ds, ns) \<and> map int ns = map row_num_draft_tokens rows \<and> length ds = sum_list ns" using ds by blast
qed

section \<open>Positions and slots\<close>

lemma cu_seqlens_nth: "i \<le> length lens \<Longrightarrow> cu_seqlens lens ! i = sum_list (take i lens)"
  by (simp add: cu_seqlens_def del: upt_Suc)

lemma sum_list_nat: "\<forall>l \<in> set lens. 0 \<le> l \<Longrightarrow> int (sum_list (map nat lens)) = sum_list lens"
  by (induction lens) auto

lemma token_rows_index: "token_rows lens = index_of_rows (map nat lens)"
  by (simp add: token_rows_def index_of_rows_def)

lemma map2_both: "length xs = length ys \<Longrightarrow> map2 f ys (map2 g xs ys) = map2 (\<lambda>x y. f y (g x y)) xs ys"
  by (induction xs ys rule: list_induct2) auto

lemma index_start_le: "k < sum_list ms \<Longrightarrow> sum_list (take (index_of_rows ms ! k) ms) \<le> k"
proof (induction ms rule: rev_induct)
  case (snoc m ms)
  show ?case
  proof (cases "k < sum_list ms")
    case True
    then have "index_of_rows ms ! k < length ms" by (metis index_of_rows_less length_index_of_rows nth_mem)
    then show ?thesis using snoc.IH [OF True] True by (simp add: index_of_rows_snoc nth_append)
  next
    case False
    then show ?thesis using snoc.prems by (simp add: index_of_rows_snoc nth_append)
  qed
qed simp

lemma map2_of_rows:
  "map2 h (index_of_rows ns) (concat (map (\<lambda>n. [0..<n]) ns)) = concat (map2 (\<lambda>r n. map (h r) [0..<n]) [0..<length ns] ns)"
proof (induction ns rule: rev_induct)
  case (snoc n ns)
  have "length (index_of_rows ns) = length (concat (map (\<lambda>n. [0..<n]) ns))" by (simp add: length_concat comp_def)
  moreover have "map2 h (replicate n (length ns)) [0..<n] = map (h (length ns)) [0..<n]" by (rule nth_equalityI) auto
  ultimately show ?case using snoc by (simp add: index_of_rows_snoc)
qed simp

text \<open>The flat positions are each row's chunk, one after the other.\<close>

lemma token_positions_rows:
  assumes "\<forall>l \<in> set lens. 0 \<le> l" "length starts = length lens"
  shows "token_positions starts lens = map2 (\<lambda>r c. starts ! r + int c) (token_rows lens) (concat (map (\<lambda>l. [0..<nat l]) lens))"
    "token_positions starts lens = concat (map2 (\<lambda>st l. map (\<lambda>j. st + int j) [0..<nat l]) starts lens)"
proof -
  let ?ns = "map nat lens"
  have tot: "nat (last (cu_seqlens lens)) = sum_list ?ns"
    using sum_list_nat [OF assms(1)] by (simp add: cu_seqlens_def last_map)
  have c: "concat (map (\<lambda>l. [0..<nat l]) lens) = concat (map (\<lambda>n. [0..<n]) ?ns)" by (simp add: comp_def)
  have "token_positions starts lens = map2 (\<lambda>j r. starts ! r + int (j - row_starts ?ns ! r)) [0..<sum_list ?ns] (index_of_rows ?ns)"
    unfolding token_positions_def Let_def tot token_rows_index
  proof (rule map2_cong_set)
    fix j r
    assume jr: "(j, r) \<in> set (zip [0..<sum_list ?ns] (index_of_rows ?ns))"
    then have r: "r < length lens" by (metis index_of_rows_less length_map set_zip_rightD)
    have "j < sum_list ?ns \<and> r = index_of_rows ?ns ! j" using jr unfolding in_set_zip by auto
    then have "row_starts ?ns ! r \<le> j" using index_start_le [of j ?ns] r by simp
    moreover have "cu_seqlens lens ! r = int (row_starts ?ns ! r)"
    proof -
      have "\<forall>l \<in> set (take r lens). 0 \<le> l" using assms(1) by (meson in_set_takeD)
      from sum_list_nat [OF this] show ?thesis using r by (simp add: cu_seqlens_nth take_map)
    qed
    ultimately show "starts ! r + int j - cu_seqlens lens ! r = starts ! r + int (j - row_starts ?ns ! r)" by simp
  qed
  also have "\<dots> = map2 (\<lambda>r c. starts ! r + int c) (index_of_rows ?ns) (concat (map (\<lambda>n. [0..<n]) ?ns))"
    unfolding cols_of_rows [symmetric] by (rule map2_both [symmetric]) simp
  finally show 1: "token_positions starts lens = map2 (\<lambda>r c. starts ! r + int c) (token_rows lens) (concat (map (\<lambda>l. [0..<nat l]) lens))"
    unfolding c token_rows_index .
  have "map2 (\<lambda>r n. map (\<lambda>c. starts ! r + int c) [0..<n]) [0..<length ?ns] ?ns = map2 (\<lambda>st l. map (\<lambda>j. st + int j) [0..<nat l]) starts lens"
    using assms(2) by (intro nth_equalityI) auto
  then show "token_positions starts lens = concat (map2 (\<lambda>st l. map (\<lambda>j. st + int j) [0..<nat l]) starts lens)"
    unfolding 1 c token_rows_index map2_of_rows by (rule arg_cong)
qed

lemma length_cells [simp]: "length (concat (map (upt 0) ns)) = sum_list ns"
  by (induction ns) auto

lemma cells_snoc:
  "zip (index_of_rows (ns @ [n])) (concat (map (\<lambda>n. [0..<n]) (ns @ [n]))) =
   zip (index_of_rows ns) (concat (map (\<lambda>n. [0..<n]) ns)) @ zip (replicate n (length ns)) [0..<n]"
  by (simp add: index_of_rows_snoc zip_append)

lemma distinct_cells: "distinct (zip (index_of_rows ns) (concat (map (\<lambda>n. [0..<n]) ns)))"
proof (induction ns rule: rev_induct)
  case (snoc n ns)
  let ?old = "zip (index_of_rows ns) (concat (map (\<lambda>n. [0..<n]) ns))"
  have "x \<in> set (index_of_rows ns)" if "(x, y) \<in> set ?old" for x y using that by (rule set_zip_leftD)
  then have "set ?old \<inter> set (zip (replicate n (length ns)) [0..<n]) = {}"
    using index_of_rows_less by (fastforce dest: set_zip_leftD)
  then show ?case using snoc unfolding cells_snoc by (simp add: distinct_zipI2)
qed simp

lemma cells_bounds:
  "(r, c) \<in> set (zip (index_of_rows ns) (concat (map (\<lambda>n. [0..<n]) ns))) \<Longrightarrow> r < length ns \<and> c < ns ! r"
proof (induction ns rule: rev_induct)
  case (snoc n ns)
  consider "(r, c) \<in> set (zip (index_of_rows ns) (concat (map (\<lambda>n. [0..<n]) ns)))" | "(r, c) \<in> set (zip (replicate n (length ns)) [0..<n])"
    using snoc.prems unfolding cells_snoc by auto
  then show ?case
  proof cases
    case 1
    then show ?thesis using snoc.IH by (simp add: nth_append)
  next
    case 2
    then have "r \<in> set (replicate n (length ns))" "c \<in> set [0..<n]" by (meson set_zip_leftD set_zip_rightD)+
    then show ?thesis by simp
  qed
qed simp

lemma slot_inj:
  fixes b b' p p' bs :: int
  assumes "0 < bs" "b * bs + p mod bs = b' * bs + p' mod bs"
  shows "b = b'" "p mod bs = p' mod bs"
proof -
  have "(b * bs + p mod bs) div bs = b" "(b' * bs + p' mod bs) div bs = b'" using assms(1) by simp_all
  then show "b = b'" using assms(2) by simp
  then show "p mod bs = p' mod bs" using assms(2) by simp
qed

text \<open>
  The slots of a batch, when each row's table covers its positions and no block to write to is
  in two places.
\<close>

lemma table_matrix_get:
  assumes "table_matrix tables = Some table" "r < length tables" "0 \<le> i" "i < int (length (tables ! r))"
  shows "py_get (table ! r) i = Inr (int (tables ! r ! nat i))"
  using assms by (auto simp: table_matrix_def Let_def py_get_nonneg nth_append split: if_splits)

lemma flat_pairs:
  assumes "\<forall>l \<in> set lens. 0 \<le> l" "length starts = length lens"
  shows "zip (token_rows lens) (token_positions starts lens) =
    map (\<lambda>(k, c). (k, starts ! k + int c)) (zip (index_of_rows (map nat lens)) (concat (map (\<lambda>n. [0..<n]) (map nat lens))))"
proof -
  have "length (index_of_rows (map nat lens)) = length (concat (map (\<lambda>n. [0..<n]) (map nat lens)))" by (simp add: length_concat comp_def)
  moreover have "concat (map (\<lambda>l. [0..<nat l]) lens) = concat (map (\<lambda>n. [0..<n]) (map nat lens))" by (simp add: comp_def)
  ultimately show ?thesis unfolding token_positions_rows(1) [OF assms] token_rows_index by (intro nth_equalityI) auto
qed

lemma flat_bounds:
  assumes "\<forall>l \<in> set lens. 0 \<le> l" "length starts = length lens" "(k, p) \<in> set (zip (token_rows lens) (token_positions starts lens))"
  shows "k < length lens \<and> starts ! k \<le> p \<and> p < starts ! k + lens ! k"
  using assms(3) cells_bounds [of k _ "map nat lens"] unfolding flat_pairs [OF assms(1,2)] by fastforce

lemma batch_slots_total:
  assumes bs: "0 < r_block_size r" and len: "\<forall>l \<in> set lens. 0 \<le> l" "length starts = length lens" "length tables = length lens"
    and cover: "\<And>k. k < length lens \<Longrightarrow> 0 \<le> starts ! k \<and> starts ! k + lens ! k \<le> int (length (tables ! k)) * r_block_size r"
  shows "\<exists>bt slots. batch_slots r tables (token_rows lens) (token_positions starts lens) = Inr (bt, slots)"
proof (cases "table_matrix tables")
  case (Some table)
  have "\<exists>y. cache_slot (r_block_size r) table k p = Inr y"
    if "(k, p) \<in> set (zip (token_rows lens) (token_positions starts lens))" for k p
  proof -
    note b = flat_bounds [OF len(1,2) that]
    then have p: "0 \<le> p" "p < int (length (tables ! k)) * r_block_size r" using cover [of k] by auto
    have "0 \<le> p div r_block_size r" "p div r_block_size r < int (length (tables ! k))"
      using p bs div_less_of_less_mult [OF bs p(2)] by (simp_all add: pos_imp_zdiv_nonneg_iff)
    then show ?thesis using table_matrix_get [OF Some, of k "p div r_block_size r"] b len(3) by (simp add: cache_slot_def)
  qed
  then have "\<exists>ys. slots_of (r_block_size r) tables table (token_rows lens) (token_positions starts lens) = Inr ys"
    unfolding slots_of_def by (intro mapE_ok) auto
  then show ?thesis using Some by (auto simp: batch_slots_def)
qed (simp add: batch_slots_def)

lemma batch_slots_distinct:
  assumes slots: "batch_slots r tables (token_rows lens) (token_positions starts lens) = Inr (bt, slots)"
    and bs: "0 < r_block_size r" and len: "\<forall>l \<in> set lens. 0 \<le> l" "length starts = length lens" "length tables = length lens"
    and cover: "\<And>k. k < length lens \<Longrightarrow> 0 \<le> starts ! k \<and> starts ! k + lens ! k \<le> int (length (tables ! k)) * r_block_size r"
    and excl: "\<And>k k' j j'. k < length lens \<Longrightarrow> k' < length lens \<Longrightarrow> starts ! k \<le> int j * r_block_size r + r_block_size r - 1 \<Longrightarrow>
       starts ! k' \<le> int j' * r_block_size r + r_block_size r - 1 \<Longrightarrow> j < length (tables ! k) \<Longrightarrow> j' < length (tables ! k') \<Longrightarrow>
       tables ! k ! j = tables ! k' ! j' \<Longrightarrow> k = k' \<and> j = j'"
  shows "distinct slots \<and> length slots = sum_list (map nat lens)"
proof -
  let ?bs = "r_block_size r" and ?ns = "map nat lens"
  let ?cells = "zip (index_of_rows ?ns) (concat (map (\<lambda>n. [0..<n]) ?ns))"
  let ?slot = "\<lambda>(k, c). int (tables ! k ! nat ((starts ! k + int c) div ?bs)) * ?bs + (starts ! k + int c) mod ?bs"
  note pairs = flat_pairs [OF len(1,2)]
  have cell: "k < length lens" "0 \<le> (starts ! k + int c) div ?bs" "nat ((starts ! k + int c) div ?bs) < length (tables ! k)"
    "starts ! k \<le> int (nat ((starts ! k + int c) div ?bs)) * ?bs + ?bs - 1" if "(k, c) \<in> set ?cells" for k c
  proof -
    have b: "k < length lens" "c < nat (lens ! k)" using cells_bounds [OF that] by auto
    then have pos: "0 \<le> starts ! k + int c" "starts ! k + int c < int (length (tables ! k)) * ?bs" using cover [of k] by auto
    show "k < length lens" by (rule b(1))
    show d: "0 \<le> (starts ! k + int c) div ?bs" using pos(1) bs by (simp add: pos_imp_zdiv_nonneg_iff)
    have "(starts ! k + int c) div ?bs * ?bs < int (length (tables ! k)) * ?bs"
      using pos(2) pos_mod_sign [OF bs, of "starts ! k + int c"] div_mult_mod_eq [of "starts ! k + int c" ?bs] by linarith
    then have "(starts ! k + int c) div ?bs < int (length (tables ! k))" using bs by (simp add: mult_less_cancel_right)
    then show "nat ((starts ! k + int c) div ?bs) < length (tables ! k)" using d by simp
    have "starts ! k + int c = (starts ! k + int c) div ?bs * ?bs + (starts ! k + int c) mod ?bs" by simp
    moreover have "(starts ! k + int c) mod ?bs \<le> ?bs - 1" using bs by simp
    ultimately have "starts ! k + int c \<le> (starts ! k + int c) div ?bs * ?bs + (?bs - 1)" by linarith
    then show "starts ! k \<le> int (nat ((starts ! k + int c) div ?bs)) * ?bs + ?bs - 1" using d by simp
  qed
  have inj: "inj_on ?slot (set ?cells)"
  proof (rule inj_onI, clarify)
    fix k c k' c'
    assume a: "(k, c) \<in> set ?cells" "(k', c') \<in> set ?cells"
      and eq: "int (tables ! k ! nat ((starts ! k + int c) div ?bs)) * ?bs + (starts ! k + int c) mod ?bs =
        int (tables ! k' ! nat ((starts ! k' + int c') div ?bs)) * ?bs + (starts ! k' + int c') mod ?bs"
    note e = slot_inj [OF bs eq] and f = cell [OF a(1)] and g = cell [OF a(2)]
    have "k = k' \<and> nat ((starts ! k + int c) div ?bs) = nat ((starts ! k' + int c') div ?bs)"
      by (rule excl [OF f(1) g(1) f(4) g(4) f(3) g(3)]) (use e(1) in linarith)
    then have "k = k'" "(starts ! k + int c) div ?bs = (starts ! k + int c') div ?bs" using f(2) g(2) by auto
    then show "k = k' \<and> c = c'" using e(2) by (metis add_left_cancel div_mult_mod_eq of_nat_eq_iff)
  qed
  show ?thesis
  proof (cases "table_matrix tables")
    case None
    then have e: "\<forall>t \<in> set tables. t = []" by (simp add: table_matrix_def Let_def split: if_splits)
    have "nat (lens ! k) = 0" if "k < length lens" for k
    proof -
      have "tables ! k = []" using e that len(3) by (metis nth_mem)
      then show ?thesis using cover [OF that] by simp
    qed
    then have "\<forall>l \<in> set lens. nat l = 0" by (metis in_set_conv_nth)
    then have "sum_list ?ns = 0" by (simp add: sum_list_eq_0_iff)
    then show ?thesis using slots None by (simp add: batch_slots_def)
  next
    case (Some table)
    have ne: "tables ! k \<noteq> []" if "(k, c) \<in> set ?cells" for k c using cell(3) [OF that] by auto
    have "filter (\<lambda>(row, _). tables ! row \<noteq> []) (zip (token_rows lens) (token_positions starts lens)) = zip (token_rows lens) (token_positions starts lens)"
      unfolding pairs by (rule filter_True) (use ne in auto)
    then have "slots_of ?bs tables table (token_rows lens) (token_positions starts lens) =
        mapE (\<lambda>(row, pos). cache_slot ?bs table row pos) (map (\<lambda>(k, c). (k, starts ! k + int c)) ?cells)"
      by (simp add: slots_of_def pairs)
    also have "\<dots> = Inr (map (\<lambda>(k, p). int (tables ! k ! nat (p div ?bs)) * ?bs + p mod ?bs) (map (\<lambda>(k, c). (k, starts ! k + int c)) ?cells))"
    proof (rule mapE_total)
      fix x assume "x \<in> set (map (\<lambda>(k, c). (k, starts ! k + int c)) ?cells)"
      then obtain k c where kc: "(k, c) \<in> set ?cells" and x: "x = (k, starts ! k + int c)" by auto
      show "(case x of (row, pos) \<Rightarrow> cache_slot ?bs table row pos) = Inr (case x of (k, p) \<Rightarrow> int (tables ! k ! nat (p div ?bs)) * ?bs + p mod ?bs)"
        using table_matrix_get [OF Some, of k "(starts ! k + int c) div ?bs"] cell [OF kc] len(3) by (simp add: x cache_slot_def)
    qed
    finally have "slots = map ?slot ?cells" using slots Some by (auto simp: batch_slots_def bindE_eq_Inr comp_def case_prod_beta)
    then show ?thesis using inj distinct_cells [of ?ns] length_cells [of ?ns] by (simp add: distinct_map del: map_map)
  qed
qed

lemma unpublished_once:
  assumes inv: "bm_inv cls bm (add_mset (holding_of q) M)"
    and j: "num_published_blocks q \<le> int j" "j < length (block_table q)" "j' < length (block_table q)" "block_table q ! j = block_table q ! j'"
  shows "j = j'"
proof (rule ccontr)
  assume ne: "j \<noteq> j'"
  let ?t = "block_table q" and ?x = "block_table q ! j"
  have "count (mset ?t + held M) ?x = 1"
    using bm_invD(3) [OF inv, of "holding_of q"] j(1,2) by (auto simp: holding_ok_def holding_of_def)
  then have "card {i. i < length ?t \<and> ?t ! i = ?x} \<le> 1"
    by (simp add: count_mset count_list_eq_length_filter length_filter_conv_card eq_commute)
  moreover have "card {j, j'} \<le> card {i. i < length ?t \<and> ?t ! i = ?x}" by (rule card_mono) (use j in auto)
  ultimately show False using ne by simp
qed

text \<open>A block a running sequence may write to is in one place only.\<close>

lemma written_once:
  assumes inv: "sch_inv cls F [] Q s" and i: "i \<in> set Q" "i' \<in> set Q"
    and j: "num_published_blocks (objs s i) \<le> int j" "j < length (block_table (objs s i))" "j' < length (block_table (objs s i'))"
      "block_table (objs s i) ! j = block_table (objs s i') ! j'"
  shows "i = i' \<and> j = j'"
proof -
  note d = sch_invD [OF inv] and c = coreD [OF sch_invD(5) [OF inv]]
  have r: "sroles [] s i = InR" "sroles [] s i' = InR" using c(5) i by auto
  have bm: "bm_inv cls (block_mgr s) (add_mset (holding_of (objs s i)) (others (sroles [] s) i (objs s)))"
    using core_bm [OF d(5), of i] r by simp
  have "i = i'"
  proof (rule ccontr)
    assume "i \<noteq> i'"
    then have "holding_of (objs s i') \<in># others (sroles [] s) i (objs s)"
      using r(2) finite_holds [OF c(1)] by (auto simp: others_def)
    then obtain M where "others (sroles [] s) i (objs s) = add_mset (holding_of (objs s i')) M" by (metis insert_DiffM)
    then show False using unpublished_block_exclusive [of cls "block_mgr s" "objs s i" "objs s i'" M j j'] bm j by simp
  qed
  then show ?thesis using unpublished_once [OF bm j(1,2)] j(3,4) by simp
qed

section \<open>Properties\<close>

definition demo_runner :: model_runner where
  "demo_runner = \<lparr>r_block_size = 2, r_num_spec = 0, r_decodes_latents = True, r_cudagraph_mode = ''full_and_piecewise'',
     r_graph_bs = [], r_graph_query_len = 1, r_piecewise_bs = [], r_step_kind = ''enforced'', r_prev_tokens = None,
     r_prev_rows = None, r_in_flight_drafts = None\<rparr>"

definition demo_batch :: batch where
  "demo_batch = the_ok (prepare_batch demo_runner (map (objs (fst demo_sched)) (scheduled (snd demo_sched))))"

lemma demo_batch: "prepare_batch demo_runner (map (objs (fst demo_sched)) (scheduled (snd demo_sched))) = Inr demo_batch"
  unfolding demo_batch_def by (rule the_ok, code_simp)

lemma demo_cls_block_size: "cls_block_size (demo_cls True) = 2"
  by (simp add: demo_cls_def)

text \<open>
  C26: the runner samples the rows the scheduler waits for.  Whatever the order of the batch, the
  sequences whose tokens a step returns are, in order, those of the rows \<open>advance\<close> made of the
  same step, with as many drafts verified as those rows say; so \<open>reconcile\<close> can pair them up.
\<close>

theorem runner_rows_match:
  assumes "reachable cls (s, F)" "schedule cls s = Inr (s1, out)"
    and "s2 = s1 \<or> kv_report_ok kv s1 \<and> update_from_kv_connector_output cls kv s1 = Inr s2"
    and "prepare_batch r (map (objs s2) (scheduled out)) = Inr b" "advance cls (scheduled out) s2 = Inr (s', rows)"
  shows "map seq_id (b_sampling_rows b) = map row_seq rows \<and>
    (r_num_spec r \<noteq> 0 \<longrightarrow> (\<exists>ds ns. b_spec_inputs b = Some (ds, ns) \<and> map int ns = map row_num_draft_tokens rows \<and> length ds = sum_list ns))"
proof -
  note inv = reachable_inv [OF assms(1), simplified]
  have a: "sch_inv cls F [] (scheduled out) s1" "distinct (scheduled out)" using launch_ok [of cls F s] inv assms(2) by auto
  have "sch_inv cls F [] (scheduled out) s2" using assms(3) a(1) report_ok [OF a(1), of kv] by auto
  then show ?thesis using rows_match [OF _ a(2) assms(4,5)] by blast
qed

theorem runner_rows_match_witness:
  "map seq_id (b_sampling_rows demo_batch) = map row_seq (snd demo_launch) \<and> map row_seq (snd demo_launch) = [0]"
proof -
  have "map seq_id (b_sampling_rows demo_batch) = map row_seq (snd demo_launch)"
    using runner_rows_match [OF demo_reachable(2), of "fst demo_sched" "snd demo_sched" "fst demo_sched" _ demo_runner demo_batch
      "fst demo_launch" "snd demo_launch"] demo_run(4,5) demo_batch by simp
  then show ?thesis by (simp add: demo_rows)
qed



section \<open>Graphs and query lengths\<close>

lemma capture_sizes_bounds:
  assumes "n \<in> set (cudagraph_capture_sizes max_seqs toks)"
  shows "n \<le> toks" "1 \<le> toks \<Longrightarrow> 1 \<le> n"
  using assms by (auto simp: cudagraph_capture_sizes_def Let_def split: if_splits)

lemma capture_sizes_sorted: "sorted (cudagraph_capture_sizes max_seqs toks)" "distinct (cudagraph_capture_sizes max_seqs toks)"
  by (simp_all add: cudagraph_capture_sizes_def Let_def)

lemma next_size_smallest:
  assumes "sorted sizes" "next_size sizes n = Some g"
  shows "g \<in> set sizes \<and> n \<le> g \<and> (\<forall>size \<in> set sizes. n \<le> size \<longrightarrow> g \<le> size)"
  using assms by (induction sizes) (auto simp: next_size_def split: if_splits)

lemma next_size_ex: "sizes \<noteq> [] \<Longrightarrow> n \<le> last sizes \<Longrightarrow> \<exists>g. next_size sizes n = Some g"
  by (induction sizes) (auto simp: next_size_def split: if_splits)


definition graph_runner :: model_runner where
  "graph_runner = capture_cudagraph 4 8 demo_runner"

definition graph_batch :: batch where
  "graph_batch = demo_batch\<lparr>b_input_ids := [7, 8, 9], b_slot_mapping := [0, 2, 4], b_context_lens := [1, 1, 1], b_query_len := 1\<rparr>"


lemma fold_max_start: "m \<le> fold max xs (m::int)"
proof (induction xs arbitrary: m)
  case (Cons x xs)
  have "m \<le> max x m" by simp
  also have "\<dots> \<le> fold max xs (max x m)" by (rule Cons.IH)
  finally show ?case by simp
qed simp

lemma fold_max_ge: "x \<in> set xs \<Longrightarrow> x \<le> fold max xs (m::int)"
proof (induction xs arbitrary: m)
  case (Cons y ys)
  then show ?case using fold_max_start [of "max y m" ys] by auto
qed simp

text \<open>
  \<open>decode_query_len\<close> is the most common of the query lengths decode attention could serve,
  the shortest of several; 1 when there is none.
\<close>

lemma decode_query_len_most_common:
  assumes "\<forall>l \<in> set lens. 0 \<le> l"
  shows "decode_query_len lens k = 1 \<and> (\<forall>l \<in> set lens. 1 + k < l) \<or>
    decode_query_len lens k \<in> set lens \<and> decode_query_len lens k \<le> 1 + k \<and>
    (\<forall>l. l \<le> 1 + k \<longrightarrow> count_list lens l \<le> count_list lens (decode_query_len lens k) \<and>
      (l < decode_query_len lens k \<longrightarrow> count_list lens l < count_list lens (decode_query_len lens k)))"
proof (cases "filter (\<lambda>l. l \<le> 1 + k) lens = []")
  case True
  then show ?thesis by (auto simp: decode_query_len_def filter_empty_conv not_le)
next
  case False
  let ?short = "filter (\<lambda>l. l \<le> 1 + k) lens" and ?q = "decode_query_len lens k"
  let ?bc = "bincount ?short" and ?m = "fold max (filter (\<lambda>l. l \<le> 1 + k) lens) 0"
  have m: "0 \<le> ?m" by (rule fold_max_start)
  have len: "length ?bc = nat (?m + 1)" by (simp add: bincount_def)
  have bc: "?bc ! v = int (count_list ?short (int v))" if "v < length ?bc" for v using that by (simp add: bincount_def)
  have cnt: "count_list ?short l = count_list lens l" if "l \<le> 1 + k" for l using that by (induction lens) auto
  have q: "?q = int (argmax ?bc)" using False by (simp add: decode_query_len_def)
  have al: "argmax ?bc < length ?bc" using argmax_less [of ?bc] len m by fastforce
  obtain x where x: "x \<in> set ?short" using False by (cases ?short) auto
  have le: "count_list ?short l \<le> count_list ?short ?q" "l < ?q \<Longrightarrow> count_list ?short l < count_list ?short ?q" for l
  proof -
    have in_range: "nat l < length ?bc \<and> 0 \<le> l" if "l \<in> set ?short"
      using fold_max_ge [OF that, of 0] that assms len by auto
    show "count_list ?short l \<le> count_list ?short ?q"
    proof (cases "l \<in> set ?short")
      case True
      then show ?thesis using in_range argmax_max [of "nat l" ?bc] bc al q by fastforce
    qed (simp add: count_list_0_iff)
    show "count_list ?short l < count_list ?short ?q" if "l < ?q"
    proof (cases "l \<in> set ?short")
      case True
      then show ?thesis using in_range argmax_first [of "nat l" ?bc] bc al q that by fastforce
    next
      case False
      have "0 < count_list ?short x" using x by (metis count_list_0_iff gr0I)
      moreover have "count_list ?short x \<le> count_list ?short ?q"
        using fold_max_ge [OF x, of 0] x assms len argmax_max [of "nat x" ?bc] bc al q by fastforce
      ultimately show ?thesis using False by (simp add: count_list_0_iff)
    qed
  qed
  have "0 < count_list ?short ?q" using le(1) [of x] x by (metis count_list_0_iff gr0I le_zero_eq)
  then have "?q \<in> set ?short" by (metis count_list_0_iff less_irrefl)
  moreover from this have "count_list ?short ?q = count_list lens ?q" by (intro cnt) simp
  moreover have "?q \<in> set lens" "?q \<le> 1 + k" using \<open>?q \<in> set ?short\<close> by simp_all
  ultimately show ?thesis using le cnt by metis
qed

end
