(* ===== verification/Engine_Properties.thy ===== *)
theory Engine_Properties
  imports Engine_Machine Runner_Properties
begin

text \<open>
  The engine with the model runner of \<open>Model_Runner\<close>, without speculation.  The runner keeps what the
  engine relies on (the interpretation of \<open>model_worker\<close>): it finds every pending token where the
  step before left it, and samples one token per row the scheduler waits for.  So whatever a
  caller does, the engine runs the scheduler's machine and raises nothing.
\<close>

section \<open>The runner as the engine calls it\<close>

text \<open>
  The state is the runner's and that of the ranks' connectors, whose step is a parameter.
\<close>

definition runner_calls ::
  "step_model \<Rightarrow> (kv_connector_metadata \<Rightarrow> 'k \<Rightarrow> kv_connector_output \<times> 'k) \<Rightarrow> (model_runner \<times> 'k) model_calls" where
  "runner_calls m kvstep =
     \<lparr>kv_connector_step = (\<lambda>meta (r, k). let (kv, k') = kvstep meta k in Inr (kv, (r, k'))),
      run = (\<lambda>s Q (r, k). bindE (run_step m (map (objs s) Q) r) (\<lambda>(p, r'). Inr (p, (r', k)))),
      runner_step_kind = (\<lambda>(r, k). r_step_kind r)\<rparr>"

definition runner_tracks :: "seq_class \<Rightarrow> launched_row list \<Rightarrow> model_runner \<times> 'k \<Rightarrow> bool" where
  "runner_tracks cls rows = (\<lambda>(r, k). r_num_spec r = 0 \<and> r_in_flight_drafts r = None \<and> r_block_size r = cls_block_size cls \<and>
     (rows \<noteq> [] \<longrightarrow> r_prev_rows r = Some (map (\<lambda>(n, row). (row_seq row, n)) (List.enumerate 0 rows)) \<and>
        (\<exists>prev. r_prev_tokens r = Some prev \<and> length prev = length rows)))"

section \<open>A batch can always be prepared\<close>

definition source_ok :: "model_runner \<Rightarrow> nat \<Rightarrow> bool" where
  "source_ok r src \<longleftrightarrow> (\<exists>prev. r_prev_tokens r = Some prev \<and> src < length prev)"

definition fill_ok :: "model_runner \<Rightarrow> fill \<Rightarrow> bool" where
  "fill_ok r f \<longleftrightarrow> f_draft_dst f = [] \<and> length (f_pending_dst f) = length (f_pending_src f) \<and>
     (\<forall>p \<in> set (f_pending_dst f). p < length (f_token_ids f)) \<and> (\<forall>p \<in> set (f_pending_src f). source_ok r p)"

lemma fill_rows_total:
  assumes "r_in_flight_drafts r = None"
    and "\<And>q a b. (q, a, b) \<in> set zs \<Longrightarrow> (is_prefill q \<longrightarrow> num_pending_tokens q = 0) \<and>
       (num_pending_tokens q \<noteq> 0 \<longrightarrow> okE (prev_row r q) (source_ok r))"
  shows "okE (foldE (fill_row r) zs empty_fill) (fill_ok r)"
proof (rule okE_foldE_inv)
  show "fill_ok r empty_fill" by (simp add: fill_ok_def empty_fill_def)
next
  fix x f
  assume x: "x \<in> set zs" and f: "fill_ok r f"
  obtain q a b where q: "x = (q, a, b)" by (cases x) auto
  note h = assms(2) [of q a b, OF x [unfolded q]]
  show "okE (fill_row r x f) (fill_ok r)"
  proof (cases "is_prefill q \<or> num_pending_tokens q = 0")
    case True
    then show ?thesis using h f by (auto simp: q fill_row_def fill_ok_def assertE_def)
  next
    case False
    then obtain src where "prev_row r q = Inr src" "source_ok r src" using h by (auto simp: okE_iff)
    then show ?thesis using False f assms(1) by (auto simp: q fill_row_def fill_ok_def fill_from_device_def Let_def)
  qed
qed

lemma fill_pending_total:
  assumes "r_in_flight_drafts r = None" "fill_ok r f"
  shows "\<exists>xs. fill_pending r f = Inr xs"
proof (cases "f_pending_dst f")
  case Nil
  then show ?thesis using assms by (simp add: fill_pending_def fill_ok_def)
next
  case (Cons p ps)
  then obtain prev where prev: "r_prev_tokens r = Some prev" using assms(2) by (cases "f_pending_src f") (auto simp: fill_ok_def source_ok_def)
  let ?n = "length (f_pending_dst f)"
  have b: "\<And>i. i \<in> set (f_pending_dst f) \<Longrightarrow> i < length (f_token_ids f)" "\<And>i. i \<in> set (f_pending_src f) \<Longrightarrow> i < length prev"
    using assms(2) prev by (auto simp: fill_ok_def source_ok_def)
  have "\<exists>xs. copy_pending (f_pending_dst f) (f_pending_src f) prev (f_token_ids f) = Inr xs"
  proof (cases "f_pending_dst f = [0..<?n] \<and> [0..<?n] = f_pending_src f")
    case True
    have "?n - 1 \<in> set [0..<?n]" using Cons by simp
    then have "?n - 1 < length (f_token_ids f)" "?n - 1 < length prev" using b [of "?n - 1"] True by metis+
    then have "min (length prev) ?n = ?n" "min (length (f_token_ids f)) ?n = ?n" by linarith+
    then have "length (take ?n prev) = length (take ?n (f_token_ids f))" by simp
    then have "copy_pending (f_pending_dst f) (f_pending_src f) prev (f_token_ids f) = Inr (take ?n prev @ drop ?n (f_token_ids f))"
      unfolding copy_pending_def Let_def if_P [OF True] by simp
    then show ?thesis by blast
  next
    case False
    have "\<not> ((\<exists>i \<in> set (f_pending_src f). length prev \<le> i) \<or> (\<exists>i \<in> set (f_pending_dst f). length (f_token_ids f) \<le> i))"
      using b by (meson leD)
    then show ?thesis using False by (simp add: copy_pending_def Let_def index_copy_def)
  qed
  then show ?thesis using assms prev Cons by (auto simp: fill_pending_def fill_ok_def)
qed

lemma prepare_batch_total:
  assumes inv: "sch_inv cls F [] Q s" "distinct Q" "Q \<noteq> []"
    and r: "r_num_spec r = 0" "r_in_flight_drafts r = None" "r_block_size r = cls_block_size cls"
    and prev: "\<And>i. i \<in> set Q \<Longrightarrow> num_pending_tokens (objs s i) \<noteq> 0 \<Longrightarrow> okE (prev_row r (objs s i)) (source_ok r)"
  shows "\<exists>b. prepare_batch r (map (objs s) Q) = Inr b"
proof -
  let ?sqs = "map (objs s) Q" let ?ord = "order_of r ?sqs" let ?qs = "gather ?sqs ?ord"
  let ?lens = "gather (map num_scheduled_tokens ?sqs) ?ord" and ?starts = "gather (map num_cached_tokens ?sqs) ?ord"
  have ord: "length ?ord = length Q" "set ?ord = {..<length Q}"
    using batch_order_perm [of "map num_scheduled_tokens ?sqs"] by (simp_all add: order_of_def Let_def)
  have k: "Q ! (?ord ! k) \<in> set Q" "?ord ! k < length Q" if "k < length Q" for k using that ord nth_mem [of k ?ord] by auto
  have at_k: "?lens ! k = num_scheduled_tokens (objs s (Q ! (?ord ! k)))" "?starts ! k = num_cached_tokens (objs s (Q ! (?ord ! k)))"
    "map block_table ?qs ! k = block_table (objs s (Q ! (?ord ! k)))" if "k < length Q" for k
    using that k(2) [OF that] ord(1) by (simp_all add: gather_def)
  have len: "length ?lens = length Q" "length ?starts = length Q" "length ?qs = length Q" using ord(1) by (simp_all only: gather_def length_map)
  have ro: "running_ok cls (kv_on s) True (objs s i)" if "i \<in> set Q" for i by (rule scheduled_facts(3) [OF inv(1) that])
  have bs: "0 < r_block_size r" using sch_invD(1) [OF inv(1)] r(3) by (simp add: cfg_ok_def cls_wf_def)
  have nn: "0 \<le> num_cached_tokens (objs s i)" "0 \<le> num_scheduled_tokens (objs s i)"
    "num_cached_tokens (objs s i) + num_scheduled_tokens (objs s i) \<le> int (length (block_table (objs s i))) * cls_block_size cls"
    if "i \<in> set Q" for i
    using ro [OF that] by (auto simp: running_ok_def prefill_ok_def decode_ok_def num_planned_tokens_def seq_wf_def split: if_splits)
  have pos: "\<forall>l \<in> set ?lens. 0 \<le> l" using nn(2) k(1) at_k(1) len(1) by (metis in_set_conv_nth)
  have "\<exists>bt slots. batch_slots r (map block_table ?qs) (token_rows ?lens) (token_positions ?starts ?lens) = Inr (bt, slots)"
  proof (rule batch_slots_total [OF bs pos])
    fix j assume "j < length ?lens"
    then have j: "j < length Q" unfolding len .
    show "0 \<le> ?starts ! j \<and> ?starts ! j + ?lens ! j \<le> int (length (map block_table ?qs ! j)) * r_block_size r"
      unfolding at_k [OF j] r(3) using nn [OF k(1) [OF j]] by simp
  qed (use len in \<open>simp_all only: length_map\<close>)
  then obtain bt slots where slots: "batch_slots r (map block_table ?qs) (token_rows ?lens) (token_positions ?starts ?lens) = Inr (bt, slots)"
    by blast
  have qs: "q \<in> objs s ` set Q" if "q \<in> set ?qs" for q using that ord(2) by (auto simp: gather_def)
  have "okE (foldE (fill_row r) (zip ?qs (zip ?starts (map2 (+) ?starts ?lens))) empty_fill) (fill_ok r)"
  proof (rule fill_rows_total [OF r(2)])
    fix q a b
    assume "(q, a, b) \<in> set (zip ?qs (zip ?starts (map2 (+) ?starts ?lens)))"
    then obtain i where i: "i \<in> set Q" "q = objs s i" using qs by (meson imageE set_zip_leftD)
    then show "(is_prefill q \<longrightarrow> num_pending_tokens q = 0) \<and> (num_pending_tokens q \<noteq> 0 \<longrightarrow> okE (prev_row r q) (source_ok r))"
      using ro [OF i(1)] prev [OF i(1)] by (auto simp: running_ok_def prefill_ok_def)
  qed
  then obtain f xs where "foldE (fill_row r) (zip ?qs (zip ?starts (map2 (+) ?starts ?lens))) empty_fill = Inr f" "fill_pending r f = Inr xs"
    using fill_pending_total [OF r(2)] unfolding okE_iff by blast
  moreover have "?qs \<noteq> []" using len(3) inv(3) by (metis length_0_conv)
  ultimately have "\<exists>b. fill_batch r ?sqs ?starts = Inr b"
    unfolding fill_batch_def Let_def spec_parts_def by (simp only: bindE.simps slots prod.case r(1) if_False if_True simp_thms) blast
  then obtain b where b: "fill_batch r ?sqs ?starts = Inr b" by blast
  show ?thesis
    unfolding prepare_batch_def Let_def moved_rows_def needs_exact_def r(2)
    by (simp only: if_True simp_thms mapE.simps bindE.simps if_False b option.case) blast
qed

section \<open>The contract holds\<close>

lemma prev_row_total:
  assumes "sch_inv cls F [] Q s" "i \<in> set Q" "F = mset rows0 \<or> F = {#}" "runner_tracks cls rows0 (r, k)" "num_pending_tokens (objs s i) \<noteq> 0"
  shows "okE (prev_row r (objs s i)) (source_ok r)"
proof -
  note c = coreD [OF sch_invD(5) [OF assms(1)]]
  have R: "sroles [] s i = InR" "seq_id (objs s i) = i" using c(5) [OF assms(2)] c(3) [of i] by auto
  then have "reserved (rows_for F i) (num_preemptions (objs s i)) \<noteq> 0" using c(6) [of i] assms(5) by (simp add: rows_ok_def)
  then have "rows_for F i \<noteq> {#}" by (auto simp: reserved_def)
  then obtain row where row: "row \<in># F" "row_seq row = i" by (auto simp: rows_for_def)
  then have F: "row \<in> set rows0" "rows0 \<noteq> []" using assms(3) by auto
  let ?d = "map (\<lambda>(n, row). (row_seq row, n)) (List.enumerate 0 rows0)"
  have keys: "map fst ?d = map row_seq rows0" by (rule nth_equalityI) (simp_all add: nth_enumerate_eq)
  have "i \<in> fst ` set ?d" using F(1) row(2) keys by (metis image_eqI list.set_map)
  then obtain n where n: "map_of ?d i = Some n" by (metis map_of_eq_None_iff not_None_eq)
  have "(i, n) \<in> set ?d" by (rule map_of_SomeD [OF n])
  then have "n < length rows0" by (auto simp: in_set_enumerate_eq)
  then show ?thesis using n F(2) R(2) assms(4) by (auto simp: prev_row_def runner_tracks_def source_ok_def)
qed

lemma enumerate_rows:
  "map f xs = map g ys \<Longrightarrow> map (\<lambda>(i, q). (f q, i)) (List.enumerate n xs) = map (\<lambda>(k, row). (g row, k)) (List.enumerate n ys)"
  by (induction xs arbitrary: ys n) auto

lemma run_step_law:
  assumes t: "runner_tracks cls rows0 (r, k)" "F = mset rows0 \<or> F = {#}" and inv: "sch_inv cls F [] Q s" "distinct Q" "Q \<noteq> []"
    and adv: "advance cls Q s = Inr (s', rows)" and m: "\<forall>b. length (sm_logits m b) = length (b_sampling_rows b)"
  shows "okE (run_step m (map (objs s) Q) r) (\<lambda>(p, r'). runner_tracks cls rows (r', k) \<and>
     (\<exists>ts. p = Plain ts \<and> sampled_ok (map OneToken ts) None 0 rows))"
proof -
  have r: "r_num_spec r = 0" "r_in_flight_drafts r = None" "r_block_size r = cls_block_size cls" using t(1) by (simp_all add: runner_tracks_def)
  obtain b where b: "prepare_batch r (map (objs s) Q) = Inr b"
    using prepare_batch_total [OF inv r] prev_row_total [OF inv(1) _ t(2,1)] by blast
  have match: "map seq_id (b_sampling_rows b) = map row_seq rows" by (rule rows_match(1) [OF inv(1,2) b adv])
  have n: "length (run_plain m b) = length rows"
    using m map_eq_imp_length_eq [OF match] by (simp add: run_plain_def sampler_forward_def split: option.splits)
  have "0 \<le> row_num_draft_tokens row" if "row \<in> set rows" for row
    using advance_rows [of cls Q s "[]" s' rows] adv inv(2) that by (auto simp: advance_def py_len_def)
  then have "sampled_ok (map OneToken (run_plain m b)) None 0 rows" using n by (auto simp: sampled_ok_def py_len_def)
  then show ?thesis using b r n enumerate_rows [OF match, of 0] by (simp add: run_step_def Let_def runner_tracks_def)
qed

text \<open>
  A forward pass gives one row of logits per row to sample.  The engine drains single tokens.
\<close>

definition logits_ok :: "step_model \<Rightarrow> bool" where
  "logits_ok m \<longleftrightarrow> (\<forall>b. length (sm_logits m b) = length (b_sampling_rows b))"

definition plain_tracks :: "seq_class \<Rightarrow> engine_config \<Rightarrow> step_model \<Rightarrow> launched_row list \<Rightarrow> model_runner \<times> 'k \<Rightarrow> bool" where
  "plain_tracks cls cfg m rows x \<longleftrightarrow> logits_ok m \<and> ec_speculative cfg = None \<and> runner_tracks cls rows x"

interpretation plain: model_worker cls cfg "runner_calls m kvstep" "plain_tracks cls cfg m" for cls cfg m kvstep
proof
  fix rows0 and x :: "model_runner \<times> 'a" and F Q s s' rows
  assume a: "plain_tracks cls cfg m rows0 x" "F = mset rows0 \<or> F = {#}" "sch_inv cls F [] Q s" "distinct Q" "Q \<noteq> []" "advance cls Q s = Inr (s', rows)"
  obtain r k where x: "x = (r, k)" by fastforce
  have "runner_tracks cls rows0 (r, k)" using a(1) by (simp add: x plain_tracks_def)
  then show "okE (run (runner_calls m kvstep) s Q x) (\<lambda>(pend, r'). plain_tracks cls cfg m rows r' \<and>
      okE (drained cfg pend) (\<lambda>(toks, drafts). sampled_ok toks drafts 0 rows))"
    using run_step_law [OF _ a(2-6), of r k m] a(1)
    by (auto simp: x runner_calls_def logits_ok_def okE_iff drained_def plain_tracks_def)
next
  fix rows0 and x :: "model_runner \<times> 'a" and meta
  assume "plain_tracks cls cfg m rows0 x"
  then show "okE (kv_connector_step (runner_calls m kvstep) meta x) (\<lambda>(kv, r'). plain_tracks cls cfg m rows0 r')"
    by (cases x) (auto simp: runner_calls_def runner_tracks_def plain_tracks_def Let_def split: prod.splits)
qed

section \<open>Properties\<close>

text \<open>A new engine whose runner has no step behind it.\<close>

definition plain_engine :: "seq_class \<Rightarrow> engine_config \<Rightarrow> step_model \<Rightarrow> (model_runner \<times> 'k, 'ds) llm_engine \<Rightarrow> bool" where
  "plain_engine cls cfg m e \<longleftrightarrow> new_engine_ok cls cfg e \<and> plain_tracks cls cfg m [] (e_runner e)"

lemma plain_reach_ok:
  "plain_engine cls cfg m e0 \<Longrightarrow> engine_reach cls (runner_calls m kvstep) validate encode e0 e \<Longrightarrow>
   model_worker.engine_ok cls cfg (plain_tracks cls cfg m) e"
  using plain.reach_ok plain.new_engine by (metis plain_engine_def)

text \<open>A concrete engine with asynchronous scheduling, its first request and its first two steps.\<close>

definition demo_model :: step_model where
  "demo_model = \<lparr>sm_logits = (\<lambda>b. map (\<lambda>_. [0, 1]) (b_sampling_rows b)), sm_propose = (\<lambda>_ _ _. []),
     sm_argsort = (\<lambda>xs. [0..<length xs]), sm_softmax = (\<lambda>xs. []), sm_noise = [], sm_uniform = []\<rparr>"

definition demo_engine_config :: engine_config where
  "demo_engine_config = \<lparr>ec_vocab_size = 100, ec_max_model_len = 128, ec_kv_transfer = None, ec_async_scheduling = True, ec_speculative = None\<rparr>"

definition demo_calls :: "(model_runner \<times> unit) model_calls" where
  "demo_calls = runner_calls demo_model (\<lambda>_ k. (\<lparr>finished_sending = [], finished_recving = [], failed_recving = [], expired_sending = [], recv_stats = []\<rparr>, k))"

definition demo_engine0 :: "(model_runner \<times> unit, unit) llm_engine" where
  "demo_engine0 = \<lparr>e_config = demo_engine_config,
     e_scheduler = the_ok (new_scheduler demo_config (\<lambda>i. demo_seq True (Suc i) [1]) (\<lambda>n. of_nat n)),
     e_runner = (demo_runner, ()), e_metrics = new_metrics, e_output_processor = None, e_in_flight = None, e_next_seq_id = 0\<rparr>"

definition demo_params :: sampling_params where
  "demo_params = sampling_params_default\<lparr>sp_temperature := 0\<rparr>"

definition demo_engine1 :: "(model_runner \<times> unit, unit) llm_engine" where
  "demo_engine1 = snd (add_request (demo_cls True) (\<lambda>_. None) (\<lambda>_. []) (Ids [5, 6, 7]) demo_params (Some ''a'') demo_engine0)"

definition demo_engine2 :: "(model_runner \<times> unit, unit) llm_engine" where
  "demo_engine2 = fst (the_ok (engine_step (demo_cls True) demo_calls demo_engine1))"

lemma demo_schedule_kv: "reports_ok (demo_cls True) demo_calls (launch_scheduler (demo_cls True) e) (e_runner e)"
  if "(case schedule (demo_cls True) (launch_scheduler (demo_cls True) e) of Inr (s, out) \<Rightarrow> kv_metadata out = None | Inl _ \<Rightarrow> True)" for e
  using that by (auto simp: reports_ok_def)

lemma demo_plain: "plain_engine (demo_cls True) demo_engine_config demo_model demo_engine0"
proof -
  have run: "new_scheduler demo_config (\<lambda>i. demo_seq True (Suc i) [1]) (\<lambda>n. of_nat n) = Inr (e_scheduler demo_engine0)"
    unfolding demo_engine0_def llm_engine.simps by (rule the_ok, code_simp)
  moreover have "config_ok (demo_cls True) demo_config" by (simp add: config_ok_def demo_config_def demo_cls_wf) (simp add: demo_cls_def)
  moreover have "seq_id (demo_seq True (Suc i) [1]) \<noteq> i" for i using demo_seq_wf [of "[1]" True "Suc i"] by simp
  moreover have "e_config demo_engine0 = demo_engine_config" "e_in_flight demo_engine0 = None" by (simp_all add: demo_engine0_def)
  ultimately have "new_engine_ok (demo_cls True) demo_engine_config demo_engine0" unfolding new_engine_ok_def by metis
  moreover have "plain_tracks (demo_cls True) demo_engine_config demo_model [] (e_runner demo_engine0)"
    by (simp add: plain_tracks_def runner_tracks_def demo_engine0_def demo_runner_def demo_engine_config_def logits_ok_def demo_model_def demo_cls_def)
  ultimately show ?thesis by (simp add: plain_engine_def)
qed

lemma demo_steps:
  "params_ok (kv_on (e_scheduler demo_engine0)) demo_params"
  "\<not> isl (engine_step (demo_cls True) demo_calls demo_engine1)"
  "case schedule (demo_cls True) (launch_scheduler (demo_cls True) demo_engine1) of Inr (s, out) \<Rightarrow> kv_metadata out = None | Inl _ \<Rightarrow> True"
  by code_simp+

lemma demo_reach:
  "engine_reach (demo_cls True) demo_calls (\<lambda>_. None) (\<lambda>_. []) demo_engine0 demo_engine1"
  "engine_reach (demo_cls True) demo_calls (\<lambda>_. None) (\<lambda>_. []) demo_engine0 demo_engine2"
proof -
  from engine_reach.add [OF engine_reach.start demo_steps(1), of "demo_cls True" "\<lambda>_. None" "\<lambda>_. []" "Ids [5, 6, 7]" "Some ''a''"]
  show 1: "engine_reach (demo_cls True) demo_calls (\<lambda>_. None) (\<lambda>_. []) demo_engine0 demo_engine1"
    unfolding demo_engine1_def by (metis prod.collapse)
  obtain e outs n m where x: "the_ok (engine_step (demo_cls True) demo_calls demo_engine1) = (e, outs, n, m)" by (metis prod.collapse)
  then have "engine_step (demo_cls True) demo_calls demo_engine1 = Inr (demo_engine2, outs, n, m)"
    using the_ok [OF demo_steps(2)] unfolding demo_engine2_def by (simp only: fst_conv)
  from engine_reach.step [OF 1 demo_schedule_kv [OF demo_steps(3)] this] show "engine_reach (demo_cls True) demo_calls (\<lambda>_. None) (\<lambda>_. []) demo_engine0 demo_engine2" .
qed




lemma demo_next:
  "e_output_processor demo_engine1 = None" "params_ok (kv_on (e_scheduler demo_engine1)) demo_params"
  "''a'' \<in> dict_keys (seqs (e_scheduler demo_engine1))"
  by code_simp+


end
