(* ===== verification/Drafting.thy ===== *)
theory Drafting
  imports Model_Runner
begin

text \<open>
  \<open>spec_decode/mtp_proposer.py\<close>, and the contexts of \<open>utils/context.py\<close> it and the attention layers
  run in.  The layers of the drafter are parameters: what a pass makes of its rows' tokens,
  positions and hidden states, and the greedy token of a hidden state.  Graph replays are modelled
  by the buffers they read: a replay runs the pass over the buffers' first rows.
\<close>

section \<open>Contexts\<close>

record attn_context =
  cx_is_prefill :: bool
  cx_cu_q :: "int list"
  cx_cu_k :: "int list"
  cx_cu_q_host :: "int list option"
  cx_cu_k_host :: "int list"
  cx_max_q :: int
  cx_max_k :: int
  cx_slots :: "int list option"
  cx_lens :: "int list"
  cx_tables :: "int list list option"

text \<open>\<open>split_decodes_and_prefills\<close>, without its cache: the leading rows of one query length, and the rest.\<close>

definition row_lens :: "int list \<Rightarrow> int list" where
  "row_lens cu = map2 (\<lambda>a b. b - a) cu (tl cu)"

definition num_uniform :: "int \<Rightarrow> int list \<Rightarrow> nat" where
  "num_uniform query_len cu = length (takeWhile (\<lambda>n. n = query_len) (row_lens cu))"

definition decode_part :: "int \<Rightarrow> nat \<Rightarrow> int list \<Rightarrow> attn_context \<Rightarrow> attn_context" where
  "decode_part query_len n cu c =
     \<lparr>cx_is_prefill = False, cx_cu_q = take (n + 1) (cx_cu_q c), cx_cu_k = take (n + 1) (cx_cu_k c),
      cx_cu_q_host = Some (take (n + 1) cu), cx_cu_k_host = take (n + 1) (cx_cu_k_host c), cx_max_q = query_len,
      cx_max_k = Max (set (take n (row_lens (cx_cu_k_host c)))), cx_slots = None, cx_lens = take n (cx_lens c),
      cx_tables = map_option (take n) (cx_tables c)\<rparr>"

definition prefill_part :: "nat \<Rightarrow> int list \<Rightarrow> attn_context \<Rightarrow> attn_context" where
  "prefill_part n cu c =
     (let sub_q = map (\<lambda>x. x - cu ! n) (drop n cu); sub_k = map (\<lambda>x. x - cx_cu_k_host c ! n) (drop n (cx_cu_k_host c))
      in \<lparr>cx_is_prefill = True, cx_cu_q = map (\<lambda>x. x - cu ! n) (drop n (cx_cu_q c)),
          cx_cu_k = map (\<lambda>x. x - cx_cu_k c ! n) (drop n (cx_cu_k c)), cx_cu_q_host = Some sub_q, cx_cu_k_host = sub_k,
          cx_max_q = Max (set (row_lens sub_q)), cx_max_k = Max (set (row_lens sub_k)), cx_slots = None,
          cx_lens = drop n (cx_lens c), cx_tables = map_option (drop n) (cx_tables c)\<rparr>)"

definition split_decodes_and_prefills :: "attn_context \<Rightarrow> int \<Rightarrow> nat \<times> attn_context option \<times> attn_context option" where
  "split_decodes_and_prefills c query_len =
     (case (cx_tables c, cx_cu_q_host c) of
        (Some _, Some cu) \<Rightarrow>
          (let num_rows = length cu - 1; n = num_uniform query_len cu
           in (n, if n \<noteq> 0 then Some (decode_part query_len n cu c) else None,
               if n = 0 then Some c else if n < num_rows then Some (prefill_part n cu c) else None))
      | _ \<Rightarrow> (0, None, Some c))"

section \<open>The first pass\<close>

text \<open>\<open>x.roll(-1)\<close>\<close>

definition roll_left :: "'a list \<Rightarrow> 'a list" where
  "roll_left xs = tl xs @ take 1 xs"

definition fixed_rows :: "draft_inputs \<Rightarrow> nat list" where
  "fixed_rows di = filter (\<lambda>i. 0 \<le> di_next_token_ids di ! i) [0..<length (di_next_token_ids di)]"

definition sample_index :: "draft_inputs \<Rightarrow> nat list \<Rightarrow> nat list" where
  "sample_index di num_acc =
     map2 (\<lambda>i a. nat i + a) (map2 (\<lambda>l n. l - int n) (gather (di_last_index di) (di_sampling_rows di)) (di_num_draft_tokens di)) num_acc"

definition first_pass_ids :: "draft_inputs \<Rightarrow> nat list \<Rightarrow> int list \<Rightarrow> int list" where
  "first_pass_ids di num_acc nexts =
     (let fixed = fixed_rows di
      in scatter (sample_index di num_acc) nexts
           (scatter (map nat (gather (di_last_index di) fixed)) (gather (di_next_token_ids di) fixed) (roll_left (di_input_ids di))))"

section \<open>Later passes\<close>

record mtp_proposer =
  mp_num_speculative_tokens :: nat
  mp_block_size :: int
  mp_max_model_len :: int
  mp_num_mtp_layers :: nat
  mp_graph_bs :: "nat list"
  mp_piecewise_bs :: "nat list"

definition step_positions :: "mtp_proposer \<Rightarrow> int list \<Rightarrow> nat \<Rightarrow> int list" where
  "step_positions mp ps step = map (\<lambda>p. min (p + int step) (mp_max_model_len mp - 1)) ps"

definition step_context :: "mtp_proposer \<Rightarrow> int list \<Rightarrow> int list list option \<Rightarrow> int \<Rightarrow> nat \<Rightarrow> (int list \<times> attn_context) res" where
  "step_context mp sample_ps table max_position step =
     (let cu_q = map int [0..<Suc (length sample_ps)]; ps = step_positions mp sample_ps step;
          base = \<lparr>cx_is_prefill = False, cx_cu_q = cu_q, cx_cu_k = cu_q, cx_cu_q_host = Some cu_q, cx_cu_k_host = cu_q, cx_max_q = 1,
                  cx_max_k = 1, cx_slots = None, cx_lens = [], cx_tables = None\<rparr>
      in case table of
           None \<Rightarrow> Inr (ps, base)
         | Some rows \<Rightarrow>
             bindE (mapE (\<lambda>(r, p). cache_slot (mp_block_size mp) rows r p) (List.enumerate 0 ps)) (\<lambda>slots.
             let lens = map (\<lambda>p. p + 1) ps
             in Inr (ps, base\<lparr>cx_cu_k := 0 # map (\<lambda>i. sum_list (take (Suc i) lens)) [0..<length lens],
                  cx_max_k := min (max_position + int step) (mp_max_model_len mp - 1) + 1, cx_slots := Some slots,
                  cx_lens := lens, cx_tables := Some rows\<rparr>)))"

text \<open>
  Graph buffers, as long as the largest captured size.  Rows past the batch keep what an earlier
  replay left, but for the slots and lengths, which make them inert.
\<close>

record 'h draft_graph =
  dg_input_ids :: "int list"
  dg_positions :: "int list"
  dg_hidden :: "'h list"
  dg_slots :: "int list"
  dg_lens :: "int list"

definition fill_graph :: "int list \<Rightarrow> int list \<Rightarrow> 'h list \<Rightarrow> attn_context \<Rightarrow> 'h draft_graph \<Rightarrow> 'h draft_graph" where
  "fill_graph ids ps hs c g =
     \<lparr>dg_input_ids = overwrite (dg_input_ids g) ids, dg_positions = overwrite (dg_positions g) ps, dg_hidden = overwrite (dg_hidden g) hs,
      dg_slots = overwrite (replicate (length (dg_slots g)) (-1)) (case cx_slots c of Some s \<Rightarrow> s | None \<Rightarrow> []),
      dg_lens = overwrite (replicate (length (dg_lens g)) 0) (cx_lens c)\<rparr>"

text \<open>
  A pass of an MTP layer maps rows to hidden states: its tokens, positions and hidden states, with
  the cache slots it writes and the lengths it attends.
\<close>

record 'h drafter =
  dr_first :: "int list \<Rightarrow> int list \<Rightarrow> 'h list \<Rightarrow> 'h list"
  dr_layer :: "nat \<Rightarrow> int list \<Rightarrow> int list \<Rightarrow> 'h list \<Rightarrow> int list \<Rightarrow> int list \<Rightarrow> 'h list"
  dr_draft :: "'h \<Rightarrow> int"

definition replay_draft :: "'h drafter \<Rightarrow> nat \<Rightarrow> nat \<Rightarrow> int list \<Rightarrow> int list \<Rightarrow> 'h list \<Rightarrow> attn_context \<Rightarrow> 'h draft_graph \<Rightarrow> ('h list \<times> 'h draft_graph) res" where
  "replay_draft dr layer bs ids ps hs c g =
     (if cx_slots c = None \<or> cx_tables c = None then Inl AssertionError
      else let g1 = fill_graph ids ps hs c g
           in Inr (take (length ids) (dr_layer dr layer (take bs (dg_input_ids g1)) (take bs (dg_positions g1)) (take bs (dg_hidden g1))
                     (take bs (dg_slots g1)) (take bs (dg_lens g1))), g1))"

definition run_first_pass ::
  "mtp_proposer \<Rightarrow> 'h drafter \<Rightarrow> int list \<Rightarrow> int list \<Rightarrow> 'h list \<Rightarrow> 'h draft_graph \<Rightarrow> 'h list \<times> 'h draft_graph" where
  "run_first_pass mp dr ids ps hs g =
     (case List.find (\<lambda>size. length ids \<le> size) (mp_piecewise_bs mp) of
        None \<Rightarrow> (dr_first dr ids ps hs, g)
      | Some bucket \<Rightarrow>
          let g1 = g\<lparr>dg_input_ids := overwrite (dg_input_ids g) ids, dg_positions := overwrite (dg_positions g) ps,
                     dg_hidden := overwrite (dg_hidden g) hs\<rparr>
          in (take (length ids) (dr_first dr (take bucket (dg_input_ids g1)) (take bucket (dg_positions g1)) (take bucket (dg_hidden g1))), g1))"

text \<open>The passes after the first, each from the draft before it.\<close>

fun draft_steps ::
  "mtp_proposer \<Rightarrow> 'h drafter \<Rightarrow> nat option \<Rightarrow> (nat \<times> int list \<times> attn_context) list \<Rightarrow> int list list \<Rightarrow> 'h list \<Rightarrow> 'h draft_graph \<Rightarrow>
     (int list list \<times> 'h draft_graph) res" where
  "draft_steps mp dr graph [] drafts hs g = Inr (drafts, g)"
| "draft_steps mp dr graph ((step, ps, c) # rest) drafts hs g =
     (let layer = step mod mp_num_mtp_layers mp
      in bindE (if graph = None \<or> cx_tables c = None
                then Inr (dr_layer dr layer (last drafts) ps hs (case cx_slots c of Some s \<Rightarrow> s | None \<Rightarrow> []) (cx_lens c), g)
                else replay_draft dr layer (the graph) (last drafts) ps hs c g) (\<lambda>(hs1, g1).
         draft_steps mp dr graph rest (drafts @ [map (dr_draft dr) hs1]) hs1 g1))"

definition propose ::
  "mtp_proposer \<Rightarrow> 'h drafter \<Rightarrow> draft_inputs \<Rightarrow> 'h list \<Rightarrow> nat list \<Rightarrow> int list \<Rightarrow> 'h draft_graph \<Rightarrow> 'h draft_graph \<Rightarrow>
     (int list list \<times> 'h draft_graph \<times> 'h draft_graph) res" where
  "propose mp dr di target_hidden num_acc nexts pg g =
     (let idx = sample_index di num_acc;
          (all_hs, pg1) = run_first_pass mp dr (first_pass_ids di num_acc nexts) (di_positions di) target_hidden pg;
          hs = gather all_hs idx; first = map (dr_draft dr) hs;
          table = map_option (\<lambda>rows. gather rows (di_sampling_rows di)) (di_block_table di)
      in if num_acc = [] then Inr ([], pg1, g)
         else
           bindE (mapE (\<lambda>step. bindE (step_context mp (gather (di_positions di) idx) table (di_max_position di) step) (\<lambda>(ps, c). Inr (step, ps, c)))
                    [1..<mp_num_speculative_tokens mp]) (\<lambda>steps.
           bindE (draft_steps mp dr (List.find (\<lambda>size. length num_acc \<le> size) (mp_graph_bs mp)) steps [first] hs g) (\<lambda>(drafts, g1).
           Inr (map (\<lambda>r. map (\<lambda>col. col ! r) drafts) [0..<length num_acc], pg1, g1))))"

section \<open>Capture\<close>

text \<open>\<open>sorted({*xs, x})\<close>\<close>

definition capture_first_pass :: "nat \<Rightarrow> 'h \<Rightarrow> mtp_proposer \<times> 'h draft_graph \<Rightarrow> mtp_proposer \<times> 'h draft_graph" where
  "capture_first_pass n h0 = (\<lambda>(mp, g).
     (mp\<lparr>mp_piecewise_bs := sorted_list_of_set (insert n (set (mp_piecewise_bs mp)))\<rparr>,
      if mp_piecewise_bs mp = []
      then g\<lparr>dg_input_ids := replicate n 0, dg_positions := replicate n 0, dg_hidden := replicate n h0\<rparr> else g))"

definition draft_layers :: "mtp_proposer \<Rightarrow> nat list" where
  "draft_layers mp = sorted_list_of_set ((\<lambda>step. step mod mp_num_mtp_layers mp) ` {1..<mp_num_speculative_tokens mp})"

definition capture_draft_graphs :: "nat list \<Rightarrow> 'h \<Rightarrow> mtp_proposer \<times> 'h draft_graph \<Rightarrow> (mtp_proposer \<times> 'h draft_graph \<times> (nat \<times> nat) list) res" where
  "capture_draft_graphs sizes h0 = (\<lambda>(mp, g).
     if draft_layers mp = [] then Inr (mp, g, [])
     else if sizes = [] then Inl IndexError
     else let n = last sizes
          in Inr (mp\<lparr>mp_graph_bs := sizes\<rparr>,
                \<lparr>dg_input_ids = replicate n 0, dg_positions = replicate n 0, dg_hidden = replicate n h0, dg_slots = replicate n 0,
                 dg_lens = replicate n (mp_max_model_len mp)\<rparr>,
                concat (map (\<lambda>bs. map (\<lambda>layer. (layer, bs)) (draft_layers mp)) (rev sizes))))"

section \<open>Each kept token beside the one after it\<close>

text \<open>
  A batch of rows of \<open>ls\<close> tokens, as \<open>prepare_batch\<close> describes it to the drafter: the last index of
  each row, the token after a row that does not sample and -1 for one that does; a sampling row
  keeps \<open>num_acc\<close> of its drafts, which end it.
\<close>

definition draft_shape :: "nat list \<Rightarrow> draft_inputs \<Rightarrow> nat list \<Rightarrow> int list \<Rightarrow> bool" where
  "draft_shape ls di num_acc nexts \<longleftrightarrow>
     length (di_input_ids di) = sum_list ls \<and> (\<forall>n \<in> set ls. 1 \<le> n) \<and> di_last_index di = map (\<lambda>r. int (sum_list (take (Suc r) ls)) - 1) [0..<length ls] \<and>
     length (di_next_token_ids di) = length ls \<and> distinct (di_sampling_rows di) \<and> (\<forall>r \<in> set (di_sampling_rows di). r < length ls) \<and>
     (\<forall>r < length ls. di_next_token_ids di ! r < 0 \<longleftrightarrow> r \<in> set (di_sampling_rows di)) \<and>
     length num_acc = length (di_sampling_rows di) \<and> length nexts = length (di_sampling_rows di) \<and>
     length (di_num_draft_tokens di) = length (di_sampling_rows di) \<and>
     (\<forall>k < length (di_sampling_rows di). num_acc ! k \<le> di_num_draft_tokens di ! k \<and> di_num_draft_tokens di ! k < ls ! (di_sampling_rows di ! k))"

lemma scatter_other: "p \<notin> set idx \<Longrightarrow> length idx = length src \<Longrightarrow> scatter idx src xs ! p = xs ! p"
proof (induction src arbitrary: idx rule: rev_induct)
  case (snoc x src)
  then show ?case by (cases idx rule: rev_cases) (auto simp: scatter_snoc)
qed (simp add: scatter_def)

text \<open>A position lies in one row only.\<close>

lemma start_mono: "r \<le> r' \<Longrightarrow> sum_list (take r ls) \<le> sum_list (take r' (ls :: nat list))"
  by (metis le_add1 sum_list_append take_add le_iff_add)

lemma one_row:
  assumes "sum_list (take r ls) \<le> p" "p < sum_list (take (Suc r) ls)" "sum_list (take r' ls) \<le> p" "p < sum_list (take (Suc r') (ls :: nat list))"
  shows "r = r'"
  using assms start_mono [of "Suc r" r' ls] start_mono [of "Suc r'" r ls] by (cases r r' rule: linorder_cases) auto

lemma length_roll: "length (roll_left xs) = length xs"
  by (cases xs) (simp_all add: roll_left_def)

lemma nth_roll: "p + 1 < length xs \<Longrightarrow> roll_left xs ! p = xs ! (p + 1)"
  by (cases xs) (auto simp: roll_left_def nth_append)

definition row_end :: "nat list \<Rightarrow> nat \<Rightarrow> nat" where
  "row_end ls r = sum_list (take (Suc r) ls) - 1"

text \<open>Where a sampling row's kept tokens end.\<close>

definition kept_end :: "nat list \<Rightarrow> draft_inputs \<Rightarrow> nat list \<Rightarrow> nat \<Rightarrow> nat" where
  "kept_end ls di num_acc k = row_end ls (di_sampling_rows di ! k) - di_num_draft_tokens di ! k + num_acc ! k"

lemma row_bounds:
  assumes "r < length ls" "\<forall>n \<in> set ls. 1 \<le> (n::nat)"
  shows "sum_list (take (Suc r) ls) = sum_list (take r ls) + ls ! r" "1 \<le> ls ! r" "sum_list (take (Suc r) ls) \<le> sum_list ls"
  using assms start_mono [of "Suc r" "length ls" ls] by (simp_all add: take_Suc_conv_app_nth)

lemma sample_index_eq:
  assumes "draft_shape ls di num_acc nexts" "k < length (di_sampling_rows di)"
  shows "length (sample_index di num_acc) = length (di_sampling_rows di)" "sample_index di num_acc ! k = kept_end ls di num_acc k"
    "sum_list (take (di_sampling_rows di ! k) ls) \<le> kept_end ls di num_acc k"
    "kept_end ls di num_acc k \<le> row_end ls (di_sampling_rows di ! k)"
proof -
  let ?r = "di_sampling_rows di ! k"
  have s: "?r < length ls" "\<forall>n \<in> set ls. 1 \<le> n" "num_acc ! k \<le> di_num_draft_tokens di ! k" "di_num_draft_tokens di ! k < ls ! ?r"
    "length num_acc = length (di_sampling_rows di)" "length (di_num_draft_tokens di) = length (di_sampling_rows di)"
    "di_last_index di = map (\<lambda>r. int (sum_list (take (Suc r) ls)) - 1) [0..<length ls]"
    using assms by (auto simp: draft_shape_def)
  note b = row_bounds [OF s(1,2)]
  show "length (sample_index di num_acc) = length (di_sampling_rows di)" using s by (simp add: sample_index_def gather_def)
  have "sample_index di num_acc ! k = nat (int (sum_list (take (Suc ?r) ls)) - 1 - int (di_num_draft_tokens di ! k)) + num_acc ! k"
    using s assms(2) by (simp add: sample_index_def gather_def)
  also have "\<dots> = kept_end ls di num_acc k" using s(4) b by (simp add: kept_end_def row_end_def)
  finally show "sample_index di num_acc ! k = kept_end ls di num_acc k" .
  show "sum_list (take ?r ls) \<le> kept_end ls di num_acc k" "kept_end ls di num_acc k \<le> row_end ls ?r"
    using s(3,4) b by (simp_all add: kept_end_def row_end_def)
qed

lemma sample_index_distinct:
  assumes "draft_shape ls di num_acc nexts"
  shows "distinct (sample_index di num_acc)"
proof (cases "di_sampling_rows di = []")
  case True
  then show ?thesis by (simp add: sample_index_def gather_def)
next
  case False
  have len: "length (sample_index di num_acc) = length (di_sampling_rows di)" using sample_index_eq(1) [OF assms] False by blast
  have in_row: "sum_list (take (di_sampling_rows di ! k) ls) \<le> sample_index di num_acc ! k"
    "sample_index di num_acc ! k < sum_list (take (Suc (di_sampling_rows di ! k)) ls)" if "k < length (di_sampling_rows di)" for k
  proof -
    have "di_sampling_rows di ! k < length ls" "\<forall>n \<in> set ls. 1 \<le> n" using assms that by (auto simp: draft_shape_def)
    from row_bounds [OF this] show "sum_list (take (di_sampling_rows di ! k) ls) \<le> sample_index di num_acc ! k"
      "sample_index di num_acc ! k < sum_list (take (Suc (di_sampling_rows di ! k)) ls)"
      using sample_index_eq(2-4) [OF assms that] by (simp_all add: row_end_def)
  qed
  show ?thesis
  proof (rule distinct_conv_nth [THEN iffD2], intro allI impI)
    fix i j assume a: "i < length (sample_index di num_acc)" "j < length (sample_index di num_acc)" "i \<noteq> j"
    have "distinct (di_sampling_rows di)" using assms by (simp add: draft_shape_def)
    then have "di_sampling_rows di ! i \<noteq> di_sampling_rows di ! j" using a len by (simp add: nth_eq_iff_index_eq)
    then show "sample_index di num_acc ! i \<noteq> sample_index di num_acc ! j" using in_row [of i] in_row [of j] one_row a len by metis
  qed
qed

lemma fixed_index_eq:
  assumes "draft_shape ls di num_acc nexts"
  defines "FI \<equiv> map nat (gather (di_last_index di) (fixed_rows di))"
  shows "FI = map (row_end ls) (fixed_rows di)" "set (fixed_rows di) = {r. r < length ls \<and> r \<notin> set (di_sampling_rows di)}" "distinct FI"
    "length FI = length (gather (di_next_token_ids di) (fixed_rows di))"
proof -
  have s: "di_last_index di = map (\<lambda>r. int (sum_list (take (Suc r) ls)) - 1) [0..<length ls]" "\<forall>n \<in> set ls. 1 \<le> n" using assms by (simp_all add: draft_shape_def)
  show f: "set (fixed_rows di) = {r. r < length ls \<and> r \<notin> set (di_sampling_rows di)}"
    using assms(1) by (auto simp: fixed_rows_def draft_shape_def not_less [symmetric])
  show e: "FI = map (row_end ls) (fixed_rows di)" unfolding FI_def gather_def using f s(1) by (auto simp: row_end_def nat_diff_distrib')
  have "inj_on (row_end ls) (set (fixed_rows di))"
  proof (rule inj_onI)
    fix r r' assume a: "r \<in> set (fixed_rows di)" "r' \<in> set (fixed_rows di)" "row_end ls r = row_end ls r'"
    then have "r < length ls" "r' < length ls" using f by auto
    then show "r = r'" using a(3) row_bounds [OF _ s(2), of r] row_bounds [OF _ s(2), of r'] one_row [of r ls "row_end ls r" r'] by (auto simp: row_end_def)
  qed
  moreover have "distinct (fixed_rows di)" by (simp add: fixed_rows_def)
  ultimately show "distinct FI" unfolding e by (simp add: distinct_map)
  show "length FI = length (gather (di_next_token_ids di) (fixed_rows di))" by (simp add: FI_def gather_def)
qed

text \<open>Which of the two writes, if any, a position of a row gets.\<close>

lemma in_sample_index:
  assumes sh: "draft_shape ls di num_acc nexts" and r: "r < length ls" "sum_list (take r ls) \<le> p" "p \<le> row_end ls r"
    and p: "p \<in> set (sample_index di num_acc)"
  shows "\<exists>k < length (di_sampling_rows di). di_sampling_rows di ! k = r \<and> p = kept_end ls di num_acc k"
proof -
  obtain k where k: "k < length (sample_index di num_acc)" "p = sample_index di num_acc ! k" using p by (metis in_set_conv_nth)
  then have len: "k < length (di_sampling_rows di)" by (simp add: sample_index_def gather_def)
  note q = sample_index_eq [OF sh len]
  have one: "\<forall>n \<in> set ls. 1 \<le> n" "di_sampling_rows di ! k < length ls" using sh len by (auto simp: draft_shape_def)
  have "di_sampling_rows di ! k = r"
    by (rule one_row [of _ ls p]) (use q k r row_bounds [OF one(2,1)] row_bounds [OF r(1) one(1)] in \<open>auto simp: row_end_def\<close>)
  then show ?thesis using len q(2) k(2) by blast
qed

lemma in_fixed_index:
  assumes sh: "draft_shape ls di num_acc nexts" and r: "r < length ls" "sum_list (take r ls) \<le> p" "p \<le> row_end ls r"
    and p: "p \<in> row_end ls ` set (fixed_rows di)"
  shows "r \<notin> set (di_sampling_rows di) \<and> p = row_end ls r"
proof -
  obtain r' where r': "r' < length ls" "r' \<notin> set (di_sampling_rows di)" "p = row_end ls r'" using p fixed_index_eq(2) [OF sh] by auto
  have one: "\<forall>n \<in> set ls. 1 \<le> n" using sh by (simp add: draft_shape_def)
  have "r = r'"
    by (rule one_row [of _ ls p]) (use r r' row_bounds [OF r(1) one] row_bounds [OF r'(1) one] in \<open>auto simp: row_end_def\<close>)
  then show ?thesis using r' by simp
qed

lemma first_pass_cases:
  assumes sh: "draft_shape ls di num_acc nexts" and p: "p < sum_list ls"
  defines "FI \<equiv> map (row_end ls) (fixed_rows di)"
  shows "k < length (di_sampling_rows di) \<Longrightarrow> first_pass_ids di num_acc nexts ! kept_end ls di num_acc k = nexts ! k"
    and "r \<in> set (fixed_rows di) \<Longrightarrow> row_end ls r \<notin> set (sample_index di num_acc) \<Longrightarrow> first_pass_ids di num_acc nexts ! row_end ls r = di_next_token_ids di ! r"
    and "p \<notin> set (sample_index di num_acc) \<Longrightarrow> p \<notin> set FI \<Longrightarrow> p + 1 < sum_list ls \<Longrightarrow> first_pass_ids di num_acc nexts ! p = di_input_ids di ! (p + 1)"
proof -
  note f = fixed_index_eq [OF sh]
  let ?ft = "gather (di_next_token_ids di) (fixed_rows di)"
  let ?Y = "scatter FI ?ft (roll_left (di_input_ids di))"
  have X: "first_pass_ids di num_acc nexts = scatter (sample_index di num_acc) nexts ?Y" by (simp add: first_pass_ids_def Let_def f(1) FI_def)
  have lens: "length (di_input_ids di) = sum_list ls" "length nexts = length (di_sampling_rows di)" "\<forall>n \<in> set ls. 1 \<le> n" using sh by (simp_all add: draft_shape_def)
  have SI: "length (sample_index di num_acc) = length nexts"
    using sh by (simp add: draft_shape_def sample_index_def gather_def)
  have fi: "length FI = length ?ft" "distinct FI" using f(3,4) unfolding f(1) FI_def by simp_all
  have Y: "length ?Y = sum_list ls" using fi(1) lens(1) by (simp add: length_roll)
  have bound: "row_end ls r < sum_list ls" if "r < length ls" for r using row_bounds [OF that lens(3)] by (simp add: row_end_def)
  show "first_pass_ids di num_acc nexts ! kept_end ls di num_acc k = nexts ! k" if k: "k < length (di_sampling_rows di)"
  proof -
    have "set (sample_index di num_acc) \<subseteq> {..<length ?Y}"
    proof
      fix i assume "i \<in> set (sample_index di num_acc)"
      then obtain j where j: "j < length (di_sampling_rows di)" "i = sample_index di num_acc ! j" using SI lens(2) by (metis in_set_conv_nth)
      have "di_sampling_rows di ! j < length ls" using sh j(1) by (simp add: draft_shape_def)
      from bound [OF this] show "i \<in> {..<length ?Y}" using sample_index_eq(2,4) [OF sh j(1)] j(2) by (simp add: Y)
    qed
    then show ?thesis unfolding X using scatter_nth [of "sample_index di num_acc" nexts ?Y k] sample_index_distinct [OF sh] SI k lens(2)
      sample_index_eq(2) [OF sh k] by simp
  qed
  show "first_pass_ids di num_acc nexts ! row_end ls r = di_next_token_ids di ! r"
    if r: "r \<in> set (fixed_rows di)" "row_end ls r \<notin> set (sample_index di num_acc)"
  proof -
    obtain j where j: "j < length (fixed_rows di)" "r = fixed_rows di ! j" using r(1) by (metis in_set_conv_nth)
    have "set FI \<subseteq> {..<length (roll_left (di_input_ids di))}" using f(2) bound lens(1) by (auto simp: FI_def length_roll)
    then have "?Y ! (FI ! j) = ?ft ! j" using fi j(1) by (intro scatter_nth) (simp_all add: FI_def)
    then show ?thesis unfolding X using scatter_other [OF r(2) SI] j by (simp add: FI_def gather_def)
  qed
  show "first_pass_ids di num_acc nexts ! p = di_input_ids di ! (p + 1)"
    if "p \<notin> set (sample_index di num_acc)" "p \<notin> set FI" "p + 1 < sum_list ls"
    unfolding X using scatter_other [OF that(1) SI] scatter_other [OF that(2) fi(1)] nth_roll [of p "di_input_ids di"] that(3) lens(1) by simp
qed

text \<open>
  C40: the drafter sees each kept token beside the one after it.  In the first pass the token at a
  position before the last kept one of its row is the token after it; at the last kept one it is
  the token sampled after it, and at the end of a row that does not sample the next one of its
  prompt.  Rejected drafts fall behind the last kept token.
\<close>

theorem first_pass_shifted:
  assumes "draft_shape ls di num_acc nexts" and "r < length ls"
  shows "(case List.find (\<lambda>k. di_sampling_rows di ! k = r) [0..<length (di_sampling_rows di)] of
      Some k \<Rightarrow> first_pass_ids di num_acc nexts ! kept_end ls di num_acc k = nexts ! k \<and>
        (\<forall>p. sum_list (take r ls) \<le> p \<and> p < kept_end ls di num_acc k \<longrightarrow> first_pass_ids di num_acc nexts ! p = di_input_ids di ! (p + 1))
    | None \<Rightarrow> first_pass_ids di num_acc nexts ! row_end ls r = di_next_token_ids di ! r \<and>
        (\<forall>p. sum_list (take r ls) \<le> p \<and> p < row_end ls r \<longrightarrow> first_pass_ids di num_acc nexts ! p = di_input_ids di ! (p + 1)))"
proof -
  have one: "\<forall>n \<in> set ls. 1 \<le> n" using assms(1) by (simp add: draft_shape_def)
  note b = row_bounds [OF assms(2) one] and f = fixed_index_eq(2) [OF assms(1)]
  have end_lt: "row_end ls r < sum_list ls" "sum_list (take r ls) \<le> row_end ls r" using b by (simp_all add: row_end_def)
  note c = first_pass_cases [OF assms(1)]
  show ?thesis
  proof (cases "List.find (\<lambda>k. di_sampling_rows di ! k = r) [0..<length (di_sampling_rows di)]")
    case None
    then have nr: "r \<notin> set (di_sampling_rows di)" by (auto simp: find_None_iff in_set_conv_nth)
    have no: "p \<notin> set (sample_index di num_acc)" if "sum_list (take r ls) \<le> p" "p \<le> row_end ls r" for p
      using in_sample_index [OF assms that] nr by (metis nth_mem)
    have nf: "p \<notin> row_end ls ` set (fixed_rows di)" if "sum_list (take r ls) \<le> p" "p < row_end ls r" for p
      using in_fixed_index [OF assms that(1), of] that(2) by auto
    show ?thesis unfolding None option.case
      using c(2) [OF end_lt(1), of r] c(3) no nf f nr assms(2) end_lt by auto
  next
    case (Some k)
    then have k: "k < length (di_sampling_rows di)" "di_sampling_rows di ! k = r" by (auto simp: find_Some_iff)
    note q = sample_index_eq [OF assms(1) k(1), unfolded k(2)]
    have uniq: "j = k" if "j < length (di_sampling_rows di)" "di_sampling_rows di ! j = r" for j
      using that k assms(1) by (metis distinct_conv_nth draft_shape_def)
    have no: "p \<notin> set (sample_index di num_acc)" if "sum_list (take r ls) \<le> p" "p < kept_end ls di num_acc k" for p
      using in_sample_index [OF assms that(1)] that(2) q(4) uniq by fastforce
    have nf: "p \<notin> row_end ls ` set (fixed_rows di)" if "sum_list (take r ls) \<le> p" "p \<le> row_end ls r" for p
      using in_fixed_index [OF assms that] k by (metis nth_mem)
    show ?thesis unfolding Some option.case using c(1) [OF end_lt(1) k(1)] c(3) no nf q(4) end_lt by auto
  qed
qed

text \<open>Two rows: one of three tokens that samples, keeps one of its two drafts; one of a prompt chunk of two.\<close>

definition demo_draft_inputs :: draft_inputs where
  "demo_draft_inputs = \<lparr>di_input_ids = [10, 11, 12, 20, 21], di_positions = [4, 5, 6, 0, 1], di_max_position = 6, di_last_index = [2, 4],
     di_next_token_ids = [-1, 22], di_sampling_rows = [0], di_num_draft_tokens = [2], di_block_table = None\<rparr>"

theorem first_pass_shifted_witness:
  "first_pass_ids demo_draft_inputs [1] [99] ! 1 = 99 \<and> first_pass_ids demo_draft_inputs [1] [99] ! 0 = 11 \<and>
   first_pass_ids demo_draft_inputs [1] [99] ! 4 = 22"
proof -
  have sh: "draft_shape [3, 2] demo_draft_inputs [1] [99]" by (auto simp: draft_shape_def demo_draft_inputs_def less_Suc_eq)
  have f: "List.find (\<lambda>k. di_sampling_rows demo_draft_inputs ! k = 0) [0..<length (di_sampling_rows demo_draft_inputs)] = Some 0"
    "List.find (\<lambda>k. di_sampling_rows demo_draft_inputs ! k = 1) [0..<length (di_sampling_rows demo_draft_inputs)] = None"
    "kept_end [3, 2] demo_draft_inputs [1] 0 = 1" "row_end [3, 2] 1 = 4" by code_simp+
  show ?thesis using first_pass_shifted [OF sh, of 0] first_pass_shifted [OF sh, of 1] unfolding f option.case by (simp add: demo_draft_inputs_def)
qed

end
