(* ===== verification/Configuration.thy ===== *)
theory Configuration
  imports Model_Runner
begin

text \<open>
  \<open>config.py\<close>, the flags of \<open>entrypoints/cli.py\<close>, the booleans of \<open>envs.py\<close> and the staging buffers of
  \<open>engine/input_buffers.py\<close>.  What the checkpoint, the file system, the environment and the JSON
  parsers answer is a record \<open>config_world\<close>.
\<close>

section \<open>Configuration\<close>

definition CUDAGRAPH_MODES :: "string list" where
  "CUDAGRAPH_MODES = [''none''] @ FULL_MODES @ [''piecewise'']"

record config =
  c_model :: string
  c_max_num_batched_tokens :: int
  c_max_num_seqs :: int
  c_max_model_len :: int
  c_tensor_parallel_size :: int
  c_enable_expert_parallel :: bool
  c_cudagraph_mode :: string
  c_eos :: int
  c_kvcache_block_size :: int
  c_num_kvcache_blocks :: int
  c_enable_chunked_prefill :: bool
  c_enable_prefix_caching :: bool
  c_async_scheduling :: bool
  c_hash_algo :: string
  c_scheduling_policy :: string
  c_long_prefill_token_threshold :: int
  c_dist_port :: int
  c_kv_transfer_config :: string
  c_kv_transfer :: "kv_transfer_config option"
  c_speculative_config :: string
  c_speculative :: "speculative_config option"

definition config_default :: "string \<Rightarrow> config" where
  "config_default model =
     \<lparr>c_model = model, c_max_num_batched_tokens = 8192, c_max_num_seqs = 1024, c_max_model_len = 4096, c_tensor_parallel_size = 1,
      c_enable_expert_parallel = False, c_cudagraph_mode = ''full_and_piecewise'', c_eos = - 1, c_kvcache_block_size = 16,
      c_num_kvcache_blocks = - 1, c_enable_chunked_prefill = True, c_enable_prefix_caching = True, c_async_scheduling = True,
      c_hash_algo = ''sha256'', c_scheduling_policy = ''fcfs'', c_long_prefill_token_threshold = 0, c_dist_port = 0,
      c_kv_transfer_config = [], c_kv_transfer = None, c_speculative_config = [], c_speculative = None\<rparr>"

record config_world =
  cw_isdir :: "string \<Rightarrow> bool"
  cw_hash_algos :: "string list"
  cw_layout :: string
  cw_free_port :: int
  cw_parse_kv :: "string \<Rightarrow> kv_transfer_config res"
  cw_parse_spec :: "string \<Rightarrow> speculative_config res"
  cw_supports_expert_parallel :: bool
  cw_has_drafter :: bool
  cw_max_position_embeddings :: int
  cw_mla_block_size :: "int option"

definition kv_cache_layout :: "config_world \<Rightarrow> config \<Rightarrow> string" where
  "kv_cache_layout w c = (if c_kv_transfer c \<noteq> None then ''HND'' else cw_layout w)"

definition parse_transfer :: "config_world \<Rightarrow> config \<Rightarrow> config res" where
  "parse_transfer w c =
     (if c_kv_transfer_config c \<noteq> [] \<and> c_kv_transfer c = None
      then bindE (parse_kv_transfer_config (cw_parse_kv w (c_kv_transfer_config c))) (\<lambda>kv. Inr (c\<lparr>c_kv_transfer := Some kv\<rparr>))
      else Inr c)"

definition parse_speculative :: "config_world \<Rightarrow> config \<Rightarrow> config res" where
  "parse_speculative w c =
     bindE (if c_speculative_config c \<noteq> [] \<and> c_speculative c = None
            then bindE (cw_parse_spec w (c_speculative_config c)) (\<lambda>sc. Inr (c\<lparr>c_speculative := Some sc\<rparr>)) else Inr c) (\<lambda>c1.
     if c_speculative c1 = None then Inr c1
     else if \<not> cw_has_drafter w then Inl ValueError
     else if c_kv_transfer c1 \<noteq> None then Inl ValueError
     else Inr c1)"

text \<open>An MLA model takes the one page size its decode kernel reads; 0 is no such size.\<close>

definition page_size :: "config_world \<Rightarrow> config \<Rightarrow> config" where
  "page_size w c =
     (case cw_mla_block_size w of
        Some n \<Rightarrow> if n \<noteq> 0 \<and> n \<noteq> c_kvcache_block_size c then c\<lparr>c_kvcache_block_size := n\<rparr> else c
      | None \<Rightarrow> c)"

definition config_post_init :: "config_world \<Rightarrow> config \<Rightarrow> config res" where
  "config_post_init w c =
     bindE (assertE (cw_isdir w (c_model c))) (\<lambda>_.
     bindE (assertE (c_kvcache_block_size c mod 16 = 0)) (\<lambda>_.
     bindE (assertE (c_cudagraph_mode c \<in> set CUDAGRAPH_MODES)) (\<lambda>_.
     bindE (assertE (c_hash_algo c \<in> set (cw_hash_algos w))) (\<lambda>_.
     bindE (assertE (1 \<le> c_tensor_parallel_size c \<and> c_tensor_parallel_size c \<le> 8)) (\<lambda>_.
     bindE (parse_transfer w c) (\<lambda>c1.
     bindE (assertE (kv_cache_layout w c1 \<in> {''NHD'', ''HND''})) (\<lambda>_.
     let c2 = (if c_dist_port c1 = 0 then c1\<lparr>c_dist_port := cw_free_port w\<rparr> else c1)
     in if c_enable_expert_parallel c2 \<and> \<not> cw_supports_expert_parallel w then Inl ValueError
        else bindE (parse_speculative w c2) (\<lambda>c3.
          Inr (page_size w (c3\<lparr>c_max_model_len := min (c_max_model_len c3) (cw_max_position_embeddings w)\<rparr>))))))))))"

text \<open>What the scheduler reads of a configuration.\<close>

definition scheduler_config_of :: "config \<Rightarrow> scheduler_config" where
  "scheduler_config_of c =
     \<lparr>sc_max_num_seqs = c_max_num_seqs c, sc_max_num_batched_tokens = c_max_num_batched_tokens c, sc_eos = c_eos c,
      sc_kvcache_block_size = c_kvcache_block_size c, sc_num_kvcache_blocks = nat (c_num_kvcache_blocks c),
      sc_enable_prefix_caching = c_enable_prefix_caching c, sc_enable_chunked_prefill = c_enable_chunked_prefill c,
      sc_long_prefill_token_threshold = c_long_prefill_token_threshold c,
      sc_num_speculative_tokens = map_option spec_num_speculative_tokens (c_speculative c), sc_scheduling_policy = c_scheduling_policy c,
      sc_kv_transfer = c_kv_transfer c, sc_tensor_parallel_size = c_tensor_parallel_size c\<rparr>"

lemma parse_transfer_keeps:
  "parse_transfer w c = Inr c' \<Longrightarrow> c_max_num_batched_tokens c' = c_max_num_batched_tokens c \<and>
     c_long_prefill_token_threshold c' = c_long_prefill_token_threshold c"
  by (auto simp: parse_transfer_def bindE_eq_Inr split: if_splits)

lemma parse_speculative_keeps:
  "parse_speculative w c = Inr c' \<Longrightarrow> c_max_num_batched_tokens c' = c_max_num_batched_tokens c \<and>
     c_long_prefill_token_threshold c' = c_long_prefill_token_threshold c \<and> (c_speculative c' \<noteq> None \<longrightarrow> c_kv_transfer c' = None)"
  by (auto simp: parse_speculative_def bindE_eq_Inr split: if_splits)

lemma page_size_keeps [simp]:
  "c_max_num_batched_tokens (page_size w c) = c_max_num_batched_tokens c" "c_max_model_len (page_size w c) = c_max_model_len c"
  "c_long_prefill_token_threshold (page_size w c) = c_long_prefill_token_threshold c"
  "c_speculative (page_size w c) = c_speculative c" "c_kv_transfer (page_size w c) = c_kv_transfer c"
  by (simp_all add: page_size_def split: option.splits)

lemma post_init_fields:
  assumes "config_post_init w c = Inr c'"
  shows "c_max_num_batched_tokens c' = c_max_num_batched_tokens c" "c_long_prefill_token_threshold c' = c_long_prefill_token_threshold c"
    "c_max_model_len c' \<le> cw_max_position_embeddings w" "c_speculative c' \<noteq> None \<longrightarrow> c_kv_transfer c' = None"
proof -
  obtain c1 c3 where p: "parse_transfer w c = Inr c1" "parse_speculative w (if c_dist_port c1 = 0 then c1\<lparr>c_dist_port := cw_free_port w\<rparr> else c1) = Inr c3"
    and c': "c' = page_size w (c3\<lparr>c_max_model_len := min (c_max_model_len c3) (cw_max_position_embeddings w)\<rparr>)"
    using assms unfolding config_post_init_def Let_def bindE_eq_Inr by (auto split: if_splits simp: bindE_eq_Inr)
  note t = parse_transfer_keeps [OF p(1)] and sp = parse_speculative_keeps [OF p(2)]
  show "c_max_num_batched_tokens c' = c_max_num_batched_tokens c" "c_long_prefill_token_threshold c' = c_long_prefill_token_threshold c"
    "c_max_model_len c' \<le> cw_max_position_embeddings w" "c_speculative c' \<noteq> None \<longrightarrow> c_kv_transfer c' = None"
    using t sp by (simp_all add: c')
qed

text \<open>
  An accepted configuration is one the scheduler's guarantees hold for, once its limits are not
  negative and sequences are hashed as it says.  Block size 0 passes the check of \<open>__post_init__\<close>.
\<close>

lemma accepted_config_ok:
  assumes "config_post_init w c = Inr c'" "0 \<le> c_max_num_batched_tokens c" "0 \<le> c_long_prefill_token_threshold c"
    and "cls_wf cls" "cls_block_size cls = c_kvcache_block_size c'" "cls_enable_prefix_caching cls = c_enable_prefix_caching c'"
    and "\<forall>sc. c_speculative c' = Some sc \<longrightarrow> 0 \<le> spec_num_speculative_tokens sc"
  shows "config_ok cls (scheduler_config_of c')"
  using assms post_init_fields [OF assms(1)] by (auto simp: config_ok_def scheduler_config_of_def)

section \<open>Flags\<close>

datatype field_default = MissingDefault | NoneDefault | BoolDefault bool | IntDefault int | FloatDefault rat | StrDefault string

definition INTERNAL :: "string list" where
  "INTERNAL = [''model'', ''hf_config'', ''eos'', ''kv_transfer'', ''speculative'']"

datatype flag = SwitchFlag string bool | ValueFlag string field_default

text \<open>\<open>name.replace("_", "-")\<close>\<close>

definition dashed :: "string \<Rightarrow> string" where
  "dashed = map (\<lambda>ch. if ch = CHR ''_'' then CHR ''-'' else ch)"

definition add_engine_args :: "(string \<times> field_default) list \<Rightarrow> flag list" where
  "add_engine_args flds = concat (map (\<lambda>(name, d).
     if name \<in> set INTERNAL \<or> d = MissingDefault \<or> d = NoneDefault then []
     else case d of BoolDefault b \<Rightarrow> [SwitchFlag (''--'' @ dashed name) b] | _ \<Rightarrow> [ValueFlag (''--'' @ dashed name) d]) flds)"

definition engine_kwargs :: "string list \<Rightarrow> (string \<rightharpoonup> 'v) \<Rightarrow> (string \<times> 'v) list" where
  "engine_kwargs names args =
     concat (map (\<lambda>n. case args n of Some v \<Rightarrow> if n \<in> set INTERNAL then [] else [(n, v)] | None \<Rightarrow> []) names)"

section \<open>Environment\<close>

text \<open>\<open>value.strip().lower()\<close>\<close>

definition is_space :: "char \<Rightarrow> bool" where
  "is_space ch \<longleftrightarrow> ch \<in> {CHR '' '', CHR 0x09, CHR 0x0A, CHR 0x0B, CHR 0x0C, CHR 0x0D}"

definition strip :: "string \<Rightarrow> string" where
  "strip s = rev (dropWhile is_space (rev (dropWhile is_space s)))"

definition lower_char :: "char \<Rightarrow> char" where
  "lower_char ch = (let n = of_char ch :: nat in if 65 \<le> n \<and> n \<le> 90 then char_of (n + 32) else ch)"

definition env_bool :: "string option \<Rightarrow> bool \<Rightarrow> bool" where
  "env_bool v d = (case v of None \<Rightarrow> d | Some s \<Rightarrow> map lower_char (strip s) \<notin> {[], ''0'', ''false''})"

section \<open>Input buffers\<close>

definition MIN_CAPACITY :: nat where
  "MIN_CAPACITY = 256"

record 'a input_buffers =
  ib_staged :: bool
  ib_device :: "(string, 'a list) dict"
  ib_copied :: bool

definition begin_step :: "'a input_buffers \<Rightarrow> 'a input_buffers" where
  "begin_step b = b\<lparr>ib_copied := False\<rparr>"

definition end_step :: "'a input_buffers \<Rightarrow> 'a input_buffers" where
  "end_step b = (if ib_staged b then b\<lparr>ib_copied := True\<rparr> else b)"

definition buffer_capacity :: "string \<Rightarrow> 'a input_buffers \<Rightarrow> nat" where
  "buffer_capacity name b = (case map_of (ib_device b) name of None \<Rightarrow> 0 | Some d \<Rightarrow> length d)"

text \<open>\<open>junk\<close> is what a fresh allocation holds.\<close>

definition buffer_put :: "'a \<Rightarrow> string \<Rightarrow> 'a list \<Rightarrow> 'a input_buffers \<Rightarrow> 'a list \<times> 'a input_buffers" where
  "buffer_put junk name vals b =
     (if \<not> ib_staged b then (vals, b)
      else let n = length vals;
               d = (case map_of (ib_device b) name of
                      Some d \<Rightarrow> if length d < n then replicate (Max {n, 2 * length d, MIN_CAPACITY}) junk else d
                    | None \<Rightarrow> replicate (Max {n, 0, MIN_CAPACITY}) junk);
               d1 = overwrite d vals
           in (take n d1, b\<lparr>ib_device := dict_put (ib_device b) name d1\<rparr>))"

text \<open>A put returns its values, whatever the buffer held, and a buffer never shrinks.\<close>

lemma buffer_put_ok:
  assumes "buffer_put junk name vals b = (out, b')"
  shows "out = vals" "ib_staged b \<Longrightarrow> max (length vals) (buffer_capacity nm b) \<le> buffer_capacity nm b' \<or> nm \<noteq> name"
    "buffer_capacity nm b \<le> buffer_capacity nm b'"
  using assms
  by (auto simp: buffer_put_def Let_def overwrite_def buffer_capacity_def update_conv' MIN_CAPACITY_def split: if_splits option.splits)

end
