(* ===== verification/Nixl_Worker.thy ===== *)
theory Nixl_Worker
  imports Kv_Transfer
begin

text \<open>
  The worker half of \<open>kv_transfer/nixl_connector.py\<close>: one rank's reads of another instance's KV
  cache.  What the NIXL agent and the producers answer at a moment is a record \<open>nixl_env\<close>; every
  operation that calls them takes one, and the notifications sent are kept in the state.  Times
  are what \<open>monotonic\<close> answered.  The two threads share \<open>_reqs_to_send\<close>, \<open>_notified\<close> and
  \<open>_finished\<close> under a lock, so an operation that holds it is one step here.
\<close>

section \<open>Heads and descriptors\<close>

record share =
  remote_rank :: int
  remote_head :: int
  local_head :: int
  num_heads :: int

definition head_share :: "int \<Rightarrow> int \<Rightarrow> int \<Rightarrow> int \<Rightarrow> share" where
  "head_share start stop remote rr =
     (let first = max start (rr * remote); last = min stop ((rr + 1) * remote)
      in \<lparr>remote_rank = rr, remote_head = first - rr * remote, local_head = first - start, num_heads = last - first\<rparr>)"

text \<open>A tensor-parallel size of 0, or one over the heads, divides by zero.\<close>

definition head_shares :: "int \<Rightarrow> int \<Rightarrow> int \<Rightarrow> int \<Rightarrow> share list res" where
  "head_shares rank tp_size remote_tp heads =
     (if tp_size = 0 \<or> remote_tp = 0 \<or> heads div remote_tp = 0 then Inl ValueError
      else let local = heads div tp_size; remote = heads div remote_tp; start = rank * local; stop = (rank + 1) * local
           in Inr (map (head_share start stop remote) [start div remote .. - ((- stop) div remote) - 1]))"

record region =
  addr :: int
  block_bytes :: int
  head_bytes :: int

text \<open>Rows of (address, length, device).\<close>

definition region_descs :: "int list \<Rightarrow> int \<Rightarrow> int \<Rightarrow> bool \<Rightarrow> int \<Rightarrow> region \<Rightarrow> (int \<times> int \<times> int) list" where
  "region_descs block_ids first_head n latents device_id r =
     (if head_bytes r \<noteq> 0
      then map (\<lambda>b. (addr r + first_head * head_bytes r + b * block_bytes r, n * head_bytes r, device_id)) block_ids
      else if latents then map (\<lambda>b. (addr r + b * block_bytes r, block_bytes r, device_id)) block_ids
      else [])"

definition block_descs :: "region list \<Rightarrow> int list \<Rightarrow> int \<Rightarrow> int \<Rightarrow> bool \<Rightarrow> int \<Rightarrow> (int \<times> int \<times> int) list" where
  "block_descs regions block_ids first_head n latents device_id =
     concat (map (region_descs block_ids first_head n latents device_id) regions)"

section \<open>State\<close>

text \<open>A \<open>ReqToRecv\<close> with the types the validation of its parameters ensured.\<close>

record recv =
  rq_local :: "int list"
  rq_remote :: "int list"
  rq_request_id :: string
  rq_engine_id :: string
  rq_host :: string
  rq_port :: int
  rq_tp_size :: int

fun json_int :: "json \<Rightarrow> int option" where
  "json_int (JInt n) = Some n"
| "json_int _ = None"

fun json_str :: "json \<Rightarrow> string option" where
  "json_str (JStr s) = Some s"
| "json_str _ = None"

fun json_ints :: "json \<Rightarrow> int list option" where
  "json_ints (JList xs) = those (map json_int xs)"
| "json_ints _ = None"

definition typed_req :: "req_to_recv \<Rightarrow> recv option" where
  "typed_req q =
     (case (json_ints (remote_block_ids q), json_str (remote_request_id q), json_str (remote_engine_id q), json_str (remote_host q),
            json_int (remote_port q), json_int (remote_tp_size q)) of
        (Some ids, Some rid, Some eid, Some host, Some port, Some tp) \<Rightarrow>
          Some \<lparr>rq_local = map int (local_block_ids q), rq_remote = ids, rq_request_id = rid, rq_engine_id = eid,
                rq_host = host, rq_port = port, rq_tp_size = tp\<rparr>
      | _ \<Rightarrow> None)"

record remote =
  rm_engine_id :: string
  rm_agent_name :: string
  rm_regions :: "region list"
  rm_num_blocks :: int
  rm_mem_type :: string
  rm_device_id :: int

record 'h load =
  ld_req :: recv
  ld_handles :: "'h list"
  ld_unnotified :: "int list"
  ld_started :: rat
  ld_num_bytes :: int
  ld_failed :: bool

definition new_load :: "recv \<Rightarrow> rat \<Rightarrow> 'h load" where
  "new_load q now = \<lparr>ld_req = q, ld_handles = [], ld_unnotified = [], ld_started = now, ld_num_bytes = 0, ld_failed = False\<rparr>"

record 'h nixl_worker =
  nw_engine_id :: string
  nw_rank :: int
  nw_tp_size :: int
  nw_regions :: "region list"
  nw_num_heads :: int
  nw_layout :: json
  nw_num_blocks :: int
  nw_mem_type :: string
  nw_device_id :: int
  nw_reqs_to_send :: "(string, rat) dict"
  nw_notified :: "(string, int \<times> int \<times> rat) dict"
  nw_finished :: kv_connector_output
  nw_queue :: "(string \<times> recv) list"
  nw_remotes :: "(string \<times> int, remote) dict"
  nw_loads :: "(string, 'h load) dict"
  nw_notifs :: "(string \<times> string \<times> int) list"

definition new_nixl_worker ::
  "string \<Rightarrow> int \<Rightarrow> int \<Rightarrow> region list \<Rightarrow> int \<Rightarrow> json \<Rightarrow> int \<Rightarrow> string \<Rightarrow> int \<Rightarrow> 'h nixl_worker" where
  "new_nixl_worker eid rank tp regions heads layout blocks mem dev =
     \<lparr>nw_engine_id = eid, nw_rank = rank, nw_tp_size = tp, nw_regions = regions, nw_num_heads = heads, nw_layout = layout,
      nw_num_blocks = blocks, nw_mem_type = mem, nw_device_id = dev, nw_reqs_to_send = [], nw_notified = [],
      nw_finished = empty_output, nw_queue = [], nw_remotes = [], nw_loads = [], nw_notifs = []\<rparr>"

text \<open>
  \<open>register_kv_caches\<close>: a cache of keys and values \<open>(2, block, head, token, dim)\<close> or of latents
  \<open>(1, block, token, dim)\<close>, with its parts' addresses and strides in elements.
\<close>

record kv_cache =
  kc_dtype :: string
  kc_itemsize :: int
  kc_heads :: "int option"
  kc_tokens :: int
  kc_dim :: int
  kc_parts :: "int list"
  kc_block_stride :: int
  kc_head_stride :: int

definition cache_layer :: "int \<Rightarrow> kv_cache \<Rightarrow> json" where
  "cache_layer tp c =
     (case kc_heads c of
        Some h \<Rightarrow> JList [JStr ''kv'', JStr (kc_dtype c), JInt (h * tp), JInt (kc_tokens c), JInt (kc_dim c)]
      | None \<Rightarrow> JList [JStr ''latent'', JStr (kc_dtype c), JInt (kc_tokens c), JInt (kc_dim c)])"

definition cache_regions :: "kv_cache \<Rightarrow> region list" where
  "cache_regions c =
     map (\<lambda>p. \<lparr>addr = p, block_bytes = kc_block_stride c * kc_itemsize c,
               head_bytes = (if kc_heads c = None then 0 else kc_head_stride c * kc_itemsize c)\<rparr>) (kc_parts c)"

definition register_kv_caches :: "int \<Rightarrow> kv_cache list \<Rightarrow> 'h nixl_worker \<Rightarrow> 'h nixl_worker" where
  "register_kv_caches bs caches w =
     w\<lparr>nw_num_heads := fold (\<lambda>c n. case kc_heads c of Some h \<Rightarrow> h * nw_tp_size w | None \<Rightarrow> n) caches (nw_num_heads w),
       nw_regions := nw_regions w @ concat (map cache_regions caches),
       nw_layout := JObj [(''block_size'', JInt bs), (''layers'', JList (map (cache_layer (nw_tp_size w)) caches))]\<rparr>"

section \<open>Producer\<close>

definition release :: "string \<Rightarrow> 'h nixl_worker \<Rightarrow> 'h nixl_worker" where
  "release rid w =
     (if map_of (nw_reqs_to_send w) rid = None then w
      else w\<lparr>nw_reqs_to_send := dict_del (nw_reqs_to_send w) rid, nw_notified := dict_del (nw_notified w) rid,
             nw_finished := (nw_finished w)\<lparr>finished_sending := set_add rid (finished_sending (nw_finished w))\<rparr>\<rparr>)"

definition release_if_read :: "string \<Rightarrow> 'h nixl_worker \<Rightarrow> 'h nixl_worker" where
  "release_if_read rid w =
     (case map_of (nw_notified w) rid of
        Some (n, readers, _) \<Rightarrow> if readers \<le> n then release rid w else w
      | None \<Rightarrow> w)"

definition hold :: "rat \<Rightarrow> string \<Rightarrow> 'h nixl_worker \<Rightarrow> 'h nixl_worker" where
  "hold deadline rid w = release_if_read rid (w\<lparr>nw_reqs_to_send := dict_put (nw_reqs_to_send w) rid deadline\<rparr>)"

text \<open>
  \<open>start_load_kv\<close>, which waits for nothing.  The device event of the step in flight is left out.
\<close>

definition start_load_kv :: "rat \<Rightarrow> rat \<Rightarrow> string list \<Rightarrow> (string, recv) dict \<Rightarrow> 'h nixl_worker \<Rightarrow> 'h nixl_worker" where
  "start_load_kv now timeout sends recvs w =
     (let w1 = fold (hold (now + timeout)) sends w in w1\<lparr>nw_queue := nw_queue w1 @ recvs\<rparr>)"

definition expire :: "rat \<Rightarrow> string \<times> rat \<Rightarrow> 'h nixl_worker \<Rightarrow> 'h nixl_worker" where
  "expire now = (\<lambda>(rid, deadline) w.
     if deadline < now then
       let w1 = release rid w
       in w1\<lparr>nw_finished := (nw_finished w1)\<lparr>expired_sending := set_add rid (expired_sending (nw_finished w1))\<rparr>\<rparr>
     else w)"

definition forget_notified :: "rat \<Rightarrow> rat \<Rightarrow> 'h nixl_worker \<Rightarrow> 'h nixl_worker" where
  "forget_notified now timeout w =
     w\<lparr>nw_notified := filter (\<lambda>(rid, n, readers, seen). \<not> (rid \<notin> dict_keys (nw_reqs_to_send w) \<and> seen + timeout < now)) (nw_notified w)\<rparr>"

definition get_finished :: "rat \<Rightarrow> rat \<Rightarrow> 'h nixl_worker \<Rightarrow> kv_connector_output \<times> 'h nixl_worker" where
  "get_finished now timeout w =
     (let w1 = forget_notified now timeout (fold (expire now) (nw_reqs_to_send w) w)
      in (nw_finished w1, w1\<lparr>nw_finished := empty_output\<rparr>))"

text \<open>A notification \<open>request:readers\<close>; \<open>None\<close> is one that does not parse.\<close>

definition take_notification :: "rat \<Rightarrow> (string \<times> int) option \<Rightarrow> 'h nixl_worker \<Rightarrow> 'h nixl_worker" where
  "take_notification now msg w =
     (case msg of
        None \<Rightarrow> w
      | Some (rid, readers) \<Rightarrow>
          let entry = (case map_of (nw_notified w) rid of Some (n, r, seen) \<Rightarrow> (n + 1, r, seen) | None \<Rightarrow> (1, readers, now))
          in release_if_read rid (w\<lparr>nw_notified := dict_put (nw_notified w) rid entry\<rparr>))"

definition take_notifications :: "rat \<Rightarrow> (string \<times> int) option list \<Rightarrow> 'h nixl_worker \<Rightarrow> 'h nixl_worker" where
  "take_notifications now msgs w = fold (take_notification now) msgs w"

text \<open>The answer of \<open>_serve\<close> to one request, whose \<open>op\<close> is \<open>None\<close> when it does not parse.\<close>

record handshake_reply =
  hr_engine_id :: string
  hr_tp_size :: int
  hr_layout :: json
  hr_regions :: "region list"
  hr_num_blocks :: int
  hr_mem_type :: string
  hr_device_id :: int

definition serve_op :: "string option \<Rightarrow> 'h nixl_worker \<Rightarrow> string + handshake_reply" where
  "serve_op q w =
     (if q = Some ''handshake'' then
        Inr \<lparr>hr_engine_id = nw_engine_id w, hr_tp_size = nw_tp_size w, hr_layout = nw_layout w, hr_regions = nw_regions w,
             hr_num_blocks = nw_num_blocks w, hr_mem_type = nw_mem_type w, hr_device_id = nw_device_id w\<rparr>
      else Inl ''unknown op'')"

section \<open>Consumer\<close>

text \<open>
  The outside at a moment: what a producer's socket answers to a handshake, or that it did not;
  the name \<open>add_remote_agent\<close> gives; whether a transfer can be initialized, what \<open>transfer\<close> and
  \<open>check_xfer_state\<close> say, and whether a notification can be sent.
\<close>

record 'h nixl_env =
  ask :: "string \<times> int \<Rightarrow> (string + handshake_reply) res"
  add_remote_agent :: "string \<times> int \<Rightarrow> string res"
  initialize_xfer :: "(int \<times> int \<times> int) list \<Rightarrow> (int \<times> int \<times> int) list \<Rightarrow> string \<Rightarrow> string \<times> int \<Rightarrow> 'h res"
  transfer :: "'h \<Rightarrow> string res"
  check_xfer_state :: "'h \<Rightarrow> string res"
  can_notify :: "string \<Rightarrow> bool"

definition heads_of :: "recv \<Rightarrow> 'h nixl_worker \<Rightarrow> int" where
  "heads_of q w = (if nw_num_heads w \<noteq> 0 then nw_num_heads w else lcm (nw_tp_size w) (rq_tp_size q))"

definition check_reply :: "recv \<Rightarrow> string + handshake_reply \<Rightarrow> 'h nixl_worker \<Rightarrow> handshake_reply res" where
  "check_reply q reply w =
     (case reply of
        Inl err \<Rightarrow> Inl (RuntimeError err)
      | Inr r \<Rightarrow>
          if hr_engine_id r \<noteq> rq_engine_id q then Inl (RuntimeError ''another engine'')
          else if hr_tp_size r \<noteq> rq_tp_size q then Inl (RuntimeError ''another tp_size'')
          else if hr_layout r \<noteq> nw_layout w then Inl (RuntimeError ''another layout'')
          else Inr r)"

definition remote_of :: "handshake_reply \<Rightarrow> string \<Rightarrow> remote" where
  "remote_of r name = \<lparr>rm_engine_id = hr_engine_id r, rm_agent_name = name, rm_regions = hr_regions r, rm_num_blocks = hr_num_blocks r,
     rm_mem_type = hr_mem_type r, rm_device_id = hr_device_id r\<rparr>"

definition ask_producer :: "'h nixl_env \<Rightarrow> recv \<Rightarrow> string \<times> int \<Rightarrow> 'h nixl_worker \<Rightarrow> remote res \<times> 'h nixl_worker" where
  "ask_producer env q key w =
     (case bindE (ask env key) (\<lambda>reply. bindE (check_reply q reply w) (\<lambda>r. bindE (add_remote_agent env key) (\<lambda>name. Inr (remote_of r name)))) of
        Inl err \<Rightarrow> (Inl err, w)
      | Inr rm \<Rightarrow> (Inr rm, w\<lparr>nw_remotes := dict_put (nw_remotes w) key rm\<rparr>))"

definition handshake :: "'h nixl_env \<Rightarrow> recv \<Rightarrow> int \<Rightarrow> 'h nixl_worker \<Rightarrow> remote res \<times> 'h nixl_worker" where
  "handshake env q rr w =
     (let key = (rq_host q, rq_port q + rr)
      in case map_of (nw_remotes w) key of
           Some rm \<Rightarrow> if rm_engine_id rm = rq_engine_id q then (Inr rm, w)
                      else ask_producer env q key (w\<lparr>nw_remotes := dict_del (nw_remotes w) key\<rparr>)
         | None \<Rightarrow> ask_producer env q key w)"

definition send_notif :: "'h nixl_env \<Rightarrow> string \<Rightarrow> string \<times> int \<Rightarrow> 'h nixl_worker \<Rightarrow> 'h nixl_worker res" where
  "send_notif env name n w = (if can_notify env name then Inr (w\<lparr>nw_notifs := nw_notifs w @ [(name, n)]\<rparr>) else Inl (RuntimeError ''notif''))"

text \<open>\<open>max(ids, default=-1)\<close>\<close>

definition max_id :: "int list \<Rightarrow> int" where
  "max_id ids = (if ids = [] then - 1 else Max (set ids))"

text \<open>A negative block id does not fit the \<open>uint64\<close> rows.\<close>

definition uint_descs :: "region list \<Rightarrow> int list \<Rightarrow> int \<Rightarrow> int \<Rightarrow> bool \<Rightarrow> int \<Rightarrow> (int \<times> int \<times> int) list res" where
  "uint_descs regions ids first_head n latents dev =
     (if \<exists>b \<in> set ids. b < 0 then Inl OverflowError else Inr (block_descs regions ids first_head n latents dev))"

text \<open>
  The body of the loop of \<open>_start\<close>, for the \<open>i\<close>-th share.  An exception keeps what was done before it.
\<close>

definition start_share ::
  "'h nixl_env \<Rightarrow> int \<Rightarrow> bool \<Rightarrow> share \<Rightarrow> 'h load \<times> 'h nixl_worker \<Rightarrow> ('h load \<times> 'h nixl_worker) \<times> py_error option" where
  "start_share env heads latents sh = (\<lambda>(ld, w).
     let q = ld_req ld; done = (\<lambda>ld w. ((ld\<lparr>ld_unnotified := filter (\<lambda>r. r \<noteq> remote_rank sh) (ld_unnotified ld)\<rparr>, w), None))
     in case handshake env q (remote_rank sh) w of
          (Inl err, w1) \<Rightarrow> ((ld, w1), Some err)
        | (Inr rm, w1) \<Rightarrow>
            if rm_num_blocks rm \<le> max_id (rq_remote q) then ((ld, w1), Some (RuntimeError ''a block id past the producer''))
            else case bindE (head_shares (remote_rank sh) (rq_tp_size q) (nw_tp_size w1) heads) (\<lambda>readers.
                      bindE (uint_descs (nw_regions w1) (rq_local q) (local_head sh) (num_heads sh) latents (nw_device_id w1)) (\<lambda>here.
                      Inr (py_len readers, here))) of
                   Inl err \<Rightarrow> ((ld, w1), Some err)
                 | Inr (readers, here) \<Rightarrow>
                     let note = (rq_request_id q, readers)
                     in if here = [] then
                          (case send_notif env (rm_agent_name rm) note w1 of Inl err \<Rightarrow> ((ld, w1), Some err) | Inr w2 \<Rightarrow> done ld w2)
                        else
                          (case bindE (uint_descs (rm_regions rm) (rq_remote q) (remote_head sh) (num_heads sh) latents (rm_device_id rm)) (\<lambda>there.
                                initialize_xfer env here there (rm_agent_name rm) note) of
                             Inl err \<Rightarrow> ((ld, w1), Some err)
                           | Inr h \<Rightarrow>
                               let ld1 = ld\<lparr>ld_handles := ld_handles ld @ [h]\<rparr>
                               in case transfer env h of
                                    Inl err \<Rightarrow> ((ld1, w1), Some err)
                                  | Inr st \<Rightarrow>
                                      if st = ''ERR'' then ((ld1, w1), Some (RuntimeError ''NIXL refused the read''))
                                      else done (ld1\<lparr>ld_num_bytes := ld_num_bytes ld1 + (\<Sum>(a, n, d) \<leftarrow> here. n)\<rparr>) w1))"

fun start_shares ::
  "'h nixl_env \<Rightarrow> int \<Rightarrow> bool \<Rightarrow> share list \<Rightarrow> 'h load \<times> 'h nixl_worker \<Rightarrow> ('h load \<times> 'h nixl_worker) \<times> py_error option" where
  "start_shares env heads first [] x = (x, None)"
| "start_shares env heads first (sh # shs) x =
     (case start_share env heads first sh x of
        (x1, None) \<Rightarrow> start_shares env heads False shs x1
      | (x1, Some err) \<Rightarrow> (x1, Some err))"

text \<open>
  \<open>_fail\<close>: producer ranks no read reached are told, where their agent is known.
\<close>

definition notify_unread :: "'h nixl_env \<Rightarrow> recv \<Rightarrow> int \<Rightarrow> 'h nixl_worker \<Rightarrow> 'h nixl_worker" where
  "notify_unread env q rr w =
     (case map_of (nw_remotes w) (rq_host q, rq_port q + rr) of
        None \<Rightarrow> w
      | Some rm \<Rightarrow>
          if rm_engine_id rm \<noteq> rq_engine_id q then w
          else case head_shares rr (rq_tp_size q) (nw_tp_size w) (heads_of q w) of
                 Inl _ \<Rightarrow> w
               | Inr readers \<Rightarrow> (case send_notif env (rm_agent_name rm) (rq_request_id q, py_len readers) w of Inl _ \<Rightarrow> w | Inr w1 \<Rightarrow> w1))"

definition fail_load :: "'h nixl_env \<Rightarrow> 'h load \<times> 'h nixl_worker \<Rightarrow> 'h load \<times> 'h nixl_worker" where
  "fail_load env = (\<lambda>(ld, w).
     (ld\<lparr>ld_failed := True, ld_unnotified := []\<rparr>, fold (notify_unread env (ld_req ld)) (ld_unnotified ld) w))"

definition start_load :: "'h nixl_env \<Rightarrow> rat \<Rightarrow> string \<Rightarrow> recv \<Rightarrow> 'h nixl_worker \<Rightarrow> 'h nixl_worker" where
  "start_load env now rid q w =
     (let ld = new_load q now; heads = heads_of q w;
          (ld2, w2) = (case head_shares (nw_rank w) (nw_tp_size w) (rq_tp_size q) heads of
             Inl err \<Rightarrow> fail_load env (ld, w)
           | Inr shares \<Rightarrow>
               (case start_shares env heads True shares (ld\<lparr>ld_unnotified := remdups (map remote_rank shares)\<rparr>, w) of
                  (x, None) \<Rightarrow> x
                | (x, Some err) \<Rightarrow> fail_load env x))
      in w2\<lparr>nw_loads := dict_put (nw_loads w2) rid ld2\<rparr>)"

text \<open>
  The transfer thread takes the items that are queued; here an item leaves the queue as its load is
  started, which nothing observes.
\<close>

fun take_items :: "'h nixl_env \<Rightarrow> rat \<Rightarrow> (string \<times> recv) list \<Rightarrow> 'h nixl_worker \<Rightarrow> 'h nixl_worker" where
  "take_items env now [] w = w"
| "take_items env now ((rid, q) # items) w = take_items env now items (start_load env now rid q (w\<lparr>nw_queue := items\<rparr>))"

definition take_queue :: "'h nixl_env \<Rightarrow> rat \<Rightarrow> 'h nixl_worker \<Rightarrow> 'h nixl_worker" where
  "take_queue env now w = take_items env now (nw_queue w) w"

text \<open>One request of \<open>_poll\<close>: an exception of \<open>check_xfer_state\<close> counts as a failed read.\<close>

fun poll_handles :: "'h nixl_env \<Rightarrow> 'h list \<Rightarrow> 'h list \<Rightarrow> 'h load \<times> 'h nixl_worker \<Rightarrow> 'h list \<times> 'h load \<times> 'h nixl_worker" where
  "poll_handles env [] pend x = (pend, x)"
| "poll_handles env (h # hs) pend x =
     (case check_xfer_state env h of
        Inr st \<Rightarrow> if st = ''PROC'' then poll_handles env hs (pend @ [h]) x
                  else if st = ''DONE'' then poll_handles env hs pend x
                  else poll_handles env hs pend (fail_load env x)
      | Inl _ \<Rightarrow> poll_handles env hs pend (fail_load env x))"

definition note_recv :: "rat \<Rightarrow> string \<Rightarrow> 'h load \<Rightarrow> kv_connector_output \<Rightarrow> kv_connector_output" where
  "note_recv now rid ld out =
     (if ld_failed ld then out\<lparr>failed_recving := set_add rid (failed_recving out)\<rparr>
      else out\<lparr>finished_recving := set_add rid (finished_recving out),
               recv_stats := dict_put (recv_stats out) rid \<lparr>seconds = now - ld_started ld, num_bytes = ld_num_bytes ld\<rparr>\<rparr>)"

definition poll_load :: "'h nixl_env \<Rightarrow> rat \<Rightarrow> string \<times> 'h load \<Rightarrow> 'h nixl_worker \<Rightarrow> 'h nixl_worker" where
  "poll_load env now = (\<lambda>(rid, ld) w.
     let (pend, ld1, w1) = poll_handles env (ld_handles ld) [] (ld, w); ld2 = ld1\<lparr>ld_handles := pend\<rparr>
     in if pend \<noteq> [] then w1\<lparr>nw_loads := dict_put (nw_loads w1) rid ld2\<rparr>
        else w1\<lparr>nw_loads := dict_del (nw_loads w1) rid, nw_finished := note_recv now rid ld2 (nw_finished w1)\<rparr>)"

definition poll_loads :: "'h nixl_env \<Rightarrow> rat \<Rightarrow> 'h nixl_worker \<Rightarrow> 'h nixl_worker" where
  "poll_loads env now w = fold (poll_load env now) (nw_loads w) w"

text \<open>One turn of the transfer thread.\<close>

definition worker_turn :: "'h nixl_env \<Rightarrow> rat \<Rightarrow> (string \<times> int) option list \<Rightarrow> 'h nixl_worker \<Rightarrow> 'h nixl_worker" where
  "worker_turn env now msgs w = poll_loads env now (take_notifications now msgs (take_queue env now w))"

section \<open>Heads are read from the rank that holds them\<close>

lemma div_le_iff: "0 < (b::int) \<Longrightarrow> a div b \<le> c \<longleftrightarrow> a < (c + 1) * b"
proof
  assume b: "0 < b" and "a div b \<le> c"
  have "a < b * (a div b + 1)" using mult_div_mod_eq [of b a] pos_mod_bound [OF b, of a] unfolding distrib_left by linarith
  also have "\<dots> \<le> b * (c + 1)" using b \<open>a div b \<le> c\<close> by simp
  finally show "a < (c + 1) * b" by (simp add: mult.commute)
next
  assume b: "0 < b" and "a < (c + 1) * b"
  moreover have "(a div b) * b \<le> a" using pos_mod_sign [OF b, of a] div_mult_mod_eq [of a b] by linarith
  ultimately have "(a div b) * b < (c + 1) * b" by linarith
  then show "a div b \<le> c" using b by simp
qed

lemma ceil_iff: "0 < (b::int) \<Longrightarrow> c \<le> - ((- a) div b) - 1 \<longleftrightarrow> c * b < a"
  using div_le_iff [of b "- a" "- c - 1"] by (auto simp: algebra_simps)

text \<open>Ranks whose heads overlap, of \<open>L\<close> and of \<open>R\<close> heads each.\<close>

definition overlaps :: "int \<Rightarrow> int \<Rightarrow> int \<Rightarrow> int \<Rightarrow> bool" where
  "overlaps r L rr R \<longleftrightarrow> r * L < (rr + 1) * R \<and> rr * R < (r + 1) * L"

lemma overlaps_sym: "overlaps r L rr R \<longleftrightarrow> overlaps rr R r L"
  by (auto simp: overlaps_def)

lemma overlap_range: "0 < R \<Longrightarrow> rr \<in> {r * L div R .. - ((- ((r + 1) * L)) div R) - 1} \<longleftrightarrow> overlaps r L rr R"
  using div_le_iff [of R "r * L" rr] ceil_iff [of R rr "(r + 1) * L"] by (auto simp: overlaps_def)

text \<open>Both sides split the same heads evenly.\<close>

definition even_split :: "int \<Rightarrow> int \<Rightarrow> bool" where
  "even_split tp heads \<longleftrightarrow> 0 < tp \<and> 0 < heads \<and> tp dvd heads"

lemma even_splitD: "even_split tp heads \<Longrightarrow> 0 < heads div tp \<and> heads div tp * tp = heads \<and> tp \<noteq> 0"
  by (auto simp: even_split_def elim!: dvdE simp: zero_less_mult_iff)

lemma head_shares_eq:
  assumes "even_split tp heads" "even_split rtp heads"
  defines "L \<equiv> heads div tp" and "R \<equiv> heads div rtp"
  shows "head_shares r tp rtp heads = Inr (map (head_share (r * L) ((r + 1) * L) R) [r * L div R .. - ((- ((r + 1) * L)) div R) - 1])"
  using even_splitD [OF assms(1)] even_splitD [OF assms(2)] by (simp add: head_shares_def L_def R_def Let_def)

lemma overlap_in_range:
  assumes "overlaps r L rr R" "0 < L" "0 < R" "L * tp = R * rtp" "0 \<le> r" "r < tp"
  shows "0 \<le> rr \<and> rr < rtp"
proof
  have "0 \<le> r * L" using assms by simp
  then have "0 < (rr + 1) * R" using assms(1) by (auto simp: overlaps_def)
  then show "0 \<le> rr" using assms(3) by (simp add: zero_less_mult_iff)
  have "(r + 1) * L \<le> tp * L" using assms by simp
  then have "rr * R < rtp * R" using assms(1,4) by (simp add: overlaps_def mult.commute)
  then show "rr < rtp" using assms(3) by simp
qed

lemma div_unique_int: "0 < (b::int) \<Longrightarrow> q * b \<le> a \<Longrightarrow> a < (q + 1) * b \<Longrightarrow> q = a div b"
  using div_le_iff [of b a q] div_le_iff [of b a "q - 1"] by auto

lemma share_exact:
  assumes "overlaps r L q R" "0 < L" "0 < R"
  defines "sh \<equiv> head_share (r * L) ((r + 1) * L) R q"
  shows "remote_rank sh = q" "0 < num_heads sh" "0 \<le> local_head sh" "local_head sh + num_heads sh \<le> L"
    "0 \<le> remote_head sh" "remote_head sh + num_heads sh \<le> R" "r * L + local_head sh = q * R + remote_head sh"
    "local_head sh \<le> h \<and> h < local_head sh + num_heads sh \<longleftrightarrow>
       q * R \<le> r * L + h \<and> r * L + h < (q + 1) * R \<and> 0 \<le> h \<and> h < L"
  using assms(1-3) unfolding sh_def overlaps_def by (auto simp: head_share_def Let_def distrib_right max_def min_def)

lemma share_unique:
  assumes LR: "0 < L" "0 < R" and h: "0 \<le> h" "h < L"
  shows "\<exists>!sh. (\<exists>q. overlaps r L q R \<and> sh = head_share (r * L) ((r + 1) * L) R q) \<and> local_head sh \<le> h \<and> h < local_head sh + num_heads sh"
proof -
  define q where "q = (r * L + h) div R"
  have "q * R \<le> r * L + h" using pos_mod_sign [OF LR(2), of "r * L + h"] div_mult_mod_eq [of "r * L + h" R] unfolding q_def by linarith
  moreover have "r * L + h < (q + 1) * R" using div_le_iff [OF LR(2), of "r * L + h" q] unfolding q_def by blast
  ultimately have q: "q * R \<le> r * L + h" "r * L + h < (q + 1) * R" .
  have o: "overlaps r L q R" using q h by (auto simp: overlaps_def distrib_right)
  have only: "q' = q" if "overlaps r L q' R" "local_head (head_share (r * L) ((r + 1) * L) R q') \<le> h"
      "h < local_head (head_share (r * L) ((r + 1) * L) R q') + num_heads (head_share (r * L) ((r + 1) * L) R q')" for q'
    unfolding q_def using share_exact(8) [OF that(1) LR, of h] that(2,3) by (intro div_unique_int [OF LR(2)]) blast+
  show ?thesis
    by (rule ex1I [of _ "head_share (r * L) ((r + 1) * L) R q"]) (use share_exact(8) [OF o LR, of h] o q h only in blast)+
qed

lemma readers_count:
  assumes "even_split tp heads" "even_split rtp heads" "0 \<le> rr" "rr < rtp" "head_shares rr rtp tp heads = Inr readers"
  shows "length readers = card {c. 0 \<le> c \<and> c < tp \<and> overlaps c (heads div tp) rr (heads div rtp)}"
proof -
  define L R where "L = heads div tp" and "R = heads div rtp"
  have LR: "0 < L" "0 < R" "R * rtp = L * tp" using even_splitD assms(1,2) by (auto simp: L_def R_def)
  have "length readers = card {rr * R div L .. - ((- ((rr + 1) * R)) div L) - 1}"
    using assms(5) head_shares_eq [OF assms(2,1), of rr] by (auto simp: L_def R_def)
  also have "{rr * R div L .. - ((- ((rr + 1) * R)) div L) - 1} = {c. overlaps rr R c L}"
    using overlap_range [OF LR(1), of _ rr R] by blast
  also have "\<dots> = {c. 0 \<le> c \<and> c < tp \<and> overlaps c L rr R}"
    using overlap_in_range [OF _ LR(2,1,3) assms(3,4)] by (auto simp: overlaps_sym [of _ L])
  finally show ?thesis by (simp add: L_def R_def)
qed

text \<open>
  C37: a rank reads each of its heads once, from the rank that holds it.  When the two sides split
  the same heads evenly, every share lies within the reading rank's heads and within the held
  ones, names the same heads on both, and each head of the reading rank is in exactly one; and the
  number of readers a producer rank is told is the number of ranks that read from it.
\<close>

theorem head_shares_exact:
  assumes "even_split tp heads" "even_split rtp heads" "0 \<le> rank" "rank < tp" "0 \<le> rr" "rr < rtp"
  shows "\<exists>shares readers. head_shares rank tp rtp heads = Inr shares \<and> head_shares rr rtp tp heads = Inr readers \<and>
    (\<forall>sh \<in> set shares. 0 \<le> remote_rank sh \<and> remote_rank sh < rtp \<and> 0 < num_heads sh \<and>
       0 \<le> local_head sh \<and> local_head sh + num_heads sh \<le> heads div tp \<and>
       0 \<le> remote_head sh \<and> remote_head sh + num_heads sh \<le> heads div rtp \<and>
       rank * (heads div tp) + local_head sh = remote_rank sh * (heads div rtp) + remote_head sh) \<and>
    (\<forall>h. 0 \<le> h \<and> h < heads div tp \<longrightarrow> (\<exists>!sh. sh \<in> set shares \<and> local_head sh \<le> h \<and> h < local_head sh + num_heads sh)) \<and>
    length readers = card {c. 0 \<le> c \<and> c < tp \<and> (\<exists>ss. head_shares c tp rtp heads = Inr ss \<and> rr \<in> remote_rank ` set ss)}"
proof -
  define L R where "L = heads div tp" and "R = heads div rtp"
  have LR: "0 < L" "0 < R" "L * tp = heads" "R * rtp = heads" using even_splitD assms(1,2) by (auto simp: L_def R_def)
  let ?sh = "\<lambda>r. head_share (r * L) ((r + 1) * L) R"
  have eq: "head_shares r tp rtp heads = Inr (map (?sh r) [r * L div R .. - ((- ((r + 1) * L)) div R) - 1])" for r
    unfolding L_def R_def by (rule head_shares_eq [OF assms(1,2)])
  have mem: "sh \<in> set (map (?sh r) [r * L div R .. - ((- ((r + 1) * L)) div R) - 1]) \<longleftrightarrow> (\<exists>q. overlaps r L q R \<and> sh = ?sh r q)" for r sh
    using overlap_range [OF LR(2), of _ r L] by (auto simp: image_iff)
  have ranks: "(\<exists>ss. head_shares c tp rtp heads = Inr ss \<and> rr \<in> remote_rank ` set ss) \<longleftrightarrow> overlaps c L rr R" for c
  proof -
    have "(\<exists>ss. head_shares c tp rtp heads = Inr ss \<and> rr \<in> remote_rank ` set ss) \<longleftrightarrow>
        (\<exists>sh. (\<exists>q. overlaps c L q R \<and> sh = ?sh c q) \<and> rr = remote_rank sh)"
      unfolding eq mem [symmetric] by (simp only: sum.inject(2) image_iff Bex_def ex_simps simp_thms)
    also have "\<dots> \<longleftrightarrow> overlaps c L rr R" using share_exact(1) [OF _ LR(1,2), of c] by metis
    finally show ?thesis .
  qed
  obtain readers where rd: "head_shares rr rtp tp heads = Inr readers" using head_shares_eq [OF assms(2,1)] by blast
  have n: "length readers = card {c. 0 \<le> c \<and> c < tp \<and> (\<exists>ss. head_shares c tp rtp heads = Inr ss \<and> rr \<in> remote_rank ` set ss)}"
    unfolding ranks using readers_count [OF assms(1,2,5,6) rd] by (simp add: L_def R_def)
  define shares where "shares = map (?sh rank) [rank * L div R .. - ((- ((rank + 1) * L)) div R) - 1]"
  have sh: "sh \<in> set shares \<longleftrightarrow> (\<exists>q. overlaps rank L q R \<and> sh = ?sh rank q)" for sh unfolding shares_def by (rule mem)
  have u: "\<exists>!sh. sh \<in> set shares \<and> local_head sh \<le> h \<and> h < local_head sh + num_heads sh" if "0 \<le> h" "h < L" for h
    unfolding sh by (rule share_unique [OF LR(1,2) that])
  have b: "0 \<le> remote_rank x \<and> remote_rank x < rtp \<and> 0 < num_heads x \<and> 0 \<le> local_head x \<and> local_head x + num_heads x \<le> L \<and>
      0 \<le> remote_head x \<and> remote_head x + num_heads x \<le> R \<and> rank * L + local_head x = remote_rank x * R + remote_head x" if x: "x \<in> set shares" for x
  proof -
    obtain q where q: "overlaps rank L q R" "x = ?sh rank q" using x unfolding sh by blast
    have "0 \<le> q \<and> q < rtp" by (rule overlap_in_range [OF q(1) LR(1,2) _ assms(3,4)]) (simp add: LR(3,4))
    then show ?thesis using share_exact [OF q(1) LR(1,2)] unfolding q(2) by simp
  qed
  have "head_shares rank tp rtp heads = Inr shares" unfolding eq shares_def ..
  moreover have "\<forall>h. 0 \<le> h \<and> h < L \<longrightarrow> (\<exists>!sh. sh \<in> set shares \<and> local_head sh \<le> h \<and> h < local_head sh + num_heads sh)" using u by simp
  moreover note rd n ballI [of "set shares", OF b]
  ultimately show ?thesis unfolding L_def R_def by (intro exI [of _ shares] exI [of _ readers] conjI)
qed

text \<open>Two ranks of 4 heads read from four ranks of 2: rank 1 reads ranks 2 and 3, each of which it alone reads.\<close>

theorem head_shares_exact_witness:
  "\<exists>shares readers. head_shares 1 2 4 8 = Inr shares \<and> map remote_rank shares = [2, 3] \<and> head_shares 2 4 2 8 = Inr readers \<and>
    length readers = 1 \<and> (\<exists>!sh. sh \<in> set shares \<and> local_head sh \<le> 3 \<and> 3 < local_head sh + num_heads sh)"
proof -
  have a: "even_split 2 8" "even_split 4 8" by (simp_all add: even_split_def)
  have v: "map_sum id (map remote_rank) (head_shares 1 2 4 8) = Inr [2, 3]" "map_sum id length (head_shares 2 4 2 8) = Inr 1" by code_simp+
  obtain shares readers where s: "head_shares 1 2 4 8 = Inr shares" "head_shares 2 4 2 8 = Inr readers"
    "\<forall>h. 0 \<le> h \<and> h < (8::int) div 2 \<longrightarrow> (\<exists>!sh. sh \<in> set shares \<and> local_head sh \<le> h \<and> h < local_head sh + num_heads sh)"
    using head_shares_exact [OF a, of 1 2] by auto
  then have "\<exists>!sh. sh \<in> set shares \<and> local_head sh \<le> 3 \<and> 3 < local_head sh + num_heads sh" by simp
  then show ?thesis using s v by simp
qed

end
