(* ===== verification/Nixl_Properties.thy ===== *)
theory Nixl_Properties
  imports Nixl_Worker
begin

text \<open>
  What a worker half reports to its engine: every load it was given ends in exactly one report, and
  every request whose blocks it holds is released exactly once.
\<close>

section \<open>What the transfers leave alone\<close>

definition wframe :: "'h nixl_worker \<Rightarrow> 'h nixl_worker \<Rightarrow> bool" where
  "wframe w w' \<longleftrightarrow> nw_loads w' = nw_loads w \<and> nw_queue w' = nw_queue w \<and> nw_finished w' = nw_finished w \<and>
     nw_reqs_to_send w' = nw_reqs_to_send w \<and> nw_notified w' = nw_notified w"

lemma wframe_refl [simp]: "wframe w w"
  by (simp add: wframe_def)

lemma wframe_trans: "wframe w w1 \<Longrightarrow> wframe w1 w2 \<Longrightarrow> wframe w w2"
  by (simp add: wframe_def)

lemma ask_frame: "ask_producer env q key w = (r, w') \<Longrightarrow> wframe w w'"
  by (auto simp: ask_producer_def wframe_def split: sum.splits)

lemma handshake_frame: "handshake env q rr w = (r, w') \<Longrightarrow> wframe w w'"
  by (auto simp: handshake_def Let_def split: option.splits if_splits dest!: ask_frame) (simp add: wframe_def)

lemma notif_frame: "send_notif env name n w = Inr w' \<Longrightarrow> wframe w w'"
  by (auto simp: send_notif_def wframe_def split: if_splits)

lemma start_share_frame: "start_share env heads latents sh (ld, w) = ((ld', w'), err) \<Longrightarrow> wframe w w'"
  by (auto simp: start_share_def Let_def split: prod.splits sum.splits if_splits dest!: handshake_frame notif_frame intro: wframe_trans)

lemma start_shares_frame: "start_shares env heads first shs (ld, w) = ((ld', w'), err) \<Longrightarrow> wframe w w'"
proof (induction shs arbitrary: first ld w)
  case (Cons sh shs)
  obtain ld1 w1 e1 where s: "start_share env heads first sh (ld, w) = ((ld1, w1), e1)" by (metis prod.exhaust)
  then show ?case using Cons.IH [of False ld1 w1] Cons.prems wframe_trans [OF start_share_frame [OF s]] by (cases e1) auto
qed simp

lemma notify_frame: "wframe w (notify_unread env q rr w)"
  by (auto simp: notify_unread_def split: option.splits sum.splits dest: notif_frame)

lemma notify_all_frame: "wframe w (fold (notify_unread env q) rrs w)"
proof (induction rrs arbitrary: w)
  case (Cons r rrs)
  show ?case by (simp add: wframe_trans [OF notify_frame Cons.IH])
qed simp

lemma fail_frame: "fail_load env (ld, w) = (ld', w') \<Longrightarrow> wframe w w' \<and> ld' = ld\<lparr>ld_failed := True, ld_unnotified := []\<rparr>"
  by (auto simp: fail_load_def notify_all_frame)

lemma start_load_frame:
  "\<exists>w2 ld. start_load env now rid q w = w2\<lparr>nw_loads := dict_put (nw_loads w2) rid ld\<rparr> \<and> wframe w w2"
proof (cases "head_shares (nw_rank w) (nw_tp_size w) (rq_tp_size q) (heads_of q w)")
  case (Inl err)
  obtain ld2 w2 where f: "fail_load env (new_load q now, w) = (ld2, w2)" by (metis prod.exhaust)
  then have "start_load env now rid q w = w2\<lparr>nw_loads := dict_put (nw_loads w2) rid ld2\<rparr>" using Inl by (simp add: start_load_def Let_def)
  then show ?thesis using fail_frame [OF f] by blast
next
  case (Inr shares)
  obtain ld1 w1 err where s: "start_shares env (heads_of q w) True shares ((new_load q now)\<lparr>ld_unnotified := remdups (map remote_rank shares)\<rparr>, w) =
      ((ld1, w1), err)" by (metis prod.exhaust)
  note f1 = start_shares_frame [OF s]
  obtain ld2 w2 where f: "fail_load env (ld1, w1) = (ld2, w2)" by (metis prod.exhaust)
  have "start_load env now rid q w = (if err = None then w1\<lparr>nw_loads := dict_put (nw_loads w1) rid ld1\<rparr> else w2\<lparr>nw_loads := dict_put (nw_loads w2) rid ld2\<rparr>)"
    using Inr s f by (cases err) (simp_all add: start_load_def Let_def)
  then show ?thesis using f1 wframe_trans [OF f1 conjunct1 [OF fail_frame [OF f]]] by (auto split: if_splits)
qed

section \<open>One poll\<close>

lemma poll_handles_result:
  "poll_handles env hs pend (ld, w) = (pend', ld', w') \<Longrightarrow>
     wframe w w' \<and> pend' = pend @ filter (\<lambda>h. check_xfer_state env h = Inr ''PROC'') hs \<and>
     (ld_failed ld' \<longleftrightarrow> ld_failed ld \<or> (\<exists>h \<in> set hs. check_xfer_state env h \<notin> {Inr ''PROC'', Inr ''DONE''})) \<and>
     ld_started ld' = ld_started ld \<and> ld_num_bytes ld' = ld_num_bytes ld"
proof (induction hs arbitrary: pend ld w)
  case (Cons h hs)
  obtain ld1 w1 where f: "fail_load env (ld, w) = (ld1, w1)" by fastforce
  note ff = fail_frame [OF f]
  show ?case
  proof (cases "check_xfer_state env h \<in> {Inr ''PROC'', Inr ''DONE''}")
    case True
    then show ?thesis using Cons.IH [of "pend @ [h]" ld w] Cons.IH [of pend ld w] Cons.prems by auto
  next
    case False
    then have "poll_handles env hs pend (ld1, w1) = (pend', ld', w')" using Cons.prems f by (auto split: sum.splits if_splits)
    from Cons.IH [OF this] show ?thesis using ff False wframe_trans [of w w1 w'] by auto
  qed
qed simp

lemma poll_load_result:
  fixes env :: "'h nixl_env" and w :: "'h nixl_worker" and now rid ld
  defines "w' \<equiv> poll_load env now (rid, ld) w"
  shows "\<exists>h \<in> set (ld_handles ld). check_xfer_state env h = Inr ''PROC'' \<Longrightarrow>
      \<exists>ld'. wframe (w\<lparr>nw_loads := dict_put (nw_loads w) rid ld'\<rparr>) w'"
    and "\<forall>h \<in> set (ld_handles ld). check_xfer_state env h \<noteq> Inr ''PROC'' \<Longrightarrow>
      \<exists>ld' :: 'h load. wframe (w\<lparr>nw_loads := dict_del (nw_loads w) rid, nw_finished := note_recv now rid ld' (nw_finished w)\<rparr>) w' \<and>
        (ld_failed ld' \<longleftrightarrow> ld_failed ld \<or> (\<exists>h \<in> set (ld_handles ld). check_xfer_state env h \<noteq> Inr ''DONE''))"
proof -
  obtain pend ld1 w1 where p: "poll_handles env (ld_handles ld) [] (ld, w) = (pend, ld1, w1)" by (metis prod.exhaust)
  note r = poll_handles_result [OF p]
  have w': "w' = (if pend \<noteq> [] then w1\<lparr>nw_loads := dict_put (nw_loads w1) rid (ld1\<lparr>ld_handles := pend\<rparr>)\<rparr>
      else w1\<lparr>nw_loads := dict_del (nw_loads w1) rid, nw_finished := note_recv now rid (ld1\<lparr>ld_handles := pend\<rparr>) (nw_finished w1)\<rparr>)"
    by (simp add: w'_def poll_load_def p Let_def)
  show "\<exists>ld'. wframe (w\<lparr>nw_loads := dict_put (nw_loads w) rid ld'\<rparr>) w'" if "\<exists>h \<in> set (ld_handles ld). check_xfer_state env h = Inr ''PROC''"
  proof -
    have "pend \<noteq> []" using r that by (auto simp: filter_empty_conv)
    then show ?thesis using r by (auto simp: w' wframe_def)
  qed
  show "\<exists>ld' :: 'h load. wframe (w\<lparr>nw_loads := dict_del (nw_loads w) rid, nw_finished := note_recv now rid ld' (nw_finished w)\<rparr>) w' \<and>
        (ld_failed ld' \<longleftrightarrow> ld_failed ld \<or> (\<exists>h \<in> set (ld_handles ld). check_xfer_state env h \<noteq> Inr ''DONE''))"
    if "\<forall>h \<in> set (ld_handles ld). check_xfer_state env h \<noteq> Inr ''PROC''"
  proof -
    have p: "pend = []" using r that by (auto simp: filter_empty_conv)
    show ?thesis by (rule exI [of _ "ld1\<lparr>ld_handles := pend\<rparr>"]) (use p r that in \<open>auto simp: w' wframe_def\<close>)
  qed
qed

section \<open>Runs\<close>

text \<open>
  What the two threads do to a worker, each holding the lock while it touches what they share.
  \<open>given\<close> and \<open>told\<close> are the loads handed over and reported so far, \<open>handed\<close> and \<open>freed\<close> the requests
  whose blocks are to be read and those reported released.  The engine gives no request while the
  worker still has one of that id.
\<close>

definition recv_ids :: "'h nixl_worker \<Rightarrow> string list" where
  "recv_ids w = map fst (nw_queue w) @ map fst (nw_loads w) @ finished_recving (nw_finished w) @ failed_recving (nw_finished w)"

definition send_ids :: "'h nixl_worker \<Rightarrow> string list" where
  "send_ids w = map fst (nw_reqs_to_send w) @ finished_sending (nw_finished w)"

inductive worker_run ::
  "'h nixl_worker \<Rightarrow> string multiset \<Rightarrow> string multiset \<Rightarrow> string multiset \<Rightarrow> string multiset \<Rightarrow> bool" where
  nw_start: "worker_run (new_nixl_worker eid rank tp regions heads layout blocks mem dev) {#} {#} {#} {#}"
| nw_give: "worker_run w given told handed freed \<Longrightarrow> distinct sends \<Longrightarrow> set sends \<inter> set (send_ids w) = {} \<Longrightarrow>
     wf_dict recvs \<Longrightarrow> dict_keys recvs \<inter> set (recv_ids w) = {} \<Longrightarrow>
     worker_run (start_load_kv now timeout sends recvs w) (given + mset (map fst recvs)) told (handed + mset sends) freed"
| nw_begin: "worker_run w given told handed freed \<Longrightarrow> nw_queue w = (rid, q) # rest \<Longrightarrow>
     worker_run (start_load env now rid q (w\<lparr>nw_queue := rest\<rparr>)) given told handed freed"
| nw_notif: "worker_run w given told handed freed \<Longrightarrow> worker_run (take_notification now msg w) given told handed freed"
| nw_poll: "worker_run w given told handed freed \<Longrightarrow> map_of (nw_loads w) rid = Some ld \<Longrightarrow>
     worker_run (poll_load env now (rid, ld) w) given told handed freed"
| nw_report: "worker_run w given told handed freed \<Longrightarrow> get_finished now timeout w = (out, w') \<Longrightarrow>
     worker_run w' given (told + mset (finished_recving out) + mset (failed_recving out)) handed (freed + mset (finished_sending out))"

definition unread :: "'h nixl_worker \<Rightarrow> string \<Rightarrow> bool" where
  "unread w rid \<longleftrightarrow> (\<forall>n readers seen. map_of (nw_notified w) rid = Some (n, readers, seen) \<longrightarrow> n < readers)"

definition worker_inv :: "'h nixl_worker \<Rightarrow> string multiset \<Rightarrow> string multiset \<Rightarrow> string multiset \<Rightarrow> string multiset \<Rightarrow> bool" where
  "worker_inv w given told handed freed \<longleftrightarrow>
     distinct (recv_ids w) \<and> given = told + mset (recv_ids w) \<and>
     distinct (send_ids w) \<and> handed = freed + mset (send_ids w) \<and>
     (\<forall>rid \<in> dict_keys (nw_reqs_to_send w). unread w rid)"

lemma del_keys: "wf_dict d \<Longrightarrow> map_of d k = Some v \<Longrightarrow> mset (map fst d) = add_mset k (mset (map fst (dict_del d k)))"
proof (induction d)
  case (Cons p d)
  then show ?case by (cases p; cases "fst p = k") (auto simp: delete_keys image_iff rev_image_eqI)
qed simp

lemma set_add_new: "x \<notin> set xs \<Longrightarrow> set_add x xs = xs @ [x]"
  by (simp add: set_add_def)

text \<open>An operation that only moves ids about keeps the invariant.\<close>

lemma move_inv:
  assumes inv: "worker_inv w given told handed freed"
    and r: "mset (recv_ids w') = mset (recv_ids w)" and s: "mset (send_ids w') = mset (send_ids w)"
    and u: "\<And>rid. rid \<in> dict_keys (nw_reqs_to_send w') \<Longrightarrow> unread w' rid"
  shows "worker_inv w' given told handed freed"
  using inv u mset_eq_imp_distinct_iff [OF r] mset_eq_imp_distinct_iff [OF s] unfolding worker_inv_def r s by blast

text \<open>The lock is released with at most the request at hand fully read.\<close>

definition almost_inv :: "string \<Rightarrow> 'h nixl_worker \<Rightarrow> string multiset \<Rightarrow> string multiset \<Rightarrow> string multiset \<Rightarrow> string multiset \<Rightarrow> bool" where
  "almost_inv rid w given told handed freed \<longleftrightarrow>
     distinct (recv_ids w) \<and> given = told + mset (recv_ids w) \<and> distinct (send_ids w) \<and> handed = freed + mset (send_ids w) \<and>
     (\<forall>r \<in> dict_keys (nw_reqs_to_send w) - {rid}. unread w r)"

lemma release_moves:
  assumes d: "distinct (send_ids w)"
  shows "mset (send_ids (release rid w)) = mset (send_ids w)" "recv_ids (release rid w) = recv_ids w"
    "dict_keys (nw_reqs_to_send (release rid w)) = dict_keys (nw_reqs_to_send w) - {rid}"
    "r \<noteq> rid \<Longrightarrow> unread (release rid w) r = unread w r"
proof -
  show "mset (send_ids (release rid w)) = mset (send_ids w)"
  proof (cases "map_of (nw_reqs_to_send w) rid")
    case (Some v)
    then have "rid \<in> dict_keys (nw_reqs_to_send w)" by (metis domI dom_map_of_conv_image_fst)
    then have "rid \<notin> set (finished_sending (nw_finished w))" using d by (auto simp: send_ids_def)
    then show ?thesis using d Some del_keys [of "nw_reqs_to_send w" rid v] by (simp add: send_ids_def release_def set_add_new)
  qed (simp add: send_ids_def release_def)
  show "recv_ids (release rid w) = recv_ids w" by (simp add: recv_ids_def release_def)
  show "dict_keys (nw_reqs_to_send (release rid w)) = dict_keys (nw_reqs_to_send w) - {rid}"
    using delete_keys [of rid "nw_reqs_to_send w", THEN arg_cong [where f = set]] by (auto simp: release_def map_of_eq_None_iff)
  show "unread (release rid w) r = unread w r" if "r \<noteq> rid" using that by (simp add: unread_def release_def)
qed

lemma release_inv:
  assumes "almost_inv rid w given told handed freed"
  shows "worker_inv (release rid w) given told handed freed"
proof -
  have d: "distinct (send_ids w)" using assms by (simp add: almost_inv_def)
  show ?thesis using assms release_moves(1-3) [OF d, of rid] release_moves(4) [OF d, of _ rid] mset_eq_imp_distinct_iff [OF release_moves(1) [OF d, of rid]]
    by (auto simp: worker_inv_def almost_inv_def)
qed

lemma release_if_read_inv:
  assumes "almost_inv rid w given told handed freed"
  shows "worker_inv (release_if_read rid w) given told handed freed"
proof (cases "unread w rid")
  case True
  then have "release_if_read rid w = w" by (auto simp: release_if_read_def unread_def split: option.splits)
  then show ?thesis using assms True by (auto simp: almost_inv_def worker_inv_def)
next
  case False
  then have "release_if_read rid w = release rid w" by (auto simp: release_if_read_def unread_def split: option.splits)
  then show ?thesis using release_inv [OF assms] by simp
qed

lemma release_if_read_ids: "set (send_ids (release_if_read rid w)) \<subseteq> insert rid (set (send_ids w))"
  using dom_delete_subset [of rid "nw_reqs_to_send w"]
  by (auto simp: release_if_read_def release_def send_ids_def split: option.splits)

lemma hold_inv:
  assumes inv: "worker_inv w given told handed freed" and new: "rid \<notin> set (send_ids w)"
  shows "worker_inv (hold deadline rid w) given told (add_mset rid handed) freed" "set (send_ids (hold deadline rid w)) \<subseteq> insert rid (set (send_ids w))"
proof -
  let ?w = "w\<lparr>nw_reqs_to_send := dict_put (nw_reqs_to_send w) rid deadline\<rparr>"
  have p: "dict_put (nw_reqs_to_send w) rid deadline = nw_reqs_to_send w @ [(rid, deadline)]"
    using new by (intro dict_put_new) (auto simp: send_ids_def)
  have "almost_inv rid ?w given told (add_mset rid handed) freed"
    using inv new by (auto simp: almost_inv_def worker_inv_def p send_ids_def recv_ids_def unread_def)
  then show "worker_inv (hold deadline rid w) given told (add_mset rid handed) freed" unfolding hold_def by (rule release_if_read_inv)
  show "set (send_ids (hold deadline rid w)) \<subseteq> insert rid (set (send_ids w))"
    unfolding hold_def using release_if_read_ids [of rid ?w] by (auto simp: send_ids_def p)
qed

lemma hold_all_inv:
  "worker_inv w given told handed freed \<Longrightarrow> distinct sends \<Longrightarrow> set sends \<inter> set (send_ids w) = {} \<Longrightarrow>
   worker_inv (fold (hold deadline) sends w) given told (handed + mset sends) freed"
proof (induction sends arbitrary: w handed)
  case (Cons rid sends)
  have i: "worker_inv (hold deadline rid w) given told (add_mset rid handed) freed"
    "set (send_ids (hold deadline rid w)) \<subseteq> insert rid (set (send_ids w))" using hold_inv [OF Cons.prems(1)] Cons.prems(3) by auto
  then have "set sends \<inter> set (send_ids (hold deadline rid w)) = {}" using Cons.prems(2,3) by auto
  then show ?case using Cons.IH [OF i(1)] Cons.prems(2) by simp
qed simp

lemma hold_frame: "recv_ids (hold deadline rid w) = recv_ids w"
  by (simp add: hold_def release_if_read_def release_def recv_ids_def split: option.splits)

lemma hold_all_frame: "recv_ids (fold (hold deadline) sends w) = recv_ids w"
  by (induction sends arbitrary: w) (simp_all add: hold_frame)

lemma give_inv:
  assumes inv: "worker_inv w given told handed freed" and s: "distinct sends" "set sends \<inter> set (send_ids w) = {}"
    and r: "wf_dict recvs" "dict_keys recvs \<inter> set (recv_ids w) = {}"
  shows "worker_inv (start_load_kv now timeout sends recvs w) (given + mset (map fst recvs)) told (handed + mset sends) freed"
proof -
  let ?w = "fold (hold (now + timeout)) sends w"
  have "worker_inv ?w given told (handed + mset sends) freed" by (rule hold_all_inv [OF inv s])
  moreover have "dict_keys recvs \<inter> set (recv_ids ?w) = {}" using r(2) by (simp add: hold_all_frame)
  ultimately show ?thesis using r(1)
    by (auto simp: start_load_kv_def Let_def worker_inv_def recv_ids_def send_ids_def unread_def)
qed

lemma frame_ids:
  "wframe w w' \<Longrightarrow> recv_ids w' = recv_ids w \<and> send_ids w' = send_ids w \<and> nw_reqs_to_send w' = nw_reqs_to_send w \<and> unread w' = unread w"
  by (auto simp: wframe_def recv_ids_def send_ids_def unread_def)

lemma begin_inv:
  assumes inv: "worker_inv w given told handed freed" and q: "nw_queue w = (rid, q) # rest"
  shows "worker_inv (start_load env now rid q (w\<lparr>nw_queue := rest\<rparr>)) given told handed freed"
proof -
  obtain w2 ld where e: "start_load env now rid q (w\<lparr>nw_queue := rest\<rparr>) = w2\<lparr>nw_loads := dict_put (nw_loads w2) rid ld\<rparr>"
    and f: "wframe (w\<lparr>nw_queue := rest\<rparr>) w2" using start_load_frame by blast
  have "rid \<notin> dict_keys (nw_loads w)" using inv by (auto simp: worker_inv_def recv_ids_def q)
  then have "dict_put (nw_loads w) rid ld = nw_loads w @ [(rid, ld)]" by (rule dict_put_new)
  then show ?thesis using f inv unfolding e by (intro move_inv [OF inv]) (auto simp: wframe_def recv_ids_def send_ids_def q worker_inv_def unread_def)
qed

lemma notif_inv:
  assumes inv: "worker_inv w given told handed freed"
  shows "worker_inv (take_notification now msg w) given told handed freed"
proof (cases msg)
  case (Some m)
  obtain rid readers where m: "m = (rid, readers)" by fastforce
  let ?w = "w\<lparr>nw_notified := dict_put (nw_notified w) rid
      (case map_of (nw_notified w) rid of Some (n, r, seen) \<Rightarrow> (n + 1, r, seen) | None \<Rightarrow> (1, readers, now))\<rparr>"
  have "almost_inv rid ?w given told handed freed"
    using inv by (auto simp: almost_inv_def worker_inv_def recv_ids_def send_ids_def unread_def update_conv')
  from release_if_read_inv [OF this] show ?thesis by (simp add: take_notification_def Some m Let_def)
qed (simp add: take_notification_def inv)

lemma poll_inv:
  assumes inv: "worker_inv w given told handed freed" and ld: "map_of (nw_loads w) rid = Some ld"
  shows "worker_inv (poll_load env now (rid, ld) w) given told handed freed"
proof -
  have k: "rid \<in> set (map fst (nw_loads w))" using ld by (metis domI dom_map_of_conv_image_fst image_set)
  have wf: "wf_dict (nw_loads w)" and f: "rid \<notin> set (finished_recving (nw_finished w))" "rid \<notin> set (failed_recving (nw_finished w))"
    using inv k by (auto simp: worker_inv_def recv_ids_def)
  show ?thesis
  proof (cases "\<exists>h \<in> set (ld_handles ld). check_xfer_state env h = Inr ''PROC''")
    case True
    then obtain ld' where fr: "wframe (w\<lparr>nw_loads := dict_put (nw_loads w) rid ld'\<rparr>) (poll_load env now (rid, ld) w)"
      using poll_load_result(1) [OF True] by blast
    have "map fst (dict_put (nw_loads w) rid ld') = map fst (nw_loads w)" using k by (simp add: update_keys)
    then show ?thesis using frame_ids [OF fr] inv by (intro move_inv [OF inv]) (auto simp: recv_ids_def send_ids_def worker_inv_def unread_def)
  next
    case False
    then obtain ld' :: "'a load" where fr: "wframe (w\<lparr>nw_loads := dict_del (nw_loads w) rid, nw_finished := note_recv now rid ld' (nw_finished w)\<rparr>) (poll_load env now (rid, ld) w)"
      using poll_load_result(2) [of ld env now rid w] by blast
    have "finished_sending (note_recv now rid ld' (nw_finished w)) = finished_sending (nw_finished w)" by (simp add: note_recv_def)
    then show ?thesis using frame_ids [OF fr] inv del_keys [OF wf ld] f
      by (intro move_inv [OF inv]) (auto simp: recv_ids_def send_ids_def worker_inv_def unread_def note_recv_def set_add_new)
  qed
qed

lemma expire_inv:
  assumes inv: "worker_inv w given told handed freed"
  shows "worker_inv (expire now x w) given told handed freed"
proof -
  obtain rid deadline where x: "x = (rid, deadline)" by fastforce
  have "almost_inv rid w given told handed freed" using inv by (auto simp: almost_inv_def worker_inv_def)
  from release_inv [OF this] have "worker_inv (release rid w) given told handed freed" .
  then show ?thesis using inv by (auto simp: expire_def x Let_def worker_inv_def recv_ids_def send_ids_def unread_def)
qed

lemma expire_all_inv: "worker_inv w given told handed freed \<Longrightarrow> worker_inv (fold (expire now) xs w) given told handed freed"
  by (induction xs arbitrary: w) (simp_all add: expire_inv)

lemma map_of_filter_keep: "(\<And>v. (k, v) \<in> set d \<Longrightarrow> P (k, v)) \<Longrightarrow> map_of (filter P d) k = map_of d k"
  by (induction d) auto

lemma forget_inv:
  assumes inv: "worker_inv w given told handed freed"
  shows "worker_inv (forget_notified now timeout w) given told handed freed"
proof -
  have "map_of (nw_notified (forget_notified now timeout w)) rid = map_of (nw_notified w) rid" if "rid \<in> dict_keys (nw_reqs_to_send w)" for rid
    unfolding forget_notified_def using that by (simp add: map_of_filter_keep)
  then show ?thesis using inv by (intro move_inv [OF inv]) (auto simp: worker_inv_def unread_def forget_notified_def recv_ids_def send_ids_def)
qed

lemma report_inv:
  assumes inv: "worker_inv w given told handed freed" and g: "get_finished now timeout w = (out, w')"
  shows "worker_inv w' given (told + mset (finished_recving out) + mset (failed_recving out)) handed (freed + mset (finished_sending out))"
proof -
  define w1 where "w1 = forget_notified now timeout (fold (expire now) (nw_reqs_to_send w) w)"
  have i: "worker_inv w1 given told handed freed" unfolding w1_def by (intro forget_inv expire_all_inv inv)
  have "out = nw_finished w1" "w' = w1\<lparr>nw_finished := empty_output\<rparr>" using g by (simp_all add: get_finished_def Let_def w1_def)
  then show ?thesis using i by (auto simp: worker_inv_def recv_ids_def send_ids_def unread_def empty_output_def)
qed

lemma worker_run_inv: "worker_run w given told handed freed \<Longrightarrow> worker_inv w given told handed freed"
proof (induction rule: worker_run.induct)
  case nw_start
  show ?case by (simp add: worker_inv_def recv_ids_def send_ids_def new_nixl_worker_def empty_output_def)
next
  case (nw_give w given told handed freed sends recvs now timeout)
  show ?case by (rule give_inv [OF nw_give.IH nw_give.hyps(2-5)])
qed (auto intro: begin_inv notif_inv poll_inv report_inv)

text \<open>One turn of the transfer thread is a sequence of these steps.\<close>

lemma take_items_run:
  "worker_run w given told handed freed \<Longrightarrow> nw_queue w = items \<Longrightarrow> worker_run (take_items env now items w) given told handed freed"
proof (induction items arbitrary: w)
  case (Cons x items)
  obtain rid q where x: "x = (rid, q)" by fastforce
  let ?w1 = "start_load env now rid q (w\<lparr>nw_queue := items\<rparr>)"
  have "worker_run ?w1 given told handed freed" by (rule worker_run.nw_begin [OF Cons.prems(1)]) (simp add: Cons.prems(2) x)
  moreover have "nw_queue ?w1 = items" using start_load_frame [of env now rid q "w\<lparr>nw_queue := items\<rparr>"] by (auto simp: wframe_def)
  ultimately show ?case using Cons.IH x by simp
qed simp

lemma take_notifications_run:
  "worker_run w given told handed freed \<Longrightarrow> worker_run (fold (take_notification now) msgs w) given told handed freed"
  by (induction msgs arbitrary: w) (simp_all add: worker_run.nw_notif)

lemma poll_others:
  assumes "r \<noteq> rid"
  shows "map_of (nw_loads (poll_load env now (rid, ld) w)) r = map_of (nw_loads w) r"
proof (cases "\<exists>h \<in> set (ld_handles ld). check_xfer_state env h = Inr ''PROC''")
  case True
  then show ?thesis using poll_load_result(1) [OF True, where now = now and rid = rid and w = w] assms by (auto simp: wframe_def update_conv')
next
  case False
  then show ?thesis using poll_load_result(2) [of ld env now rid w] assms by (auto simp: wframe_def)
qed

lemma poll_snapshot_run:
  "worker_run w given told handed freed \<Longrightarrow> wf_dict lds \<Longrightarrow> (\<And>rid ld. (rid, ld) \<in> set lds \<Longrightarrow> map_of (nw_loads w) rid = Some ld) \<Longrightarrow>
   worker_run (fold (poll_load env now) lds w) given told handed freed"
proof (induction lds arbitrary: w)
  case (Cons x lds)
  obtain rid ld where x: "x = (rid, ld)" by fastforce
  have "worker_run (poll_load env now (rid, ld) w) given told handed freed"
    by (rule worker_run.nw_poll [OF Cons.prems(1)]) (simp add: Cons.prems(3) x)
  moreover have "map_of (nw_loads (poll_load env now (rid, ld) w)) r = Some l" if "(r, l) \<in> set lds" for r l
  proof -
    have "r \<noteq> rid" using Cons.prems(2) that x by force
    then show ?thesis using poll_others [of r rid env now ld w] Cons.prems(3) [of r l] that by simp
  qed
  ultimately show ?case using Cons.IH [of "poll_load env now (rid, ld) w"] Cons.prems(2) x by simp
qed simp

lemma worker_turn_run:
  assumes "worker_run w given told handed freed"
  shows "worker_run (worker_turn env now msgs w) given told handed freed"
proof -
  let ?w = "take_notifications now msgs (take_queue env now w)"
  have r: "worker_run ?w given told handed freed" unfolding take_notifications_def take_queue_def
    by (intro take_notifications_run take_items_run assms refl)
  then have "wf_dict (nw_loads ?w)" using worker_run_inv [OF r] by (simp add: worker_inv_def recv_ids_def)
  then show ?thesis unfolding worker_turn_def poll_loads_def by (intro poll_snapshot_run r) (auto intro: map_of_is_SomeI)
qed

text \<open>
  C38: every transfer is reported once.  Whatever the agents, the producers and the clocks do, the
  loads reported to the engine, finished or failed, together with those still queued, under way or
  about to be reported, are the loads it gave, each once; the same holds for the requests whose
  blocks are held for a reader, and none that was fully read stays held.  A load under way is
  reported by a poll exactly when none of its reads is in progress, and as failed exactly when it
  or one of its reads failed.
\<close>

theorem transfers_reported_once:
  assumes "worker_run w given told handed freed"
  shows "given = told + mset (recv_ids w) \<and> distinct (recv_ids w) \<and> handed = freed + mset (send_ids w) \<and> distinct (send_ids w) \<and>
    (\<forall>rid \<in> dict_keys (nw_reqs_to_send w). unread w rid) \<and>
    (\<forall>rid ld. map_of (nw_loads w) rid = Some ld \<longrightarrow>
       (let w' = poll_load env now (rid, ld) w
        in (rid \<in> dict_keys (nw_loads w') \<longleftrightarrow> (\<exists>h \<in> set (ld_handles ld). check_xfer_state env h = Inr ''PROC'')) \<and>
           (rid \<notin> dict_keys (nw_loads w') \<longrightarrow>
              (rid \<in> set (failed_recving (nw_finished w')) \<longleftrightarrow> ld_failed ld \<or> (\<exists>h \<in> set (ld_handles ld). check_xfer_state env h \<noteq> Inr ''DONE'')))))"
proof -
  have inv: "worker_inv w given told handed freed" by (rule worker_run_inv [OF assms])
  have "let w' = poll_load env now (rid, ld) w
        in (rid \<in> dict_keys (nw_loads w') \<longleftrightarrow> (\<exists>h \<in> set (ld_handles ld). check_xfer_state env h = Inr ''PROC'')) \<and>
           (rid \<notin> dict_keys (nw_loads w') \<longrightarrow>
              (rid \<in> set (failed_recving (nw_finished w')) \<longleftrightarrow> ld_failed ld \<or> (\<exists>h \<in> set (ld_handles ld). check_xfer_state env h \<noteq> Inr ''DONE'')))"
    if ld: "map_of (nw_loads w) rid = Some ld" for rid ld
  proof (cases "\<exists>h \<in> set (ld_handles ld). check_xfer_state env h = Inr ''PROC''")
    case True
    then obtain ld' where fr: "wframe (w\<lparr>nw_loads := dict_put (nw_loads w) rid ld'\<rparr>) (poll_load env now (rid, ld) w)"
      using poll_load_result(1) [OF True] by blast
    then show ?thesis using True by (simp add: Let_def wframe_def dom_update)
  next
    case False
    then obtain ld' :: "'a load" where fr: "wframe (w\<lparr>nw_loads := dict_del (nw_loads w) rid, nw_finished := note_recv now rid ld' (nw_finished w)\<rparr>) (poll_load env now (rid, ld) w)"
      "ld_failed ld' \<longleftrightarrow> ld_failed ld \<or> (\<exists>h \<in> set (ld_handles ld). check_xfer_state env h \<noteq> Inr ''DONE'')"
      using poll_load_result(2) [of ld env now rid w] by blast
    have "rid \<in> set (map fst (nw_loads w))" using ld by (metis domI dom_map_of_conv_image_fst image_set)
    then have "rid \<notin> set (failed_recving (nw_finished w))" using inv by (auto simp: worker_inv_def recv_ids_def)
    then show ?thesis using False fr delete_notin_dom [of rid "nw_loads w"] by (auto simp: Let_def wframe_def note_recv_def)
  qed
  then show ?thesis using inv unfolding worker_inv_def by blast
qed

text \<open>
  A concrete run: a consumer of four heads reads two ranks of two; the first producer answers and
  its read is done, the second does not answer, so the load fails and is reported so.
\<close>

definition demo_env :: "nat nixl_env" where
  "demo_env = \<lparr>ask = (\<lambda>(host, port). if port = 7 then Inr (Inr \<lparr>hr_engine_id = ''p'', hr_tp_size = 2, hr_layout = JNull, hr_regions = [],
       hr_num_blocks = 9, hr_mem_type = ''DRAM'', hr_device_id = 0\<rparr>) else Inl (RuntimeError ''no answer'')),
     add_remote_agent = (\<lambda>_. Inr ''agent''), initialize_xfer = (\<lambda>_ _ _ _. Inr 0), transfer = (\<lambda>_. Inr ''PROC''),
     check_xfer_state = (\<lambda>_. Inr ''DONE''), can_notify = (\<lambda>_. True)\<rparr>"

definition demo_recv :: recv where
  "demo_recv = \<lparr>rq_local = [1, 2], rq_remote = [4, 5], rq_request_id = ''r'', rq_engine_id = ''p'', rq_host = ''h'', rq_port = 7, rq_tp_size = 2\<rparr>"

definition demo_worker :: "nat nixl_worker" where
  "demo_worker = worker_turn demo_env 1 [] (start_load_kv 0 10 [''s''] [(''a'', demo_recv)]
     (new_nixl_worker ''c'' 0 1 [\<lparr>addr = 0, block_bytes = 64, head_bytes = 16\<rparr>] 4 JNull 8 ''DRAM'' 0))"

theorem transfers_reported_once_witness:
  "mset (recv_ids demo_worker) = {#''a''#} \<and> failed_recving (nw_finished demo_worker) = [''a''] \<and> mset (send_ids demo_worker) = {#''s''#}"
proof -
  have "worker_run demo_worker (mset (map fst [(''a'', demo_recv)])) {#} (mset [''s'']) {#}"
    unfolding demo_worker_def
    using worker_turn_run [OF worker_run.nw_give [OF worker_run.nw_start, where sends = "[''s'']" and recvs = "[(''a'', demo_recv)]"]]
    by (simp add: recv_ids_def send_ids_def new_nixl_worker_def empty_output_def)
  from transfers_reported_once [OF this] have "{#''a''#} = mset (recv_ids demo_worker)" "{#''s''#} = mset (send_ids demo_worker)" by simp_all
  moreover have "failed_recving (nw_finished demo_worker) = [''a'']" by code_simp
  ultimately show ?thesis by simp
qed

text \<open>
  A request may name a negative \<open>tp_size\<close>, which the validation of its parameters lets pass: there
  is then no rank to read, and the load counts as finished without a byte read.
\<close>

lemma negative_tp_reads_nothing:
  "finished_recving (nw_finished (worker_turn demo_env 1 [] (start_load_kv 0 10 [] [(''a'', demo_recv\<lparr>rq_tp_size := - 1\<rparr>)]
     (new_nixl_worker ''c'' 0 1 [\<lparr>addr = 0, block_bytes = 64, head_bytes = 16\<rparr>] 4 JNull 8 ''DRAM'' 0)))) = [''a'']"
  by code_simp

section \<open>What the scheduler half asks for is typed\<close>

lemma json_ints_some: "list_all is_JInt xs \<Longrightarrow> \<exists>ids. json_ints (JList xs) = Some ids"
proof (induction xs)
  case (Cons x xs)
  then show ?case by (cases x) auto
qed simp

lemma json_ints_slice: "json_ints (JList xs) = Some ids \<Longrightarrow> 0 \<le> n \<Longrightarrow> \<exists>ids'. json_ints (JList (slice_from xs n)) = Some ids'"
proof -
  assume a: "json_ints (JList xs) = Some ids" "0 \<le> n"
  have "list_all is_JInt xs" if "those (map json_int xs) = Some ids" for xs ids using that
  proof (induction xs arbitrary: ids)
    case (Cons x xs)
    then show ?case by (cases x) (auto split: option.splits)
  qed simp
  then have "list_all is_JInt (drop (nat n) xs)" using a(1) by (auto simp: list_all_iff dest: in_set_dropD)
  then show ?thesis using json_ints_some a(2) by (simp add: slice_from_nonneg)
qed

lemma load_is_typed:
  assumes "update_state_after_alloc ns s k = Inr (ns', s')" "kv_transfer_params s = Some p" "remote_prefill p"
    and "0 < ns_block_size ns" "0 \<le> num_cached_tokens s"
  shows "Option.bind (map_of (ns_reqs_to_recv ns') (request_id s)) typed_req \<noteq> None"
proof -
  have keep: "map_of (dict_put p ''do_remote_prefill'' (JBool False)) f = map_of p f" if "f \<noteq> ''do_remote_prefill''" for f
    using that by (simp add: update_conv')
  obtain xs where xs: "map_of p ''remote_block_ids'' = Some (JList xs)" "list_all is_JInt xs"
    using assms(3) by (auto simp: remote_prefill_def split: option.splits json.splits)
  obtain ids where ids: "json_ints (JList xs) = Some ids" using json_ints_some [OF xs(2)] by blast
  obtain ids' where ids': "json_ints (JList (slice_from xs (num_cached_tokens s div ns_block_size ns))) = Some ids'"
    using json_ints_slice [OF ids, of "num_cached_tokens s div ns_block_size ns"] assms(4,5) by (auto simp: pos_imp_zdiv_nonneg_iff)
  obtain rid eid host port where f: "map_of p ''remote_request_id'' = Some (JStr rid)" "map_of p ''remote_engine_id'' = Some (JStr eid)"
    "map_of p ''remote_host'' = Some (JStr host)" "map_of p ''remote_port'' = Some (JInt port)"
    "map_of p ''tp_size'' = None \<or> (\<exists>n. map_of p ''tp_size'' = Some (JInt n))"
    using assms(3) by (auto simp: remote_prefill_def has_str_def has_int_def split: option.splits json.splits)
  show ?thesis using f(5) assms(1,2) f(1-4) xs(1) ids'
    by (elim disjE exE) (clarsimp simp: update_state_after_alloc_def the_params_def clear_remote_prefill_def dict_get_def keep Let_def update_conv'
        typed_req_def simp del: json_ints.simps)+
qed

end
