(* ===== verification/Engine_Core.thy ===== *)
theory Engine_Core
  imports Llm_Engine
begin

text \<open>
  \<open>engine/core.py\<close>: the engine in a process of its own.  The two sockets are lists of messages:
  what the client sent and is not handled yet, and what the core sent.  The engine it serves is a
  record of the operations it calls; \<open>llm_engine_ops\<close> is the one of \<open>make_engine\<close>.  Pickling an
  error is a parameter.
\<close>

section \<open>Messages\<close>

datatype core_in =
    AddMsg string "int list" sampling_params
  | AbortMsg string string
  | MetricsMsg nat
  | ShutdownMsg
  | UnknownMsg string

datatype core_out =
    Added string "py_error option"
  | Outputs "request_output list"
  | MetricsText nat string
  | Dead py_error

definition IDLE_POLL_MS :: nat where
  "IDLE_POLL_MS = 5"

definition PARENT_POLL_MS :: nat where
  "PARENT_POLL_MS = 1000"

text \<open>\<open>survives\<close>: whether an error survives a pickle round trip; \<open>show_error\<close> is its \<open>repr\<close>.\<close>

definition picklable :: "(py_error \<Rightarrow> bool) \<Rightarrow> (py_error \<Rightarrow> string) \<Rightarrow> py_error \<Rightarrow> py_error" where
  "picklable survives show_error e = (if survives e then e else RuntimeError (show_error e))"

section \<open>The core\<close>

record 'e engine_ops =
  eo_add_request :: "int list \<Rightarrow> sampling_params \<Rightarrow> string \<Rightarrow> 'e \<Rightarrow> string res \<times> 'e"
  eo_abort_request :: "string \<Rightarrow> string \<Rightarrow> 'e \<Rightarrow> ('e \<times> bool) res"
  eo_step :: "'e \<Rightarrow> ('e \<times> request_output list \<times> int \<times> int) res"
  eo_is_finished :: "'e \<Rightarrow> bool"
  eo_render :: "'e \<Rightarrow> string"
  eo_survives :: "py_error \<Rightarrow> bool"
  eo_show_error :: "py_error \<Rightarrow> string"

record 'e engine_core =
  ec_engine :: 'e
  ec_input :: "core_in list"
  ec_output :: "core_out list"
  ec_running :: bool

definition send_out :: "core_out \<Rightarrow> 'e engine_core \<Rightarrow> 'e engine_core" where
  "send_out m c = c\<lparr>ec_output := ec_output c @ [m]\<rparr>"

text \<open>
  A handler returns the core and the exception it raised, if any.  A refusal and any other
  failure of \<open>add_request\<close> are answered; a failure of \<open>abort_request\<close> ends the loop.
\<close>

definition core_handle :: "'e engine_ops \<Rightarrow> core_in \<Rightarrow> 'e engine_core \<Rightarrow> 'e engine_core \<times> py_error option" where
  "core_handle ops m c =
     (case m of
        AddMsg rid prompt sp \<Rightarrow>
          (let (r, e) = eo_add_request ops prompt sp rid (ec_engine c);
               err = (case r of
                        Inr _ \<Rightarrow> None
                      | Inl (InvalidRequest x) \<Rightarrow> Some (InvalidRequest x)
                      | Inl (DuplicateRequestId x) \<Rightarrow> Some (DuplicateRequestId x)
                      | Inl x \<Rightarrow> Some (picklable (eo_survives ops) (eo_show_error ops) x))
           in (send_out (Added rid err) (c\<lparr>ec_engine := e\<rparr>), None))
      | AbortMsg rid reason \<Rightarrow>
          (case eo_abort_request ops rid reason (ec_engine c) of
             Inl err \<Rightarrow> (c, Some err)
           | Inr (e, _) \<Rightarrow> (c\<lparr>ec_engine := e\<rparr>, None))
      | MetricsMsg cid \<Rightarrow> (send_out (MetricsText cid (eo_render ops (ec_engine c))) c, None)
      | ShutdownMsg \<Rightarrow> (c\<lparr>ec_running := False\<rparr>, None)
      | UnknownMsg _ \<Rightarrow> (c, Some ValueError))"

fun handle_all :: "'e engine_ops \<Rightarrow> core_in list \<Rightarrow> 'e engine_core \<Rightarrow> 'e engine_core \<times> py_error option" where
  "handle_all ops [] c = (c\<lparr>ec_input := []\<rparr>, None)"
| "handle_all ops (m # ms) c =
     (if \<not> ec_running c then (c\<lparr>ec_input := m # ms\<rparr>, None)
      else case core_handle ops m c of
             (c', None) \<Rightarrow> handle_all ops ms c'
           | (c', Some err) \<Rightarrow> (c'\<lparr>ec_input := ms\<rparr>, Some err))"

text \<open>
  \<open>_handle_inputs\<close> at the moment its poll ends.  Without a message a wait of \<open>None\<close> goes on, the
  core unchanged, while the client lives; a bounded wait returns.
\<close>

definition handle_inputs :: "'e engine_ops \<Rightarrow> nat option \<Rightarrow> bool \<Rightarrow> 'e engine_core \<Rightarrow> 'e engine_core \<times> py_error option" where
  "handle_inputs ops wait_ms parent_alive c =
     (if wait_ms = None \<and> ec_input c = [] then (if parent_alive then (c, None) else (c\<lparr>ec_running := False\<rparr>, None))
      else handle_all ops (ec_input c) c)"

text \<open>
  One turn of the loop of \<open>run\<close>; \<open>arrivals\<close> reach the input while the turn's step runs.
\<close>

definition run_turn ::
  "'e engine_ops \<Rightarrow> bool \<Rightarrow> core_in list \<Rightarrow> 'e engine_core \<Rightarrow> 'e engine_core \<times> py_error option" where
  "run_turn ops parent_alive arrivals c =
     (case handle_inputs ops (if eo_is_finished ops (ec_engine c) then None else Some 0) parent_alive c of
        (c1, Some err) \<Rightarrow> (c1\<lparr>ec_input := ec_input c1 @ arrivals\<rparr>, Some err)
      | (c1, None) \<Rightarrow>
          let c2 = c1\<lparr>ec_input := ec_input c1 @ arrivals\<rparr>
          in if \<not> ec_running c1 \<or> eo_is_finished ops (ec_engine c1) then (c2, None)
             else case eo_step ops (ec_engine c1) of
                    Inl err \<Rightarrow> (c2, Some err)
                  | Inr (e, outs, num_prefill, num_decode) \<Rightarrow>
                      let c3 = c2\<lparr>ec_engine := e\<rparr>; c4 = (if outs \<noteq> [] then send_out (Outputs outs) c3 else c3)
                      in if outs = [] \<and> num_prefill = 0 \<and> num_decode = 0
                         then handle_inputs ops (Some IDLE_POLL_MS) parent_alive c4 else (c4, None))"

text \<open>
  \<open>run_engine_core\<close>: turns until the core stops or one raises, which is the last message.
\<close>

inductive core_run :: "'e engine_ops \<Rightarrow> 'e \<Rightarrow> 'e engine_core \<Rightarrow> core_in list \<Rightarrow> bool \<Rightarrow> bool" for ops e0 where
  start: "core_run ops e0 \<lparr>ec_engine = e0, ec_input = [], ec_output = [], ec_running = True\<rparr> [] False"
| arrive: "core_run ops e0 c sent dead \<Longrightarrow> core_run ops e0 (c\<lparr>ec_input := ec_input c @ ms\<rparr>) (sent @ ms) dead"
| turn: "core_run ops e0 c sent False \<Longrightarrow> ec_running c \<Longrightarrow> run_turn ops alive arrivals c = (c', None) \<Longrightarrow>
     core_run ops e0 c' (sent @ arrivals) False"
| die: "core_run ops e0 c sent False \<Longrightarrow> ec_running c \<Longrightarrow> run_turn ops alive arrivals c = (c', Some err) \<Longrightarrow>
     core_run ops e0 (send_out (Dead (picklable (eo_survives ops) (eo_show_error ops) err)) c') (sent @ arrivals) True"

text \<open>
  The start of \<open>run_engine_core\<close>: what building the engine gave, told to the client through the
  \<open>ready\<close> pipe.  A failure is raised again after it is told.
\<close>

datatype ready_msg = ReadyMsg | FailedMsg py_error

definition core_startup :: "'e engine_ops \<Rightarrow> 'e res \<Rightarrow> ready_msg \<times> 'e engine_core res" where
  "core_startup ops made =
     (case made of
        Inl err \<Rightarrow> (FailedMsg (picklable (eo_survives ops) (eo_show_error ops) err), Inl err)
      | Inr e \<Rightarrow> (ReadyMsg, Inr \<lparr>ec_engine = e, ec_input = [], ec_output = [], ec_running = True\<rparr>))"

section \<open>The engine behind it\<close>

definition llm_engine_ops ::
  "seq_class \<Rightarrow> 'r model_calls \<Rightarrow> ((string, json) dict \<Rightarrow> string option) \<Rightarrow> (string \<Rightarrow> int list) \<Rightarrow> (metrics \<Rightarrow> string) \<Rightarrow>
     (py_error \<Rightarrow> bool) \<Rightarrow> (py_error \<Rightarrow> string) \<Rightarrow> ('r, 'ds) llm_engine engine_ops" where
  "llm_engine_ops cls calls validate encode render survives show_error =
     \<lparr>eo_add_request = (\<lambda>prompt sp rid. add_request cls validate encode (Ids prompt) sp (Some rid)),
      eo_abort_request = abort_request, eo_step = engine_step cls calls, eo_is_finished = engine_is_finished,
      eo_render = (\<lambda>e. render (e_metrics e)), eo_survives = survives, eo_show_error = show_error\<rparr>"

section \<open>Every request is answered once\<close>

definition add_ids :: "core_in list \<Rightarrow> string list" where
  "add_ids ms = concat (map (\<lambda>m. case m of AddMsg rid _ _ \<Rightarrow> [rid] | _ \<Rightarrow> []) ms)"

definition added_ids :: "core_out list \<Rightarrow> string list" where
  "added_ids ms = concat (map (\<lambda>m. case m of Added rid _ \<Rightarrow> [rid] | _ \<Rightarrow> []) ms)"

lemma ids_simps [simp]:
  "add_ids [] = []" "add_ids (xs @ ys) = add_ids xs @ add_ids ys" "added_ids [] = []" "added_ids (us @ vs) = added_ids us @ added_ids vs"
  "added_ids [Outputs os] = []" "added_ids [MetricsText k t] = []" "added_ids [Dead e] = []" "added_ids [Added r x] = [r]"
  by (simp_all add: add_ids_def added_ids_def)

lemma add_ids_Cons: "add_ids (m # ms) = add_ids [m] @ add_ids ms"
  by (simp add: add_ids_def)

definition no_death :: "core_out list \<Rightarrow> bool" where
  "no_death ms \<longleftrightarrow> (\<forall>m \<in> set ms. case m of Dead _ \<Rightarrow> False | _ \<Rightarrow> True)"

text \<open>What a piece of the loop does to the ids still to answer.\<close>

definition answers :: "core_in list \<Rightarrow> 'e engine_core \<Rightarrow> core_in list \<Rightarrow> 'e engine_core \<Rightarrow> bool" where
  "answers before c after c' \<longleftrightarrow> added_ids (ec_output c') @ add_ids after = added_ids (ec_output c) @ add_ids before \<and>
     (no_death (ec_output c) \<longrightarrow> no_death (ec_output c'))"

lemma answers_trans: "answers a c b c1 \<Longrightarrow> answers b c1 d c2 \<Longrightarrow> answers a c d c2"
  by (simp add: answers_def)

lemma core_handle_answers: "core_handle ops m c = (c', err) \<Longrightarrow> answers (m # ms) c ms c'"
  by (auto simp: core_handle_def answers_def add_ids_Cons [of m] send_out_def add_ids_def added_ids_def no_death_def
      split: core_in.splits sum.splits prod.splits)

lemma handle_all_answers: "handle_all ops ms c = (c', err) \<Longrightarrow> answers ms c (ec_input c') c'"
proof (induction ms arbitrary: c)
  case (Cons m ms)
  show ?case
  proof (cases "ec_running c")
    case True
    obtain c1 e1 where h: "core_handle ops m c = (c1, e1)" by fastforce
    note a = core_handle_answers [OF h, of ms]
    show ?thesis
    proof (cases e1)
      case None
      then show ?thesis using Cons.IH [of c1] Cons.prems True h answers_trans [OF a] by simp
    next
      case (Some x)
      then show ?thesis using Cons.prems True h a by (auto simp: answers_def)
    qed
  qed (use Cons.prems in \<open>auto simp: answers_def\<close>)
qed (auto simp: answers_def)

lemma handle_inputs_answers: "handle_inputs ops w alive c = (c', err) \<Longrightarrow> answers (ec_input c) c (ec_input c') c'"
  by (auto simp: handle_inputs_def answers_def split: if_splits dest!: handle_all_answers)

lemma answers_more: "answers (ec_input c) c (ec_input c1) c1 \<Longrightarrow> answers (ec_input c @ ms) c (ec_input c1 @ ms) (c1\<lparr>ec_input := x\<rparr>)"
  by (auto simp: answers_def)

lemma run_turn_answers:
  assumes "run_turn ops alive ms c = (c', err)"
  shows "answers (ec_input c @ ms) c (ec_input c') c'"
proof -
  obtain c1 e1 where h: "handle_inputs ops (if eo_is_finished ops (ec_engine c) then None else Some 0) alive c = (c1, e1)" by fastforce
  let ?c2 = "c1\<lparr>ec_input := ec_input c1 @ ms\<rparr>"
  have a: "answers (ec_input c @ ms) c (ec_input ?c2) ?c2" using answers_more [OF handle_inputs_answers [OF h]] by simp
  show ?thesis
  proof (cases "e1 = None \<and> ec_running c1 \<and> \<not> eo_is_finished ops (ec_engine c1) \<and> \<not> isl (eo_step ops (ec_engine c1))")
    case True
    then obtain e outs p d where st: "eo_step ops (ec_engine c1) = Inr (e, outs, p, d)" by (metis (no_types) obj_sumE sum.disc(1) prod_cases4)
    let ?c3 = "?c2\<lparr>ec_engine := e\<rparr>"
    let ?c4 = "if outs \<noteq> [] then send_out (Outputs outs) ?c3 else ?c3"
    have b: "answers (ec_input ?c2) ?c2 (ec_input ?c4) ?c4" by (auto simp: answers_def send_out_def no_death_def)
    have c': "(c', err) = (if outs = [] \<and> p = 0 \<and> d = 0 then handle_inputs ops (Some IDLE_POLL_MS) alive ?c4 else (?c4, None))"
      using assms True st h by (simp add: run_turn_def Let_def)
    show ?thesis
    proof (cases "outs = [] \<and> p = 0 \<and> d = 0")
      case True
      then have "handle_inputs ops (Some IDLE_POLL_MS) alive ?c4 = (c', err)" using c' by simp
      from handle_inputs_answers [OF this] show ?thesis using answers_trans [OF answers_trans [OF a b]] by blast
    next
      case False
      then have "c' = ?c4" using c' unfolding if_not_P [OF False] prod.inject by blast
      then show ?thesis using answers_trans [OF a b] by simp
    qed
  next
    case False
    then have "c' = ?c2" using assms h by (cases e1) (auto simp: run_turn_def Let_def split: sum.splits if_splits)
    then show ?thesis using a by simp
  qed
qed


text \<open>A concrete run: an engine that refuses the request ``b'' and fails its third step.\<close>

definition demo_ops :: "nat engine_ops" where
  "demo_ops = \<lparr>eo_add_request = (\<lambda>prompt sp rid n. if rid = ''b'' then (Inl (InvalidRequest ''full''), n) else (Inr rid, n + 2)),
     eo_abort_request = (\<lambda>rid reason n. Inr (0, True)), eo_step = (\<lambda>n. if n = 1 then Inl AssertionError else Inr (n - 1, [], 1, 0)),
     eo_is_finished = (\<lambda>n. n = 0), eo_render = (\<lambda>n. ''''), eo_survives = (\<lambda>_. True), eo_show_error = (\<lambda>_. '''')\<rparr>"

definition demo_core :: "nat engine_core" where
  "demo_core = fst (run_turn demo_ops True [AddMsg ''c'' [1] sampling_params_default]
     \<lparr>ec_engine = 0, ec_input = [AddMsg ''a'' [1] sampling_params_default, AddMsg ''b'' [1] sampling_params_default], ec_output = [], ec_running = True\<rparr>)"


end
