(* ===== verification/Core_Client.thy ===== *)
theory Core_Client
  imports Engine_Core
begin

text \<open>
  \<open>engine/core_client.py\<close>: the client of an engine core.  A coroutine that awaits a future is
  two operations, up to the await and after it; futures are cells of the state.  What the socket
  does with a message (\<open>send_result\<close>) and an error's \<open>repr\<close> are parameters.
\<close>

section \<open>State\<close>

datatype fvalue = AddAnswer "py_error option" | MetricsAnswer string

datatype future = FPending | FResult fvalue | FError py_error | FCancelled

text \<open>An item of the output queue; an \<open>EngineDeadError\<close> carries its text and its cause.\<close>

datatype out_item = Batch "request_output list" | DeadItem string py_error

datatype send_result = Sent | Again | Closed

record mp_client =
  cl_error :: "py_error option"
  cl_outputs :: "out_item list"
  cl_adding :: "(string, nat) dict"
  cl_calls :: "(nat, nat) dict"
  cl_call_ids :: nat
  cl_stopped :: bool
  cl_futures :: "nat \<Rightarrow> future"
  cl_next_future :: nat
  cl_sent :: "core_in list"

definition new_client :: mp_client where
  "new_client = \<lparr>cl_error = None, cl_outputs = [], cl_adding = [], cl_calls = [], cl_call_ids = 0, cl_stopped = False,
     cl_futures = (\<lambda>_. FPending), cl_next_future = 0, cl_sent = []\<rparr>"

definition dead_text :: "(py_error \<Rightarrow> string) \<Rightarrow> string \<Rightarrow> py_error \<Rightarrow> string" where
  "dead_text show_error pre e = pre @ '': '' @ show_error e"

definition SHUTTING_DOWN :: py_error where
  "SHUTTING_DOWN = EngineDeadError ''the server is shutting down''"

section \<open>The core's process\<close>

definition CONNECT_TIMEOUT_MS :: nat where
  "CONNECT_TIMEOUT_MS = 10000"

text \<open>
  The end of the constructor, when the \<open>ready\<close> pipe or the process's sentinel woke it: \<open>None\<close> is the end
  of the pipe without a message.  The second result tells whether \<open>_shutdown_process\<close> ran.
\<close>

definition client_startup :: "ready_msg option \<Rightarrow> bool \<Rightarrow> mp_client res \<times> bool" where
  "client_startup ready has_peer =
     (if ready \<noteq> Some ReadyMsg then (Inl (RuntimeError ''the engine core failed to start''), True)
      else if \<not> has_peer then (Inl (RuntimeError ''the engine core started but never connected''), True)
      else (Inr new_client, False))"

text \<open>
  \<open>_shutdown_process\<close>: what it does to the process, which is alive when asked first, after the
  join and after the terminate as the three arguments say.
\<close>

datatype process_action = AskShutdown | JoinTimeout | Terminate | JoinFive | Kill | Join | DestroyContexts

definition shutdown_process :: "bool \<Rightarrow> bool \<Rightarrow> bool \<Rightarrow> process_action list" where
  "shutdown_process alive alive_joined alive_terminated =
     (if alive then [AskShutdown, JoinTimeout] else []) @ (if alive_joined then [Terminate, JoinFive] else []) @
     (if alive_terminated then [Kill, Join] else []) @ [DestroyContexts]"

lemma startup_told:
  "fst (client_startup (Some (fst (core_startup ops made))) True) = Inr new_client \<longleftrightarrow> (\<exists>e. made = Inr e)"
  by (auto simp: client_startup_def core_startup_def split: sum.splits)

section \<open>Death\<close>

definition fail_pending :: "py_error \<Rightarrow> mp_client \<Rightarrow> mp_client" where
  "fail_pending err c =
     c\<lparr>cl_futures := (\<lambda>k. if cl_futures c k = FPending \<and> k \<in> set (dict_vals (cl_adding c) @ dict_vals (cl_calls c)) then FError err
                         else cl_futures c k), cl_adding := [], cl_calls := []\<rparr>"

definition client_die :: "(py_error \<Rightarrow> string) \<Rightarrow> py_error \<Rightarrow> mp_client \<Rightarrow> mp_client" where
  "client_die show_error err c =
     (if cl_error c \<noteq> None then c
      else let text = dead_text show_error ''the engine core died'' err;
               c1 = fail_pending (EngineDeadError text) (c\<lparr>cl_error := Some err\<rparr>)
           in c1\<lparr>cl_outputs := cl_outputs c1 @ [DeadItem text err]\<rparr>)"

text \<open>A full socket without a peer is a dead core; a closed one raises.\<close>

definition client_send ::
  "(py_error \<Rightarrow> string) \<Rightarrow> send_result \<Rightarrow> core_in \<Rightarrow> mp_client \<Rightarrow> mp_client \<times> py_error option" where
  "client_send show_error res m c =
     (case res of
        Sent \<Rightarrow> (c\<lparr>cl_sent := cl_sent c @ [m]\<rparr>, None)
      | Again \<Rightarrow> (client_die show_error (RuntimeError ''the engine core is not connected'') c, None)
      | Closed \<Rightarrow> (c, Some (RuntimeError ''ZMQError'')))"

definition on_process_exit :: "(py_error \<Rightarrow> string) \<Rightarrow> mp_client \<Rightarrow> mp_client" where
  "on_process_exit show_error c =
     (if cl_stopped c then c else client_die show_error (RuntimeError ''the engine core process exited'') c)"

text \<open>\<open>_read_outputs\<close> failing for any reason but a cancel.\<close>

definition reader_failed :: "(py_error \<Rightarrow> string) \<Rightarrow> py_error \<Rightarrow> mp_client \<Rightarrow> mp_client" where
  "reader_failed show_error err c = (if cl_stopped c then c else client_die show_error err c)"

definition client_shutdown :: "mp_client \<Rightarrow> mp_client" where
  "client_shutdown c = (if cl_stopped c then c else fail_pending SHUTTING_DOWN (c\<lparr>cl_stopped := True\<rparr>))"

section \<open>Requests\<close>

definition new_future :: "mp_client \<Rightarrow> nat \<times> mp_client" where
  "new_future c = (let k = cl_next_future c in (k, c\<lparr>cl_next_future := Suc k, cl_futures := (cl_futures c)(k := FPending)\<rparr>))"

definition begin_add ::
  "(py_error \<Rightarrow> string) \<Rightarrow> send_result \<Rightarrow> string \<Rightarrow> int list \<Rightarrow> sampling_params \<Rightarrow> mp_client \<Rightarrow> nat res \<times> mp_client" where
  "begin_add show_error res rid prompt sp c =
     (if cl_stopped c then (Inl SHUTTING_DOWN, c)
      else case cl_error c of
        Some e \<Rightarrow> (Inl (EngineDeadError (dead_text show_error ''the engine core died'' e)), c)
      | None \<Rightarrow>
          let (k, c1) = new_future c; c2 = c1\<lparr>cl_adding := dict_put (cl_adding c1) rid k\<rparr>
          in case client_send show_error res (AddMsg rid prompt sp) c2 of
               (c3, None) \<Rightarrow> (Inr k, c3)
             | (c3, Some err) \<Rightarrow> (Inl err, c3))"

text \<open>After the await, which does not return while the future is pending.\<close>

definition finish_add :: "string \<Rightarrow> nat \<Rightarrow> mp_client \<Rightarrow> (unit res \<times> mp_client) option" where
  "finish_add rid k c =
     (case cl_futures c k of
        FPending \<Rightarrow> None
      | FResult (AddAnswer None) \<Rightarrow> Some (Inr (), c)
      | FResult (AddAnswer (Some err)) \<Rightarrow> Some (Inl err, c)
      | FResult (MetricsAnswer _) \<Rightarrow> Some (Inl TypeError, c)
      | FError err \<Rightarrow> Some (Inl err, c\<lparr>cl_adding := dict_del (cl_adding c) rid\<rparr>)
      | FCancelled \<Rightarrow> Some (Inl CancelledError, c\<lparr>cl_adding := dict_del (cl_adding c) rid\<rparr>))"

definition cancel_future :: "nat \<Rightarrow> mp_client \<Rightarrow> mp_client" where
  "cancel_future k c = (if cl_futures c k = FPending then c\<lparr>cl_futures := (cl_futures c)(k := FCancelled)\<rparr> else c)"

definition client_abort :: "(py_error \<Rightarrow> string) \<Rightarrow> send_result \<Rightarrow> string \<Rightarrow> string \<Rightarrow> mp_client \<Rightarrow> mp_client \<times> py_error option" where
  "client_abort show_error res rid reason c =
     (if cl_error c \<noteq> None \<or> cl_stopped c then (c, None) else client_send show_error res (AbortMsg rid reason) c)"

definition begin_render :: "(py_error \<Rightarrow> string) \<Rightarrow> send_result \<Rightarrow> mp_client \<Rightarrow> (nat \<times> nat) res \<times> mp_client" where
  "begin_render show_error res c =
     (case cl_error c of
        Some e \<Rightarrow> (Inl (EngineDeadError (dead_text show_error ''the engine core died'' e)), c)
      | None \<Rightarrow>
          let cid = cl_call_ids c; (k, c1) = new_future (c\<lparr>cl_call_ids := Suc cid\<rparr>);
              c2 = c1\<lparr>cl_calls := dict_put (cl_calls c1) cid k\<rparr>
          in case client_send show_error res (MetricsMsg cid) c2 of
               (c3, None) \<Rightarrow> (Inr (cid, k), c3)
             | (c3, Some err) \<Rightarrow> (Inl err, c3))"

definition finish_render :: "nat \<Rightarrow> nat \<Rightarrow> mp_client \<Rightarrow> (string res \<times> mp_client) option" where
  "finish_render cid k c =
     (let c1 = c\<lparr>cl_calls := dict_del (cl_calls c) cid\<rparr>
      in case cl_futures c k of
           FPending \<Rightarrow> None
         | FResult (MetricsAnswer t) \<Rightarrow> Some (Inr t, c1)
         | FResult (AddAnswer _) \<Rightarrow> Some (Inl TypeError, c1)
         | FError err \<Rightarrow> Some (Inl err, c1)
         | FCancelled \<Rightarrow> Some (Inl CancelledError, c1))"

section \<open>Messages of the core\<close>

definition set_result :: "nat \<Rightarrow> fvalue \<Rightarrow> mp_client \<Rightarrow> mp_client" where
  "set_result k v c = (if cl_futures c k = FPending then c\<lparr>cl_futures := (cl_futures c)(k := FResult v)\<rparr> else c)"

definition client_handle :: "(py_error \<Rightarrow> string) \<Rightarrow> core_out \<Rightarrow> mp_client \<Rightarrow> mp_client \<times> bool" where
  "client_handle show_error m c =
     (case m of
        Outputs outs \<Rightarrow> (c\<lparr>cl_outputs := cl_outputs c @ [Batch outs]\<rparr>, True)
      | Added rid err \<Rightarrow>
          (let c1 = c\<lparr>cl_adding := dict_del (cl_adding c) rid\<rparr>
           in case map_of (cl_adding c) rid of
                None \<Rightarrow> (c1, True)
              | Some k \<Rightarrow> (set_result k (AddAnswer err) c1, True))
      | MetricsText cid t \<Rightarrow>
          (case map_of (cl_calls c) cid of
             None \<Rightarrow> (c, True)
           | Some k \<Rightarrow> (set_result k (MetricsAnswer t) c, True))
      | Dead err \<Rightarrow> (client_die show_error err c, False))"

text \<open>
  \<open>_read_outputs\<close> over what it receives: a message, or the exception of \<open>recv\<close> and \<open>loads\<close>.  It
  ends at a death notification and at an exception.
\<close>

fun read_outputs :: "(py_error \<Rightarrow> string) \<Rightarrow> core_out res list \<Rightarrow> mp_client \<Rightarrow> mp_client \<times> bool" where
  "read_outputs show_error [] c = (c, True)"
| "read_outputs show_error (Inl err # ms) c = (reader_failed show_error err c, False)"
| "read_outputs show_error (Inr m # ms) c =
     (case client_handle show_error m c of
        (c', True) \<Rightarrow> read_outputs show_error ms c'
      | (c', False) \<Rightarrow> (c', False))"

text \<open>
  \<open>get_output_async\<close> when the queue has an item: a death is raised, with its text and its cause.
\<close>

definition get_output :: "mp_client \<Rightarrow> ((string \<times> py_error) + request_output list) option \<times> mp_client" where
  "get_output c =
     (case cl_outputs c of
        [] \<Rightarrow> (None, c)
      | Batch outs # rest \<Rightarrow> (Some (Inr outs), c\<lparr>cl_outputs := rest\<rparr>)
      | DeadItem t e # rest \<Rightarrow> (Some (Inl (t, e)), c\<lparr>cl_outputs := rest\<rparr>))"

section \<open>Runs\<close>

text \<open>
  What the event loop may do.  \<open>A\<close> are the calls of \<open>add_request_async\<close> that are waiting, by
  their request id and future, \<open>M\<close> those of \<open>render_metrics_async\<close>.  An id is not added again
  while a call for it waits, and nothing can be sent on the closed sockets of a stopped client.
\<close>

inductive client_run ::
  "(py_error \<Rightarrow> string) \<Rightarrow> mp_client \<Rightarrow> (string \<times> nat) set \<Rightarrow> (nat \<times> nat) set \<Rightarrow> bool" for show_error where
  cl_start: "client_run show_error new_client {} {}"
| cl_add: "client_run show_error c A M \<Longrightarrow> rid \<notin> fst ` A \<Longrightarrow> (cl_stopped c \<longrightarrow> res = Closed) \<Longrightarrow>
     begin_add show_error res rid prompt sp c = (r, c') \<Longrightarrow>
     client_run show_error c' (case r of Inr k \<Rightarrow> insert (rid, k) A | Inl _ \<Rightarrow> A) M"
| cl_added: "client_run show_error c A M \<Longrightarrow> (rid, k) \<in> A \<Longrightarrow> finish_add rid k c = Some (r, c') \<Longrightarrow>
     client_run show_error c' (A - {(rid, k)}) M"
| cl_render: "client_run show_error c A M \<Longrightarrow> (cl_stopped c \<longrightarrow> res = Closed) \<Longrightarrow> begin_render show_error res c = (r, c') \<Longrightarrow>
     client_run show_error c' A (case r of Inr ck \<Rightarrow> insert ck M | Inl _ \<Rightarrow> M)"
| cl_rendered: "client_run show_error c A M \<Longrightarrow> (cid, k) \<in> M \<Longrightarrow> finish_render cid k c = Some (r, c') \<Longrightarrow>
     client_run show_error c' A (M - {(cid, k)})"
| cl_cancel: "client_run show_error c A M \<Longrightarrow> client_run show_error (cancel_future k c) A M"
| cl_abort: "client_run show_error c A M \<Longrightarrow> client_run show_error (fst (client_abort show_error res rid reason c)) A M"
| cl_handle: "client_run show_error c A M \<Longrightarrow> client_run show_error (fst (client_handle show_error m c)) A M"
| cl_exit: "client_run show_error c A M \<Longrightarrow> client_run show_error (on_process_exit show_error c) A M"
| cl_reader: "client_run show_error c A M \<Longrightarrow> client_run show_error (reader_failed show_error err c) A M"
| cl_shutdown: "client_run show_error c A M \<Longrightarrow> client_run show_error (client_shutdown c) A M"
| cl_take: "client_run show_error c A M \<Longrightarrow> client_run show_error (snd (get_output c)) A M"

lemma read_outputs_run:
  "client_run show_error c A M \<Longrightarrow> client_run show_error (fst (read_outputs show_error ms c)) A M"
proof (induction show_error ms c rule: read_outputs.induct)
  case (3 show_error m ms c)
  then show ?case using client_run.cl_handle [OF 3(2), of m] by (auto split: prod.splits bool.splits)
qed (auto intro: client_run.cl_reader)

section \<open>No caller waits for a core that is gone\<close>

abbreviation gone :: "mp_client \<Rightarrow> bool" where
  "gone c \<equiv> cl_error c \<noteq> None \<or> cl_stopped c"

text \<open>
  \<open>K\<close> are waiting futures by a key of \<open>d\<close>: a pending one is registered there, so that an answer or
  the core's death resolves it.
\<close>

definition waits :: "('k, nat) dict \<Rightarrow> ('k \<times> nat) set \<Rightarrow> mp_client \<Rightarrow> bool" where
  "waits d K c \<longleftrightarrow> (\<forall>(x, k) \<in> K. k < cl_next_future c \<and> (cl_futures c k = FPending \<longrightarrow> map_of d x = Some k \<and> \<not> gone c))"

definition client_inv :: "mp_client \<Rightarrow> (string \<times> nat) set \<Rightarrow> (nat \<times> nat) set \<Rightarrow> bool" where
  "client_inv c A M \<longleftrightarrow> inj_on fst A \<and> waits (cl_adding c) A c \<and> waits (cl_calls c) M c \<and>
     (\<forall>(cid, k) \<in> M. cid < cl_call_ids c) \<and> inj_on fst M"

lemma waitsI:
  "(\<And>x k. (x, k) \<in> K \<Longrightarrow> k < cl_next_future c) \<Longrightarrow>
   (\<And>x k. (x, k) \<in> K \<Longrightarrow> cl_futures c k = FPending \<Longrightarrow> map_of d x = Some k \<and> \<not> gone c) \<Longrightarrow> waits d K c"
  unfolding waits_def by auto

lemma waitsD:
  assumes "waits d K c" "(x, k) \<in> K"
  shows "k < cl_next_future c" "cl_futures c k = FPending \<Longrightarrow> map_of d x = Some k" "cl_futures c k = FPending \<Longrightarrow> \<not> gone c"
  using assms unfolding waits_def by auto

text \<open>A change that makes no waiting future pending again, moves no key and is no death keeps them waiting.\<close>

lemma waits_mono:
  assumes w: "waits d K c" and sub: "K' \<subseteq> K" and n: "cl_next_future c \<le> cl_next_future c'"
    and k: "\<And>x k. (x, k) \<in> K' \<Longrightarrow> cl_futures c' k = FPending \<Longrightarrow>
      cl_futures c k = FPending \<and> map_of d' x = map_of d x \<and> (gone c' \<longrightarrow> gone c)"
  shows "waits d' K' c'"
proof (rule waitsI)
  fix x k assume a: "(x, k) \<in> K'"
  then show "k < cl_next_future c'" using waitsD(1) [OF w] sub n by (meson less_le_trans subsetD)
  assume p: "cl_futures c' k = FPending"
  show "map_of d' x = Some k \<and> \<not> gone c'" using waitsD [OF w, of x k] sub a k [OF a p] by (metis subsetD)
qed

lemma map_of_val: "map_of d x = Some k \<Longrightarrow> k \<in> set (dict_vals d)"
  by (force dest: map_of_SomeD simp: image_iff)

text \<open>Once the pending calls are failed nothing waits.\<close>

lemma fail_pending_none:
  assumes w: "waits d K c" and d: "set (dict_vals d) \<subseteq> set (dict_vals (cl_adding c) @ dict_vals (cl_calls c))" and K: "(x, k) \<in> K"
  shows "cl_futures (fail_pending err c) k \<noteq> FPending"
proof
  assume p: "cl_futures (fail_pending err c) k = FPending"
  then have f: "cl_futures c k = FPending" and n: "k \<notin> set (dict_vals d)"
    using d by (auto simp: fail_pending_def split: if_splits)
  show False using map_of_val [OF waitsD(2) [OF w K f]] n by blast
qed

lemma fail_pending_inv:
  assumes inv: "client_inv c A M" and f: "cl_futures c' = cl_futures (fail_pending err c)"
    and n: "cl_next_future c' = cl_next_future c" "cl_call_ids c' = cl_call_ids c"
  shows "client_inv c' A M"
proof -
  have wA: "waits (cl_adding c) A c" and wM: "waits (cl_calls c) M c"
    and r: "inj_on fst A" "\<forall>(cid, k) \<in> M. cid < cl_call_ids c" "inj_on fst M" using inv unfolding client_inv_def by blast+
  have "waits (cl_adding c') A c'"
    using waitsD(1) [OF wA] fail_pending_none [OF wA, where err = err] by (intro waitsI) (simp_all add: n f)
  moreover have "waits (cl_calls c') M c'"
    using waitsD(1) [OF wM] fail_pending_none [OF wM, where err = err] by (intro waitsI) (simp_all add: n f)
  ultimately show ?thesis using r unfolding client_inv_def n by blast
qed

lemma die_inv: "client_inv c A M \<Longrightarrow> client_inv (client_die show_error err c) A M"
proof (cases "cl_error c = None")
  case True
  assume "client_inv c A M"
  then show ?thesis
    by (rule fail_pending_inv [where err = "EngineDeadError (dead_text show_error ''the engine core died'' err)"])
      (simp_all add: client_die_def True Let_def fail_pending_def fun_eq_iff)
qed (simp add: client_die_def)

lemma shutdown_inv: "client_inv c A M \<Longrightarrow> client_inv (client_shutdown c) A M"
proof (cases "cl_stopped c")
  case False
  assume "client_inv c A M"
  then show ?thesis by (rule fail_pending_inv [where err = SHUTTING_DOWN]) (simp_all add: client_shutdown_def False fail_pending_def fun_eq_iff)
qed (simp add: client_shutdown_def)

text \<open>What an operation that leaves the futures and the two tables alone keeps.\<close>

lemma same_inv:
  assumes inv: "client_inv c A M" and e: "cl_futures c' = cl_futures c" "cl_adding c' = cl_adding c" "cl_calls c' = cl_calls c"
    "cl_next_future c' = cl_next_future c" "cl_call_ids c' = cl_call_ids c" "gone c' \<longleftrightarrow> gone c"
  shows "client_inv c' A M"
  using inv unfolding client_inv_def waits_def e .

lemma send_inv:
  assumes "client_inv c A M"
  shows "client_inv (fst (client_send show_error res m c)) A M"
  using assms by (auto simp: client_send_def die_inv split: send_result.splits intro: same_inv)

text \<open>A new call: the future of \<open>new_future\<close> is fresh, so no waiting one moves.\<close>

lemma new_future_waits:
  assumes w: "waits d K c" and c: "cl_futures c' = (cl_futures c)(cl_next_future c := FPending)" "cl_next_future c' = Suc (cl_next_future c)"
    "gone c' \<longleftrightarrow> gone c" and d: "\<And>x k. (x, k) \<in> K \<Longrightarrow> map_of d' x = map_of d x"
  shows "waits d' K c'"
proof (rule waitsI)
  fix x k assume K: "(x, k) \<in> K"
  have k: "k < cl_next_future c" by (rule waitsD(1) [OF w K])
  then show "k < cl_next_future c'" by (simp add: c)
  assume "cl_futures c' k = FPending"
  then have "cl_futures c k = FPending" using k by (simp add: c)
  then show "map_of d' x = Some k \<and> \<not> gone c'" using waitsD(2,3) [OF w K] unfolding d [OF K] c by blast
qed

lemma waits_insert:
  "waits d K c \<Longrightarrow> k < cl_next_future c \<Longrightarrow> map_of d x = Some k \<Longrightarrow> \<not> gone c \<Longrightarrow> waits d (insert (x, k) K) c"
  unfolding waits_def by blast

lemma fresh_not_in: "waits d K c \<Longrightarrow> (x, cl_next_future c) \<notin> K"
  by (auto dest: waitsD(1))

lemma begin_add_inv:
  assumes inv: "client_inv c A M" and rid: "rid \<notin> fst ` A" and b: "begin_add show_error res rid prompt sp c = (r, c')"
  shows "client_inv c' (case r of Inr k \<Rightarrow> insert (rid, k) A | Inl _ \<Rightarrow> A) M"
proof (cases "gone c")
  case False
  let ?k = "cl_next_future c"
  define c2 where "c2 = c\<lparr>cl_next_future := Suc ?k, cl_futures := (cl_futures c)(?k := FPending), cl_adding := dict_put (cl_adding c) rid ?k\<rparr>"
  have I: "inj_on fst A" "waits (cl_adding c) A c" "waits (cl_calls c) M c" "\<forall>(cid, k) \<in> M. cid < cl_call_ids c" "inj_on fst M"
    using inv unfolding client_inv_def by blast+
  have "waits (cl_adding c2) A c2"
    by (rule new_future_waits [OF I(2)]) (use rid in \<open>force simp: c2_def update_conv'\<close>)+
  moreover have "waits (cl_calls c2) M c2" by (rule new_future_waits [OF I(3)]) (simp_all add: c2_def)
  moreover have "inj_on fst (insert (rid, ?k) A)" using I(1) rid by (auto simp: inj_on_def image_iff)
  moreover have "waits (cl_adding c2) (insert (rid, ?k) A) c2"
    by (rule waits_insert [OF \<open>waits (cl_adding c2) A c2\<close>]) (use False in \<open>simp_all add: c2_def update_conv'\<close>)
  moreover have "cl_call_ids c2 = cl_call_ids c" by (simp add: c2_def)
  ultimately have i2: "client_inv c2 A M" "client_inv c2 (insert (rid, ?k) A) M" using I unfolding client_inv_def by simp_all
  have "begin_add show_error res rid prompt sp c =
      (case client_send show_error res (AddMsg rid prompt sp) c2 of (c3, None) \<Rightarrow> (Inr ?k, c3) | (c3, Some err) \<Rightarrow> (Inl err, c3))"
    using False by (simp add: begin_add_def new_future_def Let_def c2_def)
  then show ?thesis using b send_inv [OF i2(1), of show_error res "AddMsg rid prompt sp"] send_inv [OF i2(2), of show_error res "AddMsg rid prompt sp"]
    by (auto split: prod.splits option.splits)
qed (use assms in \<open>auto simp: begin_add_def split: if_splits\<close>)

lemma begin_render_inv:
  assumes inv: "client_inv c A M" and stop: "cl_stopped c \<longrightarrow> res = Closed" and b: "begin_render show_error res c = (r, c')"
  shows "client_inv c' A (case r of Inr ck \<Rightarrow> insert ck M | Inl _ \<Rightarrow> M)"
proof (cases "cl_error c")
  case None
  let ?k = "cl_next_future c" and ?cid = "cl_call_ids c"
  define c2 where "c2 = c\<lparr>cl_call_ids := Suc ?cid, cl_next_future := Suc ?k, cl_futures := (cl_futures c)(?k := FPending),
    cl_calls := dict_put (cl_calls c) ?cid ?k\<rparr>"
  have I: "inj_on fst A" "waits (cl_adding c) A c" "waits (cl_calls c) M c" "\<forall>(cid, k) \<in> M. cid < cl_call_ids c" "inj_on fst M"
    using inv unfolding client_inv_def by blast+
  have fresh: "?cid \<notin> fst ` M" using I(4) by force
  have "waits (cl_calls c2) M c2"
    by (rule new_future_waits [OF I(3)]) (use fresh in \<open>force simp: c2_def update_conv'\<close>)+
  moreover have "waits (cl_adding c2) A c2" by (rule new_future_waits [OF I(2)]) (simp_all add: c2_def)
  moreover have "inj_on fst (insert (?cid, ?k) M)" using I(5) fresh by (auto simp: inj_on_def image_iff)
  moreover have "\<forall>(cid, k) \<in> M. cid < cl_call_ids c2" using I(4) by (auto simp: c2_def)
  moreover have "waits (cl_calls c2) (insert (?cid, ?k) M) c2" if "\<not> cl_stopped c"
    by (rule waits_insert [OF \<open>waits (cl_calls c2) M c2\<close>]) (use that None in \<open>simp_all add: c2_def update_conv'\<close>)
  moreover have "?cid < cl_call_ids c2" by (simp add: c2_def)
  ultimately have i2: "client_inv c2 A M" "\<not> cl_stopped c \<Longrightarrow> client_inv c2 A (insert (?cid, ?k) M)"
    using I unfolding client_inv_def by simp_all
  have e: "begin_render show_error res c =
      (case client_send show_error res (MetricsMsg ?cid) c2 of (c3, None) \<Rightarrow> (Inr (?cid, ?k), c3) | (c3, Some err) \<Rightarrow> (Inl err, c3))"
    using None by (simp add: begin_render_def new_future_def Let_def c2_def)
  show ?thesis
  proof (cases "cl_stopped c")
    case True
    then show ?thesis using b e stop i2(1) by (auto simp: client_send_def)
  next
    case False
    show ?thesis using b e send_inv [OF i2(1), of show_error res "MetricsMsg ?cid"] send_inv [OF i2(2) [OF False], of show_error res "MetricsMsg ?cid"]
      by (auto split: prod.splits option.splits)
  qed
qed (use assms in \<open>auto simp: begin_render_def\<close>)

text \<open>Ends of calls, cancels and answers only resolve futures.\<close>

lemma resolve_inv:
  assumes inv: "client_inv c A M" and sub: "A' \<subseteq> A" "M' \<subseteq> M"
    and c: "cl_next_future c' = cl_next_future c" "cl_call_ids c' = cl_call_ids c" "gone c' \<longleftrightarrow> gone c"
    and p: "\<And>k. cl_futures c' k = FPending \<Longrightarrow> cl_futures c k = FPending"
    and A: "\<And>x k. (x, k) \<in> A' \<Longrightarrow> cl_futures c' k = FPending \<Longrightarrow> map_of (cl_adding c') x = map_of (cl_adding c) x"
    and M: "\<And>x k. (x, k) \<in> M' \<Longrightarrow> cl_futures c' k = FPending \<Longrightarrow> map_of (cl_calls c') x = map_of (cl_calls c) x"
  shows "client_inv c' A' M'"
proof -
  have I: "inj_on fst A" "waits (cl_adding c) A c" "waits (cl_calls c) M c" "\<forall>(cid, k) \<in> M. cid < cl_call_ids c" "inj_on fst M"
    using inv unfolding client_inv_def by blast+
  have "waits (cl_adding c') A' c'" by (rule waits_mono [OF I(2) sub(1)]) (use p A c in auto)
  moreover have "waits (cl_calls c') M' c'" by (rule waits_mono [OF I(3) sub(2)]) (use p M c in auto)
  moreover have "inj_on fst A'" "inj_on fst M'" using I(1,5) sub by (blast intro: inj_on_subset)+
  moreover have "\<forall>(cid, k) \<in> M'. cid < cl_call_ids c" using I(4) sub(2) by blast
  ultimately show ?thesis unfolding client_inv_def c by blast
qed

lemma fst_unique: "inj_on fst A \<Longrightarrow> (x, k) \<in> A \<Longrightarrow> (x, k') \<in> A \<Longrightarrow> k' = k"
  by (force simp: inj_on_def)

lemma finish_add_inv:
  assumes inv: "client_inv c A M" and a: "(rid, k) \<in> A" and f: "finish_add rid k c = Some (r, c')"
  shows "client_inv c' (A - {(rid, k)}) M"
proof (rule resolve_inv [OF inv])
  have "x \<noteq> rid" if "(x, k') \<in> A - {(rid, k)}" for x k' using fst_unique [of A rid k k'] a inv that by (auto simp: client_inv_def)
  then show "map_of (cl_adding c') x = map_of (cl_adding c) x" if "(x, k') \<in> A - {(rid, k)}" for x k'
    using f that by (fastforce simp: finish_add_def delete_conv' split: future.splits fvalue.splits option.splits)
qed (use f in \<open>auto simp: finish_add_def split: future.splits fvalue.splits option.splits\<close>)

lemma finish_render_inv:
  assumes inv: "client_inv c A M" and a: "(cid, k) \<in> M" and f: "finish_render cid k c = Some (r, c')"
  shows "client_inv c' A (M - {(cid, k)})"
proof (rule resolve_inv [OF inv])
  have "x \<noteq> cid" if "(x, k') \<in> M - {(cid, k)}" for x k' using fst_unique [of M cid k k'] a inv that by (auto simp: client_inv_def)
  then show "map_of (cl_calls c') x = map_of (cl_calls c) x" if "(x, k') \<in> M - {(cid, k)}" for x k'
    using f that by (fastforce simp: finish_render_def Let_def delete_conv' split: future.splits fvalue.splits option.splits)
qed (use f in \<open>auto simp: finish_render_def Let_def split: future.splits fvalue.splits option.splits\<close>)

lemma cancel_inv: "client_inv c A M \<Longrightarrow> client_inv (cancel_future k c) A M"
  by (erule resolve_inv) (auto simp: cancel_future_def split: if_splits)

lemma handle_inv:
  assumes inv: "client_inv c A M"
  shows "client_inv (fst (client_handle show_error m c)) A M"
proof (cases m)
  case (Added rid err)
  have w: "waits (cl_adding c) A c" using inv by (simp add: client_inv_def)
  show ?thesis
  proof (rule resolve_inv [OF inv])
    let ?c' = "fst (client_handle show_error m c)"
    show "map_of (cl_adding ?c') x = map_of (cl_adding c) x" if "(x, k) \<in> A" "cl_futures ?c' k = FPending" for x k
    proof (cases "x = rid \<and> cl_futures c k = FPending")
      case True
      then have "map_of (cl_adding c) rid = Some k" using waitsD(2) [OF w that(1)] by simp
      then show ?thesis using that(2) True by (simp add: client_handle_def Added set_result_def Let_def)
    qed (use that(2) in \<open>auto simp: client_handle_def Added set_result_def Let_def split: option.splits if_splits\<close>)
  qed (auto simp: client_handle_def Added set_result_def Let_def split: option.splits if_splits)
next
  case (MetricsText cid t)
  show ?thesis by (rule resolve_inv [OF inv]) (auto simp: client_handle_def MetricsText set_result_def split: option.splits if_splits)
qed (use inv in \<open>auto simp: client_handle_def die_inv intro: same_inv\<close>)

lemma client_run_inv:
  assumes "client_run show_error c A M"
  shows "client_inv c A M"
  using assms
proof induction
  case cl_start
  show ?case by (simp add: client_inv_def new_client_def waits_def)
next
  case (cl_take c A M)
  then show ?case by (auto simp: get_output_def split: list.splits out_item.splits intro: same_inv)
next
  case (cl_abort c A M res rid reason)
  then show ?case by (simp add: client_abort_def send_inv)
qed (simp_all add: begin_add_inv begin_render_inv finish_add_inv finish_render_inv cancel_inv handle_inv on_process_exit_def
    reader_failed_def die_inv shutdown_inv)

text \<open>
  C35: no caller is left waiting.  In every run of the client, a call of \<open>add_request_async\<close> or
  \<open>render_metrics_async\<close> whose future is pending is registered under its id, so the core's answer
  resolves it; and once the core is dead or the client stopped, no call's future is pending: every
  caller returns or raises.
\<close>

theorem no_caller_left_waiting:
  assumes "client_run show_error c A M"
  shows "(\<forall>(rid, k) \<in> A. cl_futures c k = FPending \<longrightarrow> map_of (cl_adding c) rid = Some k) \<and>
    (\<forall>(cid, k) \<in> M. cl_futures c k = FPending \<longrightarrow> map_of (cl_calls c) cid = Some k) \<and>
    (cl_error c \<noteq> None \<or> cl_stopped c \<longrightarrow>
       (\<forall>(rid, k) \<in> A. finish_add rid k c \<noteq> None) \<and> (\<forall>(cid, k) \<in> M. finish_render cid k c \<noteq> None))"
proof -
  have w: "waits (cl_adding c) A c" "waits (cl_calls c) M c" using client_run_inv [OF assms] by (simp_all add: client_inv_def)
  have "finish_add rid k c \<noteq> None" if "gone c" "(rid, k) \<in> A" for rid k
    using waitsD(3) [OF w(1) that(2)] that(1) by (auto simp: finish_add_def split: future.splits fvalue.splits option.splits)
  moreover have "finish_render cid k c \<noteq> None" if "gone c" "(cid, k) \<in> M" for cid k
    using waitsD(3) [OF w(2) that(2)] that(1) by (auto simp: finish_render_def Let_def split: future.splits fvalue.splits option.splits)
  ultimately show ?thesis using waitsD(2) [OF w(1)] waitsD(2) [OF w(2)] by blast
qed

text \<open>A concrete run: two requests, the second waiting when the core dies after answering the first.\<close>

definition demo_client :: mp_client where
  "demo_client =
     (let c1 = snd (begin_add (\<lambda>_. '''') Sent ''a'' [1] sampling_params_default new_client);
          c2 = snd (begin_add (\<lambda>_. '''') Sent ''b'' [2] sampling_params_default c1)
      in fst (client_handle (\<lambda>_. '''') (Dead AssertionError) (fst (client_handle (\<lambda>_. '''') (Added ''a'' None) c2))))"

theorem no_caller_left_waiting_witness:
  "finish_add ''a'' 0 demo_client \<noteq> None \<and> finish_add ''b'' 1 demo_client \<noteq> None \<and> cl_futures demo_client 0 = FResult (AddAnswer None)"
proof -
  let ?s = "\<lambda>_ :: py_error. ''''"
  let ?b1 = "begin_add ?s Sent ''a'' [1] sampling_params_default new_client"
  let ?b2 = "begin_add ?s Sent ''b'' [2] sampling_params_default (snd ?b1)"
  have r: "fst ?b1 = Inr 0" "fst ?b2 = Inr 1" by code_simp+
  have "client_run ?s (snd ?b1) {(''a'', 0)} {}"
    using client_run.cl_add [OF client_run.cl_start, of "''a''" Sent ?s "[1]" sampling_params_default "fst ?b1" "snd ?b1"] r(1) by (simp add: new_client_def)
  from client_run.cl_add [OF this, of "''b''" Sent "[2]" sampling_params_default "fst ?b2" "snd ?b2"]
  have "client_run ?s (snd ?b2) {(''a'', 0), (''b'', 1)} {}"
    using r by (simp add: insert_commute begin_add_def new_client_def new_future_def client_send_def Let_def)
  from client_run.cl_handle [OF client_run.cl_handle [OF this, of "Added ''a'' None"], of "Dead AssertionError"]
  have "client_run ?s demo_client {(''a'', 0), (''b'', 1)} {}" by (simp add: demo_client_def Let_def)
  from no_caller_left_waiting [OF this] have "cl_error demo_client \<noteq> None \<longrightarrow> finish_add ''a'' 0 demo_client \<noteq> None \<and> finish_add ''b'' 1 demo_client \<noteq> None"
    by simp
  moreover have "cl_error demo_client \<noteq> None" "cl_futures demo_client 0 = FResult (AddAnswer None)" by code_simp+
  ultimately show ?thesis by simp
qed

end
