(* ===== verification/Async_Llm.thy ===== *)
theory Async_Llm
  imports Core_Client
begin

text \<open>
  \<open>engine/async_llm.py\<close>: the server's engine.  It owns the streams, in an output processor, and
  talks to the core through the client.  A coroutine is cut at its await into what it does before
  and after; what wakes it is the future of the client.
\<close>

section \<open>State\<close>

text \<open>The task of \<open>_handle_outputs\<close>: running, returned or cancelled, or ended by an exception.\<close>

datatype handler = HandlerRuns | HandlerEnded | HandlerFailed py_error

record 'ds async_llm =
  al_core :: mp_client
  al_processor :: "'ds output_processor"
  al_error :: "py_error option"
  al_death :: string
  al_stopped :: bool
  al_handler :: handler
  al_shutdown_due :: bool
  al_next_stream :: nat

text \<open>\<open>__init__\<close> and \<open>start\<close>; \<open>al_shutdown_due\<close> is a \<open>_shut_down_streams\<close> scheduled on the loop.\<close>

definition new_async_llm :: "'ds decode_streams option \<Rightarrow> 'ds async_llm" where
  "new_async_llm tok = \<lparr>al_core = new_client, al_processor = new_output_processor tok, al_error = None, al_death = [],
     al_stopped = False, al_handler = HandlerRuns, al_shutdown_due = False, al_next_stream = 0\<rparr>"

definition is_dead :: "'ds async_llm \<Rightarrow> bool" where
  "is_dead a \<longleftrightarrow> al_error a \<noteq> None"

definition dead_error :: "'ds async_llm \<Rightarrow> py_error" where
  "dead_error a = EngineDeadError (al_death a)"

section \<open>Requests\<close>

definition drop_request :: "string \<Rightarrow> 'ds async_llm \<Rightarrow> 'ds async_llm" where
  "drop_request rid a = a\<lparr>al_processor := snd (op_abort_request rid (al_processor a))\<rparr>"

definition async_abort ::
  "(py_error \<Rightarrow> string) \<Rightarrow> send_result \<Rightarrow> string \<Rightarrow> string \<Rightarrow> 'ds async_llm \<Rightarrow> 'ds async_llm \<times> py_error option" where
  "async_abort show_error res rid reason a =
     (let a1 = drop_request rid a
      in if is_dead a \<or> al_stopped a then (a1, None)
         else let (c, err) = client_abort show_error res rid reason (al_core a1) in (a1\<lparr>al_core := c\<rparr>, err))"

text \<open>
  \<open>add_request\<close> up to its await: the request's stream and state are made before the add is sent.
  \<open>uuid\<close> is what \<open>uuid4\<close> answered.
\<close>

definition begin_add_request ::
  "(py_error \<Rightarrow> string) \<Rightarrow> (string \<Rightarrow> int list) \<Rightarrow> send_result \<Rightarrow> prompt \<Rightarrow> sampling_params \<Rightarrow> string option \<Rightarrow> string \<Rightarrow> 'ds async_llm \<Rightarrow>
     (string \<times> nat \<times> nat) res \<times> 'ds async_llm" where
  "begin_add_request show_error encode res p sp request_id_arg uuid a =
     (let toks = encode_prompt encode p;
          rid = (case request_id_arg of Some r \<Rightarrow> if r = [] then ''req-'' @ uuid else r | None \<Rightarrow> ''req-'' @ uuid)
      in if rid \<in> dict_keys (request_states (al_processor a)) then (Inl (DuplicateRequestId rid), a)
         else if al_stopped a then (Inl SHUTTING_DOWN, a)
         else if is_dead a then (Inl (dead_error a), a)
         else
           let stream = al_next_stream a;
               a1 = a\<lparr>al_next_stream := Suc stream,
                      al_processor := op_add_request rid toks (sp_skip_special_tokens sp) (Some stream) (al_processor a)\<rparr>
           in case begin_add show_error res rid toks sp (al_core a1) of
                (Inl err, c) \<Rightarrow> (Inl err, drop_request rid (a1\<lparr>al_core := c\<rparr>))
              | (Inr k, c) \<Rightarrow> (Inr (rid, stream, k), a1\<lparr>al_core := c\<rparr>))"

text \<open>\<open>add_request\<close> after its await, when the client's future is done: the stream to read or an error.\<close>

definition finish_add_request ::
  "(py_error \<Rightarrow> string) \<Rightarrow> send_result \<Rightarrow> string \<Rightarrow> nat \<Rightarrow> nat \<Rightarrow> 'ds async_llm \<Rightarrow> (nat res \<times> 'ds async_llm) option" where
  "finish_add_request show_error res rid stream k a =
     (case finish_add rid k (al_core a) of
        None \<Rightarrow> None
      | Some (Inr _, c) \<Rightarrow> Some (Inr stream, a\<lparr>al_core := c\<rparr>)
      | Some (Inl CancelledError, c) \<Rightarrow>
          (case async_abort show_error res rid ''abort'' (a\<lparr>al_core := c\<rparr>) of
             (a1, None) \<Rightarrow> Some (Inl CancelledError, a1)
           | (a1, Some err) \<Rightarrow> Some (Inl err, a1))
      | Some (Inl err, c) \<Rightarrow> Some (Inl err, drop_request rid (a\<lparr>al_core := c\<rparr>)))"

text \<open>The \<open>finally\<close> of \<open>_generate\<close>.\<close>

definition close_generator ::
  "(py_error \<Rightarrow> string) \<Rightarrow> send_result \<Rightarrow> string \<Rightarrow> nat \<Rightarrow> 'ds async_llm \<Rightarrow> 'ds async_llm \<times> py_error option" where
  "close_generator show_error res rid stream a =
     (case map_of (request_states (al_processor a)) rid of
        None \<Rightarrow> (a, None)
      | Some st \<Rightarrow> if rs_stream st = Some stream then async_abort show_error res rid ''abort'' a else (a, None))"

definition render_metrics ::
  "(py_error \<Rightarrow> string) \<Rightarrow> send_result \<Rightarrow> 'ds async_llm \<Rightarrow> (nat \<times> nat) res \<times> 'ds async_llm" where
  "render_metrics show_error res a =
     (if is_dead a then (Inl (dead_error a), a)
      else let (r, c) = begin_render show_error res (al_core a) in (r, a\<lparr>al_core := c\<rparr>))"

section \<open>Outputs, death and shutdown\<close>

text \<open>An \<open>EngineDeadError\<close> with its text and its cause.\<close>

definition async_die :: "string \<Rightarrow> py_error \<Rightarrow> 'ds async_llm \<Rightarrow> 'ds async_llm" where
  "async_die death_text cause a =
     (if is_dead a \<or> al_stopped a then a
      else let a1 = a\<lparr>al_error := Some cause, al_death := death_text\<rparr>
           in a1\<lparr>al_processor := fail_all (dead_error a1) (al_processor a1)\<rparr>)"

text \<open>
  One turn of \<open>_handle_outputs\<close>.  Only an \<open>EngineDeadError\<close> is caught there.  An exception of
  \<open>process_outputs\<close> ends the task; the outputs before the one that raised were delivered.
\<close>

fun process_until_error :: "request_output list \<Rightarrow> 'ds output_processor \<Rightarrow> 'ds output_processor \<times> py_error option" where
  "process_until_error [] p = (p, None)"
| "process_until_error (out # outs) p =
     (case process_outputs [out] p of
        Inl err \<Rightarrow> (p, Some err)
      | Inr (p1, _) \<Rightarrow> process_until_error outs p1)"

definition handle_outputs :: "'ds async_llm \<Rightarrow> 'ds async_llm" where
  "handle_outputs a =
     (if al_handler a \<noteq> HandlerRuns then a
      else case get_output (al_core a) of
             (None, _) \<Rightarrow> a
           | (Some (Inr outs), c) \<Rightarrow>
               (case process_until_error outs (al_processor a) of
                  (p, None) \<Rightarrow> a\<lparr>al_core := c, al_processor := p\<rparr>
                | (p, Some (EngineDeadError t)) \<Rightarrow>
                    async_die t (EngineDeadError t) (a\<lparr>al_core := c, al_processor := p, al_handler := HandlerEnded\<rparr>)
                | (p, Some err) \<Rightarrow> a\<lparr>al_core := c, al_processor := p, al_handler := HandlerFailed err\<rparr>)
           | (Some (Inl (t, cause)), c) \<Rightarrow> async_die t cause (a\<lparr>al_core := c, al_handler := HandlerEnded\<rparr>))"

definition shut_down_streams :: "'ds async_llm \<Rightarrow> 'ds async_llm" where
  "shut_down_streams a =
     a\<lparr>al_shutdown_due := False, al_handler := (if al_handler a = HandlerRuns then HandlerEnded else al_handler a),
       al_processor := fail_all SHUTTING_DOWN (al_processor a)\<rparr>"

text \<open>Where \<open>stop\<close> is called: on the event loop, in another thread, or when there is no loop.\<close>

datatype caller = OnLoop | OtherThread | NoLoop

definition on_loop :: "caller \<Rightarrow> 'ds async_llm \<Rightarrow> 'ds async_llm" where
  "on_loop w a = (case w of NoLoop \<Rightarrow> a | OnLoop \<Rightarrow> shut_down_streams a | OtherThread \<Rightarrow> a\<lparr>al_shutdown_due := True\<rparr>)"

definition async_stop :: "caller \<Rightarrow> 'ds async_llm \<Rightarrow> 'ds async_llm" where
  "async_stop w a =
     (if al_stopped a then a
      else on_loop w (a\<lparr>al_stopped := True, al_core := client_shutdown (al_core a)\<rparr>))"

section \<open>Runs\<close>

text \<open>What the event loop of the server may do, once \<open>start\<close> was called and until the loop closes.\<close>

inductive async_run :: "(py_error \<Rightarrow> string) \<Rightarrow> (string \<Rightarrow> int list) \<Rightarrow> 'ds async_llm \<Rightarrow> bool" for show_error encode where
  al_start: "async_run show_error encode (new_async_llm tok)"
| al_add: "async_run show_error encode a \<Longrightarrow> async_run show_error encode (snd (begin_add_request show_error encode res p sp rid uuid a))"
| al_added: "async_run show_error encode a \<Longrightarrow> finish_add_request show_error res rid stream k a = Some (r, a') \<Longrightarrow> async_run show_error encode a'"
| al_close: "async_run show_error encode a \<Longrightarrow> async_run show_error encode (fst (close_generator show_error res rid stream a))"
| al_abort: "async_run show_error encode a \<Longrightarrow> async_run show_error encode (fst (async_abort show_error res rid reason a))"
| al_render: "async_run show_error encode a \<Longrightarrow> async_run show_error encode (snd (render_metrics show_error res a))"
| al_outputs: "async_run show_error encode a \<Longrightarrow> async_run show_error encode (handle_outputs a)"
| al_client: "async_run show_error encode a \<Longrightarrow> async_run show_error encode (a\<lparr>al_core := c\<rparr>)"
| al_stop: "async_run show_error encode a \<Longrightarrow> w \<noteq> NoLoop \<Longrightarrow> async_run show_error encode (async_stop w a)"
| al_shutdown: "async_run show_error encode a \<Longrightarrow> al_shutdown_due a \<Longrightarrow> async_run show_error encode (shut_down_streams a)"

section \<open>The streams of the server\<close>

lemma process_until_error_ok:
  "processor p S \<Longrightarrow> process_until_error outs p = (p', err) \<Longrightarrow> processor p' S"
proof (induction outs arbitrary: p)
  case (Cons out outs)
  show ?case
  proof (cases "process_outputs [out] p")
    case (Inr x)
    obtain p1 us where x: "x = (p1, us)" by fastforce
    then show ?thesis using Cons.IH [OF processor.process [OF Cons.prems(1), of "[out]" p1 us]] Cons.prems(2) Inr by simp
  qed (use Cons.prems in auto)
qed simp

text \<open>
  The state of the server: its processor is one of the interface with the streams made so far; it is
  empty once the server is dead or shut down; and the handler only returned for one of these.
\<close>

definition served :: "'ds async_llm \<Rightarrow> bool" where
  "served a \<longleftrightarrow> processor (al_processor a) {..<al_next_stream a} \<and>
     (is_dead a \<or> al_stopped a \<and> \<not> al_shutdown_due a \<longrightarrow> request_states (al_processor a) = []) \<and>
     (al_handler a = HandlerEnded \<longrightarrow> is_dead a \<or> al_stopped a) \<and> (al_shutdown_due a \<longrightarrow> al_stopped a)"

lemma abort_empty: "request_states p = [] \<Longrightarrow> request_states (snd (op_abort_request rid p)) = []"
  by (simp add: op_abort_request_def Let_def)

lemma served_drop: "served a \<Longrightarrow> served (drop_request rid a)"
  by (auto simp: served_def drop_request_def is_dead_def abort_empty processor.abort)

lemma served_core [simp]: "served (a\<lparr>al_core := c\<rparr>) = served a"
  by (simp add: served_def is_dead_def)

lemma served_abort: "served a \<Longrightarrow> served (fst (async_abort show_error res rid reason a))"
  by (simp add: async_abort_def Let_def served_drop split: prod.splits)

lemma served_aborted: "served a \<Longrightarrow> async_abort show_error res rid reason (a\<lparr>al_core := c\<rparr>) = (a', err) \<Longrightarrow> served a'"
  using served_abort [of "a\<lparr>al_core := c\<rparr>" show_error res rid reason] by simp

lemma served_add: "served a \<Longrightarrow> served (snd (begin_add_request show_error encode res p sp rid uuid a))"
proof -
  assume ok: "served a"
  have new: "served (a\<lparr>al_next_stream := Suc (al_next_stream a),
      al_processor := op_add_request r toks skip (Some (al_next_stream a)) (al_processor a)\<rparr>)"
    if "r \<notin> dict_keys (request_states (al_processor a))" "\<not> al_stopped a" "\<not> is_dead a" for r toks skip
    using ok that processor.add [of "al_processor a" "{..<al_next_stream a}" r "Some (al_next_stream a)" toks skip]
    by (auto simp: served_def is_dead_def lessThan_Suc)
  show ?thesis unfolding begin_add_request_def Let_def
    by (auto simp: ok served_drop new split: option.splits prod.splits sum.splits)
qed

lemma served_die: "served a \<Longrightarrow> served (async_die t e a)"
  by (auto simp: async_die_def served_def is_dead_def Let_def processor.fail fail_all_ok [OF processor_ok, THEN conjunct2])

lemma process_until_error_empty: "request_states p = [] \<Longrightarrow> fst (process_until_error outs p) = p"
  by (induction outs) (simp_all add: process_outputs_def process_output_def)

lemma served_ended: "served (async_die t x (a\<lparr>al_handler := HandlerEnded\<rparr>))" if "served a" for t x and a :: "'ds async_llm"
proof (cases "is_dead a \<or> al_stopped a")
  case True
  then show ?thesis using that by (auto simp: async_die_def served_def is_dead_def)
next
  case False
  then show ?thesis using that
    by (auto simp: async_die_def served_def is_dead_def Let_def processor.fail fail_all_ok [OF processor_ok, THEN conjunct2])
qed

lemma served_process:
  assumes ok: "served a" and p: "process_until_error outs (al_processor a) = (q, err)"
  shows "served (a\<lparr>al_processor := q\<rparr>)"
  using ok process_until_error_ok [OF _ p] process_until_error_empty [of "al_processor a" outs] p by (auto simp: served_def is_dead_def)

lemma served_outputs: "served a \<Longrightarrow> served (handle_outputs a)"
proof -
  assume ok: "served a"
  show ?thesis
  proof (cases "al_handler a = HandlerRuns")
    case True
    obtain item c where g: "get_output (al_core a) = (item, c)" by fastforce
    have ok1: "served (a\<lparr>al_core := c\<rparr>)" using ok by simp
    consider (none) "item = None" | (dead) t e where "item = Some (Inl (t, e))" | (outs) outs where "item = Some (Inr outs)"
      by (cases item) (auto, metis obj_sumE surj_pair)
    then show ?thesis
    proof cases
      case none
      then show ?thesis using ok g by (simp add: handle_outputs_def)
    next
      case dead
      then show ?thesis using served_ended [OF ok1] g True by (simp add: handle_outputs_def)
    next
      case outs
      obtain q err where q: "process_until_error outs (al_processor a) = (q, err)" by fastforce
      have ok2: "served (a\<lparr>al_core := c, al_processor := q\<rparr>)" using served_process [of "a\<lparr>al_core := c\<rparr>" outs q err] ok1 q by simp
      have ok3: "served (a\<lparr>al_core := c, al_processor := q, al_handler := HandlerFailed x\<rparr>)" for x
        using ok2 by (auto simp: served_def is_dead_def)
      show ?thesis using served_ended [OF ok2] ok2 ok3 outs g q True
        by (auto simp: handle_outputs_def split: option.splits py_error.splits)
    qed
  qed (simp add: handle_outputs_def ok)
qed

lemma served_shutdown: "served a \<Longrightarrow> al_stopped a \<Longrightarrow> served (shut_down_streams a)"
  by (auto simp: served_def shut_down_streams_def is_dead_def processor.fail fail_all_ok [OF processor_ok, THEN conjunct2])

lemma served_stop: "served a \<Longrightarrow> w \<noteq> NoLoop \<Longrightarrow> served (async_stop w a)"
proof (cases w)
  case OnLoop
  assume "served a"
  then show ?thesis using served_shutdown [of "a\<lparr>al_stopped := True, al_core := client_shutdown (al_core a)\<rparr>"] OnLoop
    by (auto simp: async_stop_def on_loop_def served_def shut_down_streams_def is_dead_def processor.fail
        fail_all_ok [OF processor_ok, THEN conjunct2])
qed (auto simp: async_stop_def on_loop_def served_def is_dead_def)

lemma served_added: "served a \<Longrightarrow> finish_add_request show_error res rid stream k a = Some (r, a') \<Longrightarrow> served a'"
  by (auto simp: finish_add_request_def served_drop dest: served_aborted [rotated] split: option.splits sum.splits py_error.splits prod.splits)

lemma async_run_served: "async_run show_error encode a \<Longrightarrow> served a"
proof (induction rule: async_run.induct)
  case (al_start tok)
  show ?case by (simp add: served_def new_async_llm_def is_dead_def processor.start)
next
  case (al_close a res rid stream)
  then show ?case by (auto simp: close_generator_def served_abort split: option.splits)
next
  case (al_render a res)
  then show ?case by (auto simp: render_metrics_def split: prod.splits)
next
  case (al_shutdown a)
  then show ?case by (intro served_shutdown) (simp_all add: served_def)
qed (simp_all add: served_add served_abort served_outputs served_stop served_added)

text \<open>
  C36: the server serves every stream.  In every run the server's output processor is one its
  interface allows, with the streams the server made; once the engine is dead, or the shutdown ran,
  it tracks no request, so no reader waits; and while a request is tracked the task that feeds it
  runs, unless a shutdown is due or the task itself failed.
\<close>

theorem server_streams_served:
  assumes "async_run show_error encode a"
  shows "processor (al_processor a) {..<al_next_stream a} \<and>
    (is_dead a \<or> al_stopped a \<and> \<not> al_shutdown_due a \<longrightarrow>
       (\<forall>k < al_next_stream a. \<not> live_stream (al_processor a) k \<and> snd (aiter (queues (al_processor a) k)) \<noteq> Waiting)) \<and>
    ((\<exists>k. live_stream (al_processor a) k) \<longrightarrow> al_handler a = HandlerRuns \<or> al_shutdown_due a \<or> (\<exists>err. al_handler a = HandlerFailed err))"
proof -
  have ok: "served a" by (rule async_run_served [OF assms])
  let ?p = "al_processor a"
  have so: "streams_ok {..<al_next_stream a} ?p" using ok by (simp add: served_def processor_ok)
  have dead: "\<not> live_stream ?p k" if "request_states ?p = []" for k using that by (simp add: live_stream_def stream_of_def ran_def)
  have ended: "snd (aiter (queues ?p k)) \<noteq> Waiting" if "request_states ?p = []" "k < al_next_stream a" for k
    using so dead [OF that(1), of k] that(2) aiter_ended [of "queues ?p k"] by (simp add: streams_ok_def queues_ok_def live_stream_def)
  have "al_handler a = HandlerRuns \<or> al_shutdown_due a \<or> (\<exists>err. al_handler a = HandlerFailed err)" if "live_stream ?p k" for k
    using ok that dead [of k] by (cases "al_handler a") (auto simp: served_def)
  then show ?thesis using ok dead ended unfolding served_def by blast
qed

text \<open>A concrete run: a request is served one output, then the core dies.\<close>

definition demo_output :: "string \<Rightarrow> int list \<Rightarrow> request_output" where
  "demo_output rid ts = \<lparr>ro_request_id = rid, ro_token_ids = ts, ro_text = [], ro_finished = False,
     ro_finish_reason = None, ro_metrics = None, ro_kv_transfer_params = None\<rparr>"

definition demo_admitted :: "unit decode_streams \<Rightarrow> unit async_llm" where
  "demo_admitted lib = snd (begin_add_request (\<lambda>_. '''') (\<lambda>_. []) Sent (Ids [1]) sampling_params_default (Some ''a'') ''0'' (new_async_llm (Some lib)))"

definition demo_feed :: "core_out \<Rightarrow> unit async_llm \<Rightarrow> unit async_llm" where
  "demo_feed m a = handle_outputs (a\<lparr>al_core := fst (client_handle (\<lambda>_. '''') m (al_core a))\<rparr>)"

lemma demo_feed_run: "async_run (\<lambda>_. '''') (\<lambda>_. []) a \<Longrightarrow> async_run (\<lambda>_. '''') (\<lambda>_. []) (demo_feed m a)"
  unfolding demo_feed_def by (intro async_run.al_outputs async_run.al_client)

definition demo_server :: "unit async_llm" where
  "demo_server = demo_feed (Dead AssertionError) (demo_feed (Outputs [demo_output ''a'' [65]]) (demo_admitted echo_streams))"

theorem server_streams_served_witness:
  "is_dead demo_server \<and> snd (aiter (queues (al_processor demo_server) 0)) \<noteq> Waiting \<and>
   length (fst (aiter (queues (al_processor demo_server) 0))) = 1"
proof -
  have "async_run (\<lambda>_. '''') (\<lambda>_. []) demo_server"
    unfolding demo_server_def demo_admitted_def by (intro demo_feed_run async_run.al_add async_run.al_start)
  from server_streams_served [OF this] have "is_dead demo_server \<longrightarrow> (\<forall>k < al_next_stream demo_server. snd (aiter (queues (al_processor demo_server) k)) \<noteq> Waiting)"
    by blast
  moreover have "is_dead demo_server" "al_next_stream demo_server = 1" "length (fst (aiter (queues (al_processor demo_server) 0))) = 1" by code_simp+
  ultimately show ?thesis by simp
qed

text \<open>
  The exception in the property is real: an error the detokenizer re-raises ends the task without
  \<open>_die\<close>, and the reader of a live stream then waits although the server is neither dead nor stopped.
\<close>

definition failing_streams :: "unit decode_streams" where
  "failing_streams = \<lparr>ds_new = (\<lambda>_ _. ()), ds_step = (\<lambda>_ _. ((), OtherError ''decoder''))\<rparr>"

lemma detokenizer_error_strands_readers:
  "async_run (\<lambda>_. '''') (\<lambda>_. []) (demo_feed (Outputs [demo_output ''a'' [65]]) (demo_admitted failing_streams))"
  "let a = demo_feed (Outputs [demo_output ''a'' [65]]) (demo_admitted failing_streams)
   in al_handler a = HandlerFailed (RuntimeError ''decoder'') \<and> \<not> is_dead a \<and> \<not> al_stopped a \<and> snd (aiter (queues (al_processor a) 0)) = Waiting"
  unfolding demo_admitted_def
  by (intro demo_feed_run async_run.al_add async_run.al_start) code_simp

end
