(* ===== verification/Stop_Checker.thy ===== *)
theory Stop_Checker
  imports Prelude "HOL-Library.Sublist"
begin

text \<open>
  \<open>entrypoints/stop_checker.py\<close>: stop strings applied to text that arrives in pieces.  A tail in
  which a match could still start is held back.  The reference is the first position at which a
  stop string occurs in all the text so far; the checker emits exactly the text before it.
\<close>

section \<open>The checker\<close>

text \<open>\<open>s.find(sub)\<close>\<close>

fun str_find :: "string \<Rightarrow> string \<Rightarrow> int" where
  "str_find s sub =
     (if prefix sub s then 0
      else case s of [] \<Rightarrow> -1 | c # cs \<Rightarrow> (let r = str_find cs sub in if r < 0 then -1 else r + 1))"

declare str_find.simps [simp del]

text \<open>\<open>max(xs, default=d)\<close> and \<open>min(xs, default=d)\<close>\<close>

fun max_default :: "int \<Rightarrow> int list \<Rightarrow> int" where
  "max_default d [] = d"
| "max_default d (x # xs) = foldl max x xs"

fun min_default :: "int \<Rightarrow> int list \<Rightarrow> int" where
  "min_default d [] = d"
| "min_default d (x # xs) = foldl min x xs"

record stop_checker =
  stop :: "string list"
  hold :: int
  buffer :: string
  matched :: bool

definition new_stop_checker :: "string list \<Rightarrow> stop_checker" where
  "new_stop_checker ss =
     (let st = filter (\<lambda>s. s \<noteq> []) ss
      in \<lparr>stop = st, hold = max_default 1 (map py_len st) - 1, buffer = [], matched = False\<rparr>)"

definition push :: "string \<Rightarrow> stop_checker \<Rightarrow> string \<times> stop_checker" where
  "push text sc =
     (if stop sc = [] then (text, sc)
      else
        let buf = buffer sc @ text;
            cut = min_default (-1) (filter (\<lambda>i. 0 \<le> i) (map (str_find buf) (stop sc)))
        in if 0 \<le> cut then (slice_to buf cut, sc\<lparr>buffer := [], matched := True\<rparr>)
           else if hold sc = 0 then (buf, sc\<lparr>buffer := []\<rparr>)
           else (slice_to buf (- hold sc), sc\<lparr>buffer := slice_from buf (- hold sc)\<rparr>))"

definition flush :: "stop_checker \<Rightarrow> string \<times> stop_checker" where
  "flush sc = (buffer sc, sc\<lparr>buffer := []\<rparr>)"

text \<open>The server's use of it: push each piece until a stop string hits.\<close>

fun pushes :: "string list \<Rightarrow> stop_checker \<Rightarrow> string \<times> stop_checker" where
  "pushes [] sc = ([], sc)"
| "pushes (t # ts) sc =
     (let (e, sc1) = push t sc
      in if matched sc1 then (e, sc1)
         else let (e', sc2) = pushes ts sc1 in (e @ e', sc2))"

section \<open>The reference: the first occurrence\<close>

definition occ :: "string list \<Rightarrow> string \<Rightarrow> nat \<Rightarrow> bool" where
  "occ ss t k \<longleftrightarrow> (\<exists>s \<in> set ss. prefix s (drop k t))"

definition first_stop :: "string list \<Rightarrow> string \<Rightarrow> nat option" where
  "first_stop ss t = List.find (occ ss t) [0..<Suc (length t)]"

lemma occ_bound: "occ ss t k \<Longrightarrow> [] \<notin> set ss \<Longrightarrow> k < length t"
  by (rule ccontr) (auto simp: occ_def)

lemma first_stop_None: "[] \<notin> set ss \<Longrightarrow> first_stop ss t = None \<longleftrightarrow> (\<forall>k. \<not> occ ss t k)"
  using occ_bound [of ss t] by (auto simp: first_stop_def find_None_iff less_Suc_eq simp del: upt_Suc)

lemma first_stop_Some: "first_stop ss t = Some k \<longleftrightarrow> occ ss t k \<and> k \<le> length t \<and> (\<forall>j < k. \<not> occ ss t j)"
proof
  assume "first_stop ss t = Some k"
  then show "occ ss t k \<and> k \<le> length t \<and> (\<forall>j < k. \<not> occ ss t j)"
    by (auto simp: first_stop_def find_Some_iff simp del: upt_Suc)
next
  assume "occ ss t k \<and> k \<le> length t \<and> (\<forall>j < k. \<not> occ ss t j)"
  then show "first_stop ss t = Some k"
    by (auto simp: first_stop_def find_Some_iff simp del: upt_Suc intro!: exI [of _ k])
qed

lemma str_find_nonneg: "0 \<le> str_find t s \<Longrightarrow> prefix s (drop (nat (str_find t s)) t) \<and> (\<forall>j < nat (str_find t s). \<not> prefix s (drop j t))"
proof (induction t)
  case Nil
  then show ?case by (simp add: str_find.simps split: if_splits)
next
  case (Cons c t)
  show ?case
  proof (cases "prefix s (c # t)")
    case True
    then show ?thesis by (simp add: str_find.simps)
  next
    case False
    then have r: "0 \<le> str_find t s" and e: "str_find (c # t) s = str_find t s + 1"
      using Cons.prems by (auto simp: str_find.simps [of "c # t"] Let_def split: if_splits)
    have n: "nat (str_find (c # t) s) = Suc (nat (str_find t s))" using e r by simp
    show ?thesis unfolding n using Cons.IH [OF r] False by (auto simp: less_Suc_eq_0_disj)
  qed
qed

lemma str_find_neg: "str_find t s < 0 \<longleftrightarrow> (\<forall>j. \<not> prefix s (drop j t))"
proof (induction t)
  case Nil
  then show ?case by (simp add: str_find.simps)
next
  case (Cons c t)
  have "(\<forall>j. \<not> prefix s (drop j (c # t))) \<longleftrightarrow> \<not> prefix s (c # t) \<and> (\<forall>j. \<not> prefix s (drop j t))"
    by (metis drop_Suc_Cons drop0 not0_implies_Suc)
  then show ?case using Cons.IH by (auto simp: str_find.simps [of "c # t"] Let_def)
qed

lemma min_default_mem: "xs \<noteq> [] \<Longrightarrow> min_default d xs \<in> set xs \<and> (\<forall>x \<in> set xs. min_default d xs \<le> x)"
proof -
  have "foldl min x xs \<in> set (x # xs) \<and> (\<forall>y \<in> set (x # xs). foldl min x xs \<le> y)" for x :: int and xs
    by (induction xs arbitrary: x) (auto simp: min_def split: if_splits, force+)
  then show "xs \<noteq> [] \<Longrightarrow> ?thesis" by (cases xs) auto
qed

lemma max_default_ge: "x \<in> set xs \<Longrightarrow> x \<le> max_default d xs"
proof -
  have "x \<le> foldl max x xs \<and> (\<forall>y \<in> set xs. y \<le> foldl max x xs)" for x :: int and xs
  proof (induction xs arbitrary: x)
    case (Cons a xs)
    have "max x a \<le> foldl max (max x a) xs" using Cons [of "max x a"] by blast
    then show ?case using Cons [of "max x a"] by auto
  qed simp
  then show "x \<in> set xs \<Longrightarrow> ?thesis" by (cases xs) auto
qed

lemma cut_first_stop:
  fixes t :: string
  assumes "[] \<notin> set ss"
  defines "pos \<equiv> min_default (-1) (filter (\<lambda>i. 0 \<le> i) (map (str_find t) ss))"
  shows "0 \<le> pos \<Longrightarrow> first_stop ss t = Some (nat pos)" "pos < 0 \<Longrightarrow> first_stop ss t = None"
proof -
  let ?xs = "filter (\<lambda>i. 0 \<le> i) (map (str_find t) ss)"
  show "first_stop ss t = None" if "pos < 0"
  proof -
    have "?xs = []" using that min_default_mem [of ?xs "-1"] by (auto simp: pos_def)
    then have "str_find t s < 0" if "s \<in> set ss" for s using that by (auto simp: filter_empty_conv)
    then show ?thesis unfolding first_stop_None [OF assms(1)] occ_def using str_find_neg by blast
  qed
  show "first_stop ss t = Some (nat pos)" if "0 \<le> pos"
  proof -
    have ne: "?xs \<noteq> []" using that by (auto simp: pos_def)
    note mem = min_default_mem [OF ne, of "-1", folded pos_def]
    then obtain s where s: "s \<in> set ss" "str_find t s = pos" by auto
    have o: "occ ss t (nat pos)" using str_find_nonneg [of t s] s that by (auto simp: occ_def)
    moreover have "\<not> occ ss t j" if j: "j < nat pos" for j
    proof
      assume "occ ss t j"
      then obtain s' where s': "s' \<in> set ss" "prefix s' (drop j t)" by (auto simp: occ_def)
      have nn: "0 \<le> str_find t s'" using str_find_neg [of t s'] s'(2) by force
      then have "pos \<le> str_find t s'" using mem s'(1) by simp
      then have "j < nat (str_find t s')" using j by linarith
      then show False using str_find_nonneg [OF nn] s'(2) by blast
    qed
    ultimately show ?thesis using occ_bound [OF o assms(1)] by (simp add: first_stop_Some)
  qed
qed


section \<open>The checker follows the reference\<close>

text \<open>
  After pieces that make up the text \<open>E @ buffer\<close>, of which \<open>E\<close> was emitted: no stop string
  occurs yet, and what is held back is long enough for one that starts in it.
\<close>

definition checker_inv :: "string list \<Rightarrow> string \<Rightarrow> stop_checker \<Rightarrow> bool" where
  "checker_inv ss E sc \<longleftrightarrow> stop sc = ss \<and> [] \<notin> set ss \<and> \<not> matched sc \<and> 0 \<le> hold sc \<and>
     (\<forall>s \<in> set ss. py_len s \<le> hold sc + 1) \<and> first_stop ss (E @ buffer sc) = None \<and>
     (ss \<noteq> [] \<and> E \<noteq> [] \<longrightarrow> py_len (buffer sc) = hold sc) \<and> (ss = [] \<longrightarrow> buffer sc = [])"

lemma occ_later:
  assumes inv: "checker_inv ss E sc" and ne: "ss \<noteq> []" and o: "occ ss (E @ buffer sc @ t) k"
  shows "length E \<le> k"
proof (rule ccontr)
  assume "\<not> length E \<le> k"
  then have k: "k < length E" by simp
  obtain s where s: "s \<in> set ss" "prefix s (drop k (E @ buffer sc @ t))" using o by (auto simp: occ_def)
  have "py_len s \<le> hold sc + 1" "py_len (buffer sc) = hold sc" using inv s(1) ne k by (auto simp: checker_inv_def)
  then have "length s \<le> length (drop k (E @ buffer sc))" using k by (simp add: py_len_def)
  moreover have "prefix s (drop k (E @ buffer sc) @ t)" using s(2) k by simp
  ultimately have "prefix s (drop k (E @ buffer sc))" by (metis prefix_length_prefix prefixI)
  then have "occ ss (E @ buffer sc) k" using s(1) by (auto simp: occ_def)
  then show False using inv first_stop_None [of ss "E @ buffer sc"] by (auto simp: checker_inv_def)
qed

lemma first_stop_buffer:
  assumes inv: "checker_inv ss E sc" and ne: "ss \<noteq> []"
  shows "first_stop ss (E @ buffer sc @ t) = map_option ((+) (length E)) (first_stop ss (buffer sc @ t))"
proof -
  have nn: "[] \<notin> set ss" using inv by (simp add: checker_inv_def)
  have shift: "occ ss (E @ buffer sc @ t) (length E + k) = occ ss (buffer sc @ t) k" for k by (simp add: occ_def)
  note later = occ_later [OF inv ne, of t]
  show ?thesis
  proof (cases "first_stop ss (buffer sc @ t)")
    case None
    then have "\<not> occ ss (E @ buffer sc @ t) k" for k
      using first_stop_None [OF nn] later [of k] shift [of "k - length E"] by auto
    then have "first_stop ss (E @ buffer sc @ t) = None" by (simp add: first_stop_None [OF nn])
    then show ?thesis using None by simp
  next
    case (Some c)
    then have c: "occ ss (buffer sc @ t) c" "c \<le> length (buffer sc @ t)" "\<forall>j < c. \<not> occ ss (buffer sc @ t) j"
      by (simp_all add: first_stop_Some)
    have "\<not> occ ss (E @ buffer sc @ t) j" if "j < length E + c" for j
    proof
      assume o: "occ ss (E @ buffer sc @ t) j"
      have "occ ss (buffer sc @ t) (j - length E)" using o later [OF o] shift [of "j - length E"] by simp
      then show False using c(3) that later [OF o] by simp
    qed
    then have "first_stop ss (E @ buffer sc @ t) = Some (length E + c)" using c(1,2) shift [of c] by (simp add: first_stop_Some)
    then show ?thesis using Some by simp
  qed
qed

lemma push_ok:
  assumes inv: "checker_inv ss E sc" and p: "push t sc = (e, sc')"
  shows "if matched sc' then first_stop ss (E @ buffer sc @ t) = Some (length (E @ e)) \<and> prefix (E @ e) (E @ buffer sc @ t)
     else checker_inv ss (E @ e) sc' \<and> (E @ e) @ buffer sc' = E @ buffer sc @ t"
proof (cases "ss = []")
  case True
  then show ?thesis using inv p by (auto simp: push_def checker_inv_def first_stop_None occ_def)
next
  case False
  let ?b = "buffer sc @ t"
  let ?cut = "min_default (-1) (filter (\<lambda>i. 0 \<le> i) (map (str_find ?b) ss))"
  have st: "stop sc = ss" "[] \<notin> set ss" "\<not> matched sc" "0 \<le> hold sc" using inv by (simp_all add: checker_inv_def)
  note cf = cut_first_stop [OF st(2), of ?b] and fs = first_stop_buffer [OF inv False, of t]
  show ?thesis
  proof (cases "0 \<le> ?cut")
    case True
    have b: "nat ?cut \<le> length ?b" using cf(1) [OF True] by (simp add: first_stop_Some)
    have e: "e = take (nat ?cut) ?b" "matched sc'" using p True False st by (auto simp: push_def Let_def slice_to_nonneg)
    then have "length e = nat ?cut" using b by simp
    moreover have "prefix e ?b" unfolding e(1) by (rule take_is_prefix)
    ultimately show ?thesis using cf(1) [OF True] fs e(2) by simp
  next
    case neg: False
    then have none: "first_stop ss (E @ buffer sc @ t) = None" using cf(2) fs by simp
    show ?thesis
    proof (cases "hold sc = 0")
      case True
      then have "e = ?b" "sc' = sc\<lparr>buffer := []\<rparr>" using p neg False st by (auto simp: push_def Let_def)
      then show ?thesis using inv none True by (auto simp: checker_inv_def py_len_def)
    next
      case hold: False
      have e: "e = slice_to ?b (- hold sc)" "sc' = sc\<lparr>buffer := slice_from ?b (- hold sc)\<rparr>"
        using p neg False hold st by (auto simp: push_def Let_def)
      define n where "n = length ?b - nat (hold sc)"
      have clip: "py_clip (length ?b) (- hold sc) = n" using st(4) hold by (auto simp: py_clip_def n_def)
      then have sl: "slice_to ?b (- hold sc) = take n ?b" "slice_from ?b (- hold sc) = drop n ?b"
        by (simp_all only: slice_to_def slice_from_def)
      have eq: "(E @ e) @ buffer sc' = E @ buffer sc @ t" using e unfolding sl by (simp del: take_append drop_append)
      have "py_len (buffer sc') = hold sc" if "E @ e \<noteq> []"
      proof -
        have "nat (hold sc) \<le> length ?b"
        proof (cases "E = []")
          case True
          then have "n \<noteq> 0" using that e(1) sl(1) by auto
          then show ?thesis by (simp add: n_def)
        next
          case False
          then have "py_len (buffer sc) = hold sc" using inv \<open>ss \<noteq> []\<close> by (simp add: checker_inv_def)
          then show ?thesis by (simp add: py_len_def)
        qed
        then show ?thesis using e(2) sl(2) st(4) by (simp add: py_len_def n_def)
      qed
      then show ?thesis using inv none eq e \<open>ss \<noteq> []\<close> by (auto simp: checker_inv_def)
    qed
  qed
qed

lemma pushes_ok:
  "checker_inv ss E sc \<Longrightarrow> pushes ts sc = (e, sc') \<Longrightarrow>
   if matched sc' then \<exists>n \<le> length ts. first_stop ss (E @ buffer sc @ concat (take n ts)) = Some (length (E @ e)) \<and>
        prefix (E @ e) (E @ buffer sc @ concat (take n ts)) \<and> (\<forall>m < n. first_stop ss (E @ buffer sc @ concat (take m ts)) = None)
   else checker_inv ss (E @ e) sc' \<and> (E @ e) @ buffer sc' = E @ buffer sc @ concat ts"
proof (induction ts arbitrary: E sc e)
  case Nil
  then show ?case by (auto simp: checker_inv_def)
next
  case (Cons t ts)
  obtain e1 sc1 where p1: "push t sc = (e1, sc1)" by force
  note one = push_ok [OF Cons.prems(1) p1]
  have none: "first_stop ss (E @ buffer sc) = None" using Cons.prems(1) by (simp add: checker_inv_def)
  show ?case
  proof (cases "matched sc1")
    case True
    then have r: "e = e1" "sc' = sc1" using Cons.prems(2) p1 by simp_all
    show ?thesis using one True r none by (auto intro!: exI [of _ 1])
  next
    case False
    obtain e2 where p2: "pushes ts sc1 = (e2, sc')" and e: "e = e1 @ e2"
      using Cons.prems(2) p1 False by (auto split: prod.splits)
    have inv1: "checker_inv ss (E @ e1) sc1" and eq0: "(E @ e1) @ buffer sc1 = E @ buffer sc @ t"
      using one False by auto
    have eq: "E @ e1 @ buffer sc1 @ u = E @ buffer sc @ t @ u" for u using eq0 by (metis append_assoc)
    note rest = Cons.IH [OF inv1 p2, unfolded append_assoc eq]
    show ?thesis
    proof (cases "matched sc'")
      case True
      with rest obtain n where n: "n \<le> length ts" "first_stop ss (E @ buffer sc @ t @ concat (take n ts)) = Some (length (E @ e1 @ e2))"
        "prefix (E @ e1 @ e2) (E @ buffer sc @ t @ concat (take n ts))"
        "\<forall>m < n. first_stop ss (E @ buffer sc @ t @ concat (take m ts)) = None" by auto
      have "first_stop ss (E @ buffer sc @ concat (take m (t # ts))) = None" if "m < Suc n" for m
        using that n(4) none by (cases m) auto
      then show ?thesis using True n e by (auto intro!: exI [of _ "Suc n"])
    qed (use rest e in simp)
  qed
qed

lemma new_checker_inv: "checker_inv (filter (\<lambda>s. s \<noteq> []) ss) [] (new_stop_checker ss)"
proof -
  let ?st = "filter (\<lambda>s. s \<noteq> []) ss"
  have len: "py_len s \<le> max_default 1 (map py_len ?st)" if "s \<in> set ?st" for s
    using that by (intro max_default_ge) auto
  have "1 \<le> max_default 1 (map py_len ?st)"
  proof (cases ?st)
    case (Cons a xs)
    then have a: "a \<in> set ?st" by simp
    then have "a \<noteq> []" by simp
    then have "1 \<le> py_len a" by (cases a) (simp_all add: py_len_def)
    then show ?thesis using len [OF a] by simp
  qed simp
  then show ?thesis using len by (auto simp: checker_inv_def new_stop_checker_def Let_def first_stop_None occ_def)
qed

lemma pushes_cut:
  assumes "pushes ts (new_stop_checker ss) = (e, sc')"
  shows "if matched sc' then \<exists>n \<le> length ts. first_stop (filter (\<lambda>s. s \<noteq> []) ss) (concat (take n ts)) = Some (length e) \<and>
        e = take (length e) (concat ts) \<and> (\<forall>m < n. first_stop (filter (\<lambda>s. s \<noteq> []) ss) (concat (take m ts)) = None)
     else first_stop (filter (\<lambda>s. s \<noteq> []) ss) (concat ts) = None \<and> e @ fst (flush sc') = concat ts"
proof -
  let ?st = "filter (\<lambda>s. s \<noteq> []) ss"
  have b: "buffer (new_stop_checker ss) = []" by (simp add: new_stop_checker_def Let_def)
  note r = pushes_ok [OF new_checker_inv assms, unfolded b append_Nil]
  show ?thesis
  proof (cases "matched sc'")
    case True
    with r obtain n where n: "n \<le> length ts" "first_stop ?st (concat (take n ts)) = Some (length e)"
      "prefix e (concat (take n ts))" "\<forall>m < n. first_stop ?st (concat (take m ts)) = None" by auto
    have "prefix (concat (take n ts)) (concat ts)" by (metis append_take_drop_id concat_append prefixI)
    then have "prefix e (concat ts)" using n(3) by (metis prefix_order.trans)
    then have "e = take (length e) (concat ts)" by (auto simp: prefix_def)
    then show ?thesis using True n by auto
  next
    case False
    then have "checker_inv ?st e sc'" "e @ buffer sc' = concat ts" using r by simp_all
    then show ?thesis using False by (simp add: checker_inv_def flush_def)
  qed
qed

section \<open>Properties\<close>



end
