(* ===== verification/Api_Server.thy ===== *)
theory Api_Server
  imports Async_Llm Stop_Checker
begin

text \<open>
  \<open>entrypoints/protocol.py\<close>, \<open>entrypoints/api_server.py\<close> and \<open>entrypoints/disagg_proxy.py\<close>: the HTTP
  server over the async front end, and the proxy in front of prefill and decode servers.  Bodies
  are records with the fields the models declare; what pydantic checks of a field's type is taken
  as done, its bounds are written out.  A reply is a value, a stream the list of its events.
\<close>

section \<open>Requests\<close>

text \<open>\<open>UNSUPPORTED\<close>: each field with the values that ask for nothing.\<close>

definition UNSUPPORTED :: "(string \<times> json list) list" where
  "UNSUPPORTED =
     [(''min_p'', [JFloat 0]), (''best_of'', [JInt 1]), (''logprobs'', [JBool False, JInt 0]), (''top_logprobs'', [JInt 0]),
      (''presence_penalty'', [JFloat 0]), (''frequency_penalty'', [JFloat 0]), (''repetition_penalty'', [JFloat 1]),
      (''seed'', []), (''logit_bias'', []), (''tools'', []), (''tool_choice'', [JStr ''none'']), (''functions'', []),
      (''echo'', [JBool False]), (''suffix'', [])]"

text \<open>Python's \<open>==\<close> of a value and a number or string: booleans and numbers compare by value.\<close>

fun json_num :: "json \<Rightarrow> rat option" where
  "json_num (JBool b) = Some (if b then 1 else 0)"
| "json_num (JInt n) = Some (of_int n)"
| "json_num (JFloat x) = Some x"
| "json_num _ = None"

definition py_eq :: "json \<Rightarrow> json \<Rightarrow> bool" where
  "py_eq a b = (case (json_num a, json_num b) of (Some x, Some y) \<Rightarrow> x = y | _ \<Rightarrow> a = b)"

definition asks_for_it :: "json \<Rightarrow> json list \<Rightarrow> bool" where
  "asks_for_it v neutral \<longleftrightarrow> v \<noteq> JNull \<and> v \<noteq> JList [] \<and> v \<noteq> JObj [] \<and> \<not> (\<exists>x \<in> set neutral. py_eq v x)"

text \<open>The loop of \<open>_refuse_unsupported\<close> over a copy of the body: a name that is refused, or the body without them.\<close>

fun refuse_fields :: "(string \<times> json list) list \<Rightarrow> (string, json) dict \<Rightarrow> string + (string, json) dict" where
  "refuse_fields [] data = Inr data"
| "refuse_fields ((name, neutral) # rest) data =
     (case map_of data name of
        None \<Rightarrow> refuse_fields rest data
      | Some v \<Rightarrow> if asks_for_it v neutral then Inl name else refuse_fields rest (dict_del data name))"

definition refuse_unsupported :: "json \<Rightarrow> string + json" where
  "refuse_unsupported data = (case data of JObj d \<Rightarrow> map_sum id JObj (refuse_fields UNSUPPORTED d) | _ \<Rightarrow> Inr data)"

datatype stop_arg = OneStop string | ManyStops "string list"

record base_request =
  br_model :: string
  br_max_tokens :: int
  br_temperature :: rat
  br_top_p :: "rat option"
  br_top_k :: "int option"
  br_stream :: bool
  br_stream_options :: "bool option"
  br_stop :: "stop_arg option"
  br_n :: int
  br_ignore_eos :: bool
  br_priority :: int
  br_kv_transfer_params :: "(string, json) dict option"

definition base_request_ok :: "base_request \<Rightarrow> bool" where
  "base_request_ok b \<longleftrightarrow> 1 \<le> br_max_tokens b \<and> 0 \<le> br_temperature b \<and>
     (case br_top_p b of None \<Rightarrow> True | Some p \<Rightarrow> 0 < p \<and> p \<le> 1) \<and> (case br_top_k b of None \<Rightarrow> True | Some k \<Rightarrow> - 1 \<le> k)"

definition check_n :: "base_request \<Rightarrow> base_request res" where
  "check_n b = (if br_n b \<noteq> 1 then Inl ValueError else Inr b)"

definition stop_strings :: "base_request \<Rightarrow> string list" where
  "stop_strings b = (case br_stop b of None \<Rightarrow> [] | Some (OneStop s) \<Rightarrow> [s] | Some (ManyStops ss) \<Rightarrow> ss)"

definition include_usage :: "base_request \<Rightarrow> bool" where
  "include_usage b \<longleftrightarrow> br_stream_options b = Some True"

section \<open>Replies\<close>

record usage_info =
  prompt_tokens :: int
  completion_tokens :: int
  total_tokens :: int

definition usage_of :: "int \<Rightarrow> int \<Rightarrow> usage_info" where
  "usage_of p c = \<lparr>prompt_tokens = p, completion_tokens = c, total_tokens = p + c\<rparr>"

datatype choice =
    TextChoice string "string option"
  | MessageChoice string string "string option"
  | DeltaChoice "string option" string "string option"

record response =
  rp_id :: string
  rp_object :: string
  rp_created :: int
  rp_model :: string
  rp_choices :: "choice list"
  rp_usage :: "usage_info option"
  rp_kv_transfer_params :: "(string, json) dict option"

datatype api_error = HttpError nat string | Raises py_error

text \<open>The exception handlers: a status, a kind and a message.\<close>

definition error_reply :: "api_error \<Rightarrow> nat \<times> string \<times> string" where
  "error_reply e =
     (case e of
        HttpError code detail \<Rightarrow> (code, if 500 \<le> code then ''server_error'' else ''invalid_request_error'', detail)
      | Raises (InvalidRequest msg) \<Rightarrow> (400, ''invalid_request_error'', msg)
      | Raises (DuplicateRequestId msg) \<Rightarrow> (400, ''invalid_request_error'', msg)
      | Raises (EngineDeadError msg) \<Rightarrow> (503, ''server_error'', msg)
      | Raises _ \<Rightarrow> (500, ''server_error'', ''Internal Server Error''))"

section \<open>Deltas\<close>

definition FINISH_REASONS :: "(string, string) dict" where
  "FINISH_REASONS = [(''stop'', ''stop''), (''length'', ''length''), (''abort'', ''stop'')]"

record delta =
  d_text :: string
  d_reason :: "string option"
  d_num_tokens :: int
  d_kv :: "(string, json) dict option"

datatype deltas_end = DeltasDone | DeltasWait | DeltasRaise api_error

text \<open>
  \<open>_deltas\<close> over what the request's stream yields and how it ends.  The last result tells whether
  it aborted the request with \<open>stop\<close>.
\<close>

fun deltas :: "request_output list \<Rightarrow> stream_end \<Rightarrow> stop_checker \<Rightarrow> int \<Rightarrow> delta list \<times> deltas_end \<times> bool" where
  "deltas [] e ck n = ([], case e of Waiting \<Rightarrow> DeltasWait | Returned \<Rightarrow> DeltasDone | Raised err \<Rightarrow> DeltasRaise (Raises err), False)"
| "deltas (out # outs) e ck n =
     (let n1 = n + py_len (ro_token_ids out); (text, ck1) = push (ro_text out) ck
      in if matched ck1 then ([\<lparr>d_text = text, d_reason = Some ''stop'', d_num_tokens = n1, d_kv = None\<rparr>], DeltasDone, True)
         else if ro_finished out then
           (case Option.bind (ro_finish_reason out) (map_of FINISH_REASONS) of
              None \<Rightarrow> ([], DeltasRaise (HttpError 503 ''the engine dropped the request''), False)
            | Some reason \<Rightarrow>
                ([\<lparr>d_text = text @ fst (flush ck1), d_reason = Some reason, d_num_tokens = n1, d_kv = ro_kv_transfer_params out\<rparr>], DeltasDone, False))
         else
           let (ds, en, ab) = deltas outs e ck1 n1
           in (if text \<noteq> [] then \<lparr>d_text = text, d_reason = None, d_num_tokens = n1, d_kv = None\<rparr> # ds else ds, en, ab))"

text \<open>\<open>_collect\<close>, when the deltas end without an exception.\<close>

definition collect_delta :: "delta \<Rightarrow> string \<times> string \<times> int \<times> (string, json) dict option \<Rightarrow> string \<times> string \<times> int \<times> (string, json) dict option" where
  "collect_delta d = (\<lambda>(text, reason, n, kv).
     (text @ d_text d, case d_reason d of Some r \<Rightarrow> if r = [] then reason else r | None \<Rightarrow> reason, d_num_tokens d, d_kv d))"

definition collect_reply :: "delta list \<Rightarrow> string \<Rightarrow> int \<Rightarrow> string \<Rightarrow> int \<Rightarrow> bool \<Rightarrow> response" where
  "collect_reply ds rid created model num_prompt chat =
     (let (text, reason, n, kv) = fold collect_delta ds ([], ''stop'', 0, None)
      in \<lparr>rp_id = rid, rp_object = (if chat then ''chat.completion'' else ''text_completion''), rp_created = created, rp_model = model,
          rp_choices = [if chat then MessageChoice ''assistant'' text (Some reason) else TextChoice text (Some reason)],
          rp_usage = Some (usage_of num_prompt n), rp_kv_transfer_params = kv\<rparr>)"

text \<open>\<open>_stream\<close>: server-sent events.\<close>

datatype event = Chunk response | ErrorEvent string string | DoneEvent

definition stream_chunk :: "string \<Rightarrow> int \<Rightarrow> string \<Rightarrow> bool \<Rightarrow> choice list \<Rightarrow> usage_info option \<Rightarrow> event" where
  "stream_chunk rid created model chat choices u =
     Chunk \<lparr>rp_id = rid, rp_object = (if chat then ''chat.completion.chunk'' else ''text_completion''), rp_created = created, rp_model = model,
            rp_choices = choices, rp_usage = u, rp_kv_transfer_params = None\<rparr>"

definition stream_choice :: "bool \<Rightarrow> string \<Rightarrow> string option \<Rightarrow> string option \<Rightarrow> choice" where
  "stream_choice chat text reason role = (if \<not> chat then TextChoice text reason else DeltaChoice role text reason)"

definition error_text :: "api_error \<Rightarrow> string" where
  "error_text e = snd (snd (error_reply e))"

definition stream_events ::
  "delta list \<Rightarrow> deltas_end \<Rightarrow> string \<Rightarrow> int \<Rightarrow> string \<Rightarrow> base_request \<Rightarrow> int \<Rightarrow> bool \<Rightarrow> event list \<times> deltas_end" where
  "stream_events ds en rid created model body num_prompt chat =
     (let chunk = stream_chunk rid created model chat;
          first = (if chat then [chunk [stream_choice chat [] None (Some ''assistant'')] None] else []);
          parts = map (\<lambda>d. chunk [stream_choice chat (d_text d) (d_reason d) None] None) ds;
          n = (if ds = [] then 0 else d_num_tokens (last ds));
          tail = (if include_usage body then [chunk [] (Some (usage_of num_prompt n))] else []) @ [DoneEvent]
      in case en of
           DeltasDone \<Rightarrow> (first @ parts @ tail, DeltasDone)
         | DeltasWait \<Rightarrow> (first @ parts, DeltasWait)
         | DeltasRaise (HttpError code detail) \<Rightarrow> (first @ parts @ [ErrorEvent ''server_error'' detail, DoneEvent], DeltasDone)
         | DeltasRaise (Raises (EngineDeadError msg)) \<Rightarrow> (first @ parts @ [ErrorEvent ''server_error'' msg, DoneEvent], DeltasDone)
         | DeltasRaise err \<Rightarrow> (first @ parts, DeltasRaise err))"

section \<open>Routes\<close>

definition health :: "'ds async_llm \<Rightarrow> api_error option" where
  "health a = (if is_dead a then Some (HttpError 503 ''the engine died'') else None)"

definition request_params :: "base_request \<Rightarrow> sampling_params res" where
  "request_params b = sampling_params_post_init
     \<lparr>sp_temperature = br_temperature b, sp_top_p = (case br_top_p b of None \<Rightarrow> 1 | Some p \<Rightarrow> p),
      sp_top_k = (case br_top_k b of None \<Rightarrow> 0 | Some k \<Rightarrow> k), sp_max_tokens = br_max_tokens b, sp_ignore_eos = br_ignore_eos b,
      sp_stop_token_ids = [], sp_skip_special_tokens = True, sp_priority = br_priority b,
      sp_kv_transfer_params = br_kv_transfer_params b\<rparr>"

text \<open>\<open>_serve\<close> up to the admission: an error or the request's id and parameters.\<close>

definition check_serve :: "string \<Rightarrow> base_request \<Rightarrow> 'ds async_llm \<Rightarrow> api_error option" where
  "check_serve model b a =
     (if br_model b \<noteq> model then Some (HttpError 404 ''the model does not exist'')
      else if is_dead a then Some (HttpError 503 ''the engine died'')
      else if br_stream b \<and> params_ask (br_kv_transfer_params b) ''do_remote_decode''
      then Some (HttpError 400 ''do_remote_decode needs a non-streaming request'')
      else None)"

definition begin_serve ::
  "(py_error \<Rightarrow> string) \<Rightarrow> (string \<Rightarrow> int list) \<Rightarrow> send_result \<Rightarrow> string \<Rightarrow> base_request \<Rightarrow> int list \<Rightarrow> bool \<Rightarrow> string \<Rightarrow> 'ds async_llm \<Rightarrow>
     (api_error + string \<times> nat \<times> nat) \<times> 'ds async_llm" where
  "begin_serve show_error encode res model b toks chat uuid a =
     (case check_serve model b a of
        Some err \<Rightarrow> (Inl err, a)
      | None \<Rightarrow>
          (case request_params b of
             Inl err \<Rightarrow> (Inl (Raises err), a)
           | Inr sp \<Rightarrow>
               let rid = (if chat then ''chatcmpl-'' else ''cmpl-'') @ uuid
               in case begin_add_request show_error encode res (Ids toks) sp (Some rid) uuid a of
                    (Inl err, a1) \<Rightarrow> (Inl (Raises err), a1)
                  | (Inr x, a1) \<Rightarrow> (Inr x, a1)))"

text \<open>
  The reply, once the stream of the request is over or the client left: \<open>_unless_disconnected\<close>
  answers \<open>None\<close> when the client left before the work was done.
\<close>

datatype reply = Events "event list" | Body response | ErrorStatus "nat \<times> string \<times> string" | Gone

definition serve_reply ::
  "string \<Rightarrow> base_request \<Rightarrow> int \<Rightarrow> bool \<Rightarrow> string \<Rightarrow> int \<Rightarrow> bool \<Rightarrow> request_output list \<Rightarrow> stream_end \<Rightarrow> reply option" where
  "serve_reply model b num_prompt chat rid created disconnected outs e =
     (let (ds, en, ab) = deltas outs e (new_stop_checker (stop_strings b)) 0
      in if br_stream b then
           (case stream_events ds en rid created model b num_prompt chat of
              (evs, DeltasDone) \<Rightarrow> Some (Events evs)
            | (evs, DeltasRaise err) \<Rightarrow> Some (Events evs)
            | (evs, DeltasWait) \<Rightarrow> None)
         else if disconnected then Some Gone
         else case en of
                DeltasDone \<Rightarrow> Some (Body (collect_reply ds rid created model num_prompt chat))
              | DeltasRaise err \<Rightarrow> Some (ErrorStatus (error_reply err))
              | DeltasWait \<Rightarrow> None)"

section \<open>The proxy\<close>

text \<open>\<open>_disaggregate\<close>: the two bodies, and what is relayed.\<close>

definition prefill_body :: "(string, json) dict \<Rightarrow> (string, json) dict" where
  "prefill_body body =
     dict_del (dict_put (dict_put (dict_put body ''max_tokens'' (JInt 1)) ''stream'' (JBool False))
       ''kv_transfer_params'' (JObj [(''do_remote_decode'', JBool True)])) ''stream_options''"

definition decode_body :: "(string, json) dict \<Rightarrow> (string, json) dict \<Rightarrow> (string, json) dict" where
  "decode_body body prefill_reply =
     (case map_of prefill_reply ''kv_transfer_params'' of
        Some v \<Rightarrow> if truthy v then dict_put body ''kv_transfer_params'' v else body
      | None \<Rightarrow> body)"

datatype relayed = RelayPrefill nat | RelayDecode nat | StreamDecode

definition disaggregate ::
  "((string, json) dict \<Rightarrow> nat \<times> (string, json) dict) \<Rightarrow> ((string, json) dict \<Rightarrow> nat) \<Rightarrow> (string, json) dict \<Rightarrow> relayed" where
  "disaggregate prefill dec body =
     (case prefill (prefill_body body) of
        (code, reply) \<Rightarrow>
          if code \<noteq> 200 then RelayPrefill code
          else let up = dec (decode_body body reply)
               in if up \<noteq> 200 \<or> \<not> get_truthy body ''stream'' then RelayDecode up else StreamDecode)"

text \<open>\<open>itertools.cycle\<close>: the server of the \<open>i\<close>-th request.\<close>

definition cycle_nth :: "string list \<Rightarrow> nat \<Rightarrow> string" where
  "cycle_nth urls i = urls ! (i mod length urls)"

definition proxy_health :: "(string \<Rightarrow> bool) \<Rightarrow> string list \<Rightarrow> string list \<Rightarrow> string option" where
  "proxy_health ok prefill_urls decode_urls = List.find (\<lambda>u. \<not> ok u) (prefill_urls @ decode_urls)"

section \<open>Streamed and whole replies\<close>

text \<open>What a stream yields: only its last output may be a final one, and it returns only on one.\<close>

definition yields :: "request_output list \<Rightarrow> stream_end \<Rightarrow> bool" where
  "yields outs e \<longleftrightarrow> (\<forall>out \<in> set (butlast outs). \<not> ro_finished out) \<and> (e = Returned \<longrightarrow> outs \<noteq> [] \<and> ro_finished (last outs))"

lemma aiter_yields: "aiter q = (outs, e) \<Longrightarrow> yields outs e"
proof (induction q arbitrary: outs)
  case (Cons x q)
  show ?case
  proof (cases x)
    case (Output out)
    show ?thesis
    proof (cases "ro_finished out")
      case False
      then obtain outs' where "aiter q = (outs', e)" "outs = out # outs'" using Cons.prems Output by (auto split: prod.splits)
      then show ?thesis using Cons.IH [of outs'] False by (auto simp: yields_def)
    qed (use Cons.prems Output in \<open>auto simp: yields_def\<close>)
  qed (use Cons.prems in \<open>auto simp: yields_def\<close>)
qed (auto simp: yields_def)

lemma yields_Cons: "yields (out # outs) e \<Longrightarrow> \<not> ro_finished out \<Longrightarrow> yields outs e"
  by (cases outs) (auto simp: yields_def)

lemma yields_last: "yields (out # outs) e \<Longrightarrow> ro_finished out \<Longrightarrow> outs = []"
  by (cases outs) (auto simp: yields_def)

lemma deltas_cut:
  "yields outs e \<Longrightarrow> deltas outs e ck n = (ds, DeltasDone, ab) \<Longrightarrow> pushes (map ro_text outs) ck = (t, ck') \<Longrightarrow>
   ds \<noteq> [] \<and> (\<forall>d \<in> set (butlast ds). d_reason d = None) \<and> d_reason (last ds) \<in> Some ` {''stop'', ''length''} \<and>
   matched ck' = ab \<and> concat (map d_text ds) = (if ab then t else t @ fst (flush ck')) \<and>
   (\<not> ab \<longrightarrow> d_num_tokens (last ds) = n + (\<Sum>out \<leftarrow> outs. py_len (ro_token_ids out)))"
proof (induction outs arbitrary: ck n ds t)
  case Nil
  then show ?case by (cases e) (auto simp: yields_def)
next
  case (Cons out outs)
  obtain tx ck1 where p: "push (ro_text out) ck = (tx, ck1)" by fastforce
  consider (stop) "matched ck1" | (fin) "\<not> matched ck1" "ro_finished out" | (more) "\<not> matched ck1" "\<not> ro_finished out" by blast
  then show ?case
  proof cases
    case stop
    then show ?thesis using Cons.prems(2,3) p by (auto simp: Let_def)
  next
    case fin
    have o: "outs = []" by (rule yields_last [OF Cons.prems(1) fin(2)])
    have r: "map_of FINISH_REASONS x = Some y \<Longrightarrow> y \<in> {''stop'', ''length''}" for x y
      by (auto simp: FINISH_REASONS_def split: if_splits)
    show ?thesis using Cons.prems(2,3) p fin unfolding o by (auto simp: Let_def bind_eq_Some_conv split: option.splits dest!: r)
  next
    case more
    let ?n1 = "n + py_len (ro_token_ids out)"
    obtain ds1 where d: "deltas outs e ck1 ?n1 = (ds1, DeltasDone, ab)"
      and ds: "ds = (if tx \<noteq> [] then \<lparr>d_text = tx, d_reason = None, d_num_tokens = ?n1, d_kv = None\<rparr> # ds1 else ds1)"
      using Cons.prems(2) p more by (auto simp: Let_def split: prod.splits)
    obtain t1 where t: "pushes (map ro_text outs) ck1 = (t1, ck')" "t = tx @ t1" using Cons.prems(3) p more by (auto simp: Let_def split: prod.splits)
    note ih = Cons.IH [OF yields_Cons [OF Cons.prems(1) more(2)] d t(1)]
    then show ?thesis unfolding ds t(2) by (auto simp: algebra_simps)
  qed
qed

lemma collect_deltas:
  "(\<forall>d \<in> set (butlast ds). d_reason d = None) \<Longrightarrow> ds \<noteq> [] \<Longrightarrow> d_reason (last ds) = Some r \<Longrightarrow> r \<noteq> [] \<Longrightarrow>
   fold collect_delta ds (tx, reason, n, kv) = (tx @ concat (map d_text ds), r, d_num_tokens (last ds), d_kv (last ds))"
proof (induction ds arbitrary: tx reason n kv)
  case (Cons d ds)
  show ?case
  proof (cases "ds = []")
    case False
    then have "d_reason d = None" "\<forall>x \<in> set (butlast ds). d_reason x = None" using Cons.prems(1) by simp_all
    then show ?thesis using Cons.IH [of "tx @ d_text d" reason "d_num_tokens d" "d_kv d"] Cons.prems False by (simp add: collect_delta_def [of d])
  qed (use Cons.prems in \<open>simp add: collect_delta_def\<close>)
qed simp

text \<open>The text a client reads out of a stream, and out of a whole reply.\<close>

fun choice_text :: "choice \<Rightarrow> string" where
  "choice_text (TextChoice t _) = t"
| "choice_text (MessageChoice _ t _) = t"
| "choice_text (DeltaChoice _ t _) = t"

fun choice_reason :: "choice \<Rightarrow> string option" where
  "choice_reason (TextChoice _ r) = r"
| "choice_reason (MessageChoice _ _ r) = r"
| "choice_reason (DeltaChoice _ _ r) = r"

definition event_choices :: "event list \<Rightarrow> choice list" where
  "event_choices evs = concat (map (\<lambda>ev. case ev of Chunk r \<Rightarrow> rp_choices r | _ \<Rightarrow> []) evs)"

lemma event_choices_simps [simp]:
  "event_choices [] = []" "event_choices (xs @ ys) = event_choices xs @ event_choices ys" "event_choices [DoneEvent] = []"
  "event_choices [stream_chunk rid created model chat cs u] = cs"
  "event_choices (map (\<lambda>d. stream_chunk rid created model chat [f d] None) ds) = map f ds"
  by (simp_all add: event_choices_def stream_chunk_def comp_def)

text \<open>
  C39: a streamed and a whole reply say the same.  For any outputs of a request's stream that end
  well, the text of the chunks, joined, is the text of the whole reply: all the text of the
  outputs when no stop string occurs in it, and otherwise exactly what comes before the first
  one.  Both carry the same finish reason, in the stream with the last chunk alone, and the stream
  ends with its one ``done'' event.
\<close>

theorem stream_says_the_reply:
  assumes "aiter q = (outs, e)" and "deltas outs e (new_stop_checker (stop_strings b)) 0 = (ds, DeltasDone, ab)"
    and "stream_events ds DeltasDone rid created model b np chat = (evs, en)"
  shows "\<exists>text reason. map choice_text (rp_choices (collect_reply ds rid created model np chat)) = [text] \<and>
      map choice_reason (rp_choices (collect_reply ds rid created model np chat)) = [Some reason] \<and>
      concat (map choice_text (event_choices evs)) = text \<and> choice_reason (last (event_choices evs)) = Some reason \<and>
      (\<forall>c \<in> set (butlast (event_choices evs)). choice_reason c = None) \<and>
      last evs = DoneEvent \<and> DoneEvent \<notin> set (butlast evs) \<and>
      (let st = filter (\<lambda>s. s \<noteq> []) (stop_strings b); texts = map ro_text outs
       in if ab then \<exists>n \<le> length texts. first_stop st (concat (take n texts)) = Some (length text) \<and> text = take (length text) (concat texts) \<and>
                       (\<forall>m < n. first_stop st (concat (take m texts)) = None)
          else first_stop st (concat texts) = None \<and> text = concat texts)"
proof -
  obtain t ck' where p: "pushes (map ro_text outs) (new_stop_checker (stop_strings b)) = (t, ck')" by fastforce
  note d = deltas_cut [OF aiter_yields [OF assms(1)] assms(2) p]
  obtain r where r: "d_reason (last ds) = Some r" "r \<noteq> []" using d by auto
  have c: "fold collect_delta ds ([], ''stop'', 0, None) = (concat (map d_text ds), r, d_num_tokens (last ds), d_kv (last ds))"
    using collect_deltas [of ds r "[]" "''stop''" 0 None] d r by simp
  define F where "F = (if chat then [stream_chunk rid created model chat [stream_choice chat [] None (Some ''assistant'')] None] else [])"
  define U where "U = (if include_usage b then [stream_chunk rid created model chat [] (Some (usage_of np (if ds = [] then 0 else d_num_tokens (last ds))))] else [])"
  have evs: "evs = F @ map (\<lambda>d. stream_chunk rid created model chat [stream_choice chat (d_text d) (d_reason d) None] None) ds @ U @ [DoneEvent]"
    using assms(3) by (auto simp: stream_events_def F_def U_def Let_def)
  have ev: "event_choices evs = event_choices F @ map (\<lambda>d. stream_choice chat (d_text d) (d_reason d) None) ds"
    unfolding evs by (simp add: U_def)
  have f: "concat (map choice_text (event_choices F)) = []" "\<forall>c \<in> set (event_choices F). choice_reason c = None" by (simp_all add: F_def stream_choice_def)
  have sc: "choice_text (stream_choice chat x y z) = x" "choice_reason (stream_choice chat x y z) = y" for x y z by (simp_all add: stream_choice_def)
  have joined: "concat (map choice_text (event_choices evs)) = concat (map d_text ds)" unfolding ev by (simp add: f(1) comp_def sc(1))
  have lst: "choice_reason (last (event_choices evs)) = Some r" unfolding ev using d r(1) by (simp add: last_map sc(2))
  have bl: "\<forall>c \<in> set (butlast (event_choices evs)). choice_reason c = None"
    unfolding ev using d f(2) by (auto simp: butlast_append map_butlast [symmetric] sc(2))
  have dn: "last evs = DoneEvent" "DoneEvent \<notin> set (butlast evs)" unfolding evs by (auto simp: butlast_append F_def U_def stream_chunk_def)
  show ?thesis
    using pushes_cut [OF p] d joined lst bl dn by (intro exI [of _ "concat (map d_text ds)"] exI [of _ r]) (auto simp: collect_reply_def c Let_def)
qed

text \<open>Two outputs with a stop string across them, then what comes after it.\<close>

definition demo_text :: "string \<Rightarrow> bool \<Rightarrow> request_output" where
  "demo_text t fin = \<lparr>ro_request_id = ''a'', ro_token_ids = [1], ro_text = t, ro_finished = fin,
     ro_finish_reason = (if fin then Some ''length'' else None), ro_metrics = None, ro_kv_transfer_params = None\<rparr>"

definition demo_body :: base_request where
  "demo_body = \<lparr>br_model = ''m'', br_max_tokens = 8, br_temperature = 0, br_top_p = None, br_top_k = None, br_stream = True,
     br_stream_options = Some True, br_stop = Some (OneStop ''cd''), br_n = 1, br_ignore_eos = False, br_priority = 0,
     br_kv_transfer_params = None\<rparr>"

definition demo_queue :: "item list" where
  "demo_queue = [Output (demo_text ''ab'' False), Output (demo_text ''bc'' False), Output (demo_text ''de'' True)]"

definition demo_deltas :: "delta list \<times> deltas_end \<times> bool" where
  "demo_deltas = deltas (fst (aiter demo_queue)) (snd (aiter demo_queue)) (new_stop_checker (stop_strings demo_body)) 0"

definition demo_events :: "event list \<times> deltas_end" where
  "demo_events = stream_events (fst demo_deltas) DeltasDone ''id'' 0 ''m'' demo_body 5 True"

theorem stream_says_the_reply_witness:
  "concat (map choice_text (event_choices (fst demo_events))) = ''abb'' \<and>
   map choice_text (rp_choices (collect_reply (fst demo_deltas) ''id'' 0 ''m'' 5 True)) = [''abb'']"
proof -
  have a: "aiter demo_queue = (fst (aiter demo_queue), snd (aiter demo_queue))" by simp
  have d: "deltas (fst (aiter demo_queue)) (snd (aiter demo_queue)) (new_stop_checker (stop_strings demo_body)) 0 = (fst demo_deltas, DeltasDone, True)"
  proof -
    have "snd demo_deltas = (DeltasDone, True)" by code_simp
    then show ?thesis unfolding demo_deltas_def by (metis prod.collapse)
  qed
  have s: "stream_events (fst demo_deltas) DeltasDone ''id'' 0 ''m'' demo_body 5 True = (fst demo_events, snd demo_events)" by (simp add: demo_events_def)
  have "concat (map choice_text (event_choices (fst demo_events))) = ''abb''" by code_simp
  then show ?thesis using stream_says_the_reply [OF a d s] by auto
qed

end
