(* ===== verification/Paged_Attention.thy ===== *)
theory Paged_Attention
  imports Drafting Runner_Properties
begin

text \<open>
  \<open>attention/torch_backend.py\<close>, the reference backend, with \<open>AttentionBackend.forward\<close> of
  \<open>attention/abstract.py\<close> and \<open>Attention.attend\<close> of \<open>layers/attention.py\<close>.  A token's query, key or value is
  the list of its heads' vectors; a cache is the list of its blocks, a block the list of its tokens.
  \<open>F.scaled_dot_product_attention\<close> is a parameter: what it makes of one query vector, the key and value
  vectors of its head, and the mask over them.  The output tensor \<open>out\<close> is the result.
\<close>

section \<open>The cache\<close>

type_synonym head_vec = "rat list"
type_synonym token = "head_vec list"
type_synonym paged_cache = "token list list"

text \<open>\<open>cache[blocks, offsets] = rows\<close>, by block and offset.\<close>

definition put_token :: "int \<times> 'a \<Rightarrow> 'a list list \<Rightarrow> 'a list list res" where
  "put_token = (\<lambda>(slot, x) cache.
     let bs = int (length (hd cache)); b = slot div bs; off = slot mod bs
     in if int (length cache) \<le> b then Inl IndexError
        else Inr (cache[nat b := (cache ! nat b)[nat off := x]]))"

definition store_rows :: "'a list \<Rightarrow> int list \<Rightarrow> 'a list list \<Rightarrow> 'a list list res" where
  "store_rows xs slots cache = foldE put_token (filter (\<lambda>(slot, _). 0 \<le> slot) (zip slots xs)) cache"

definition store_kvcache :: "token list \<Rightarrow> token list \<Rightarrow> paged_cache \<Rightarrow> paged_cache \<Rightarrow> int list \<Rightarrow> (paged_cache \<times> paged_cache) res" where
  "store_kvcache key val k_cache v_cache slot_mapping =
     bindE (assertE (length slot_mapping = length key)) (\<lambda>_.
     bindE (store_rows key slot_mapping k_cache) (\<lambda>k_cache.
     bindE (store_rows val slot_mapping v_cache) (\<lambda>v_cache. Inr (k_cache, v_cache))))"

text \<open>Latents go to a flat view of their cache.\<close>

definition store_latents :: "'a list \<Rightarrow> 'a list list \<Rightarrow> int list \<Rightarrow> 'a list list res" where
  "store_latents latent latent_cache slot_mapping =
     bindE (assertE (length slot_mapping = length latent)) (\<lambda>_. store_rows latent slot_mapping latent_cache)"

section \<open>Padding\<close>

definition pad_rows :: "'a list \<Rightarrow> int list \<Rightarrow> int \<Rightarrow> 'a list list res" where
  "pad_rows x cu max_seqlen =
     mapE (\<lambda>c. mapE (\<lambda>j. py_get x (min (c + j) (int (length x) - 1))) [0..max_seqlen - 1]) (butlast cu)"

definition unpad_rows :: "'a list list \<Rightarrow> int list \<Rightarrow> nat \<Rightarrow> 'a list res" where
  "unpad_rows x cu ntok =
     mapE (\<lambda>t. let row = int (searchsorted_right cu (int t)) - 1
               in bindE (py_get cu row) (\<lambda>c. bindE (py_get x row) (\<lambda>xs. py_get xs (int t - c)))) [0..<ntok]"

definition zero_token :: "token \<Rightarrow> token" where
  "zero_token = map (map (\<lambda>_. 0))"

definition gather_row :: "paged_cache \<Rightarrow> int \<Rightarrow> int list \<Rightarrow> int \<Rightarrow> token list res" where
  "gather_row cache seqlen bids n =
     bindE (mapE (\<lambda>b. py_get cache (max 0 b)) bids) (\<lambda>pages.
     Inr (map (\<lambda>(p, t). if n \<le> int p then zero_token t else t) (List.enumerate 0 (take (nat seqlen) (concat pages)))))"

definition gather_pages :: "paged_cache \<Rightarrow> int list list \<Rightarrow> int \<Rightarrow> int list \<Rightarrow> token list list res" where
  "gather_pages cache block_tables seqlen seqlens =
     (let block_size = int (length (hd cache)); num_blocks = (seqlen + block_size - 1) div block_size
      in mapE (\<lambda>(table, n). gather_row cache seqlen (take (nat num_blocks) table) n) (zip block_tables seqlens))"

definition key_mask :: "int list \<Rightarrow> int \<Rightarrow> bool list list" where
  "key_mask seqlens_k max_seqlen_k = map (\<lambda>n. map (\<lambda>p. p < n) [0..max_seqlen_k - 1]) seqlens_k"

definition attn_mask :: "int list \<Rightarrow> int list \<Rightarrow> int \<Rightarrow> int \<Rightarrow> bool \<Rightarrow> bool list list list" where
  "attn_mask cu_q cu_k max_q max_k causal =
     (let seqlens_q = row_lens cu_q; seqlens_k = row_lens cu_k; keys = key_mask seqlens_k max_k
      in if \<not> causal then map (\<lambda>m. [m]) keys
         else map2 (\<lambda>m d. map (\<lambda>j. map2 (\<and>) m (map (\<lambda>p. p \<le> d + j) [0..max_k - 1])) [0..max_q - 1]) keys (map2 (-) seqlens_k seqlens_q))"

section \<open>Attention\<close>

type_synonym dot_product_attention = "head_vec \<Rightarrow> head_vec list \<Rightarrow> head_vec list \<Rightarrow> bool list \<Rightarrow> head_vec"

record torch_backend =
  tb_num_heads :: nat
  tb_num_kv_heads :: nat

text \<open>
  \<open>_sdpa\<close> on one row of the batch.  The query heads that share a key head are packed into one longer
  sequence of queries, \<open>b lq (hkv g) d -> b hkv (g lq) d\<close>, and unpacked again.
\<close>

definition pack_queries :: "nat \<Rightarrow> nat \<Rightarrow> token list \<Rightarrow> head_vec list" where
  "pack_queries grp hkv q = concat (map (\<lambda>g. map (\<lambda>t. t ! (hkv * grp + g)) q) [0..<grp])"

definition unpack_heads :: "nat \<Rightarrow> nat \<Rightarrow> nat \<Rightarrow> head_vec list list \<Rightarrow> token list" where
  "unpack_heads num_kv_heads grp lq o_heads =
     map (\<lambda>l. concat (map (\<lambda>hkv. map (\<lambda>g. o_heads ! hkv ! (g * lq + l)) [0..<grp]) [0..<num_kv_heads])) [0..<lq]"

definition sdpa_row :: "dot_product_attention \<Rightarrow> torch_backend \<Rightarrow> token list \<Rightarrow> token list \<Rightarrow> token list \<Rightarrow> bool list list \<Rightarrow> token list" where
  "sdpa_row sdp be q k v msk =
     (let grp = tb_num_heads be div tb_num_kv_heads be; masks = concat (replicate grp msk)
      in unpack_heads (tb_num_kv_heads be) grp (length q)
           (map (\<lambda>hkv. map2 (\<lambda>x m. sdp x (map (\<lambda>t. t ! hkv) k) (map (\<lambda>t. t ! hkv) v) m) (pack_queries grp hkv q) masks)
              [0..<tb_num_kv_heads be]))"

definition sdpa :: "dot_product_attention \<Rightarrow> torch_backend \<Rightarrow> token list list \<Rightarrow> token list list \<Rightarrow> token list list \<Rightarrow> bool list list list \<Rightarrow> token list list" where
  "sdpa sdp be q k v msk = map (\<lambda>(q, k, v, m). sdpa_row sdp be q k v m) (zip q (zip k (zip v msk)))"

definition torch_prefill ::
  "dot_product_attention \<Rightarrow> torch_backend \<Rightarrow> token list \<Rightarrow> token list \<Rightarrow> token list \<Rightarrow> paged_cache \<Rightarrow> paged_cache \<Rightarrow> attn_context \<Rightarrow> token list res" where
  "torch_prefill sdp be q k v k_cache v_cache c =
     bindE (pad_rows q (cx_cu_q c) (cx_max_q c)) (\<lambda>q_pad.
     bindE (case cx_tables c of
              Some tables \<Rightarrow> gather_pages k_cache tables (cx_max_k c) (row_lens (cx_cu_k c))
            | None \<Rightarrow> pad_rows k (cx_cu_k c) (cx_max_k c)) (\<lambda>k_pad.
     bindE (case cx_tables c of
              Some tables \<Rightarrow> gather_pages v_cache tables (cx_max_k c) (row_lens (cx_cu_k c))
            | None \<Rightarrow> pad_rows v (cx_cu_k c) (cx_max_k c)) (\<lambda>v_pad.
     unpad_rows (sdpa sdp be q_pad k_pad v_pad (attn_mask (cx_cu_q c) (cx_cu_k c) (cx_max_q c) (cx_max_k c) True))
       (cx_cu_q c) (length q))))"

definition torch_decode ::
  "dot_product_attention \<Rightarrow> torch_backend \<Rightarrow> token list \<Rightarrow> paged_cache \<Rightarrow> paged_cache \<Rightarrow> attn_context \<Rightarrow> token list res" where
  "torch_decode sdp be q k_cache v_cache c =
     (case cx_tables c of
        None \<Rightarrow> Inl AssertionError
      | Some tables \<Rightarrow>
          (let max_seqlen_k = int (length (hd tables)) * int (length (hd k_cache))
           in bindE (gather_pages k_cache tables max_seqlen_k (cx_lens c)) (\<lambda>k.
              bindE (gather_pages v_cache tables max_seqlen_k (cx_lens c)) (\<lambda>v.
              Inr (concat (sdpa sdp be (map (\<lambda>x. [x]) q) k v (map (\<lambda>m. [m]) (key_mask (cx_lens c) max_seqlen_k))))))))"

text \<open>\<open>AttentionBackend.forward\<close> of a backend that splits decode rows off, as this one does.\<close>

definition backend_forward ::
  "dot_product_attention \<Rightarrow> torch_backend \<Rightarrow> token list \<Rightarrow> token list \<Rightarrow> token list \<Rightarrow> paged_cache \<Rightarrow> paged_cache \<Rightarrow> attn_context \<Rightarrow> token list res" where
  "backend_forward sdp be q k v k_cache v_cache c =
     (if \<not> cx_is_prefill c then torch_decode sdp be q k_cache v_cache c
      else case split_decodes_and_prefills c 1 of
             (n, None, None) \<Rightarrow> Inl AssertionError
           | (n, None, Some prefills) \<Rightarrow> torch_prefill sdp be q k v k_cache v_cache prefills
           | (n, Some decodes, None) \<Rightarrow> torch_decode sdp be q k_cache v_cache decodes
           | (n, Some decodes, Some prefills) \<Rightarrow>
               bindE (torch_decode sdp be (take n q) k_cache v_cache decodes) (\<lambda>o1.
               bindE (torch_prefill sdp be (drop n q) (drop n k) (drop n v) k_cache v_cache prefills) (\<lambda>o2. Inr (o1 @ o2))))"

text \<open>\<open>Attention.attend\<close>; before the cache is bound, in warmup, there is none to write to.\<close>

definition attend ::
  "dot_product_attention \<Rightarrow> torch_backend \<Rightarrow> token list \<Rightarrow> token list \<Rightarrow> token list \<Rightarrow> attn_context \<Rightarrow> paged_cache \<times> paged_cache \<Rightarrow>
     (token list \<times> paged_cache \<times> paged_cache) res" where
  "attend sdp be q k v c = (\<lambda>(k_cache, v_cache).
     bindE (if k_cache \<noteq> [] \<and> v_cache \<noteq> [] then
              case cx_slots c of None \<Rightarrow> Inl TypeError | Some slots \<Rightarrow> store_kvcache k v k_cache v_cache slots
            else Inr (k_cache, v_cache)) (\<lambda>(k_cache, v_cache).
     bindE (backend_forward sdp be q k v k_cache v_cache c) (\<lambda>o1. Inr (o1, k_cache, v_cache))))"

section \<open>Rows of a packed batch\<close>

text \<open>The end of each row, after \<open>0\<close>.\<close>

definition cu_of :: "nat list \<Rightarrow> int list" where
  "cu_of ns = cu_seqlens (map int ns)"

lemma sum_int: "sum_list (map int ns) = int (sum_list ns)"
  by (induction ns) simp_all

lemma cu_of_Nil [simp]: "cu_of [] = [0]"
  by (simp add: cu_of_def cu_seqlens_def)

lemma cu_of_snoc [simp]: "cu_of (ns @ [n]) = cu_of ns @ [int (sum_list ns + n)]"
  by (simp add: cu_of_def cu_seqlens_def take_map sum_int)

lemma length_cu_of [simp]: "length (cu_of ns) = Suc (length ns)"
  by (simp add: cu_of_def cu_seqlens_def)

lemma nth_cu_of: "i \<le> length ns \<Longrightarrow> cu_of ns ! i = int (sum_list (take i ns))"
  by (simp add: cu_of_def cu_seqlens_def take_map sum_int del: upt_Suc)

lemma row_lens_cu [simp]: "row_lens (cu_of ns) = map int ns"
proof (rule nth_equalityI)
  fix i assume "i < length (row_lens (cu_of ns))"
  then have "i < length ns" by (simp add: row_lens_def)
  then show "row_lens (cu_of ns) ! i = map int ns ! i"
    by (simp add: row_lens_def nth_tl nth_cu_of take_Suc_conv_app_nth)
qed (simp add: row_lens_def)

lemma cu_of_le: "c \<in> set (cu_of ns) \<Longrightarrow> c \<le> int (sum_list ns)"
  by (induction ns rule: rev_induct) auto

lemma searchsorted_row:
  assumes "t < sum_list ns"
  shows "\<exists>r < length ns. searchsorted_right (cu_of ns) (int t) = Suc r \<and> sum_list (take r ns) \<le> t \<and> t < sum_list (take r ns) + ns ! r"
  using assms
proof (induction ns rule: rev_induct)
  case (snoc n ns)
  show ?case
  proof (cases "t < sum_list ns")
    case True
    then obtain r where r: "r < length ns" "searchsorted_right (cu_of ns) (int t) = Suc r" "sum_list (take r ns) \<le> t" "t < sum_list (take r ns) + ns ! r"
      using snoc.IH by blast
    have "int (sum_list ns) \<in> set (cu_of ns)" using nth_cu_of [of "length ns" ns] nth_mem [of "length ns" "cu_of ns"] by simp
    then have "takeWhile (\<lambda>c. c \<le> int t) (cu_of ns @ [int (sum_list ns + n)]) = takeWhile (\<lambda>c. c \<le> int t) (cu_of ns)"
      using True by (intro takeWhile_append1) auto
    then show ?thesis using r by (intro exI [of _ r]) (simp add: searchsorted_right_def nth_append)
  next
    case False
    then have "takeWhile (\<lambda>c. c \<le> int t) (cu_of ns @ [int (sum_list ns + n)]) = cu_of ns"
      using snoc.prems cu_of_le [of _ ns] by (subst takeWhile_append2) force+
    then show ?thesis using False snoc.prems by (intro exI [of _ "length ns"]) (simp add: searchsorted_right_def)
  qed
qed simp

text \<open>Unpadding takes each row's own tokens and joins them.\<close>

lemma unpad_rows_concat:
  assumes "length x = length ns" "\<And>i. i < length ns \<Longrightarrow> ns ! i \<le> length (x ! i)"
  shows "unpad_rows x (cu_of ns) (sum_list ns) = Inr (concat (map2 take ns x))"
proof -
  let ?y = "map2 take ns x"
  have len: "map length ?y = ns" using assms by (intro nth_equalityI) auto
  have "(let row = int (searchsorted_right (cu_of ns) (int t)) - 1
      in bindE (py_get (cu_of ns) row) (\<lambda>c. bindE (py_get x row) (\<lambda>xs. py_get xs (int t - c)))) = Inr (concat ?y ! t)"
    if t: "t < sum_list ns" for t
  proof -
    obtain r where r: "r < length ns" "searchsorted_right (cu_of ns) (int t) = Suc r" "sum_list (take r ns) \<le> t" "t < sum_list (take r ns) + ns ! r"
      using searchsorted_row [OF t] by blast
    have "sum_list (map length (take r ?y)) = sum_list (take r ns)" using len by (metis take_map)
    then have "concat ?y ! t = ?y ! r ! (t - sum_list (take r ns))"
      using concat_nth [of r ?y "t - sum_list (take r ns)"] r assms by simp
    also have "\<dots> = x ! r ! (t - sum_list (take r ns))" using r assms(1) by simp
    finally show ?thesis using r assms(1) assms(2) [OF r(1)]
      by (simp add: py_simps nth_cu_of nat_diff_distrib')
  qed
  then have "unpad_rows x (cu_of ns) (sum_list ns) = Inr (map ((!) (concat ?y)) [0..<sum_list ns])"
    unfolding unpad_rows_def by (intro mapE_total) simp
  moreover have "length (concat ?y) = sum_list ns" using len by (simp add: length_concat)
  ultimately show ?thesis by (metis map_nth)
qed

lemma pad_rows_take:
  assumes "map length xss = ns" "\<And>n. n \<in> set ns \<Longrightarrow> 0 < n \<and> int n \<le> m"
  shows "\<exists>y. pad_rows (concat xss) (cu_of ns) m = Inr y \<and> length y = length ns \<and>
    (\<forall>i < length ns. length (y ! i) = nat m \<and> take (ns ! i) (y ! i) = xss ! i)"
proof -
  let ?x = "concat xss" and ?g = "\<lambda>c. map (\<lambda>j. concat xss ! nat (min (c + j) (int (length (concat xss)) - 1))) [0..m - 1]"
  have butl: "butlast (cu_of ns) = map (\<lambda>i. int (sum_list (take i ns))) [0..<length ns]"
    by (simp add: cu_of_def cu_seqlens_def take_map sum_int)
  have tot: "length ?x = sum_list ns" using assms(1) by (simp add: length_concat)
  have "mapE (\<lambda>j. py_get ?x (min (c + j) (int (length ?x) - 1))) [0..m - 1] = Inr (?g c)" if c: "c \<in> set (butlast (cu_of ns))" for c
  proof (rule mapE_total)
    fix j assume "j \<in> set [0..m - 1]"
    moreover obtain i where i: "i < length ns" "c = int (sum_list (take i ns))" using c by (auto simp: butl)
    moreover have "0 < ns ! i" using assms(2) i(1) by auto
    ultimately have "0 \<le> min (c + j) (int (length ?x) - 1)" "0 < length ?x"
      using tot elem_le_sum_list [OF i(1)] by auto
    then show "py_get ?x (min (c + j) (int (length ?x) - 1)) = Inr (?x ! nat (min (c + j) (int (length ?x) - 1)))"
      by (intro py_get_nonneg) auto
  qed
  then have pad: "pad_rows ?x (cu_of ns) m = Inr (map ?g (butlast (cu_of ns)))" unfolding pad_rows_def by (rule mapE_total)
  have "take (ns ! i) (?g (int (sum_list (take i ns)))) = xss ! i" if i: "i < length ns" for i
  proof (rule nth_equalityI)
    have lx: "length (xss ! i) = ns ! i" using assms(1) i by auto
    have m: "ns ! i \<le> nat m" using assms(2) [of "ns ! i"] i by auto
    then show "length (take (ns ! i) (?g (int (sum_list (take i ns))))) = length (xss ! i)" by (simp add: lx)
    fix a assume "a < length (take (ns ! i) (?g (int (sum_list (take i ns)))))"
    then have a: "a < ns ! i" by simp
    have "sum_list (take i ns) + ns ! i \<le> sum_list ns"
      using id_take_nth_drop [OF i] by (metis add.assoc le_add1 sum_list.Cons sum_list_append)
    then have "min (int (sum_list (take i ns)) + int a) (int (length ?x) - 1) = int (sum_list (take i ns) + a)" using a tot by simp
    moreover have "sum_list (map length (take i xss)) = sum_list (take i ns)" using assms(1) by (metis take_map)
    ultimately show "take (ns ! i) (?g (int (sum_list (take i ns)))) ! a = xss ! i ! a"
      using a m concat_nth [of i xss a] i lx assms(1) by (auto simp: nth_upto nat_int_add)
  qed
  then show ?thesis using pad by (intro exI [of _ "map ?g (butlast (cu_of ns))"]) (simp add: butl)
qed

section \<open>Heads\<close>

lemma concat_heads: "0 < g \<Longrightarrow> concat (map (\<lambda>k. map (\<lambda>i. f k (k * g + i)) [0..<g]) [0..<n]) = map (\<lambda>h. f (h div g) h) [0..<n * g]"
proof (rule nth_equalityI)
  assume g: "0 < g"
  let ?xss = "map (\<lambda>k. map (\<lambda>i. f k (k * g + i)) [0..<g]) [0..<n]"
  show len: "length (concat ?xss) = length (map (\<lambda>h. f (h div g) h) [0..<n * g])" by (simp add: length_concat comp_def sum_list_triv)
  fix h assume "h < length (concat ?xss)"
  then have h: "h < n * g" using len by simp
  then have "concat ?xss ! h = ?xss ! (h div g) ! (h mod g)" using g by (intro concat_same_length) auto
  then show "concat ?xss ! h = map (\<lambda>h. f (h div g) h) [0..<n * g] ! h" using h g by (simp add: less_mult_imp_div_less)
qed

lemma sdpa_row_heads:
  assumes "tb_num_heads be = tb_num_kv_heads be * g" "0 < g" "0 < tb_num_kv_heads be" "length msk = length q"
  shows "sdpa_row sdp be q k v msk =
    map (\<lambda>l. map (\<lambda>h. sdp (q ! l ! h) (map (\<lambda>t. t ! (h div g)) k) (map (\<lambda>t. t ! (h div g)) v) (msk ! l)) [0..<tb_num_heads be]) [0..<length q]"
proof -
  let ?o = "\<lambda>hkv. map2 (\<lambda>x m. sdp x (map (\<lambda>t. t ! hkv) k) (map (\<lambda>t. t ! hkv) v) m) (pack_queries g hkv q) (concat (replicate g msk))"
  have len: "length (pack_queries g hkv q) = g * length q" "length (concat (replicate g msk)) = g * length q" for hkv
    using assms(4) by (simp_all add: pack_queries_def length_concat comp_def sum_list_triv sum_list_replicate)
  have at: "?o hkv ! (i * length q + l) = sdp (q ! l ! (hkv * g + i)) (map (\<lambda>t. t ! hkv) k) (map (\<lambda>t. t ! hkv) v) (msk ! l)"
    if "i < g" "l < length q" for hkv i l
  proof -
    have "i * length q + l < g * length q" using that mult_le_mono1 [of "Suc i" g "length q"] by simp
    moreover have "concat (replicate g msk) ! (i * length q + l) = msk ! l"
      using that assms(4) concat_rows_nth [of i g l msk "\<lambda>_ x. x"] by (simp add: map_replicate_const)
    ultimately show ?thesis using that concat_rows_nth [of i g l q "\<lambda>i t. t ! (hkv * g + i)"] len by (simp add: pack_queries_def)
  qed
  have grp: "tb_num_heads be div tb_num_kv_heads be = g" using assms by simp
  have "concat (map (\<lambda>hkv. map (\<lambda>i. map ?o [0..<tb_num_kv_heads be] ! hkv ! (i * length q + l)) [0..<g]) [0..<tb_num_kv_heads be]) =
      concat (map (\<lambda>hkv. map (\<lambda>i. sdp (q ! l ! (hkv * g + i)) (map (\<lambda>t. t ! hkv) k) (map (\<lambda>t. t ! hkv) v) (msk ! l)) [0..<g]) [0..<tb_num_kv_heads be])"
    if "l < length q" for l
    using at that by (intro arg_cong [where f = concat] map_cong) auto
  moreover have "concat (map (\<lambda>hkv. map (\<lambda>i. sdp (q ! l ! (hkv * g + i)) (map (\<lambda>t. t ! hkv) k) (map (\<lambda>t. t ! hkv) v) (msk ! l)) [0..<g]) [0..<tb_num_kv_heads be]) =
      map (\<lambda>h. sdp (q ! l ! h) (map (\<lambda>t. t ! (h div g)) k) (map (\<lambda>t. t ! (h div g)) v) (msk ! l)) [0..<tb_num_heads be]" for l
    unfolding assms(1) by (rule concat_heads [OF assms(2), where f = "\<lambda>k' h. sdp (q ! l ! h) (map (\<lambda>t. t ! k') k) (map (\<lambda>t. t ! k') v) (msk ! l)"])
  ultimately show ?thesis
    unfolding sdpa_row_def Let_def grp unpack_heads_def by (intro map_cong) simp_all
qed

section \<open>Pages\<close>

definition cache_shape :: "nat \<Rightarrow> nat \<Rightarrow> 'a list list \<Rightarrow> bool" where
  "cache_shape bs nb cache \<longleftrightarrow> 0 < bs \<and> 0 < nb \<and> length cache = nb \<and> (\<forall>b \<in> set cache. length b = bs)"

definition read_slot :: "'a list list \<Rightarrow> int \<Rightarrow> 'a" where
  "read_slot cache slot = (let bs = int (length (hd cache)) in cache ! nat (slot div bs) ! nat (slot mod bs))"

lemma cache_shapeD:
  assumes "cache_shape bs nb cache"
  shows "0 < bs" "length cache = nb" "length (hd cache) = bs" "i < nb \<Longrightarrow> length (cache ! i) = bs"
  using assms by (auto simp: cache_shape_def hd_conv_nth)

lemma slot_place:
  assumes "0 < bs" "0 \<le> slot" "slot < int (nb * bs)"
  shows "0 \<le> slot div int bs" "nat (slot div int bs) < nb" "0 \<le> slot mod int bs" "nat (slot mod int bs) < bs"
proof -
  show "0 \<le> slot div int bs" "0 \<le> slot mod int bs" using assms by (simp_all add: pos_imp_zdiv_nonneg_iff)
  have "nat slot < nb * bs" using assms by (simp add: nat_less_iff)
  then have "nat slot div bs < nb" by (rule less_mult_imp_div_less)
  then show "nat (slot div int bs) < nb" using assms by (simp add: nat_div_distrib)
  show "nat (slot mod int bs) < bs" using assms by (simp add: nat_less_iff)
qed

lemma same_place:
  assumes "0 \<le> a" "0 \<le> b" "nat (a div int bs) = nat (b div int bs)" "nat (a mod int bs) = nat (b mod int bs)" "0 < bs"
  shows "a = b"
proof -
  have "a div int bs = b div int bs" "a mod int bs = b mod int bs"
    using assms by (simp_all add: eq_nat_nat_iff pos_imp_zdiv_nonneg_iff)
  then show ?thesis by (metis div_mult_mod_eq)
qed

lemma put_token_read:
  assumes "cache_shape bs nb cache" "0 \<le> slot" "slot < int (nb * bs)"
  shows "okE (put_token (slot, x) cache) (\<lambda>cache'. cache_shape bs nb cache' \<and> read_slot cache' slot = x \<and>
    (\<forall>s. 0 \<le> s \<longrightarrow> s < int (nb * bs) \<longrightarrow> s \<noteq> slot \<longrightarrow> read_slot cache' s = read_slot cache s))"
proof -
  note c = cache_shapeD [OF assms(1)] and p = slot_place [OF cache_shapeD(1) [OF assms(1)]]
  let ?new = "cache[nat (slot div int bs) := (cache ! nat (slot div int bs))[nat (slot mod int bs) := x]]"
  have shape: "cache_shape bs nb ?new"
    using assms(1) c p [OF assms(2,3)] by (auto simp: cache_shape_def dest!: set_update_subset_insert [THEN subsetD])
  then have hd: "length (hd ?new) = bs" by (rule cache_shapeD)
  have "read_slot ?new slot = x" using hd c p [OF assms(2,3)] by (simp add: read_slot_def Let_def)
  moreover have "read_slot ?new s = read_slot cache s" if "0 \<le> s" "s < int (nb * bs)" "s \<noteq> slot" for s
    using that same_place [OF that(1) assms(2) _ _ c(1)] hd c p [OF assms(2,3)] p [OF that(1,2)]
    by (auto simp: read_slot_def Let_def nth_list_update)
  moreover have "put_token (slot, x) cache = Inr ?new" using c p [OF assms(2,3)] by (simp add: put_token_def Let_def)
  ultimately show ?thesis using shape by simp
qed

lemma store_rows_read:
  assumes "cache_shape bs nb cache" "length xs = length slots" "\<forall>s \<in> set slots. 0 \<le> s \<and> s < int (nb * bs)" "distinct slots"
  shows "okE (store_rows xs slots cache) (\<lambda>cache'. cache_shape bs nb cache' \<and> (\<forall>j < length xs. read_slot cache' (slots ! j) = xs ! j) \<and>
    (\<forall>s. 0 \<le> s \<longrightarrow> s < int (nb * bs) \<longrightarrow> s \<notin> set slots \<longrightarrow> read_slot cache' s = read_slot cache s))"
  using assms(2,1,3,4)
proof (induction xs slots arbitrary: cache rule: list_induct2)
  case (Cons x xs slot slots)
  then obtain cache1 where c1: "put_token (slot, x) cache = Inr cache1" "cache_shape bs nb cache1" "read_slot cache1 slot = x"
      "\<And>s. 0 \<le> s \<Longrightarrow> s < int (nb * bs) \<Longrightarrow> s \<noteq> slot \<Longrightarrow> read_slot cache1 s = read_slot cache s"
    using put_token_read [of bs nb cache slot x] by (auto simp: okE_iff)
  then obtain cache2 where c2: "store_rows xs slots cache1 = Inr cache2" "cache_shape bs nb cache2"
      "\<And>j. j < length xs \<Longrightarrow> read_slot cache2 (slots ! j) = xs ! j"
      "\<And>s. 0 \<le> s \<Longrightarrow> s < int (nb * bs) \<Longrightarrow> s \<notin> set slots \<Longrightarrow> read_slot cache2 s = read_slot cache1 s"
    using Cons.IH [of cache1] Cons.prems by (auto simp: okE_iff)
  have "store_rows (x # xs) (slot # slots) cache = Inr cache2" using c1(1) c2(1) Cons.prems(2) by (simp add: store_rows_def)
  moreover have "read_slot cache2 ((slot # slots) ! j) = (x # xs) ! j" if "j < length (x # xs)" for j
    using that c1(3) c2(3,4) Cons.prems by (cases j) auto
  ultimately show ?case using c1(4) c2(2,4) by auto
qed (simp add: store_rows_def)

definition table_slot :: "nat \<Rightarrow> int list \<Rightarrow> nat \<Rightarrow> int" where
  "table_slot bs table p = table ! (p div bs) * int bs + int (p mod bs)"

lemma read_table_slot:
  assumes "length (hd cache) = bs" "0 < bs" "0 \<le> table ! (p div bs)"
  shows "read_slot cache (table_slot bs table p) = cache ! nat (table ! (p div bs)) ! (p mod bs)"
  using assms by (simp add: read_slot_def table_slot_def Let_def)

lemma take_is_map: "n \<le> length ks \<Longrightarrow> (\<And>p. p < n \<Longrightarrow> ks ! p = f p) \<Longrightarrow> take n ks = map f [0..<n]"
  by (rule nth_equalityI) simp_all

lemma gather_row_read:
  assumes "cache_shape bs nb cache" "\<forall>b \<in> set table. b < int nb" "M \<le> length table * bs" "n \<le> M"
    and "\<And>p. p < n \<Longrightarrow> 0 \<le> table ! (p div bs)"
  shows "\<exists>ks. gather_row cache (int M) (take (nat ((int M + int bs - 1) div int bs)) table) (int n) = Inr ks \<and> length ks = M \<and>
    take n ks = map (\<lambda>p. read_slot cache (table_slot bs table p)) [0..<n]"
proof -
  note c = cache_shapeD [OF assms(1)]
  let ?B = "(M + bs - 1) div bs" let ?pages = "map (\<lambda>b. cache ! nat (max 0 b)) (take ?B table)"
  have "int M + int bs - 1 = int (M + bs - 1)" using c(1) by simp
  then have B: "nat ((int M + int bs - 1) div int bs) = ?B" by (simp only: nat_int flip: of_nat_div)
  have le: "M \<le> ?B * bs" using div_mult_mod_eq [of "M + bs - 1" bs] mod_less_divisor [OF c(1), of "M + bs - 1"] by linarith
  have "M + bs - 1 < Suc (length table) * bs" using assms(3) c(1) by simp
  then have "?B \<le> length table" by (metis less_Suc_eq_le less_mult_imp_div_less)
  then have len: "length ?pages = ?B" by simp
  have pg: "max 0 b < int nb" if "b \<in> set (take ?B table)" for b
    using that assms(1,2) by (auto simp: cache_shape_def dest: in_set_takeD)
  have get: "mapE (\<lambda>b. py_get cache (max 0 b)) (take ?B table) = Inr ?pages"
    using pg c(2) by (intro mapE_total py_get_nonneg) auto
  have pl: "\<forall>b \<in> set ?pages. length b = bs" using pg c(4) by (auto simp: nat_less_iff)
  then have lc: "length (concat ?pages) = ?B * bs"
    using len by (simp add: length_concat sum_list_triv cong: map_cong)
  let ?ks = "map (\<lambda>(p, t). if int n \<le> int p then zero_token t else t) (List.enumerate 0 (take M (concat ?pages)))"
  have "?ks ! p = read_slot cache (table_slot bs table p)" if p: "p < n" for p
  proof -
    have "p < ?B * bs" using p assms(4) le by simp
    then have "concat ?pages ! p = ?pages ! (p div bs) ! (p mod bs)" "p div bs < ?B"
      using concat_same_length [OF pl c(1)] len by (simp_all add: less_mult_imp_div_less)
    moreover have "?ks ! p = concat ?pages ! p" using p assms(4) le lc by (simp add: nth_enumerate_eq)
    ultimately show ?thesis using read_table_slot [OF c(3,1) assms(5) [OF p]] assms(5) [OF p] len by simp
  qed
  moreover have lks: "length ?ks = M" using le lc by simp
  ultimately have "take n ?ks = map (\<lambda>p. read_slot cache (table_slot bs table p)) [0..<n]" using assms(4) by (intro take_is_map) auto
  then show ?thesis using lks unfolding B gather_row_def get by auto
qed

section \<open>Masks\<close>

text \<open>The entries a mask leaves.\<close>

definition chosen :: "'a list \<Rightarrow> bool list \<Rightarrow> 'a list" where
  "chosen xs m = map fst (filter snd (zip xs m))"

lemma upto_int: "[0..int M - 1] = map int [0..<M]"
  by (induction M) (simp_all add: upto_rec2)

lemma chosen_take: "e \<le> length xs \<Longrightarrow> chosen xs (map (\<lambda>p. p < e) [0..<length xs]) = take e xs"
proof (induction xs rule: rev_induct)
  case (snoc x xs)
  have "chosen xs (map (\<lambda>p. p < e) [0..<length xs]) = take e xs"
  proof (cases "e \<le> length xs")
    case False
    then have "map (\<lambda>p. p < e) [0..<length xs] = map (\<lambda>p. True) [0..<length xs]" by simp
    then show ?thesis using False by (simp add: chosen_def map_replicate_const zip_replicate2 comp_def)
  qed (rule snoc.IH)
  then show ?case using snoc.prems by (auto simp: chosen_def)
qed (simp add: chosen_def)

lemma chosen_prefix: "length xs = M \<Longrightarrow> e \<le> M \<Longrightarrow> chosen xs (map (\<lambda>p. p < int e) [0..int M - 1]) = take e xs"
  using chosen_take [of e xs] by (simp add: upto_int comp_def)

lemma causal_mask_row:
  assumes "e = Suc (s + j)" "e \<le> n"
  shows "map2 (\<and>) (map (\<lambda>p. p < int n) ps) (map (\<lambda>p. p \<le> int s + int j) ps) = map (\<lambda>p. p < int e) ps"
  using assms by (auto simp: map2_maps)

section \<open>Attention of one row\<close>

text \<open>
  What is documented of a boolean mask: a key it is \<open>False\<close> for takes no part.  \<open>att\<close> is attention
  over all the keys it is given.
\<close>

type_synonym attention_core = "head_vec \<Rightarrow> head_vec list \<Rightarrow> head_vec list \<Rightarrow> head_vec"

definition masked_attention :: "dot_product_attention \<Rightarrow> attention_core \<Rightarrow> bool" where
  "masked_attention sdp att \<longleftrightarrow>
     (\<forall>x ks vs m. length ks = length m \<longrightarrow> length vs = length m \<longrightarrow> sdp x ks vs m = att x (chosen ks m) (chosen vs m))"

definition heads_ok :: "torch_backend \<Rightarrow> bool" where
  "heads_ok be \<longleftrightarrow> 0 < tb_num_heads be \<and> 0 < tb_num_kv_heads be \<and> tb_num_kv_heads be dvd tb_num_heads be"

text \<open>
  Causal attention of one sequence: the query at position \<open>start + j\<close> sees the keys up to its own, of
  the head its group shares.
\<close>

definition causal_row :: "attention_core \<Rightarrow> torch_backend \<Rightarrow> nat \<Rightarrow> token list \<Rightarrow> token list \<Rightarrow> token list \<Rightarrow> token list" where
  "causal_row att be start q k v =
     (let g = tb_num_heads be div tb_num_kv_heads be
      in map (\<lambda>j. map (\<lambda>h. att (q ! j ! h) (map (\<lambda>t. t ! (h div g)) (take (start + j + 1) k)) (map (\<lambda>t. t ! (h div g)) (take (start + j + 1) v)))
           [0..<tb_num_heads be]) [0..<length q])"

lemma masked_prefix:
  assumes "masked_attention sdp att" "length k = M" "length v = M" "e \<le> M"
  shows "sdp x (map f k) (map f v) (map (\<lambda>p. p < int e) [0..int M - 1]) = att x (map f (take e k)) (map f (take e v))"
proof -
  have "length (map (\<lambda>p. p < int e) [0..int M - 1]) = M" by simp
  then have "sdp x (map f k) (map f v) (map (\<lambda>p. p < int e) [0..int M - 1]) =
      att x (chosen (map f k) (map (\<lambda>p. p < int e) [0..int M - 1])) (chosen (map f v) (map (\<lambda>p. p < int e) [0..int M - 1]))"
    using assms(1-3) unfolding masked_attention_def by (metis length_map)
  then show ?thesis using chosen_prefix [of "map f k" M e] chosen_prefix [of "map f v" M e] assms(2-4) by (simp add: take_map)
qed

lemma sdpa_row_causal:
  assumes "heads_ok be" "masked_attention sdp att"
    and "length q' = length msk" "take n q' = q" "n \<le> length q'" "length k' = M" "length v' = M" "s + n \<le> M"
    and "\<And>j. j < n \<Longrightarrow> msk ! j = map (\<lambda>p. p < int (s + j + 1)) [0..int M - 1]"
  shows "take n (sdpa_row sdp be q' k' v' msk) = causal_row att be s q (take (s + n) k') (take (s + n) v')"
proof -
  let ?g = "tb_num_heads be div tb_num_kv_heads be"
  have g: "tb_num_heads be = tb_num_kv_heads be * ?g" "0 < ?g" "0 < tb_num_kv_heads be"
    using assms(1) by (auto simp: heads_ok_def dvd_div_eq_0_iff intro: gr0I)
  have "sdp (q' ! j ! h) (map (\<lambda>t. t ! (h div ?g)) k') (map (\<lambda>t. t ! (h div ?g)) v') (msk ! j) =
      att (q ! j ! h) (map (\<lambda>t. t ! (h div ?g)) (take (s + j + 1) k')) (map (\<lambda>t. t ! (h div ?g)) (take (s + j + 1) v'))" if "j < n" for j h
    unfolding assms(9) [OF that] using that assms(4,8) by (subst masked_prefix [OF assms(2,6,7)]) auto
  moreover have "length q = n" using assms(4,5) by auto
  ultimately show ?thesis using assms(5,8)
    by (auto simp: sdpa_row_heads [OF g assms(3) [symmetric]] causal_row_def Let_def take_map min_absorb1)
qed

section \<open>Attention of a batch\<close>

text \<open>A sequence's tokens in the cache, by its block table.\<close>

definition page_rows :: "nat \<Rightarrow> 'a list list \<Rightarrow> int list \<Rightarrow> nat \<Rightarrow> 'a list" where
  "page_rows bs cache table n = map (\<lambda>p. read_slot cache (table_slot bs table p)) [0..<n]"

definition table_ok :: "nat \<Rightarrow> nat \<Rightarrow> nat \<Rightarrow> int list \<Rightarrow> bool" where
  "table_ok bs nb n table \<longleftrightarrow> (\<forall>b \<in> set table. b < int nb) \<and> n \<le> length table * bs \<and> (\<forall>p < n. 0 \<le> table ! (p div bs))"

lemma gather_pages_read:
  assumes "cache_shape bs nb cache" "length tables = length ends"
    and "\<And>i. i < length ends \<Longrightarrow> table_ok bs nb (ends ! i) (tables ! i) \<and> ends ! i \<le> M \<and> M \<le> length (tables ! i) * bs"
  shows "\<exists>ks. gather_pages cache tables (int M) (map int ends) = Inr ks \<and> length ks = length ends \<and>
    (\<forall>i < length ends. length (ks ! i) = M \<and> take (ends ! i) (ks ! i) = page_rows bs cache (tables ! i) (ends ! i))"
proof -
  have "\<exists>ks. mapE (\<lambda>(table, n). gather_row cache (int M) (take (nat ((int M + int bs - 1) div int bs)) table) n) (zip tables (map int ends)) = Inr ks \<and>
      length ks = length (zip tables (map int ends)) \<and>
      (\<forall>i < length (zip tables (map int ends)). length (ks ! i) = M \<and> take (ends ! i) (ks ! i) = page_rows bs cache (tables ! i) (ends ! i))"
  proof (rule mapE_ex)
    fix i assume "i < length (zip tables (map int ends))"
    then have i: "i < length ends" by simp
    have "\<exists>ks. gather_row cache (int M) (take (nat ((int M + int bs - 1) div int bs)) (tables ! i)) (int (ends ! i)) = Inr ks \<and> length ks = M \<and>
        take (ends ! i) ks = map (\<lambda>p. read_slot cache (table_slot bs (tables ! i) p)) [0..<ends ! i]"
      using assms(3) [OF i] by (intro gather_row_read [OF assms(1)]) (auto simp: table_ok_def)
    then show "\<exists>y. (case zip tables (map int ends) ! i of (table, n) \<Rightarrow> gather_row cache (int M) (take (nat ((int M + int bs - 1) div int bs)) table) n) = Inr y \<and>
        length y = M \<and> take (ends ! i) y = page_rows bs cache (tables ! i) (ends ! i)"
      using i assms(2) by (simp add: page_rows_def)
  qed
  then show ?thesis using assms(2) cache_shapeD(3) [OF assms(1)] by (simp add: gather_pages_def Let_def)
qed

text \<open>The rows of a batch: where each starts, its queries and its block table.\<close>

type_synonym row = "nat \<times> token list \<times> int list"

definition rw_out :: "attention_core \<Rightarrow> torch_backend \<Rightarrow> nat \<Rightarrow> paged_cache \<Rightarrow> paged_cache \<Rightarrow> row \<Rightarrow> token list" where
  "rw_out att be bs kc vc = (\<lambda>(start, q, table).
     causal_row att be start q (page_rows bs kc table (start + length q)) (page_rows bs vc table (start + length q)))"

definition rw_end :: "row \<Rightarrow> nat" where
  "rw_end = (\<lambda>(start, q, table). start + length q)"

definition rw_len :: "row \<Rightarrow> nat" where
  "rw_len = (\<lambda>(start, q, table). length q)"

definition rw_tokens :: "row \<Rightarrow> token list" where
  "rw_tokens = (\<lambda>(start, q, table). q)"

definition rw_table :: "row \<Rightarrow> int list" where
  "rw_table = (\<lambda>(start, q, table). table)"

text \<open>Every row has queries, and pages for all its tokens, in tables of width \<open>W\<close>.\<close>

definition paged_rows :: "nat \<Rightarrow> nat \<Rightarrow> nat \<Rightarrow> row list \<Rightarrow> bool" where
  "paged_rows bs nb W rows \<longleftrightarrow>
     (\<forall>row \<in> set rows. 0 < rw_len row \<and> length (rw_table row) = W \<and> table_ok bs nb (rw_end row) (rw_table row))"

lemmas rw_defs = rw_out_def rw_end_def rw_len_def rw_tokens_def rw_table_def

lemma attn_mask_nth:
  assumes "length starts = length ns" "i < length ns" "j < Mq" "j < ns ! i"
  shows "attn_mask (cu_of ns) (cu_of (map2 (+) starts ns)) (int Mq) (int Mk) True ! i ! j = map (\<lambda>p. p < int (starts ! i + j + 1)) [0..int Mk - 1]"
    "length (attn_mask (cu_of ns) (cu_of (map2 (+) starts ns)) (int Mq) (int Mk) True ! i) = Mq"
proof -
  have row: "attn_mask (cu_of ns) (cu_of (map2 (+) starts ns)) (int Mq) (int Mk) True ! i =
      map (\<lambda>j. map2 (\<and>) (map (\<lambda>p. p < int (starts ! i + ns ! i)) [0..int Mk - 1]) (map (\<lambda>p. p \<le> int (starts ! i) + j) [0..int Mk - 1])) [0..int Mq - 1]"
    using assms(1,2) by (simp add: attn_mask_def Let_def key_mask_def)
  show "length (attn_mask (cu_of ns) (cu_of (map2 (+) starts ns)) (int Mq) (int Mk) True ! i) = Mq" by (simp add: row)
  show "attn_mask (cu_of ns) (cu_of (map2 (+) starts ns)) (int Mq) (int Mk) True ! i ! j = map (\<lambda>p. p < int (starts ! i + j + 1)) [0..int Mk - 1]"
    using causal_mask_row [of "starts ! i + j + 1" "starts ! i" j "starts ! i + ns ! i" "[0..int Mk - 1]"] assms(3,4)
    by (simp add: row nth_upto)
qed

lemma length_attn_mask [simp]: "length starts = length ns \<Longrightarrow> length (attn_mask (cu_of ns) (cu_of (map2 (+) starts ns)) mq mk True) = length ns"
  by (simp add: attn_mask_def Let_def key_mask_def)

lemma length_sdpa_row [simp]: "length (sdpa_row sdp be q k v msk) = length q"
  by (simp add: sdpa_row_def Let_def unpack_heads_def)

lemma torch_prefill_causal:
  assumes ok: "heads_ok be" "masked_attention sdp att" "cache_shape bs nb kc" "cache_shape bs nb vc" "paged_rows bs nb W rows"
    and c: "cx_cu_q c = cu_of (map rw_len rows)" "cx_cu_k c = cu_of (map rw_end rows)" "cx_tables c = Some (map rw_table rows)"
      "cx_max_q c = int Mq" "cx_max_k c = int Mk"
    and max: "\<And>row. row \<in> set rows \<Longrightarrow> rw_len row \<le> Mq \<and> rw_end row \<le> Mk" "Mk \<le> W * bs"
  shows "torch_prefill sdp be (concat (map rw_tokens rows)) k v kc vc c = Inr (concat (map (rw_out att be bs kc vc) rows))"
proof -
  let ?ns = "map rw_len rows" and ?es = "map rw_end rows" and ?starts = "map fst rows"
  have es: "?es = map2 (+) ?starts ?ns" by (induction rows) (auto simp: rw_defs)
  have n: "map length (map rw_tokens rows) = ?ns" by (simp add: rw_defs split_def)
  have row: "0 < rw_len (rows ! i)" "length (rw_table (rows ! i)) = W" "table_ok bs nb (rw_end (rows ! i)) (rw_table (rows ! i))"
    "rw_len (rows ! i) \<le> Mq" "rw_end (rows ! i) \<le> Mk" if "i < length rows" for i
    using that ok(5) max(1) nth_mem [OF that] by (auto simp: paged_rows_def)
  have lens: "0 < n \<and> int n \<le> int Mq" if "n \<in> set ?ns" for n using that ok(5) max(1) by (auto simp: paged_rows_def simp del: split_paired_All)
  obtain qp where qp: "pad_rows (concat (map rw_tokens rows)) (cu_of ?ns) (int Mq) = Inr qp" "length qp = length rows"
      "\<And>i. i < length rows \<Longrightarrow> length (qp ! i) = Mq \<and> take (rw_len (rows ! i)) (qp ! i) = rw_tokens (rows ! i)"
    using pad_rows_take [OF n, of "int Mq"] lens by auto
  have pages: "\<exists>ks. gather_pages cache (map rw_table rows) (int Mk) (map int ?es) = Inr ks \<and> length ks = length rows \<and>
      (\<forall>i < length rows. length (ks ! i) = Mk \<and> take (rw_end (rows ! i)) (ks ! i) = page_rows bs cache (rw_table (rows ! i)) (rw_end (rows ! i)))"
    if "cache_shape bs nb cache" for cache
    using gather_pages_read [OF that, of "map rw_table rows" ?es Mk] row max(2) by simp
  obtain kp where kp: "gather_pages kc (map rw_table rows) (int Mk) (map int ?es) = Inr kp" "length kp = length rows"
      "\<And>i. i < length rows \<Longrightarrow> length (kp ! i) = Mk \<and> take (rw_end (rows ! i)) (kp ! i) = page_rows bs kc (rw_table (rows ! i)) (rw_end (rows ! i))"
    using pages [OF ok(3)] by blast
  obtain vp where vp: "gather_pages vc (map rw_table rows) (int Mk) (map int ?es) = Inr vp" "length vp = length rows"
      "\<And>i. i < length rows \<Longrightarrow> length (vp ! i) = Mk \<and> take (rw_end (rows ! i)) (vp ! i) = page_rows bs vc (rw_table (rows ! i)) (rw_end (rows ! i))"
    using pages [OF ok(4)] by blast
  let ?m = "attn_mask (cu_of ?ns) (cu_of ?es) (int Mq) (int Mk) True" let ?X = "sdpa sdp be qp kp vp ?m"
  have lm: "length ?m = length rows" by (simp add: es)
  have X: "length ?X = length rows" "\<And>i. i < length rows \<Longrightarrow> ?X ! i = sdpa_row sdp be (qp ! i) (kp ! i) (vp ! i) (?m ! i)"
    using qp(2) kp(2) vp(2) lm by (simp_all add: sdpa_def)
  have own: "take (rw_len (rows ! i)) (?X ! i) = rw_out att be bs kc vc (rows ! i)" if i: "i < length rows" for i
  proof -
    obtain st q tb where r: "rows ! i = (st, q, tb)" by (metis prod.collapse)
    have m: "?m ! i ! j = map (\<lambda>p. p < int (st + j + 1)) [0..int Mk - 1]" "length (?m ! i) = Mq" if "j < length q" for j
      using attn_mask_nth [of ?starts ?ns i j Mq Mk] that i row(4) [OF i] r es by (simp_all add: rw_defs)
    have "0 < length q" using row(1) [OF i] r by (simp add: rw_defs)
    then have lenm: "length (?m ! i) = Mq" using m(2) by blast
    have "take (length q) (sdpa_row sdp be (qp ! i) (kp ! i) (vp ! i) (?m ! i)) =
        causal_row att be st q (take (st + length q) (kp ! i)) (take (st + length q) (vp ! i))"
      using qp(3) [OF i] kp(3) [OF i] vp(3) [OF i] row(4,5) [OF i] lenm m r
      by (intro sdpa_row_causal [OF ok(1,2), where M = Mk]) (auto simp: rw_defs)
    then show ?thesis using kp(3) [OF i] vp(3) [OF i] X(2) [OF i] r by (simp add: rw_defs)
  qed
  have "unpad_rows ?X (cu_of ?ns) (sum_list ?ns) = Inr (concat (map2 take ?ns ?X))"
    using X qp(3) row by (intro unpad_rows_concat) auto
  moreover have "map2 take ?ns ?X = map (rw_out att be bs kc vc) rows"
    using X(1) own by - (rule nth_equalityI, simp_all)
  moreover have "length (concat (map rw_tokens rows)) = sum_list ?ns" unfolding length_concat n ..
  ultimately show ?thesis using qp(1) kp(1) vp(1) c by (simp add: torch_prefill_def)
qed

lemma torch_decode_causal:
  assumes ok: "heads_ok be" "masked_attention sdp att" "cache_shape bs nb kc" "cache_shape bs nb vc" "paged_rows bs nb W rows" "rows \<noteq> []"
    and one: "\<forall>row \<in> set rows. rw_len row = 1"
    and c: "cx_tables c = Some (map rw_table rows)" "cx_lens c = map int (map rw_end rows)"
  shows "torch_decode sdp be (concat (map rw_tokens rows)) kc vc c = Inr (concat (map (rw_out att be bs kc vc) rows))"
proof -
  let ?es = "map rw_end rows" and ?M = "W * bs"
  have row: "rw_len (rows ! i) = 1" "length (rw_table (rows ! i)) = W" "table_ok bs nb (rw_end (rows ! i)) (rw_table (rows ! i))" if "i < length rows" for i
    using that ok(5) one nth_mem [OF that] by (auto simp: paged_rows_def)
  have pages: "\<exists>ks. gather_pages cache (map rw_table rows) (int ?M) (map int ?es) = Inr ks \<and> length ks = length rows \<and>
      (\<forall>i < length rows. length (ks ! i) = ?M \<and> take (rw_end (rows ! i)) (ks ! i) = page_rows bs cache (rw_table (rows ! i)) (rw_end (rows ! i)))"
    if "cache_shape bs nb cache" for cache
    using gather_pages_read [OF that, of "map rw_table rows" ?es ?M] row by (simp add: table_ok_def)
  obtain kp where kp: "gather_pages kc (map rw_table rows) (int ?M) (map int ?es) = Inr kp" "length kp = length rows"
      "\<And>i. i < length rows \<Longrightarrow> length (kp ! i) = ?M \<and> take (rw_end (rows ! i)) (kp ! i) = page_rows bs kc (rw_table (rows ! i)) (rw_end (rows ! i))"
    using pages [OF ok(3)] by blast
  obtain vp where vp: "gather_pages vc (map rw_table rows) (int ?M) (map int ?es) = Inr vp" "length vp = length rows"
      "\<And>i. i < length rows \<Longrightarrow> length (vp ! i) = ?M \<and> take (rw_end (rows ! i)) (vp ! i) = page_rows bs vc (rw_table (rows ! i)) (rw_end (rows ! i))"
    using pages [OF ok(4)] by blast
  have qs: "map (\<lambda>x. [x]) (concat (map rw_tokens rows)) = map rw_tokens rows"
    using one by (induction rows) (auto simp: rw_defs length_Suc_conv)
  have M: "int (length (hd (map rw_table rows))) * int (length (hd kc)) = int ?M"
    using ok(6) row(2) [of 0] cache_shapeD(3) [OF ok(3)] by (simp add: hd_conv_nth)
  have own: "sdpa_row sdp be (rw_tokens (rows ! i)) (kp ! i) (vp ! i) [key_mask (map int ?es) (int ?M) ! i] = rw_out att be bs kc vc (rows ! i)"
    if i: "i < length rows" for i
  proof -
    obtain st q tb where r: "rows ! i = (st, q, tb)" by (metis prod.collapse)
    have q: "length q = 1" using row(1) [OF i] r by (simp add: rw_defs)
    have "take 1 (sdpa_row sdp be q (kp ! i) (vp ! i) [key_mask (map int ?es) (int ?M) ! i]) =
        causal_row att be st q (take (st + 1) (kp ! i)) (take (st + 1) (vp ! i))"
      using kp(3) [OF i] vp(3) [OF i] row(2,3) [OF i] i r q
      by (intro sdpa_row_causal [OF ok(1,2), where M = ?M]) (auto simp: rw_defs table_ok_def key_mask_def add.commute)
    then show ?thesis using kp(3) [OF i] vp(3) [OF i] r q by (simp add: rw_defs)
  qed
  have "sdpa sdp be (map rw_tokens rows) kp vp (map (\<lambda>m. [m]) (key_mask (map int ?es) (int ?M))) = map (rw_out att be bs kc vc) rows"
    using kp(2) vp(2) own by - (rule nth_equalityI, simp_all add: sdpa_def key_mask_def)
  then show ?thesis using kp(1) vp(1) qs unfolding torch_decode_def c option.case Let_def M by simp
qed

section \<open>A step of the layer\<close>

lemma cu_of_drop: "n \<le> length ns \<Longrightarrow> map (\<lambda>x. x - cu_of ns ! n) (drop n (cu_of ns)) = cu_of (drop n ns)"
proof (rule nth_equalityI)
  fix i assume n: "n \<le> length ns" and "i < length (map (\<lambda>x. x - cu_of ns ! n) (drop n (cu_of ns)))"
  then have i: "n + i \<le> length ns" by simp
  then have "take (n + i) ns = take n ns @ take i (drop n ns)" by (simp add: take_add)
  then show "map (\<lambda>x. x - cu_of ns ! n) (drop n (cu_of ns)) ! i = cu_of (drop n ns) ! i" using i n by (simp add: nth_cu_of)
qed simp

text \<open>The context \<open>prepare_batch\<close> makes for these rows.\<close>

definition step_context_ok :: "row list \<Rightarrow> attn_context \<Rightarrow> bool" where
  "step_context_ok rows c \<longleftrightarrow>
     cx_cu_q c = cu_of (map rw_len rows) \<and> cx_cu_k c = cu_of (map rw_end rows) \<and>
     cx_cu_q_host c = Some (cu_of (map rw_len rows)) \<and> cx_cu_k_host c = cu_of (map rw_end rows) \<and>
     cx_max_q c = Max (set (map int (map rw_len rows))) \<and> cx_max_k c = Max (set (map int (map rw_end rows))) \<and>
     cx_lens c = map int (map rw_end rows) \<and> cx_tables c = Some (map rw_table rows) \<and>
     (\<not> cx_is_prefill c \<longrightarrow> (\<forall>row \<in> set rows. rw_len row = 1))"

lemma paged_rows_sub: "paged_rows bs nb W rows \<Longrightarrow> set rows' \<subseteq> set rows \<Longrightarrow> paged_rows bs nb W rows'"
  by (auto simp: paged_rows_def)

lemma prefill_max:
  assumes "heads_ok be" "masked_attention sdp att" "cache_shape bs nb kc" "cache_shape bs nb vc" "paged_rows bs nb W rows" "rows \<noteq> []"
    and "cx_cu_q c = cu_of (map rw_len rows)" "cx_cu_k c = cu_of (map rw_end rows)" "cx_tables c = Some (map rw_table rows)"
      "cx_max_q c = Max (set (map int (map rw_len rows)))" "cx_max_k c = Max (set (map int (map rw_end rows)))"
  shows "torch_prefill sdp be (concat (map rw_tokens rows)) k v kc vc c = Inr (concat (map (rw_out att be bs kc vc) rows))"
proof -
  have max: "Max (set (map int (map f rows))) = int (Max (f ` set rows))" for f :: "row \<Rightarrow> nat"
    using assms(6) by (simp add: mono_Max_commute [of int] mono_def image_image)
  have "rw_end row \<le> W * bs" if "row \<in> set rows" for row using that assms(5) by (auto simp: paged_rows_def table_ok_def)
  then show ?thesis using assms(6) by (intro torch_prefill_causal [OF assms(1-5,7-9) assms(10) [unfolded max] assms(11) [unfolded max]]) auto
qed

lemma uniform_rows: "num_uniform 1 (cu_of (map rw_len rows)) = length (takeWhile (\<lambda>row. rw_len row = 1) rows)"
  by (simp add: num_uniform_def takeWhile_map comp_def)

lemma take_concat_single: "\<forall>xs \<in> set (take n xss). length xs = 1 \<Longrightarrow> n \<le> length xss \<Longrightarrow>
    take n (concat xss) = concat (take n xss) \<and> drop n (concat xss) = concat (drop n xss)"
proof (induction xss arbitrary: n)
  case (Cons xs xss)
  then show ?case by (cases n) (auto simp: length_Suc_conv)
qed simp

lemma backend_forward_causal:
  assumes ok: "heads_ok be" "masked_attention sdp att" "cache_shape bs nb kc" "cache_shape bs nb vc" "paged_rows bs nb W rows" "rows \<noteq> []"
    and c: "step_context_ok rows c"
  shows "backend_forward sdp be (concat (map rw_tokens rows)) k v kc vc c = Inr (concat (map (rw_out att be bs kc vc) rows))"
proof (cases "cx_is_prefill c")
  case False
  then show ?thesis using c torch_decode_causal [OF ok, of c] by (simp add: step_context_ok_def backend_forward_def)
next
  case True
  define n where "n = length (takeWhile (\<lambda>row. rw_len row = 1) rows)"
  let ?a = "take n rows" and ?b = "drop n rows" and ?cu = "cu_of (map rw_len rows)"
  have n: "n \<le> length rows" "num_uniform 1 ?cu = n" by (simp_all add: n_def length_takeWhile_le uniform_rows)
  have one: "\<forall>row \<in> set ?a. rw_len row = 1" unfolding n_def by (metis takeWhile_eq_take set_takeWhileD)
  have split: "split_decodes_and_prefills c 1 = (n, if n \<noteq> 0 then Some (decode_part 1 n ?cu c) else None,
      if n = 0 then Some c else if n < length rows then Some (prefill_part n ?cu c) else None)"
    using c n(2) by (simp add: step_context_ok_def split_decodes_and_prefills_def Let_def)
  have dec: "torch_decode sdp be (concat (map rw_tokens ?a)) kc vc (decode_part 1 n ?cu c) = Inr (concat (map (rw_out att be bs kc vc) ?a))" if "n \<noteq> 0"
    using c that ok(6) paged_rows_sub [OF ok(5) set_take_subset] one
    by (intro torch_decode_causal [OF ok(1-4)]) (simp_all add: decode_part_def step_context_ok_def take_map)
  have pre: "torch_prefill sdp be (concat (map rw_tokens ?b)) k' v' kc vc (prefill_part n ?cu c) = Inr (concat (map (rw_out att be bs kc vc) ?b))"
    if "n < length rows" for k' v'
    using c that n(1) paged_rows_sub [OF ok(5) set_drop_subset] cu_of_drop [of n "map rw_len rows"] cu_of_drop [of n "map rw_end rows"]
    by (intro prefill_max [OF ok(1-4)]) (simp_all add: prefill_part_def step_context_ok_def Let_def drop_map)
  have toks: "take n (concat (map rw_tokens rows)) = concat (map rw_tokens ?a)" "drop n (concat (map rw_tokens rows)) = concat (map rw_tokens ?b)"
    using take_concat_single [of n "map rw_tokens rows"] one n(1) by (auto simp: take_map drop_map rw_defs split_def)
  have whole: "concat (map (rw_out att be bs kc vc) ?a) @ concat (map (rw_out att be bs kc vc) ?b) = concat (map (rw_out att be bs kc vc) rows)"
    by (metis append_take_drop_id concat_append map_append)
  consider "n = 0" | "n \<noteq> 0" "n = length rows" | "n \<noteq> 0" "n < length rows" using n(1) by linarith
  then show ?thesis
  proof cases
    case 1
    then show ?thesis using True c prefill_max [OF ok, of c k v] unfolding backend_forward_def split by (simp add: step_context_ok_def)
  next
    case 2
    then show ?thesis using True dec toks(1) unfolding backend_forward_def split by simp
  next
    case 3
    then show ?thesis using True dec pre toks whole unfolding backend_forward_def split by simp
  qed
qed

section \<open>Storing and reading\<close>

definition rw_slots :: "nat \<Rightarrow> row \<Rightarrow> int list" where
  "rw_slots bs = (\<lambda>(start, q, table). map (table_slot bs table) [start..<start + length q])"

text \<open>The slots of \<open>prepare_batch\<close>, row by row.\<close>

lemma map_cells:
  "map f (zip (index_of_rows ns) (concat (map (\<lambda>n. [0..<n]) ns))) = concat (map (\<lambda>k. map (\<lambda>c. f (k, c)) [0..<ns ! k]) [0..<length ns])"
proof (induction ns rule: rev_induct)
  case (snoc n ns)
  have "map f (zip (replicate n (length ns)) [0..<n]) = map (\<lambda>c. f (length ns, c)) [0..<n]" by (rule nth_equalityI) auto
  moreover have "map (\<lambda>k. map (\<lambda>c. f (k, c)) [0..<(ns @ [n]) ! k]) [0..<length ns] = map (\<lambda>k. map (\<lambda>c. f (k, c)) [0..<ns ! k]) [0..<length ns]"
    by (simp add: nth_append)
  ultimately show ?case unfolding cells_snoc using snoc.IH by (simp del: map_eq_conv)
qed simp

lemma cache_slot_table:
  assumes "0 < bs" "p div bs < length (tables ! k)"
  shows "cache_slot (int bs) tables k (int p) = Inr (table_slot bs (tables ! k) p)"
  using assms by (simp add: cache_slot_def table_slot_def py_simps flip: of_nat_div of_nat_mod)

lemma slots_of_rows:
  assumes "paged_rows bs nb W rows" "0 < bs" "\<forall>t \<in> set tables. t \<noteq> []" "length tables = length rows"
  shows "slots_of (int bs) tables (map rw_table rows) (token_rows (map int (map rw_len rows)))
      (token_positions (map int (map fst rows)) (map int (map rw_len rows))) = Inr (concat (map (rw_slots bs) rows))"
proof -
  let ?ns = "map rw_len rows" let ?cells = "zip (index_of_rows ?ns) (concat (map (\<lambda>n. [0..<n]) ?ns))"
  let ?slot = "\<lambda>(k, c). table_slot bs (rw_table (rows ! k)) (fst (rows ! k) + c)"
  have bounds: "k < length rows \<and> c < rw_len (rows ! k)" if "(k, c) \<in> set ?cells" for k c using cells_bounds [OF that] by auto
  have pairs: "zip (token_rows (map int ?ns)) (token_positions (map int (map fst rows)) (map int ?ns)) =
      map (\<lambda>(k, c). (k, int (map fst rows ! k + c))) ?cells"
  proof -
    have ns: "map nat (map int ?ns) = ?ns" by (simp add: comp_def)
    have "zip (token_rows (map int ?ns)) (token_positions (map int (map fst rows)) (map int ?ns)) =
        map (\<lambda>(k, c). (k, map int (map fst rows) ! k + int c)) ?cells"
      by (subst flat_pairs) (auto simp: ns simp del: map_map)
    then show ?thesis using bounds by (auto simp del: map_map dest!: bounds)
  qed
  have keep: "filter (\<lambda>(row, _). tables ! row \<noteq> []) (map (\<lambda>(k, c). (k, int (map fst rows ! k + c))) ?cells) =
      map (\<lambda>(k, c). (k, int (map fst rows ! k + c))) ?cells"
    using assms(3,4) by (intro filter_True) (auto simp del: map_map dest!: bounds)
  have "slots_of (int bs) tables (map rw_table rows) (token_rows (map int ?ns)) (token_positions (map int (map fst rows)) (map int ?ns)) =
      mapE (\<lambda>(k, c). cache_slot (int bs) (map rw_table rows) k (int (map fst rows ! k + c))) ?cells"
    unfolding slots_of_def pairs keep mapE_map by (simp add: split_def)
  also have "\<dots> = Inr (map ?slot ?cells)"
  proof (rule mapE_total)
    fix x assume "x \<in> set ?cells"
    moreover obtain k c where x: "x = (k, c)" by fastforce
    ultimately have kc: "k < length rows" "c < rw_len (rows ! k)" using bounds by blast+
    then have "paged_rows bs nb W [rows ! k]" using assms(1) by (auto simp: paged_rows_def)
    then have "fst (rows ! k) + c < length (rw_table (rows ! k)) * bs" using kc(2) by (auto simp: paged_rows_def table_ok_def rw_defs split_def)
    then have "(fst (rows ! k) + c) div bs < length (rw_table (rows ! k))" by (rule less_mult_imp_div_less)
    then show "(case x of (k, c) \<Rightarrow> cache_slot (int bs) (map rw_table rows) k (int (map fst rows ! k + c))) = Inr (?slot x)"
      using cache_slot_table [OF assms(2), of "fst (rows ! k) + c" "map rw_table rows" k] kc(1) by (simp add: x)
  qed
  also have "map ?slot ?cells = concat (map (rw_slots bs) rows)"
  proof -
    have "map (\<lambda>c. ?slot (k, c)) [0..<rw_len (rows ! k)] = rw_slots bs (rows ! k)" for k
      by (rule nth_equalityI) (auto simp: rw_slots_def rw_defs split_def)
    then have "map (\<lambda>k. map (\<lambda>c. ?slot (k, c)) [0..<?ns ! k]) [0..<length rows] = map (rw_slots bs) rows"
      by (intro nth_equalityI) (simp_all add: cong: map_cong)
    then show ?thesis unfolding map_cells by simp
  qed
  finally show ?thesis .
qed

lemma table_slot_range:
  assumes "0 < bs" "table_ok bs nb n table" "p < n"
  shows "0 \<le> table_slot bs table p" "table_slot bs table p < int (nb * bs)"
proof -
  have "p div bs < length table" using assms by (auto simp: table_ok_def intro: less_mult_imp_div_less order_less_le_trans)
  then have b: "0 \<le> table ! (p div bs)" "table ! (p div bs) < int nb" using assms by (auto simp: table_ok_def)
  then show "0 \<le> table_slot bs table p" by (simp add: table_slot_def)
  have "table ! (p div bs) * int bs + int bs \<le> int nb * int bs"
    using b(2) mult_right_mono [of "table ! (p div bs) + 1" "int nb" "int bs"] by (simp add: distrib_right)
  moreover have "int (p mod bs) < int bs" using assms(1) by simp
  ultimately show "table_slot bs table p < int (nb * bs)" by (simp add: table_slot_def)
qed

text \<open>After a step's tokens are stored, a row's pages hold its cached tokens and then its new ones.\<close>

lemma stored_pages:
  assumes shape: "cache_shape bs nb cache" and rows: "paged_rows bs nb W rows"
    and xs: "map length xss = map rw_len rows"
    and slots: "distinct (concat (map (rw_slots bs) rows))"
      "\<forall>(start, q, table) \<in> set rows. \<forall>p < start. table_slot bs table p \<notin> set (concat (map (rw_slots bs) rows))"
  shows "okE (store_rows (concat xss) (concat (map (rw_slots bs) rows)) cache) (\<lambda>cache'. cache_shape bs nb cache' \<and>
    (\<forall>i < length rows. page_rows bs cache' (rw_table (rows ! i)) (rw_end (rows ! i)) =
       page_rows bs cache (rw_table (rows ! i)) (fst (rows ! i)) @ xss ! i))"
proof -
  let ?slots = "concat (map (rw_slots bs) rows)"
  note bs = cache_shapeD(1) [OF shape]
  have lens: "map length (map (rw_slots bs) rows) = map rw_len rows" by (simp add: rw_slots_def rw_defs split_def)
  have range: "0 \<le> table_slot bs (rw_table row) p \<and> table_slot bs (rw_table row) p < int (nb * bs)" if "row \<in> set rows" "p < rw_end row" for row p
    using that rows table_slot_range [OF bs, of nb "rw_end row"] by (auto simp: paged_rows_def)
  have sr: "\<forall>s \<in> set ?slots. 0 \<le> s \<and> s < int (nb * bs)"
    using range by (fastforce simp: rw_slots_def rw_defs)
  have len: "length (concat xss) = length ?slots" unfolding length_concat xs lens ..
  have pages: "page_rows bs cache' (rw_table (rows ! i)) (rw_end (rows ! i)) = page_rows bs cache (rw_table (rows ! i)) (fst (rows ! i)) @ xss ! i"
    if new: "\<forall>j < length (concat xss). read_slot cache' (?slots ! j) = concat xss ! j"
      and old: "\<forall>s. 0 \<le> s \<longrightarrow> s < int (nb * bs) \<longrightarrow> s \<notin> set ?slots \<longrightarrow> read_slot cache' s = read_slot cache s" and i: "i < length rows" for cache' i
  proof -
    obtain st q tb where r: "rows ! i = (st, q, tb)" by (metis prod.collapse)
    have mem: "(st, q, tb) \<in> set rows" using nth_mem [OF i] r by simp
    have lx: "length xss = length rows" "length (xss ! i) = length q"
      using xs i r by (metis length_map, metis (mono_tags, lifting) length_map nth_map rw_len_def split_conv)
    have "read_slot cache' (table_slot bs tb p) = read_slot cache (table_slot bs tb p)" if "p < st" for p
      using that old range [OF mem] slots(2) mem by (auto simp: rw_defs)
    moreover have "read_slot cache' (table_slot bs tb (st + a)) = xss ! i ! a" if "a < length q" for a
    proof -
      let ?off = "sum_list (map rw_len (take i rows))"
      have off: "sum_list (map length (take i xss)) = ?off" "sum_list (map length (take i (map (rw_slots bs) rows))) = ?off"
        by (metis xs take_map, metis lens take_map)
      have "concat xss ! (?off + a) = xss ! i ! a" "?slots ! (?off + a) = table_slot bs tb (st + a)"
        using concat_nth [of i xss a] concat_nth [of i "map (rw_slots bs) rows" a] off lx i that r by (simp_all add: rw_slots_def)
      moreover have "?off + a < length (concat xss)"
        using concat_in_range [of i xss a] lx i that off by simp
      ultimately show ?thesis using new by metis
    qed
    moreover from this have "read_slot cache' (table_slot bs tb p) = xss ! i ! (p - st)" if "st \<le> p" "p < st + length q" for p
      using that by (metis add_diff_inverse_nat less_diff_conv2 add.commute not_le)
    ultimately show ?thesis unfolding page_rows_def r using lx
      by (intro nth_equalityI) (auto simp: rw_defs nth_append)
  qed
  show ?thesis using store_rows_read [OF shape len sr slots(1)] by (rule okE_mono) (use pages in blast)
qed

text \<open>
  C28: paged attention is causal attention.  For any batch whose rows have pages for their tokens,
  with slots computed as the runner computes them, no two tokens in one slot and no
  cached token overwritten, a layer stores the new keys and values and returns, for every query
  of every row and every head, attention over that sequence's own cached and new tokens up to the
  query's position, with the key head its group shares: however rows share blocks, and whether
  they go through decode, prefill or both.
\<close>

theorem paged_attention_causal:
  assumes "heads_ok be" "masked_attention sdp att" "cache_shape bs nb kc" "cache_shape bs nb vc" "paged_rows bs nb W rows" "rows \<noteq> []"
    and "step_context_ok rows c" "cx_slots c = Some slots" "\<forall>t \<in> set tables. t \<noteq> []" "length tables = length rows"
    and "slots_of (int bs) tables (map rw_table rows) (token_rows (map int (map rw_len rows)))
      (token_positions (map int (map fst rows)) (map int (map rw_len rows))) = Inr slots"
    and "distinct slots" "\<forall>(start, q, table) \<in> set rows. \<forall>p < start. table_slot bs table p \<notin> set slots"
    and "map length ks = map rw_len rows" "map length vs = map rw_len rows"
  shows "okE (attend sdp be (concat (map rw_tokens rows)) (concat ks) (concat vs) c (kc, vc)) (\<lambda>(out, kc', vc').
    out = concat (map (\<lambda>((start, q, table), k, v). causal_row att be start q (page_rows bs kc table start @ k) (page_rows bs vc table start @ v))
      (zip rows (zip ks vs))))"
proof -
  have bs: "0 < bs" by (rule cache_shapeD(1) [OF assms(3)])
  have sl: "slots = concat (map (rw_slots bs) rows)" using assms(11) slots_of_rows [OF assms(5) bs assms(9,10)] by simp
  obtain kc' where k: "store_rows (concat ks) slots kc = Inr kc'" "cache_shape bs nb kc'"
      "\<And>i. i < length rows \<Longrightarrow> page_rows bs kc' (rw_table (rows ! i)) (rw_end (rows ! i)) = page_rows bs kc (rw_table (rows ! i)) (fst (rows ! i)) @ ks ! i"
    using stored_pages [OF assms(3,5,14)] assms(12,13) unfolding sl by (auto simp: okE_iff)
  obtain vc' where v: "store_rows (concat vs) slots vc = Inr vc'" "cache_shape bs nb vc'"
      "\<And>i. i < length rows \<Longrightarrow> page_rows bs vc' (rw_table (rows ! i)) (rw_end (rows ! i)) = page_rows bs vc (rw_table (rows ! i)) (fst (rows ! i)) @ vs ! i"
    using stored_pages [OF assms(4,5,15)] assms(12,13) unfolding sl by (auto simp: okE_iff)
  have ne: "kc \<noteq> []" "vc \<noteq> []" using assms(3,4) by (auto simp: cache_shape_def)
  have len: "length slots = length (concat ks)" "length ks = length rows" "length vs = length rows"
    using assms(14,15) unfolding sl length_concat by (simp_all add: rw_slots_def rw_defs split_def comp_def) (metis length_map)+
  have "map (rw_out att be bs kc' vc') rows =
      map (\<lambda>((start, q, table), k, v). causal_row att be start q (page_rows bs kc table start @ k) (page_rows bs vc table start @ v)) (zip rows (zip ks vs))"
  proof (rule nth_equalityI)
    fix i assume "i < length (map (rw_out att be bs kc' vc') rows)"
    then have i: "i < length rows" by simp
    obtain st q tb where r: "rows ! i = (st, q, tb)" by (metis prod.collapse)
    then show "map (rw_out att be bs kc' vc') rows ! i = map (\<lambda>((start, q, table), k, v).
        causal_row att be start q (page_rows bs kc table start @ k) (page_rows bs vc table start @ v)) (zip rows (zip ks vs)) ! i"
      using k(3) [OF i] v(3) [OF i] i len by (simp add: rw_defs)
  qed (simp add: len)
  then show ?thesis
    using backend_forward_causal [OF assms(1,2) k(2) v(2) assms(5-7), of "concat ks" "concat vs"] k(1) v(1) ne len assms(8)
    by (simp add: attend_def store_kvcache_def assertE_def)
qed

text \<open>
  Two rows over blocks of two tokens that share block 0: one new token through decode, two through
  prefill, with linear attention and two query heads on one key head.
\<close>

definition linear_attention :: attention_core where
  "linear_attention x ks vs = [sum_list (map2 (\<lambda>k v. hd x * hd k * hd v) ks vs)]"

definition demo_sdp :: dot_product_attention where
  "demo_sdp x ks vs m = linear_attention x (chosen ks m) (chosen vs m)"

definition demo_backend :: torch_backend where
  "demo_backend = \<lparr>tb_num_heads = 2, tb_num_kv_heads = 1\<rparr>"

definition demo_rows :: "row list" where
  "demo_rows = [(2, [[[1], [2]]], [0, 1]), (2, [[[1], [1]], [[3], [1]]], [0, 2])]"

definition demo_pages :: paged_cache where
  "demo_pages = [[[[1]], [[2]]], [[[9]], [[9]]], [[[9]], [[9]]]]"

definition demo_attn_context :: attn_context where
  "demo_attn_context = \<lparr>cx_is_prefill = True, cx_cu_q = [0, 1, 3], cx_cu_k = [0, 3, 7], cx_cu_q_host = Some [0, 1, 3], cx_cu_k_host = [0, 3, 7],
     cx_max_q = 2, cx_max_k = 4, cx_slots = Some [2, 4, 5], cx_lens = [3, 4], cx_tables = Some [[0, 1], [0, 2]]\<rparr>"

lemma demo_masked: "masked_attention demo_sdp linear_attention"
  by (simp add: masked_attention_def demo_sdp_def)

lemma demo_paged:
  "heads_ok demo_backend" "cache_shape 2 3 demo_pages" "paged_rows 2 3 2 demo_rows" "demo_rows \<noteq> []"
  "step_context_ok demo_rows demo_attn_context" "cx_slots demo_attn_context = Some [2, 4, 5]"
  "slots_of (int 2) [[0], [0]] (map rw_table demo_rows) (token_rows (map int (map rw_len demo_rows)))
      (token_positions (map int (map fst demo_rows)) (map int (map rw_len demo_rows))) = Inr [2, 4, 5]"
  "\<forall>(start, q, table) \<in> set demo_rows. \<forall>p < start. table_slot 2 table p \<notin> set [2, 4, 5]"
  "map length [[[[3]]], [[[4]], [[5]]]] = map rw_len demo_rows" "length [[0::nat], [0]] = length demo_rows"
  by code_simp+

theorem paged_attention_causal_witness:
  "okE (attend demo_sdp demo_backend [[[1], [2]], [[1], [1]], [[3], [1]]] [[[3]], [[4]], [[5]]] [[[3]], [[4]], [[5]]] demo_attn_context (demo_pages, demo_pages))
     (\<lambda>(out, kc', vc'). out = [[[14], [28]], [[21], [21]], [[138], [46]]])"
proof -
  have eqs: "concat (map rw_tokens demo_rows) = [[[1], [2]], [[1], [1]], [[3], [1]]]"
    "concat (map (\<lambda>((start, q, table), k, v). causal_row linear_attention demo_backend start q (page_rows 2 demo_pages table start @ k) (page_rows 2 demo_pages table start @ v))
      (zip demo_rows (zip [[[[3]]], [[[4]], [[5]]]] [[[[3]]], [[[4]], [[5]]]]))) = [[[14], [28]], [[21], [21]], [[138], [46]]]"
    by code_simp+
  note d = demo_paged
  from paged_attention_causal [OF d(1) demo_masked d(2,2,3,4,5,6) _ d(10,7) _ d(8,9,9)] show ?thesis unfolding eqs by simp
qed

end
