(* ===== verification/Context_Chunks.thy ===== *)
theory Context_Chunks
  imports Paged_Attention
begin

text \<open>
  The chunks of \<open>layers/attention.py\<close>: latent attention expands the cached keys of a prefill a bounded
  number at a time, so \<open>plan_context_chunks\<close> packs the rows' cached keys into chunks and
  \<open>context_chunks\<close> finds each key's slot in the cache.  The two nested loops of the plan are partial
  functions: a loop that does not end is \<open>None\<close>.
\<close>

section \<open>The plan\<close>

type_synonym chunk_plan = "nat \<times> int list \<times> int list"

text \<open>The inner loop, over \<open>row\<close>, \<open>start\<close>, \<open>starts\<close>, \<open>lens\<close> and \<open>used\<close>.\<close>

partial_function (option) fill_chunk ::
  "int list \<Rightarrow> int \<Rightarrow> nat \<Rightarrow> int \<Rightarrow> int list \<Rightarrow> int list \<Rightarrow> int \<Rightarrow> (nat \<times> int \<times> int list \<times> int list \<times> int) option" where
  "fill_chunk ctx budget row start starts ls used =
     (if row < length ctx \<and> ctx ! row \<noteq> 0 \<and> used < budget then
        let n = min (ctx ! row - start) (budget - used); start' = start + n
        in if start' = ctx ! row then fill_chunk ctx budget (row + 1) 0 (starts @ [start]) (ls @ [n]) (used + n)
           else fill_chunk ctx budget row start' (starts @ [start]) (ls @ [n]) (used + n)
      else Some (row, start, starts, ls, used))"

partial_function (option) plan_loop :: "int list \<Rightarrow> int \<Rightarrow> nat \<Rightarrow> int \<Rightarrow> chunk_plan list \<Rightarrow> chunk_plan list option" where
  "plan_loop ctx budget row start chunks =
     (if row < length ctx then
        if ctx ! row = 0 then plan_loop ctx budget (row + 1) start chunks
        else case fill_chunk ctx budget row start [] [] 0 of
               None \<Rightarrow> None
             | Some (row', start', starts, ls, used) \<Rightarrow> plan_loop ctx budget row' start' (chunks @ [(row, starts, ls)])
      else Some chunks)"

definition plan_context_chunks :: "int list \<Rightarrow> int \<Rightarrow> (chunk_plan list res) option" where
  "plan_context_chunks ctx budget =
     (if budget \<le> 0 then Some (Inl AssertionError) else map_option Inr (plan_loop ctx budget 0 0 []))"

section \<open>The chunks\<close>

record context_chunk =
  ch_queries :: "int \<times> int"
  ch_cu_seqlens_q :: "int list"
  ch_cu_seqlens_k :: "int list"
  ch_max_seqlen_q :: int
  ch_max_seqlen_k :: int
  ch_slots :: "int list"

definition make_chunk :: "int list \<Rightarrow> int list list \<Rightarrow> int \<Rightarrow> chunk_plan \<Rightarrow> context_chunk res" where
  "make_chunk cu_q tables block_size = (\<lambda>(first, starts, ls).
     let last = first + length ls; cu_k = cu_seqlens ls; num_keys = nat (cu_k ! length ls);
         key_rows = repeat_interleave [0..<length ls] (map nat ls);
         offsets = map2 (-) starts cu_k;
         positions = map2 (\<lambda>i r. int i + offsets ! r) [0..<num_keys] key_rows
     in bindE (mapE (\<lambda>(r, p). cache_slot block_size tables (first + r) p) (zip key_rows positions)) (\<lambda>slots.
        Inr \<lparr>ch_queries = (cu_q ! first, cu_q ! last),
             ch_cu_seqlens_q = map (\<lambda>n. n - cu_q ! first) (take (last + 1 - first) (drop first cu_q)),
             ch_cu_seqlens_k = cu_k,
             ch_max_seqlen_q = Max (set (map (\<lambda>i. cu_q ! (i + 1) - cu_q ! i) [first..<last])),
             ch_max_seqlen_k = Max (set ls), ch_slots = slots\<rparr>))"

text \<open>\<open>context_chunks\<close>, without its cache; the lengths of the keys are read back where the host has none.\<close>

definition context_chunks :: "attn_context \<Rightarrow> int \<Rightarrow> int \<Rightarrow> (context_chunk list res) option" where
  "context_chunks c block_size budget =
     (case (cx_cu_q_host c, cx_tables c) of
        (Some cu_q, Some tables) \<Rightarrow>
          (let ctx = map2 (-) (row_lens (cx_cu_k_host c)) (row_lens cu_q)
           in map_option (\<lambda>r. bindE r (mapE (make_chunk cu_q tables block_size))) (plan_context_chunks ctx budget))
      | _ \<Rightarrow> Some (Inl AssertionError))"

section \<open>The keys of a plan\<close>

definition piece_keys :: "nat \<Rightarrow> int \<Rightarrow> int \<Rightarrow> (nat \<times> int) list" where
  "piece_keys row start n = map (Pair row) [start..start + n - 1]"

fun pieces_keys :: "nat \<Rightarrow> int list \<Rightarrow> int list \<Rightarrow> (nat \<times> int) list" where
  "pieces_keys row (start # starts) (n # ls) = piece_keys row start n @ pieces_keys (Suc row) starts ls"
| "pieces_keys row _ _ = []"

definition chunk_keys :: "chunk_plan \<Rightarrow> (nat \<times> int) list" where
  "chunk_keys = (\<lambda>(first, starts, ls). pieces_keys first starts ls)"

text \<open>The keys not yet in a chunk.\<close>

definition keys_from :: "int list \<Rightarrow> nat \<Rightarrow> (nat \<times> int) list" where
  "keys_from ctx row = concat (map (\<lambda>r. piece_keys r 0 (ctx ! r)) [row..<length ctx])"

definition rest_keys :: "int list \<Rightarrow> nat \<Rightarrow> int \<Rightarrow> (nat \<times> int) list" where
  "rest_keys ctx row start =
     (if row < length ctx then piece_keys row start (ctx ! row - start) @ keys_from ctx (Suc row) else [])"

definition place_ok :: "int list \<Rightarrow> nat \<Rightarrow> int \<Rightarrow> bool" where
  "place_ok ctx row start \<longleftrightarrow> row \<le> length ctx \<and> 0 \<le> start \<and>
     (if row < length ctx \<and> ctx ! row \<noteq> 0 then start < ctx ! row else start = 0)"

lemma keys_from_Cons: "row < length ctx \<Longrightarrow> keys_from ctx row = piece_keys row 0 (ctx ! row) @ keys_from ctx (Suc row)"
  by (simp add: keys_from_def upt_conv_Cons)

lemma rest_keys_start: "rest_keys ctx row 0 = keys_from ctx row"
  by (auto simp: rest_keys_def keys_from_Cons) (simp add: keys_from_def)

lemma piece_keys_split: "0 \<le> a \<Longrightarrow> 0 \<le> b \<Longrightarrow> piece_keys row start (a + b) = piece_keys row start a @ piece_keys row (start + a) b"
  using upto_split1 [of start "start + a" "start + (a + b) - 1"] by (cases "a = 0"; cases "b = 0") (auto simp: piece_keys_def algebra_simps)

lemma length_piece_keys [simp]: "length (piece_keys row start n) = nat n"
  by (simp add: piece_keys_def)

text \<open>One round of the inner loop takes the next keys.\<close>

lemma rest_keys_step:
  assumes "place_ok ctx row start" "row < length ctx" "ctx ! row \<noteq> 0" "\<forall>l \<in> set ctx. 0 \<le> l"
    and "n = min (ctx ! row - start) left" "0 < left"
  shows "0 < n" "n \<le> left"
    "start + n = ctx ! row \<Longrightarrow> place_ok ctx (Suc row) 0 \<and> piece_keys row start n @ rest_keys ctx (Suc row) 0 = rest_keys ctx row start"
    "start + n \<noteq> ctx ! row \<Longrightarrow> n = left \<and> place_ok ctx row (start + n) \<and> piece_keys row start n @ rest_keys ctx row (start + n) = rest_keys ctx row start"
proof -
  have s: "0 \<le> start" "start < ctx ! row" using assms(1-3) by (auto simp: place_ok_def)
  then show n: "0 < n" "n \<le> left" using assms(5,6) by auto
  show "place_ok ctx (Suc row) 0 \<and> piece_keys row start n @ rest_keys ctx (Suc row) 0 = rest_keys ctx row start" if "start + n = ctx ! row"
  proof -
    have "n = ctx ! row - start" using that by simp
    then show ?thesis unfolding rest_keys_start using assms(2,4) by (auto simp: place_ok_def rest_keys_def less_le)
  qed
  show "n = left \<and> place_ok ctx row (start + n) \<and> piece_keys row start n @ rest_keys ctx row (start + n) = rest_keys ctx row start" if "start + n \<noteq> ctx ! row"
  proof -
    have "ctx ! row - start = n + (ctx ! row - (start + n))" "n < ctx ! row - start" using that assms(5) by auto
    then have "piece_keys row start (ctx ! row - start) = piece_keys row start n @ piece_keys row (start + n) (ctx ! row - (start + n))"
      using piece_keys_split [of n "ctx ! row - (start + n)" row start] n by simp
    then show ?thesis using that assms(2,3,5) s n by (auto simp: place_ok_def rest_keys_def)
  qed
qed

definition filled :: "int list \<Rightarrow> int \<Rightarrow> nat \<Rightarrow> int \<Rightarrow> int \<Rightarrow> nat \<times> int \<times> int list \<times> int list \<Rightarrow> bool" where
  "filled ctx budget row start used = (\<lambda>(row', start', ss, ls).
     row \<le> row' \<and> place_ok ctx row' start' \<and> length ss = length ls \<and> pieces_keys row ss ls @ rest_keys ctx row' start' = rest_keys ctx row start \<and>
     (\<forall>n \<in> set ls. 0 < n) \<and> used + sum_list ls \<le> budget \<and> row + length ls \<le> length ctx)"

lemma fill_chunk_total:
  assumes "\<forall>l \<in> set ctx. 0 \<le> l"
  shows "place_ok ctx row start \<Longrightarrow> used \<le> budget \<Longrightarrow>
    \<exists>row' start' ss ls. fill_chunk ctx budget row start starts0 ls0 used = Some (row', start', starts0 @ ss, ls0 @ ls, used + sum_list ls) \<and>
      filled ctx budget row start used (row', start', ss, ls) \<and> (row < length ctx \<and> ctx ! row \<noteq> 0 \<and> used < budget \<longrightarrow> ls \<noteq> [])"
proof (induction "length (rest_keys ctx row start)" arbitrary: row start starts0 ls0 used rule: less_induct)
  case less
  show ?case
  proof (cases "row < length ctx \<and> ctx ! row \<noteq> 0 \<and> used < budget")
    case False
    then have "fill_chunk ctx budget row start starts0 ls0 used = Some (row, start, starts0 @ [], ls0 @ [], used + sum_list [])"
      by (subst fill_chunk.simps) auto
    then show ?thesis using less.prems False by (intro exI [of _ row] exI [of _ start] exI [of _ "[]"]) (auto simp: filled_def place_ok_def)
  next
    case True
    define n where "n = min (ctx ! row - start) (budget - used)"
    have row: "row < length ctx" "ctx ! row \<noteq> 0" "0 < budget - used" using True by auto
    note step = rest_keys_step [OF less.prems(1) row(1,2) assms n_def row(3)]
    have n: "length (piece_keys row start n) = nat n" "0 < nat n" "used + n \<le> budget" using step(1,2) by auto
    show ?thesis
    proof (cases "start + n = ctx ! row")
      case True
      note full = step(3) [OF True]
      have "length (rest_keys ctx row start) = nat n + length (rest_keys ctx (Suc row) 0)" using full n(1) by (metis length_append)
      then obtain row' start' ss ls where rec: "fill_chunk ctx budget (Suc row) 0 (starts0 @ [start]) (ls0 @ [n]) (used + n) =
            Some (row', start', (starts0 @ [start]) @ ss, (ls0 @ [n]) @ ls, used + n + sum_list ls)"
          "filled ctx budget (Suc row) 0 (used + n) (row', start', ss, ls)"
        using less.hyps [of "Suc row" 0 "used + n" "starts0 @ [start]" "ls0 @ [n]"] full n by auto
      have "fill_chunk ctx budget row start starts0 ls0 used = Some (row', start', starts0 @ start # ss, ls0 @ n # ls, used + sum_list (n # ls))"
        using row True rec(1) by (subst fill_chunk.simps) (simp add: n_def [symmetric] Let_def add.assoc)
      moreover have "filled ctx budget row start used (row', start', start # ss, n # ls)"
        using rec(2) full step(1) by (auto simp: filled_def)
      ultimately show ?thesis by blast
    next
      case False
      note cut = step(4) [OF False]
      have "fill_chunk ctx budget row (start + n) (starts0 @ [start]) (ls0 @ [n]) (used + n) =
          Some (row, start + n, starts0 @ [start], ls0 @ [n], used + n)"
        using cut by (subst fill_chunk.simps) simp
      then have "fill_chunk ctx budget row start starts0 ls0 used = Some (row, start + n, starts0 @ [start], ls0 @ [n], used + sum_list [n])"
        using row False by (subst fill_chunk.simps) (simp add: n_def [symmetric] Let_def)
      moreover have "filled ctx budget row start used (row, start + n, [start], [n])"
        using cut step(1) n(3) row(1) by (auto simp: filled_def)
      ultimately show ?thesis by blast
    qed
  qed
qed

definition chunk_ok :: "int list \<Rightarrow> int \<Rightarrow> chunk_plan \<Rightarrow> bool" where
  "chunk_ok ctx budget = (\<lambda>(first, starts, ls). ls \<noteq> [] \<and> length starts = length ls \<and> (\<forall>n \<in> set ls. 0 < n) \<and>
     sum_list ls \<le> budget \<and> first + length ls \<le> length ctx)"

lemma plan_loop_total:
  assumes "\<forall>l \<in> set ctx. 0 \<le> l" "0 < budget"
  shows "place_ok ctx row start \<Longrightarrow> \<exists>new. plan_loop ctx budget row start chunks = Some (chunks @ new) \<and>
    concat (map chunk_keys new) = rest_keys ctx row start \<and> (\<forall>ch \<in> set new. chunk_ok ctx budget ch)"
proof (induction "length (rest_keys ctx row start) + (length ctx - row)" arbitrary: row start chunks rule: less_induct)
  case less
  consider "\<not> row < length ctx" | "row < length ctx" "ctx ! row = 0" | "row < length ctx" "ctx ! row \<noteq> 0" by blast
  then show ?case
  proof cases
    case 1
    then have "plan_loop ctx budget row start chunks = Some (chunks @ [])" by (subst plan_loop.simps) simp
    then show ?thesis using 1 by (intro exI [of _ "[]"]) (simp add: rest_keys_def)
  next
    case 2
    have start: "start = 0" using less.prems 2 by (simp add: place_ok_def)
    have "rest_keys ctx (Suc row) 0 = rest_keys ctx row start"
      unfolding start rest_keys_start using 2 by (simp add: keys_from_Cons piece_keys_def)
    moreover have "place_ok ctx (Suc row) 0" using assms(1) 2 by (auto simp: place_ok_def less_le)
    moreover have "length (rest_keys ctx (Suc row) 0) + (length ctx - Suc row) < length (rest_keys ctx row start) + (length ctx - row)"
      unfolding calculation(1) using 2(1) by linarith
    ultimately obtain new where "plan_loop ctx budget (Suc row) 0 chunks = Some (chunks @ new)"
        "concat (map chunk_keys new) = rest_keys ctx row start" "\<forall>ch \<in> set new. chunk_ok ctx budget ch"
      using less.hyps [of "Suc row" 0 chunks] by metis
    moreover have "plan_loop ctx budget row start chunks = plan_loop ctx budget (Suc row) 0 chunks"
      using 2 start by (subst plan_loop.simps) simp
    ultimately show ?thesis by auto
  next
    case 3
    obtain row' start' ss ls where f: "fill_chunk ctx budget row start [] [] 0 = Some (row', start', ss, ls, sum_list ls)"
        "filled ctx budget row start 0 (row', start', ss, ls)" "ls \<noteq> []"
      using fill_chunk_total [OF assms(1) less.prems, of 0 budget "[]" "[]"] assms(2) 3 by auto
    have le: "row \<le> row'" using f(2) by (simp add: filled_def)
    have keys: "pieces_keys row ss ls @ rest_keys ctx row' start' = rest_keys ctx row start" "place_ok ctx row' start'" "length ss = length ls" "\<forall>n \<in> set ls. 0 < n"
      using f(2) by (auto simp: filled_def)
    have "0 < length (pieces_keys row ss ls)" using keys(3,4) f(3) by (cases ls; cases ss) auto
    then have "length (rest_keys ctx row' start') + (length ctx - row') < length (rest_keys ctx row start) + (length ctx - row)"
      using keys(1) le by (metis add_less_le_mono diff_le_mono2 length_append less_add_same_cancel2)
    then obtain new where new: "plan_loop ctx budget row' start' (chunks @ [(row, ss, ls)]) = Some ((chunks @ [(row, ss, ls)]) @ new)"
        "concat (map chunk_keys new) = rest_keys ctx row' start'" "\<forall>ch \<in> set new. chunk_ok ctx budget ch"
      using less.hyps [OF _ keys(2)] by blast
    moreover have "plan_loop ctx budget row start chunks = plan_loop ctx budget row' start' (chunks @ [(row, ss, ls)])"
      using 3 f(1) by (subst plan_loop.simps) simp
    moreover have "chunk_ok ctx budget (row, ss, ls)" using f(2,3) by (auto simp: filled_def chunk_ok_def)
    ultimately show ?thesis using keys(1) by (intro exI [of _ "(row, ss, ls) # new"]) (auto simp: chunk_keys_def)
  qed
qed

section \<open>The slots of a chunk\<close>

lemma pieces_keys_concat:
  "length starts = length ls \<Longrightarrow> pieces_keys first starts ls =
    concat (map (\<lambda>k. map (\<lambda>c. (first + k, starts ! k + int c)) [0..<nat (ls ! k)]) [0..<length ls])"
proof (induction starts ls arbitrary: first rule: list_induct2)
  case (Cons st starts n ls)
  have "piece_keys first st n = map (\<lambda>c. (first, st + int c)) [0..<nat n]"
    by (rule nth_equalityI) (auto simp: piece_keys_def nth_upto)
  then show ?case using Cons.IH [of "Suc first"] by (simp add: map_upt_Suc del: upt_Suc)
qed simp

lemma chunk_pairs:
  assumes "length starts = length ls" "\<forall>n \<in> set ls. 0 < n"
  shows "zip (repeat_interleave [0..<length ls] (map nat ls))
      (map2 (\<lambda>i r. int i + map2 (-) starts (cu_seqlens ls) ! r) [0..<nat (cu_seqlens ls ! length ls)] (repeat_interleave [0..<length ls] (map nat ls))) =
    map (\<lambda>(k, c). (k, starts ! k + int c)) (zip (index_of_rows (map nat ls)) (concat (map (\<lambda>n. [0..<n]) (map nat ls))))"
proof -
  have last: "cu_seqlens ls ! length ls = last (cu_seqlens ls)" by (simp add: cu_seqlens_def nth_append)
  have "map2 (\<lambda>i r. int i + map2 (-) starts (cu_seqlens ls) ! r) [0..<nat (last (cu_seqlens ls))] (token_rows ls) = token_positions starts ls"
    unfolding token_positions_def Let_def
  proof (rule map2_cong_set)
    fix i r assume "(i, r) \<in> set (zip [0..<nat (last (cu_seqlens ls))] (token_rows ls))"
    then have "r < length ls" using set_zip_rightD index_of_rows_less [of r "map nat ls"] by (fastforce simp: token_rows_def index_of_rows_def)
    then show "int i + map2 (-) starts (cu_seqlens ls) ! r = starts ! r + int i - cu_seqlens ls ! r"
      using assms(1) by (simp add: cu_seqlens_def del: upt_Suc)
  qed
  then show ?thesis using flat_pairs [of ls starts] assms by (simp add: token_rows_def last less_imp_le)
qed

lemma make_chunk_slots:
  assumes ok: "chunk_ok ctx budget (first, starts, ls)"
    and slot: "\<And>r p. (r, p) \<in> set (pieces_keys first starts ls) \<Longrightarrow> cache_slot bs tables r p = Inr (slot r p)"
  shows "okE (make_chunk cu_q tables bs (first, starts, ls)) (\<lambda>ch. ch_slots ch = map (\<lambda>(r, p). slot r p) (pieces_keys first starts ls) \<and>
    ch_cu_seqlens_k ch = cu_seqlens ls)"
proof -
  let ?ns = "map nat ls" let ?cells = "zip (index_of_rows ?ns) (concat (map (\<lambda>n. [0..<n]) ?ns))"
  have len: "length starts = length ls" "\<forall>n \<in> set ls. 0 < n" using ok by (auto simp: chunk_ok_def)
  have keys: "pieces_keys first starts ls = map (\<lambda>(k, c). (first + k, starts ! k + int c)) ?cells"
    unfolding map_cells pieces_keys_concat [OF len(1)] by (intro arg_cong [where f = concat] map_cong) auto
  have "mapE (\<lambda>(r, p). cache_slot bs tables (first + r) p) (map (\<lambda>(k, c). (k, starts ! k + int c)) ?cells) =
      mapE (\<lambda>(r, p). cache_slot bs tables r p) (pieces_keys first starts ls)"
    unfolding keys mapE_map by (simp add: split_def)
  also have "\<dots> = Inr (map (\<lambda>(r, p). slot r p) (pieces_keys first starts ls))" using slot by (intro mapE_total) auto
  finally show ?thesis unfolding make_chunk_def split_conv Let_def chunk_pairs [OF len] by simp
qed

lemma length_chunk_keys:
  assumes "chunk_ok ctx budget (first, starts, ls)"
  shows "int (length (pieces_keys first starts ls)) = sum_list ls" "0 < sum_list ls"
proof -
  have "length starts = length ls" "\<forall>n \<in> set ls. 0 < n" using assms by (auto simp: chunk_ok_def)
  then show "int (length (pieces_keys first starts ls)) = sum_list ls"
  proof (induction starts ls arbitrary: first rule: list_induct2)
    case (Cons st starts n ls)
    then show ?case using Cons.IH [of "Suc first"] by simp
  qed simp
  obtain n ns where ns: "ls = n # ns" "0 < n" "\<forall>n \<in> set ns. 0 \<le> n" using assms by (cases ls) (auto simp: chunk_ok_def less_imp_le)
  then have "0 \<le> sum_list ns" by (simp add: sum_list_nonneg)
  then show "0 < sum_list ls" using ns by simp
qed

definition chunk_of_plan :: "(nat \<times> int \<Rightarrow> int) \<Rightarrow> int \<Rightarrow> chunk_plan \<Rightarrow> context_chunk \<Rightarrow> bool" where
  "chunk_of_plan slot budget p ch \<longleftrightarrow> ch_slots ch = map slot (chunk_keys p) \<and> ch_slots ch \<noteq> [] \<and>
     int (length (ch_slots ch)) \<le> budget \<and> last (ch_cu_seqlens_k ch) = int (length (ch_slots ch))"

lemma make_chunks:
  assumes "\<forall>p \<in> set plan. chunk_ok ctx budget p"
    and "\<And>r p. (r, p) \<in> set (concat (map chunk_keys plan)) \<Longrightarrow> cache_slot bs tables r p = Inr (slot (r, p))"
  shows "\<exists>chunks. mapE (make_chunk cu_q tables bs) plan = Inr chunks \<and> length chunks = length plan \<and>
    (\<forall>i < length plan. chunk_of_plan slot budget (plan ! i) (chunks ! i))"
proof (rule mapE_ex)
  fix i assume i: "i < length plan"
  obtain first starts ls where p: "plan ! i = (first, starts, ls)" by (metis prod.collapse)
  have ok: "chunk_ok ctx budget (first, starts, ls)" using assms(1) nth_mem [OF i] p by metis
  have "cache_slot bs tables r q = Inr (slot (r, q))" if "(r, q) \<in> set (pieces_keys first starts ls)" for r q
    using that assms(2) [of r q] nth_mem [OF i] p by (force simp: chunk_keys_def)
  from make_chunk_slots [OF ok this, of cu_q] obtain ch where ch: "make_chunk cu_q tables bs (plan ! i) = Inr ch"
      "ch_slots ch = map slot (chunk_keys (plan ! i))" "ch_cu_seqlens_k ch = cu_seqlens ls"
    by (auto simp: okE_iff chunk_keys_def p)
  have "chunk_of_plan slot budget (plan ! i) ch"
    using ch(2,3) length_chunk_keys [OF ok] ok by (auto simp: chunk_of_plan_def chunk_keys_def p cu_seqlens_def chunk_ok_def)
  then show "\<exists>y. make_chunk cu_q tables bs (plan ! i) = Inr y \<and> chunk_of_plan slot budget (plan ! i) y" using ch(1) by blast
qed

lemma cached_slot:
  assumes "(r, p) \<in> set (keys_from ctx 0)" "0 < bs" "\<forall>r < length ctx. ctx ! r \<le> int (length (tables ! r)) * bs"
  shows "cache_slot bs tables r p = Inr (tables ! r ! nat (p div bs) * bs + p mod bs)"
proof -
  have rp: "0 \<le> p" "p < int (length (tables ! r)) * bs" using assms(1,3) by (auto simp: keys_from_def piece_keys_def)
  have "p div bs * bs \<le> p" using assms(2) by (simp add: minus_mod_eq_div_mult [symmetric])
  then have "p div bs * bs < int (length (tables ! r)) * bs" using rp(2) by simp
  then have "p div bs < int (length (tables ! r))" using assms(2) by (simp add: mult_less_cancel_right)
  then show ?thesis using rp(1) assms(2) by (simp add: cache_slot_def py_simps pos_imp_zdiv_nonneg_iff)
qed

text \<open>
  C32: the planned chunks hold every cached key once.  With a positive budget both loops of the plan
  end; the chunks' slots, one after the other, are those of the keys of all rows in order, each the
  slot its token was written to; and no chunk is empty or larger than the budget.
\<close>

theorem context_chunks_exact:
  assumes "cx_cu_q_host c = Some cu_q" "cx_tables c = Some tables" "ctx = map2 (-) (row_lens (cx_cu_k_host c)) (row_lens cu_q)"
    and "\<forall>l \<in> set ctx. 0 \<le> l" "0 < budget" "0 < bs" "\<forall>r < length ctx. ctx ! r \<le> int (length (tables ! r)) * bs"
  shows "\<exists>chunks. context_chunks c bs budget = Some (Inr chunks) \<and>
    concat (map ch_slots chunks) = concat (map (\<lambda>r. map (\<lambda>p. tables ! r ! nat (p div bs) * bs + p mod bs) [0..ctx ! r - 1]) [0..<length ctx]) \<and>
    (\<forall>ch \<in> set chunks. ch_slots ch \<noteq> [] \<and> int (length (ch_slots ch)) \<le> budget \<and> last (ch_cu_seqlens_k ch) = int (length (ch_slots ch)))"
proof -
  let ?slot = "\<lambda>(r, p). tables ! r ! nat (p div bs) * bs + p mod bs"
  have "place_ok ctx 0 0" using assms(4) by (auto simp: place_ok_def less_le)
  then obtain plan where plan: "plan_loop ctx budget 0 0 [] = Some plan" "concat (map chunk_keys plan) = keys_from ctx 0" "\<forall>ch \<in> set plan. chunk_ok ctx budget ch"
    using plan_loop_total [OF assms(4,5), of 0 0 "[]"] by (auto simp: rest_keys_start)
  obtain chunks where ch: "mapE (make_chunk cu_q tables bs) plan = Inr chunks" "length chunks = length plan"
      "\<And>i. i < length plan \<Longrightarrow> chunk_of_plan ?slot budget (plan ! i) (chunks ! i)"
    using make_chunks [OF plan(3), of bs tables ?slot cu_q] cached_slot [OF _ assms(6,7)] plan(2) by auto
  have "map ch_slots chunks = map (map ?slot \<circ> chunk_keys) plan"
    using ch(2,3) by - (rule nth_equalityI, simp_all add: chunk_of_plan_def)
  then have "concat (map ch_slots chunks) = map ?slot (keys_from ctx 0)"
    by (simp add: plan(2) [symmetric] map_concat comp_def)
  then have slots: "concat (map ch_slots chunks) = concat (map (\<lambda>r. map (\<lambda>p. ?slot (r, p)) [0..ctx ! r - 1]) [0..<length ctx])"
    by (simp add: keys_from_def piece_keys_def map_concat comp_def)
  have "\<forall>ch \<in> set chunks. ch_slots ch \<noteq> [] \<and> int (length (ch_slots ch)) \<le> budget \<and> last (ch_cu_seqlens_k ch) = int (length (ch_slots ch))"
  proof
    fix x assume "x \<in> set chunks"
    then obtain i where "i < length plan" "x = chunks ! i" using ch(2) by (metis in_set_conv_nth)
    then show "ch_slots x \<noteq> [] \<and> int (length (ch_slots x)) \<le> budget \<and> last (ch_cu_seqlens_k x) = int (length (ch_slots x))"
      using ch(3) unfolding chunk_of_plan_def by blast
  qed
  then show ?thesis using plan(1) ch(1) slots assms(1-3,5)
    by (intro exI [of _ chunks]) (simp add: context_chunks_def plan_context_chunks_def Let_def)
qed

text \<open>Two rows with three and four cached keys, in chunks of at most five.\<close>

definition demo_chunk_context :: attn_context where
  "demo_chunk_context = demo_attn_context\<lparr>cx_cu_q_host := Some [0, 1, 3], cx_cu_k_host := [0, 4, 10], cx_tables := Some [[0, 1], [0, 2]]\<rparr>"

theorem context_chunks_exact_witness:
  "\<exists>chunks. context_chunks demo_chunk_context 2 5 = Some (Inr chunks) \<and> concat (map ch_slots chunks) = [0, 1, 2, 0, 1, 4, 5]"
proof -
  have "map2 (-) (row_lens (cx_cu_k_host demo_chunk_context)) (row_lens [0, 1, 3]) = [3, 4]"
    "concat (map (\<lambda>r. map (\<lambda>p. [[0, 1], [0, 2]] ! r ! nat (p div 2) * 2 + p mod 2) [0..[3, 4] ! r - 1]) [0..<length [3, 4 :: int]]) = [0, 1, 2, 0, 1, 4, 5 :: int]"
    "\<forall>r < length [3, 4 :: int]. [3, 4] ! r \<le> int (length ([[0, 1], [0, 2 :: int]] ! r)) * 2"
    by code_simp+
  then show ?thesis
    using context_chunks_exact [of demo_chunk_context "[0, 1, 3]" "[[0, 1], [0, 2]]" "[3, 4]" 5 2] by (auto simp: demo_chunk_context_def)
qed

end
