(* ===== verification/Tensor_Parallel.thy ===== *)
theory Tensor_Parallel
  imports Tensors
begin

text \<open>
  \<open>layers/linear.py\<close>, \<open>layers/embed_head.py\<close> and the gated MLP of \<open>models/qwen3.py\<close>: how weights are cut
  over the ranks of a tensor-parallel group, and what the ranks compute together.  Entries are
  rationals, so sums over ranks are exact.  A parameter tensor is a vector (a bias) or a matrix
  with at least one row; \<open>torch.empty\<close> gives whatever the memory \<open>mem\<close> holds.  The ranks run in lockstep:
  what ends in a collective is a function of the list of their layers.
\<close>

section \<open>Tensors of parameters\<close>

type_synonym matrix = "rat list list"

datatype tensor = Vec "rat list" | Mat matrix

definition shape_error :: py_error where
  "shape_error = RuntimeError ''shape''"

primrec ndim :: "tensor \<Rightarrow> nat" where
  "ndim (Vec v) = 1"
| "ndim (Mat m) = 2"

fun tensor_size :: "nat \<Rightarrow> tensor \<Rightarrow> nat res" where
  "tensor_size 0 (Vec v) = Inr (length v)"
| "tensor_size 0 (Mat m) = Inr (length m)"
| "tensor_size (Suc 0) (Mat m) = Inr (length (hd m))"
| "tensor_size _ _ = Inl IndexError"

text \<open>\<open>t.narrow(dim, start, n)\<close> and \<open>t.narrow(0, start, n).copy_(src)\<close>, which writes into \<open>t\<close>.\<close>

definition part :: "nat \<Rightarrow> nat \<Rightarrow> 'a list \<Rightarrow> 'a list" where
  "part start n xs = take n (drop start xs)"

fun narrow :: "nat \<Rightarrow> nat \<Rightarrow> nat \<Rightarrow> tensor \<Rightarrow> tensor res" where
  "narrow 0 start n (Vec v) = (if start + n \<le> length v then Inr (Vec (part start n v)) else Inl shape_error)"
| "narrow 0 start n (Mat m) = (if start + n \<le> length m then Inr (Mat (part start n m)) else Inl shape_error)"
| "narrow (Suc 0) start n (Mat m) =
     (if list_all (\<lambda>r. start + n \<le> length r) m then Inr (Mat (map (part start n) m)) else Inl shape_error)"
| "narrow _ start n _ = Inl IndexError"

text \<open>\<open>copy_\<close> broadcasts a source dimension that is missing or 1.\<close>

definition broadcast :: "nat \<Rightarrow> 'a list \<Rightarrow> 'a list res" where
  "broadcast n xs = (if length xs = n then Inr xs else if length xs = 1 then Inr (replicate n (hd xs)) else Inl shape_error)"

fun copy_into :: "tensor \<Rightarrow> tensor \<Rightarrow> tensor res" where
  "copy_into (Vec d) (Vec s) = bindE (broadcast (length d) s) (\<lambda>v. Inr (Vec v))"
| "copy_into (Mat d) (Vec s) = bindE (broadcast (length (hd d)) s) (\<lambda>v. Inr (Mat (replicate (length d) v)))"
| "copy_into (Mat d) (Mat s) =
     bindE (mapE (broadcast (length (hd d))) s) (\<lambda>m. bindE (broadcast (length d) m) (\<lambda>m. Inr (Mat m)))"
| "copy_into (Vec d) (Mat s) = Inl shape_error"

fun put_part :: "nat \<Rightarrow> tensor \<Rightarrow> tensor \<Rightarrow> tensor" where
  "put_part start (Vec d) (Vec s) = Vec (take start d @ s @ drop (start + length s) d)"
| "put_part start (Mat d) (Mat s) = Mat (take start d @ s @ drop (start + length s) d)"
| "put_part start t _ = t"

definition narrow_copy :: "nat \<Rightarrow> nat \<Rightarrow> tensor \<Rightarrow> tensor \<Rightarrow> tensor res" where
  "narrow_copy start n dst src =
     bindE (narrow 0 start n dst) (\<lambda>view. bindE (copy_into view src) (\<lambda>new. Inr (put_part start dst new)))"

text \<open>\<open>t.chunk(n, dim)\<close>: pieces of \<open>ceil (size / n)\<close>, the last one shorter.\<close>

definition chunk_starts :: "nat \<Rightarrow> nat \<Rightarrow> nat \<times> nat list" where
  "chunk_starts n len = (let k = (len + n - 1) div n in (k, map (\<lambda>i. i * k) [0..<(len + k - 1) div k]))"

definition chunk_list :: "nat \<Rightarrow> 'a list \<Rightarrow> 'a list list" where
  "chunk_list n xs = (let (k, starts) = chunk_starts n (length xs) in map (\<lambda>s. part s k xs) starts)"

fun chunk :: "nat \<Rightarrow> nat \<Rightarrow> tensor \<Rightarrow> tensor list res" where
  "chunk n 0 (Vec v) = Inr (map Vec (chunk_list n v))"
| "chunk n 0 (Mat m) = Inr (map Mat (chunk_list n m))"
| "chunk n (Suc 0) (Mat m) =
     (let (k, starts) = chunk_starts n (length (hd m)) in Inr (map (\<lambda>s. Mat (map (part s k) m)) starts))"
| "chunk n _ _ = Inl IndexError"

text \<open>\<open>F.linear\<close>.\<close>

definition dot :: "rat list \<Rightarrow> rat list \<Rightarrow> rat" where
  "dot a b = sum_list (map2 (*) a b)"

definition matvec :: "matrix \<Rightarrow> rat list \<Rightarrow> rat list" where
  "matvec w x = map (\<lambda>r. dot r x) w"

definition add_bias :: "rat list option \<Rightarrow> rat list \<Rightarrow> rat list" where
  "add_bias b y = (case b of None \<Rightarrow> y | Some v \<Rightarrow> map2 (+) y v)"

definition f_linear :: "matrix \<Rightarrow> matrix \<Rightarrow> rat list option \<Rightarrow> matrix res" where
  "f_linear x w b =
     (if list_all (\<lambda>r. list_all (\<lambda>q. length q = length r) w) x then Inr (map (\<lambda>r. add_bias b (matvec w r)) x)
      else Inl shape_error)"

text \<open>\<open>dist.all_reduce\<close>: every rank gets the sum.\<close>

fun sum_matrices :: "matrix list \<Rightarrow> matrix" where
  "sum_matrices [] = []"
| "sum_matrices [y] = y"
| "sum_matrices (y # ys) = map2 (map2 (+)) y (sum_matrices ys)"

definition all_reduce :: "matrix list \<Rightarrow> matrix list" where
  "all_reduce ys = replicate (length ys) (sum_matrices ys)"

section \<open>Linear layers\<close>

definition divide_exact :: "nat \<Rightarrow> nat \<Rightarrow> nat res" where
  "divide_exact numerator denominator = bindE (assertE (numerator mod denominator = 0)) (\<lambda>_. Inr (numerator div denominator))"

record linear_base =
  tp_dim :: "nat option"
  tp_rank :: nat
  tp_size :: nat
  weight :: matrix
  bias :: "rat list option"

record merged_linear = linear_base +
  output_sizes :: "nat list"

record qkv_linear = linear_base +
  lin_head_size :: nat
  lin_num_heads :: nat
  lin_num_kv_heads :: nat

type_synonym memory = "nat \<Rightarrow> nat \<Rightarrow> rat"

definition empty_matrix :: "memory \<Rightarrow> nat \<Rightarrow> nat \<Rightarrow> matrix" where
  "empty_matrix mem rows cols = map (\<lambda>i. map (mem i) [0..<cols]) [0..<rows]"

definition new_linear_base :: "memory \<Rightarrow> nat \<Rightarrow> nat \<Rightarrow> nat \<Rightarrow> nat \<Rightarrow> bool \<Rightarrow> nat option \<Rightarrow> linear_base" where
  "new_linear_base mem rank world input_size output_size has_bias tpd =
     \<lparr>tp_dim = tpd, tp_rank = rank, tp_size = world, weight = empty_matrix mem output_size input_size,
      bias = (if has_bias then Some (map (mem output_size) [0..<output_size]) else None)\<rparr>"

text \<open>
  A weight loader takes the parameter it fills and the tensor of the checkpoint; what it returns is
  the parameter afterwards.
\<close>

definition load_weight :: "('a linear_base_scheme \<Rightarrow> tensor \<Rightarrow> tensor \<Rightarrow> tensor res) \<Rightarrow> tensor \<Rightarrow> 'a linear_base_scheme \<Rightarrow> 'a linear_base_scheme res" where
  "load_weight loader loaded l =
     bindE (loader l (Mat (weight l)) loaded) (\<lambda>t. case t of Mat w \<Rightarrow> Inr (l\<lparr>weight := w\<rparr>) | Vec _ \<Rightarrow> Inl TypeError)"

definition load_bias :: "('a linear_base_scheme \<Rightarrow> tensor \<Rightarrow> tensor \<Rightarrow> tensor res) \<Rightarrow> tensor \<Rightarrow> 'a linear_base_scheme \<Rightarrow> 'a linear_base_scheme res" where
  "load_bias loader loaded l =
     (case bias l of
        None \<Rightarrow> Inl KeyError
      | Some b \<Rightarrow> bindE (loader l (Vec b) loaded) (\<lambda>t. case t of Vec v \<Rightarrow> Inr (l\<lparr>bias := Some v\<rparr>) | Mat _ \<Rightarrow> Inl TypeError))"

subsection \<open>Replicated\<close>

definition new_replicated :: "memory \<Rightarrow> nat \<Rightarrow> nat \<Rightarrow> nat \<Rightarrow> nat \<Rightarrow> bool \<Rightarrow> linear_base" where
  "new_replicated mem rank world input_size output_size has_bias =
     new_linear_base mem rank world input_size output_size has_bias None"

definition replicated_loader :: "'a linear_base_scheme \<Rightarrow> tensor \<Rightarrow> tensor \<Rightarrow> tensor res" where
  "replicated_loader l param loaded = copy_into param loaded"

definition replicated_forward :: "'a linear_base_scheme \<Rightarrow> matrix \<Rightarrow> matrix res" where
  "replicated_forward l x = f_linear x (weight l) (bias l)"

definition new_merged_replicated :: "memory \<Rightarrow> nat \<Rightarrow> nat \<Rightarrow> nat \<Rightarrow> nat list \<Rightarrow> bool \<Rightarrow> merged_linear" where
  "new_merged_replicated mem rank world input_size sizes has_bias =
     linear_base.extend (new_replicated mem rank world input_size (sum_list sizes) has_bias) \<lparr>output_sizes = sizes\<rparr>"

definition merged_replicated_loader :: "nat \<Rightarrow> merged_linear \<Rightarrow> tensor \<Rightarrow> tensor \<Rightarrow> tensor res" where
  "merged_replicated_loader shard_id l param loaded =
     (if length (output_sizes l) \<le> shard_id then Inl IndexError
      else narrow_copy (sum_list (take shard_id (output_sizes l))) (output_sizes l ! shard_id) param loaded)"

subsection \<open>Cut by output\<close>

definition new_column_parallel :: "memory \<Rightarrow> nat \<Rightarrow> nat \<Rightarrow> nat \<Rightarrow> nat \<Rightarrow> bool \<Rightarrow> linear_base res" where
  "new_column_parallel mem rank world input_size output_size has_bias =
     bindE (divide_exact output_size world) (\<lambda>n. Inr (new_linear_base mem rank world input_size n has_bias (Some 0)))"

definition parallel_loader :: "nat \<Rightarrow> 'a linear_base_scheme \<Rightarrow> tensor \<Rightarrow> tensor \<Rightarrow> tensor res" where
  "parallel_loader d l param loaded =
     bindE (tensor_size d param) (\<lambda>shard_size.
     bindE (narrow d (tp_rank l * shard_size) shard_size loaded) (copy_into param))"

definition column_parallel_loader :: "'a linear_base_scheme \<Rightarrow> tensor \<Rightarrow> tensor \<Rightarrow> tensor res" where
  "column_parallel_loader l = parallel_loader 0 l"

definition column_parallel_forward :: "'a linear_base_scheme \<Rightarrow> matrix \<Rightarrow> matrix res" where
  "column_parallel_forward l x = f_linear x (weight l) (bias l)"

definition new_merged_column :: "memory \<Rightarrow> nat \<Rightarrow> nat \<Rightarrow> nat \<Rightarrow> nat list \<Rightarrow> bool \<Rightarrow> merged_linear res" where
  "new_merged_column mem rank world input_size sizes has_bias =
     bindE (new_column_parallel mem rank world input_size (sum_list sizes) has_bias) (\<lambda>l.
     Inr (linear_base.extend l \<lparr>output_sizes = sizes\<rparr>))"

text \<open>The rank's chunk of a shard, written to the shard's place.\<close>

definition load_chunk :: "'a linear_base_scheme \<Rightarrow> nat \<Rightarrow> nat \<Rightarrow> tensor \<Rightarrow> tensor \<Rightarrow> tensor res" where
  "load_chunk l shard_offset shard_size param loaded =
     bindE (narrow 0 shard_offset shard_size param) (\<lambda>view.
     bindE (chunk (tp_size l) 0 loaded) (\<lambda>cs.
     bindE (py_get cs (int (tp_rank l))) (\<lambda>shard.
     bindE (copy_into view shard) (\<lambda>new. Inr (put_part shard_offset param new)))))"

definition merged_column_loader :: "nat \<Rightarrow> merged_linear \<Rightarrow> tensor \<Rightarrow> tensor \<Rightarrow> tensor res" where
  "merged_column_loader shard_id l param loaded =
     (if length (output_sizes l) \<le> shard_id then Inl IndexError
      else load_chunk l (sum_list (take shard_id (output_sizes l)) div tp_size l) (output_sizes l ! shard_id div tp_size l) param loaded)"

definition new_qkv :: "memory \<Rightarrow> nat \<Rightarrow> nat \<Rightarrow> nat \<Rightarrow> nat \<Rightarrow> nat \<Rightarrow> nat option \<Rightarrow> bool \<Rightarrow> qkv_linear res" where
  "new_qkv mem rank world hidden_size head_size total_num_heads kv has_bias =
     (let total_num_kv_heads = (case kv of None \<Rightarrow> total_num_heads | Some n \<Rightarrow> if n = 0 then total_num_heads else n)
      in bindE (divide_exact total_num_heads world) (\<lambda>num_heads.
         bindE (divide_exact total_num_kv_heads world) (\<lambda>num_kv_heads.
         bindE (new_column_parallel mem rank world hidden_size ((total_num_heads + 2 * total_num_kv_heads) * head_size) has_bias) (\<lambda>l.
         Inr (linear_base.extend l \<lparr>lin_head_size = head_size, lin_num_heads = num_heads, lin_num_kv_heads = num_kv_heads\<rparr>)))))"

definition qkv_shard :: "string \<Rightarrow> qkv_linear \<Rightarrow> (nat \<times> nat) res" where
  "qkv_shard shard_id l =
     (let q = lin_num_heads l * lin_head_size l; kv = lin_num_kv_heads l * lin_head_size l
      in bindE (assertE (shard_id \<in> {''q'', ''k'', ''v''})) (\<lambda>_.
         Inr (if shard_id = ''q'' then (0, q) else if shard_id = ''k'' then (q, kv) else (q + kv, kv))))"

definition qkv_loader :: "string \<Rightarrow> qkv_linear \<Rightarrow> tensor \<Rightarrow> tensor \<Rightarrow> tensor res" where
  "qkv_loader shard_id l param loaded =
     bindE (qkv_shard shard_id l) (\<lambda>(shard_offset, shard_size). load_chunk l shard_offset shard_size param loaded)"

subsection \<open>Cut by input\<close>

definition new_row_parallel :: "memory \<Rightarrow> nat \<Rightarrow> nat \<Rightarrow> nat \<Rightarrow> nat \<Rightarrow> bool \<Rightarrow> linear_base res" where
  "new_row_parallel mem rank world input_size output_size has_bias =
     bindE (divide_exact input_size world) (\<lambda>n. Inr (new_linear_base mem rank world n output_size has_bias (Some 1)))"

definition row_parallel_loader :: "'a linear_base_scheme \<Rightarrow> tensor \<Rightarrow> tensor \<Rightarrow> tensor res" where
  "row_parallel_loader l param loaded = (if ndim param = 1 then copy_into param loaded else parallel_loader 1 l param loaded)"

definition row_partial :: "'a linear_base_scheme \<Rightarrow> matrix \<Rightarrow> matrix res" where
  "row_partial l x = f_linear x (weight l) (if tp_rank l = 0 then bias l else None)"

definition row_parallel_forward :: "'a linear_base_scheme list \<Rightarrow> matrix list \<Rightarrow> matrix list res" where
  "row_parallel_forward ls xs =
     bindE (mapE (\<lambda>(l, x). row_partial l x) (zip ls xs)) (\<lambda>ys. Inr (if 1 < tp_size (hd ls) then all_reduce ys else ys))"

section \<open>The gated MLP\<close>

text \<open>\<open>SiluAndMul\<close> of \<open>layers/activation.py\<close>; \<open>silu\<close> is torch's.\<close>

definition silu_and_mul :: "(rat \<Rightarrow> rat) \<Rightarrow> matrix \<Rightarrow> matrix res" where
  "silu_and_mul silu x =
     mapE (\<lambda>row. case chunk_list 2 row of
        [a, b] \<Rightarrow> bindE (broadcast (length a) b) (\<lambda>b. Inr (map2 (\<lambda>u v. silu u * v) a b)) | _ \<Rightarrow> Inl ValueError) x"

record qwen3_mlp =
  gate_up_proj :: merged_linear
  down_proj :: linear_base

definition new_qwen3_mlp :: "memory \<Rightarrow> memory \<Rightarrow> nat \<Rightarrow> nat \<Rightarrow> nat \<Rightarrow> nat \<Rightarrow> string \<Rightarrow> qwen3_mlp res" where
  "new_qwen3_mlp mem mem' rank world hidden_size intermediate_size hidden_act =
     bindE (new_merged_column mem rank world hidden_size (replicate 2 intermediate_size) False) (\<lambda>gate_up.
     bindE (new_row_parallel mem' rank world intermediate_size hidden_size False) (\<lambda>down.
     bindE (assertE (hidden_act = ''silu'')) (\<lambda>_. Inr \<lparr>gate_up_proj = gate_up, down_proj = down\<rparr>)))"

text \<open>Where \<open>packed_modules_mapping\<close> sends the three weights of a checkpoint.\<close>

definition load_qwen3_mlp :: "matrix \<Rightarrow> matrix \<Rightarrow> matrix \<Rightarrow> qwen3_mlp \<Rightarrow> qwen3_mlp res" where
  "load_qwen3_mlp gate up down m =
     bindE (load_weight (merged_column_loader 0) (Mat gate) (gate_up_proj m)) (\<lambda>gu0.
     bindE (load_weight (merged_column_loader 1) (Mat up) gu0) (\<lambda>gu.
     bindE (load_weight row_parallel_loader (Mat down) (down_proj m)) (\<lambda>d.
     Inr \<lparr>gate_up_proj = gu, down_proj = d\<rparr>)))"

definition qwen3_mlp_forward :: "(rat \<Rightarrow> rat) \<Rightarrow> qwen3_mlp list \<Rightarrow> matrix \<Rightarrow> matrix list res" where
  "qwen3_mlp_forward silu ms x =
     bindE (mapE (\<lambda>m. bindE (column_parallel_forward (gate_up_proj m) x) (silu_and_mul silu)) ms)
       (row_parallel_forward (map down_proj ms))"

section \<open>Vocabulary\<close>

record vocab_embedding =
  ve_tp_rank :: nat
  ve_tp_size :: nat
  ve_num_embeddings :: nat
  num_embeddings_per_partition :: nat
  vocab_start_idx :: nat
  vocab_end_idx :: nat
  ve_weight :: matrix

definition new_vocab_embedding :: "memory \<Rightarrow> nat \<Rightarrow> nat \<Rightarrow> nat \<Rightarrow> nat \<Rightarrow> vocab_embedding res" where
  "new_vocab_embedding mem rank world num_embeddings embedding_dim =
     bindE (assertE (num_embeddings mod world = 0)) (\<lambda>_.
     let per = num_embeddings div world; start = per * rank
     in Inr \<lparr>ve_tp_rank = rank, ve_tp_size = world, ve_num_embeddings = num_embeddings, num_embeddings_per_partition = per,
          vocab_start_idx = start, vocab_end_idx = start + per, ve_weight = empty_matrix mem per embedding_dim\<rparr>)"

definition vocab_loader :: "vocab_embedding \<Rightarrow> tensor \<Rightarrow> tensor \<Rightarrow> tensor res" where
  "vocab_loader l param loaded =
     bindE (tensor_size 0 param) (\<lambda>shard_size. bindE (narrow 0 (ve_tp_rank l * shard_size) shard_size loaded) (copy_into param))"

definition load_vocab :: "matrix \<Rightarrow> vocab_embedding \<Rightarrow> vocab_embedding res" where
  "load_vocab loaded l =
     bindE (vocab_loader l (Mat (ve_weight l)) (Mat loaded)) (\<lambda>t. case t of Mat w \<Rightarrow> Inr (l\<lparr>ve_weight := w\<rparr>) | Vec _ \<Rightarrow> Inl TypeError)"

text \<open>\<open>F.embedding\<close>, which takes no negative index.\<close>

definition embedding :: "matrix \<Rightarrow> int list \<Rightarrow> matrix res" where
  "embedding w ids = mapE (\<lambda>t. if 0 \<le> t \<and> t < int (length w) then Inr (w ! nat t) else Inl IndexError) ids"

definition embedding_partial :: "vocab_embedding \<Rightarrow> int list \<Rightarrow> matrix res" where
  "embedding_partial l x =
     (if 1 < ve_tp_size l then
        let mask = map (\<lambda>t. of_bool (int (vocab_start_idx l) \<le> t \<and> t < int (vocab_end_idx l)) :: int) x
        in bindE (embedding (ve_weight l) (map2 (\<lambda>m t. m * (t - int (vocab_start_idx l))) mask x)) (\<lambda>y.
           Inr (map2 (\<lambda>m row. map ((*) (of_int m)) row) mask y))
      else embedding (ve_weight l) x)"

definition vocab_embedding_forward :: "vocab_embedding list \<Rightarrow> int list \<Rightarrow> matrix list res" where
  "vocab_embedding_forward ls x =
     bindE (mapE (\<lambda>l. embedding_partial l x) ls) (\<lambda>ys. Inr (if 1 < ve_tp_size (hd ls) then all_reduce ys else ys))"

definition new_lm_head :: "memory \<Rightarrow> nat \<Rightarrow> nat \<Rightarrow> nat \<Rightarrow> nat \<Rightarrow> bool \<Rightarrow> vocab_embedding res" where
  "new_lm_head mem rank world num_embeddings embedding_dim has_bias =
     bindE (assertE (\<not> has_bias)) (\<lambda>_. new_vocab_embedding mem rank world num_embeddings embedding_dim)"

text \<open>\<open>gathered.view(tp, rows, part).transpose(0, 1).reshape(rows, -1)\<close>.\<close>

definition regroup :: "nat \<Rightarrow> nat \<Rightarrow> matrix \<Rightarrow> matrix" where
  "regroup world rows gathered = map (\<lambda>i. concat (map (\<lambda>r. gathered ! (r * rows + i)) [0..<world])) [0..<rows]"

definition lm_head_forward :: "vocab_embedding list \<Rightarrow> int list option \<Rightarrow> matrix \<Rightarrow> matrix list res" where
  "lm_head_forward ls logits_indices x =
     bindE (case logits_indices of None \<Rightarrow> Inr x | Some is \<Rightarrow> mapE (py_get x) is) (\<lambda>x1.
     bindE (mapE (\<lambda>l. f_linear x1 (ve_weight l) None) ls) (\<lambda>logits.
     Inr (if 1 < ve_tp_size (hd ls) then map (\<lambda>l. regroup (ve_tp_size l) (length x1) (concat logits)) ls else logits)))"

section \<open>Shards\<close>

definition mat_shape :: "nat \<Rightarrow> nat \<Rightarrow> matrix \<Rightarrow> bool" where
  "mat_shape r c m \<longleftrightarrow> length m = r \<and> list_all (\<lambda>q. length q = c) m"

text \<open>The part of a list that rank \<open>r\<close> gets when each gets \<open>k\<close> entries.\<close>

definition shard :: "nat \<Rightarrow> nat \<Rightarrow> 'a list \<Rightarrow> 'a list" where
  "shard k r xs = part (r * k) k xs"

lemma length_shard [simp]: "k + r * k \<le> length xs \<Longrightarrow> length (shard k r xs) = k"
  by (simp add: shard_def part_def)

lemma nth_shard [simp]: "k + r * k \<le> length xs \<Longrightarrow> i < k \<Longrightarrow> shard k r xs ! i = xs ! (r * k + i)"
  by (simp add: shard_def part_def)

lemma rank_le: "r < n \<Longrightarrow> k + r * k \<le> n * (k :: nat)"
  using mult_le_mono1 [of "r + 1" n k] by simp

lemma set_shard: "set (shard k r xs) \<subseteq> set xs"
  unfolding shard_def part_def by (meson set_drop_subset set_take_subset subset_trans)

lemma shard_map: "shard k r (map f xs) = map f (shard k r xs)"
  by (simp add: shard_def part_def take_map drop_map)

lemma shard_zip: "shard k r (zip xs ys) = zip (shard k r xs) (shard k r ys)"
  by (simp add: shard_def part_def take_zip drop_zip)

lemma shards_concat: "length xs = n * k \<Longrightarrow> concat (map (\<lambda>r. shard k r xs) [0..<n]) = xs"
proof (induction n arbitrary: xs)
  case (Suc n)
  have "shard k r xs = shard k r (take (n * k) xs)" if "r < n" for r
  proof -
    have "k + r * k \<le> length xs" "k + r * k \<le> length (take (n * k) xs)" using Suc.prems rank_le [OF that, of k] that by simp_all
    then show ?thesis by (intro nth_equalityI) simp_all
  qed
  then have eq: "map (\<lambda>r. shard k r xs) [0..<n] = map (\<lambda>r. shard k r (take (n * k) xs)) [0..<n]" by simp
  have "concat (map (\<lambda>r. shard k r xs) [0..<n]) = take (n * k) xs"
    unfolding eq using Suc.IH [of "take (n * k) xs"] Suc.prems by simp
  moreover have "shard k n xs = drop (n * k) xs" using Suc.prems by (simp add: shard_def part_def)
  ultimately show ?case by simp
qed simp

lemma sum_concat_map: "sum_list (concat xss) = sum_list (map sum_list xss)"
  by (induction xss) auto

lemma dot_shards:
  assumes "length a = n * k" "length b = n * k"
  shows "sum_list (map (\<lambda>r. dot (shard k r a) (shard k r b)) [0..<n]) = dot a b"
proof -
  have "dot a b = sum_list (concat (map (\<lambda>r. shard k r (map2 (*) a b)) [0..<n]))"
    using assms by (subst shards_concat) (simp_all add: dot_def)
  then show ?thesis by (simp add: sum_concat_map dot_def shard_map shard_zip comp_def)
qed

lemma div_ceil_mult:
  assumes "0 < n"
  shows "(k * n + n - 1) div n = (k :: nat)"
proof -
  have "k * n + n - 1 = n - 1 + k * n" using assms by simp
  then show ?thesis using assms by (simp only: div_mult_self1) simp
qed

lemma chunk_starts_exact:
  assumes "0 < n" "0 < k"
  shows "chunk_starts n (n * k) = (k, map (\<lambda>i. i * k) [0..<n])"
proof -
  have "(n * k + n - 1) div n = k" using div_ceil_mult [OF assms(1), of k] by (simp only: mult.commute)
  then show ?thesis using div_ceil_mult [OF assms(2), of n] by (simp add: chunk_starts_def Let_def)
qed

lemma chunk_list_exact: "0 < n \<Longrightarrow> 0 < k \<Longrightarrow> length xs = n * k \<Longrightarrow> chunk_list n xs = map (\<lambda>r. shard k r xs) [0..<n]"
  by (simp add: chunk_list_def chunk_starts_exact shard_def comp_def)

subsection \<open>Loading\<close>

lemma mat_shape_shard: "mat_shape (n * k) c m \<Longrightarrow> r < n \<Longrightarrow> mat_shape k c (shard k r m)"
  using set_shard [of k r m] rank_le [of r n k] by (auto simp: mat_shape_def list_all_iff)

lemma mat_shape_empty [simp]: "mat_shape r c (empty_matrix mem r c)"
  by (simp add: mat_shape_def empty_matrix_def list_all_iff)

lemma copy_into_shape: "mat_shape r c d \<Longrightarrow> mat_shape r c s \<Longrightarrow> 0 < r \<Longrightarrow> copy_into (Mat d) (Mat s) = Inr (Mat s)"
proof -
  assume a: "mat_shape r c d" "mat_shape r c s" "0 < r"
  then have hd: "length (hd d) = c" by (cases d) (auto simp: mat_shape_def)
  have "mapE (broadcast c) s = Inr (map id s)" using a(2) by (intro mapE_total) (auto simp: mat_shape_def list_all_iff broadcast_def)
  then show ?thesis using a by (simp add: hd broadcast_def mat_shape_def)
qed

lemma load_chunk_shape:
  assumes "mat_shape R c d" "mat_shape (tp_size l * n) c loaded" "off + n \<le> R" "0 < n" "tp_rank l < tp_size l"
  shows "load_chunk l off n (Mat d) (Mat loaded) =
    Inr (Mat (take off d @ shard n (tp_rank l) loaded @ drop (off + n) d))"
proof -
  have sh: "mat_shape n c (part off n d)" using assms(1,3) by (auto simp: mat_shape_def part_def list_all_iff dest!: in_set_takeD in_set_dropD)
  have ls: "mat_shape n c (shard n (tp_rank l) loaded)" using assms(2,5) by (rule mat_shape_shard)
  then have len: "length (shard n (tp_rank l) loaded) = n" by (simp add: mat_shape_def)
  have chunks: "chunk_list (tp_size l) loaded = map (\<lambda>r. shard n r loaded) [0..<tp_size l]"
    using assms by (intro chunk_list_exact) (auto simp: mat_shape_def)
  have "py_get (map Mat (chunk_list (tp_size l) loaded)) (int (tp_rank l)) = Inr (Mat (shard n (tp_rank l) loaded))"
    using assms(5) by (simp add: chunks py_simps)
  then show ?thesis using assms(1,3) copy_into_shape [OF sh ls assms(4)]
    by (simp add: load_chunk_def mat_shape_def len del: copy_into.simps)
qed

section \<open>The gated MLP over all ranks\<close>

definition mlp_shard :: "nat \<Rightarrow> nat \<Rightarrow> matrix \<Rightarrow> matrix \<Rightarrow> matrix \<Rightarrow> nat \<Rightarrow> qwen3_mlp" where
  "mlp_shard world k gate up down r =
     \<lparr>gate_up_proj = \<lparr>tp_dim = Some 0, tp_rank = r, tp_size = world, weight = shard k r gate @ shard k r up, bias = None,
        output_sizes = [world * k, world * k]\<rparr>,
      down_proj = \<lparr>tp_dim = Some 1, tp_rank = r, tp_size = world, weight = map (shard k r) down, bias = None\<rparr>\<rparr>"

lemma divide_exact_mult [simp]: "0 < n \<Longrightarrow> divide_exact (n * k) n = Inr k"
  by (simp add: divide_exact_def assertE_def)

lemma load_merged_first:
  assumes "mat_shape (2 * k) c d" "mat_shape (world * k) c gate" "mat_shape (world * k) c up" "0 < k" "r < world"
    and "l = \<lparr>tp_dim = Some 0, tp_rank = r, tp_size = world, weight = d, bias = None, output_sizes = [world * k, world * k]\<rparr>"
  shows "bindE (load_weight (merged_column_loader 0) (Mat gate) l) (load_weight (merged_column_loader 1) (Mat up)) =
    Inr (l\<lparr>weight := shard k r gate @ shard k r up\<rparr>)"
proof -
  have len: "length (shard k r gate) = k" "length (shard k r up) = k" "length d = 2 * k"
    using assms(1,5) mat_shape_shard [OF assms(2)] mat_shape_shard [OF assms(3)] by (auto simp: mat_shape_def)
  have 1: "load_chunk l 0 k (Mat d) (Mat gate) = Inr (Mat (shard k r gate @ drop k d))"
    using assms by (subst load_chunk_shape [of "2 * k" c]) auto
  have mid: "mat_shape (2 * k) c (shard k r gate @ drop k d)"
    using assms(1,5) mat_shape_shard [OF assms(2)] by (auto simp: mat_shape_def list_all_iff dest: in_set_dropD)
  have 2: "load_chunk (l\<lparr>weight := w\<rparr>) k k (Mat (shard k r gate @ drop k d)) (Mat up) = Inr (Mat (shard k r gate @ shard k r up))" for w
    using assms(3-6) mid len by (subst load_chunk_shape [of "2 * k" c]) auto
  show ?thesis using 1 2 assms(5,6) by (simp add: load_weight_def merged_column_loader_def)
qed

lemma load_row_parallel:
  assumes "mat_shape R k d" "mat_shape R (world * k) w" "0 < R" "r < world"
    and "l = \<lparr>tp_dim = Some 1, tp_rank = r, tp_size = world, weight = d, bias = None\<rparr>"
  shows "load_weight row_parallel_loader (Mat w) l = Inr (l\<lparr>weight := map (shard k r) w\<rparr>)"
proof -
  have hd: "length (hd d) = k" using assms(1,3) by (cases d) (auto simp: mat_shape_def)
  have "r * k + k \<le> world * k" using rank_le [OF assms(4), of k] by simp
  then have rows: "list_all (\<lambda>q. r * k + k \<le> length q) w" "mat_shape R k (map (shard k r) w)"
    using assms(2) by (auto simp: mat_shape_def list_all_iff)
  then have "copy_into (Mat d) (Mat (map (shard k r) w)) = Inr (Mat (map (shard k r) w))" using assms(1,3) copy_into_shape by blast
  moreover have "shard k r = (part (r * k) k :: rat list \<Rightarrow> _)" by (simp add: shard_def fun_eq_iff)
  ultimately show ?thesis using rows(1) assms(5)
    by (simp add: load_weight_def row_parallel_loader_def parallel_loader_def hd del: copy_into.simps)
qed

lemma mlp_loaded:
  assumes "mat_shape (world * k) hidden gate" "mat_shape (world * k) hidden up" "mat_shape hidden (world * k) down"
    and "0 < k" "0 < hidden" "r < world"
  shows "bindE (new_qwen3_mlp mem mem' r world hidden (world * k) ''silu'') (load_qwen3_mlp gate up down) =
    Inr (mlp_shard world k gate up down r)"
proof -
  have two: "world * k + world * k = world * (2 * k)" by simp
  let ?gu = "\<lparr>tp_dim = Some 0, tp_rank = r, tp_size = world, weight = empty_matrix mem (2 * k) hidden, bias = None,
      output_sizes = [world * k, world * k]\<rparr>"
  let ?dn = "\<lparr>tp_dim = Some 1, tp_rank = r, tp_size = world, weight = empty_matrix mem' hidden k, bias = None\<rparr>"
  have new: "new_qwen3_mlp mem mem' r world hidden (world * k) ''silu'' = Inr \<lparr>gate_up_proj = ?gu, down_proj = ?dn\<rparr>"
    using assms(6) by (simp add: new_qwen3_mlp_def new_merged_column_def new_column_parallel_def new_row_parallel_def
        new_linear_base_def numeral_2_eq_2 two [simplified numeral_2_eq_2] linear_base.defs assertE_def del: mult_Suc mult_Suc_right)
  have gu: "bindE (load_weight (merged_column_loader 0) (Mat gate) ?gu) (load_weight (merged_column_loader 1) (Mat up)) =
      Inr (?gu\<lparr>weight := shard k r gate @ shard k r up\<rparr>)"
    using assms by (intro load_merged_first) auto
  have dn: "load_weight row_parallel_loader (Mat down) ?dn = Inr (?dn\<lparr>weight := map (shard k r) down\<rparr>)"
    using assms by (intro load_row_parallel [where R = hidden]) auto
  show ?thesis unfolding new bindE.simps load_qwen3_mlp_def qwen3_mlp.simps dn
    using gu by (cases "load_weight (merged_column_loader 0) (Mat gate) ?gu") (simp_all add: mlp_shard_def)
qed

text \<open>A sum over ranks, entry by entry.\<close>

lemma sum_matrices_map:
  "rs \<noteq> [] \<Longrightarrow> sum_matrices (map (\<lambda>r. map (\<lambda>x. map (f r x) (js x)) xs) rs) =
    map (\<lambda>x. map (\<lambda>j. sum_list (map (\<lambda>r. f r x j) rs)) (js x)) xs"
proof (induction rs rule: list_nonempty_induct)
  case (cons r rs)
  then obtain r' rs' where rs: "rs = r' # rs'" by (cases rs) auto
  have "sum_matrices (map (\<lambda>r. map (\<lambda>x. map (f r x) (js x)) xs) (r # rs)) =
      map2 (map2 (+)) (map (\<lambda>x. map (f r x) (js x)) xs) (map (\<lambda>x. map (\<lambda>j. sum_list (map (\<lambda>r. f r x j) rs)) (js x)) xs)"
    using cons.IH by (simp add: rs)
  then show ?case by (simp add: map2_maps)
qed simp

lemma all_reduce_ranks:
  assumes "0 < world" and "ys = map (\<lambda>r. map (\<lambda>x. map (f r x) (js x)) X) [0..<world]"
  shows "(if 1 < world then all_reduce ys else ys) =
    replicate world (map (\<lambda>x. map (\<lambda>j. sum_list (map (\<lambda>r. f r x j) [0..<world])) (js x)) X)"
proof (cases "1 < world")
  case True
  then show ?thesis using sum_matrices_map [of "[0..<world]" f js X] by (simp add: assms(2) all_reduce_def)
next
  case False
  then have "world = 1" using assms(1) by simp
  then show ?thesis by (simp add: assms(2))
qed

lemma mapE_zip_ranks: "mapE (\<lambda>(l, x). f l x) (zip (map ls rs) (map xs rs)) = mapE (\<lambda>r. f (ls r) (xs r)) rs"
  by (induction rs) auto

lemma row_parallel_ranks:
  assumes "0 < world" "\<And>r. r < world \<Longrightarrow> tp_size (ls r) = world"
    and "\<And>r. r < world \<Longrightarrow> row_partial (ls r) (xs r) = Inr (map (\<lambda>x. map (f r x) (js x)) X)"
  shows "row_parallel_forward (map ls [0..<world]) (map xs [0..<world]) =
    Inr (replicate world (map (\<lambda>x. map (\<lambda>j. sum_list (map (\<lambda>r. f r x j) [0..<world])) (js x)) X))"
proof -
  have "mapE (\<lambda>r. row_partial (ls r) (xs r)) [0..<world] = Inr (map (\<lambda>r. map (\<lambda>x. map (f r x) (js x)) X) [0..<world])"
    using assms(3) by (intro mapE_total) simp
  then show ?thesis using all_reduce_ranks [OF assms(1) refl, of f js X] assms(1,2)
    by (simp add: row_parallel_forward_def mapE_zip_ranks hd_map)
qed

lemma silu_and_mul_halves:
  assumes "0 < k" "\<And>x. x \<in> set X \<Longrightarrow> length (a x) = k \<and> length (b x) = k"
  shows "silu_and_mul silu (map (\<lambda>x. a x @ b x) X) = Inr (map (\<lambda>x. map2 (\<lambda>u v. silu u * v) (a x) (b x)) X)"
proof -
  have "silu_and_mul silu (map (\<lambda>x. a x @ b x) X) =
      mapE (\<lambda>x. bindE (broadcast k (b x)) (\<lambda>b. Inr (map2 (\<lambda>u v. silu u * v) (a x) b))) X"
    using assms(2)
  proof (induction X)
    case (Cons x X)
    have "chunk_list 2 (a x @ b x) = [a x, b x]"
      using Cons.prems [of x] chunk_list_exact [of 2 k "a x @ b x"] assms(1) by (simp add: shard_def part_def upt_rec)
    then show ?case using Cons.IH Cons.prems by (simp add: silu_and_mul_def)
  qed (simp add: silu_and_mul_def)
  also have "\<dots> = Inr (map (\<lambda>x. map2 (\<lambda>u v. silu u * v) (a x) (b x)) X)"
    using assms(2) by (intro mapE_total) (simp add: broadcast_def)
  finally show ?thesis .
qed

lemma matvec_append: "matvec (a @ b) x = matvec a x @ matvec b x"
  by (simp add: matvec_def)

lemma length_matvec [simp]: "length (matvec w x) = length w"
  by (simp add: matvec_def)

lemma linear_shape: "mat_shape r c w \<Longrightarrow> list_all (\<lambda>q. length q = c) x \<Longrightarrow> f_linear x w None = Inr (map (matvec w) x)"
  by (auto simp: f_linear_def mat_shape_def list_all_iff add_bias_def)

text \<open>What the MLP computes on one rank.\<close>

definition mlp_reference :: "(rat \<Rightarrow> rat) \<Rightarrow> matrix \<Rightarrow> matrix \<Rightarrow> matrix \<Rightarrow> rat list \<Rightarrow> rat list" where
  "mlp_reference silu gate up down x = matvec down (map2 (\<lambda>u v. silu u * v) (matvec gate x) (matvec up x))"

lemma mlp_rank_forward:
  assumes "mat_shape (world * k) hidden gate" "mat_shape (world * k) hidden up" "0 < k" "r < world" "list_all (\<lambda>q. length q = hidden) x"
  shows "bindE (column_parallel_forward (gate_up_proj (mlp_shard world k gate up down r)) x) (silu_and_mul silu) =
    Inr (map (\<lambda>q. shard k r (map2 (\<lambda>u v. silu u * v) (matvec gate q) (matvec up q))) x)"
proof -
  have g: "mat_shape k hidden (shard k r gate)" "mat_shape k hidden (shard k r up)"
    using assms by (simp_all add: mat_shape_shard)
  then have "mat_shape (k + k) hidden (shard k r gate @ shard k r up)" by (simp add: mat_shape_def)
  from linear_shape [OF this assms(5)] show ?thesis
    using silu_and_mul_halves [of k x "matvec (shard k r gate)" "matvec (shard k r up)" silu] g assms(3)
    by (simp add: column_parallel_forward_def mlp_shard_def matvec_append [abs_def] mat_shape_def shard_map shard_zip matvec_def)
qed

text \<open>
  C29: the MLP does not depend on the number of ranks.  Built and loaded from a checkpoint on each of
  \<open>world\<close> ranks, whatever their memory held, the gate, up and down projections fit together: every
  rank ends with the MLP of the whole weights, for any activation function.
\<close>

theorem mlp_sharded:
  assumes "mat_shape (world * k) hidden gate" "mat_shape (world * k) hidden up" "mat_shape hidden (world * k) down"
    and "0 < world" "0 < k" "0 < hidden" "list_all (\<lambda>q. length q = hidden) x"
  shows "bindE (mapE (\<lambda>r. bindE (new_qwen3_mlp (mem r) (mem' r) r world hidden (world * k) ''silu'') (load_qwen3_mlp gate up down)) [0..<world])
      (\<lambda>ms. qwen3_mlp_forward silu ms x) = Inr (replicate world (map (mlp_reference silu gate up down) x))"
proof -
  let ?m = "mlp_shard world k gate up down" and ?act = "\<lambda>q. map2 (\<lambda>u v. silu u * v) (matvec gate q) (matvec up q)"
  have loaded: "mapE (\<lambda>r. bindE (new_qwen3_mlp (mem r) (mem' r) r world hidden (world * k) ''silu'') (load_qwen3_mlp gate up down)) [0..<world] =
      Inr (map ?m [0..<world])"
    using assms by (intro mapE_total) (simp add: mlp_loaded)
  have hs: "mapE (\<lambda>m. bindE (column_parallel_forward (gate_up_proj m) x) (silu_and_mul silu)) (map ?m [0..<world]) =
      Inr (map (\<lambda>r. map (\<lambda>q. shard k r (?act q)) x) [0..<world])"
    unfolding mapE_map using assms by (intro mapE_total mlp_rank_forward [where hidden = hidden]) auto
  have len: "length (?act q) = world * k" for q using assms(1,2) by (simp add: mat_shape_def)
  have partial: "row_partial (down_proj (?m r)) (map (\<lambda>q. shard k r (?act q)) x) =
      Inr (map (\<lambda>q. map (\<lambda>w. dot (shard k r w) (shard k r (?act q))) down) x)" if "r < world" for r
    using rank_le [OF that, of k] assms(3) len
    by (auto simp: row_partial_def mlp_shard_def f_linear_def list_all_iff mat_shape_def add_bias_def matvec_def)
  have sums: "map (\<lambda>w. sum_list (map (\<lambda>r. dot (shard k r w) (shard k r (?act q))) [0..<world])) down = mlp_reference silu gate up down q" for q
    using assms(3) dot_shards [OF _ len] by (auto simp: mlp_reference_def matvec_def mat_shape_def list_all_iff)
  have "row_parallel_forward (map (\<lambda>r. down_proj (?m r)) [0..<world]) (map (\<lambda>r. map (\<lambda>q. shard k r (?act q)) x) [0..<world]) =
      Inr (replicate world (map (\<lambda>q. map (\<lambda>w. sum_list (map (\<lambda>r. dot (shard k r w) (shard k r (?act q))) [0..<world])) down) x))"
    by (rule row_parallel_ranks [OF assms(4) _ partial]) (simp_all add: mlp_shard_def)
  then show ?thesis by (simp add: sums loaded hs qwen3_mlp_forward_def comp_def)
qed

section \<open>The vocabulary over all ranks\<close>

definition vocab_shard :: "nat \<Rightarrow> nat \<Rightarrow> matrix \<Rightarrow> nat \<Rightarrow> vocab_embedding" where
  "vocab_shard world per w r =
     \<lparr>ve_tp_rank = r, ve_tp_size = world, ve_num_embeddings = world * per, num_embeddings_per_partition = per,
      vocab_start_idx = per * r, vocab_end_idx = per * r + per, ve_weight = shard per r w\<rparr>"

lemma vocab_loaded:
  assumes "mat_shape (world * per) d w" "0 < per" "r < world"
  shows "bindE (new_vocab_embedding mem r world (world * per) d) (load_vocab w) = Inr (vocab_shard world per w r)"
proof -
  have sh: "mat_shape per d (shard per r w)" using assms mat_shape_shard by blast
  have "copy_into (Mat (empty_matrix mem per d)) (Mat (shard per r w)) = Inr (Mat (shard per r w))"
    using sh assms(2) by (intro copy_into_shape) auto
  moreover have "r * per + per \<le> length w" using rank_le [OF assms(3), of per] assms(1) by (simp add: mat_shape_def)
  moreover have "length (empty_matrix mem per d) = per" by (simp add: empty_matrix_def)
  ultimately show ?thesis using assms(3)
    by (simp add: new_vocab_embedding_def load_vocab_def vocab_loader_def Let_def assertE_def vocab_shard_def shard_def [symmetric] del: copy_into.simps)
qed

lemma embedding_rank:
  assumes "mat_shape (world * per) d w" "0 < per" "r < world" "1 < world" "\<forall>t \<in> set ids. 0 \<le> t \<and> t < int (world * per)"
  shows "embedding_partial (vocab_shard world per w r) ids =
    Inr (map (\<lambda>t. map (\<lambda>j. of_bool (nat t div per = r) * (w ! nat t ! j)) [0..<d]) ids)"
proof -
  let ?own = "\<lambda>t. int (per * r) \<le> t \<and> t < int (per * r + per)"
  let ?idx = "\<lambda>t. of_bool (?own t) * (t - int (per * r))"
  have le: "per + r * per \<le> length w" using rank_le [OF assms(3), of per] assms(1) by (simp add: mat_shape_def)
  have own: "?own t \<longleftrightarrow> nat t div per = r" if "0 \<le> t" for t
  proof -
    have "nat t div per = r \<longleftrightarrow> per * r \<le> nat t \<and> nat t < per * r + per"
      using dividend_less_times_div [OF assms(2), of "nat t"] by (auto intro: div_nat_eqI)
    then show ?thesis using that by (simp add: le_nat_iff nat_less_iff)
  qed
  have get: "embedding (shard per r w) (map ?idx ids) = Inr (map (\<lambda>t. shard per r w ! nat (?idx t)) ids)"
    unfolding embedding_def mapE_map using assms(2) le by (intro mapE_total) auto
  have row: "map ((*) (of_int (of_bool (?own t)))) (shard per r w ! nat (?idx t)) =
      map (\<lambda>j. of_bool (nat t div per = r) * (w ! nat t ! j)) [0..<d]" if t: "t \<in> set ids" for t
  proof -
    have t0: "0 \<le> t" "nat t < length w" using t assms(1,5) by (auto simp: mat_shape_def nat_less_iff)
    have "nat (?idx t) < per" using assms(2) by auto
    then have len: "length (shard per r w ! nat (?idx t)) = d"
      using assms(1,3) mat_shape_shard [of world per d w r] by (auto simp: mat_shape_def list_all_length)
    have "shard per r w ! nat (?idx t) = w ! nat t" if t': "?own t"
    proof -
      obtain m where m: "t = int (per * r + m)" using t' by (metis zle_iff_zadd of_nat_add)
      then have "nat t = per * r + m" "nat (?idx t) = m" "m < per" using t' by (simp_all only: nat_int, simp_all)
      then show ?thesis using le by (simp add: mult.commute [of r per])
    qed
    then show ?thesis using own [OF t0(1)] len by (intro nth_equalityI) auto
  qed
  have maps: "map2 f (map g xs) xs = map (\<lambda>x. f (g x) x) xs" for f g and xs :: "int list"
    by (induction xs) auto
  show ?thesis
    using assms(4) get row by (simp add: embedding_partial_def vocab_shard_def Let_def maps map2_maps)
qed

lemma sum_one_rank: "i < n \<Longrightarrow> sum_list (map (\<lambda>r. of_bool (i = r) * (x :: rat)) [0..<n]) = x"
proof (induction n)
  case (Suc n)
  have "map (\<lambda>r. of_bool (n = r) * x) [0..<n] = map (\<lambda>_. 0) [0..<n]" by simp
  then have "sum_list (map (\<lambda>r. of_bool (n = r) * x) [0..<n]) = 0" by (metis sum_list_0)
  then show ?case using Suc by (auto simp: less_Suc_eq)
qed simp

lemma vocab_embedding_ranks:
  assumes "mat_shape (world * per) d w" "0 < world" "0 < per" "\<forall>t \<in> set ids. 0 \<le> t \<and> t < int (world * per)"
  shows "vocab_embedding_forward (map (vocab_shard world per w) [0..<world]) ids = Inr (replicate world (map (\<lambda>t. w ! nat t) ids))"
proof (cases "1 < world")
  case True
  let ?f = "\<lambda>r t j. of_bool (nat t div per = r) * (w ! nat t ! j)"
  have parts: "mapE (\<lambda>r. embedding_partial (vocab_shard world per w r) ids) [0..<world] = Inr (map (\<lambda>r. map (\<lambda>t. map (?f r t) [0..<d]) ids) [0..<world])"
    using assms True by (intro mapE_total embedding_rank) auto
  have "map (\<lambda>j. sum_list (map (\<lambda>r. ?f r t j) [0..<world])) [0..<d] = w ! nat t" if "t \<in> set ids" for t
  proof -
    have t: "nat t < world * per" using that assms(4) by (auto simp: nat_less_iff)
    then have "nat t div per < world" by (simp add: less_mult_imp_div_less)
    moreover have "length (w ! nat t) = d" using t assms(1) by (auto simp: mat_shape_def list_all_length)
    ultimately show ?thesis by (intro nth_equalityI) (simp_all add: sum_one_rank)
  qed
  then show ?thesis using all_reduce_ranks [OF assms(2) refl, of ?f "\<lambda>_. [0..<d]" ids] True parts
    by (simp add: vocab_embedding_forward_def mapE_map hd_map vocab_shard_def)
next
  case False
  then have w: "world = 1" using assms(2) by simp
  then have "shard per 0 w = w" using assms(1) by (simp add: shard_def part_def mat_shape_def)
  moreover have "embedding w ids = Inr (map (\<lambda>t. w ! nat t) ids)"
    unfolding embedding_def using assms(1,4) w by (intro mapE_total) (auto simp: mat_shape_def)
  ultimately show ?thesis by (simp add: w vocab_embedding_forward_def embedding_partial_def vocab_shard_def)
qed

lemma lm_head_ranks:
  assumes "mat_shape (world * per) d w" "0 < world" "list_all (\<lambda>q. length q = d) x"
  shows "lm_head_forward (map (vocab_shard world per w) [0..<world]) None x = Inr (replicate world (map (matvec w) x))"
proof -
  have parts: "mapE (\<lambda>r. f_linear x (ve_weight (vocab_shard world per w r)) None) [0..<world] = Inr (map (\<lambda>r. map (matvec (shard per r w)) x) [0..<world])"
    using assms mat_shape_shard [OF assms(1)] by (intro mapE_total) (auto simp: vocab_shard_def intro!: linear_shape)
  have "concat (map (\<lambda>r. matvec (shard per r w) q) [0..<world]) = matvec w q" for q
    using shards_concat [of "matvec w q" world per] assms(1) by (simp add: mat_shape_def matvec_def shard_map)
  then have whole: "regroup world (length x) (concat (map (\<lambda>r. map (matvec (shard per r w)) x) [0..<world])) = map (matvec w) x"
    unfolding regroup_def
  proof -
    assume all: "concat (map (\<lambda>r. matvec (shard per r w) q) [0..<world]) = matvec w q" for q
    let ?g = "concat (map (\<lambda>r. map (matvec (shard per r w)) x) [0..<world])"
    have "map (\<lambda>r. ?g ! (r * length x + i)) [0..<world] = map (\<lambda>r. matvec (shard per r w) (x ! i)) [0..<world]" if "i < length x" for i
      using that concat_rows_nth [where f = "\<lambda>r. matvec (shard per r w)"] by simp
    then show "map (\<lambda>i. concat (map (\<lambda>r. ?g ! (r * length x + i)) [0..<world])) [0..<length x] = map (matvec w) x"
      by - (rule nth_equalityI, simp_all only: all length_map nth_map diff_zero length_upt nth_upt plus_nat.add_0)
  qed
  show ?thesis
  proof (cases "1 < world")
    case True
    then show ?thesis using parts whole
      by (simp add: lm_head_forward_def mapE_map hd_map vocab_shard_def map_replicate_const comp_def)
  next
    case False
    then have "world = 1" using assms(2) by simp
    moreover from this have "shard per 0 w = w" using assms(1) by (simp add: shard_def part_def mat_shape_def)
    ultimately show ?thesis using parts by (simp add: lm_head_forward_def vocab_shard_def)
  qed
qed

text \<open>
  C30: the vocabulary does not depend on the number of ranks.  Built and loaded on each of \<open>world\<close>
  ranks, whatever their memory held, the embeddings every rank ends with are the rows of the whole
  table, also for tokens another rank holds; the logits every rank ends with are, for each row
  that is sampled and in order, those of the whole table.
\<close>

theorem vocabulary_sharded:
  assumes "mat_shape (world * per) d w" "0 < world" "0 < per" "\<forall>t \<in> set ids. 0 \<le> t \<and> t < int (world * per)"
    and "list_all (\<lambda>q. length q = d) x" "\<forall>i \<in> set rows. 0 \<le> i \<and> i < int (length x)"
  shows "bindE (mapE (\<lambda>r. bindE (new_vocab_embedding (mem r) r world (world * per) d) (load_vocab w)) [0..<world])
      (\<lambda>ls. vocab_embedding_forward ls ids) = Inr (replicate world (map (\<lambda>t. w ! nat t) ids)) \<and>
    bindE (mapE (\<lambda>r. bindE (new_lm_head (mem r) r world (world * per) d False) (load_vocab w)) [0..<world])
      (\<lambda>ls. lm_head_forward ls (Some rows) x) = Inr (replicate world (map (\<lambda>i. matvec w (x ! nat i)) rows))"
proof -
  have loaded: "mapE (\<lambda>r. bindE (new_vocab_embedding (mem r) r world (world * per) d) (load_vocab w)) [0..<world] =
      Inr (map (vocab_shard world per w) [0..<world])"
    using assms by (intro mapE_total vocab_loaded) auto
  then have emb: "bindE (mapE (\<lambda>r. bindE (new_vocab_embedding (mem r) r world (world * per) d) (load_vocab w)) [0..<world])
      (\<lambda>ls. vocab_embedding_forward ls ids) = Inr (replicate world (map (\<lambda>t. w ! nat t) ids))"
    using vocab_embedding_ranks [OF assms(1-4)] by simp
  have "mapE (py_get x) rows = Inr (map (\<lambda>i. x ! nat i) rows)" using assms(6) by (intro mapE_total) (simp add: py_simps)
  then have "lm_head_forward ls (Some rows) x = lm_head_forward ls None (map (\<lambda>i. x ! nat i) rows)" for ls
    by (simp add: lm_head_forward_def)
  moreover have "list_all (\<lambda>q. length q = d) (map (\<lambda>i. x ! nat i) rows)" using assms(5,6) by (auto simp: list_all_iff nat_less_iff)
  ultimately have "bindE (mapE (\<lambda>r. bindE (new_lm_head (mem r) r world (world * per) d False) (load_vocab w)) [0..<world])
      (\<lambda>ls. lm_head_forward ls (Some rows) x) = Inr (replicate world (map (\<lambda>i. matvec w (x ! nat i)) rows))"
    using loaded lm_head_ranks [OF assms(1,2)] by (simp add: new_lm_head_def assertE_def comp_def)
  with emb show ?thesis ..
qed

text \<open>Two ranks.\<close>

lemma two_ranks: "2 * 2 = (4::nat)" "2 * 1 = (2::nat)" "replicate 2 x = [x, x]"
  by (simp_all add: numeral_2_eq_2)

theorem vocabulary_sharded_witness:
  "bindE (mapE (\<lambda>r. bindE (new_vocab_embedding (\<lambda>_ _. 9) r 2 4 2) (load_vocab [[1, 2], [3, 4], [5, 6], [7, 8]])) [0..<2])
     (\<lambda>ls. vocab_embedding_forward ls [3, 0]) = Inr [[[7, 8], [1, 2]], [[7, 8], [1, 2]]] \<and>
   bindE (mapE (\<lambda>r. bindE (new_lm_head (\<lambda>_ _. 9) r 2 4 2 False) (load_vocab [[1, 2], [3, 4], [5, 6], [7, 8]])) [0..<2])
     (\<lambda>ls. lm_head_forward ls (Some [1]) [[0, 0], [1, -1]]) = Inr [[[-1, -1, -1, -1]], [[-1, -1, -1, -1]]]"
proof -
  let ?w = "[[1, 2], [3, 4], [5, 6], [7, 8]] :: matrix" and ?x = "[[0, 0], [1, -1]] :: matrix"
  have "map (\<lambda>t. ?w ! nat t) [3, 0] = [[7, 8], [1, 2]]" "map (\<lambda>i. matvec ?w (?x ! nat i)) [1] = [[-1, -1, -1, -1]]"
    by (simp_all add: matvec_def dot_def)
  then show ?thesis
    using vocabulary_sharded [of 2 2 2 ?w "[3, 0]" ?x "[1]" "\<lambda>_ _ _. 9", unfolded two_ranks] by (simp only: mat_shape_def) simp
qed

theorem mlp_sharded_witness:
  "bindE (mapE (\<lambda>r. bindE (new_qwen3_mlp (\<lambda>_ _. 9) (\<lambda>_ _. 9) r 2 1 2 ''silu'') (load_qwen3_mlp [[1], [2]] [[3], [4]] [[1, 10]])) [0..<2])
     (\<lambda>ms. qwen3_mlp_forward (\<lambda>x. x * x) ms [[1], [2]]) = Inr [[[163], [1304]], [[163], [1304]]]"
proof -
  have "map (mlp_reference (\<lambda>x. x * x) [[1], [2]] [[3], [4]] [[1, 10]]) [[1], [2]] = [[163], [1304]]"
    by (simp add: mlp_reference_def matvec_def dot_def)
  then show ?thesis
    using mlp_sharded [of 2 1 1 "[[1], [2]]" "[[3], [4]]" "[[1, 10]]" "[[1], [2]]" "\<lambda>_ _ _. 9" "\<lambda>_ _ _. 9" "\<lambda>x. x * x", unfolded two_ranks]
    by (simp only: mat_shape_def) simp
qed

end
