(* ===== verification/Experts.thy ===== *)
theory Experts
  imports Tensor_Parallel "HOL-Library.Product_Lexorder"
begin

text \<open>
  \<open>layers/moe.py\<close>: routed experts, on the portable path.  Each rank holds either whole experts (expert
  parallelism) or a shard of every expert; the token-expert pairs are sorted by expert, run as two
  grouped matrix multiplies and added back to their tokens.  The order \<open>sort\<close> gives equal ids is a
  parameter \<open>argsort\<close>, and what \<open>grouped_mm\<close> leaves in rows past its last group is whatever the memory
  holds.  Routing, which is floating point, gives the weights and the ids, each of one of the experts.
\<close>

section \<open>Placement\<close>

definition determine_expert_map :: "nat \<Rightarrow> nat \<Rightarrow> nat \<Rightarrow> nat \<times> int list option" where
  "determine_expert_map ep_size ep_rank num_experts =
     (if ep_size = 1 then (num_experts, None)
      else let base = num_experts div ep_size; remainder = num_experts mod ep_size;
               local_num_experts = (if ep_rank < remainder then base + 1 else base);
               start = ep_rank * base + min ep_rank remainder
           in (local_num_experts,
               Some (replicate start (-1) @ map int [0..<local_num_experts] @ replicate (num_experts - (start + local_num_experts)) (-1))))"

record fused_moe =
  moe_tp_rank :: nat
  moe_tp_size :: nat
  moe_ep_size :: nat
  moe_num_experts :: nat
  moe_intermediate_size :: nat
  moe_expert_map :: "int list option"
  moe_gate_up_proj :: "matrix list"
  moe_down_proj :: "matrix list"

definition new_fused_moe :: "(nat \<Rightarrow> memory) \<Rightarrow> (nat \<Rightarrow> memory) \<Rightarrow> nat \<Rightarrow> nat \<Rightarrow> nat \<Rightarrow> nat \<Rightarrow> nat \<Rightarrow> bool \<Rightarrow> fused_moe res" where
  "new_fused_moe mem mem' rank world num_experts hidden_size intermediate_size enable_expert_parallel =
     (let use_ep = enable_expert_parallel \<and> 1 < world;
          (tp_rank, tp_size) = (if use_ep then (0, 1) else (rank, world));
          (ep_rank, ep_size) = (if use_ep then (rank, world) else (0, 1))
      in bindE (divide_exact intermediate_size tp_size) (\<lambda>inter.
         let (local_num_experts, expert_map) = determine_expert_map ep_size ep_rank num_experts
         in Inr \<lparr>moe_tp_rank = tp_rank, moe_tp_size = tp_size, moe_ep_size = ep_size, moe_num_experts = num_experts,
              moe_intermediate_size = inter, moe_expert_map = expert_map,
              moe_gate_up_proj = map (\<lambda>e. empty_matrix (mem e) (2 * inter) hidden_size) [0..<local_num_experts],
              moe_down_proj = map (\<lambda>e. empty_matrix (mem' e) hidden_size inter) [0..<local_num_experts]\<rparr>))"

section \<open>Loading\<close>

definition rank_chunk :: "fused_moe \<Rightarrow> nat \<Rightarrow> tensor \<Rightarrow> tensor res" where
  "rank_chunk m d loaded = bindE (chunk (moe_tp_size m) d loaded) (\<lambda>cs. py_get cs (int (moe_tp_rank m)))"

text \<open>\<open>param.data[expert_id]\<close> is written through \<open>write\<close>.\<close>

definition update_expert :: "(tensor \<Rightarrow> tensor res) \<Rightarrow> nat \<Rightarrow> matrix list \<Rightarrow> matrix list res" where
  "update_expert write e ws =
     (if length ws \<le> e then Inl IndexError
      else bindE (write (Mat (ws ! e))) (\<lambda>t. case t of Mat w \<Rightarrow> Inr (ws[e := w]) | Vec _ \<Rightarrow> Inl TypeError))"

definition moe_weight_loader :: "nat \<Rightarrow> string \<Rightarrow> tensor \<Rightarrow> fused_moe \<Rightarrow> fused_moe res" where
  "moe_weight_loader expert_id proj loaded m =
     bindE (case moe_expert_map m of None \<Rightarrow> Inr (int expert_id) | Some em \<Rightarrow> py_get em (int expert_id)) (\<lambda>local_id.
         if local_id = -1 then Inr m
         else if proj = ''down_proj'' then
           bindE (rank_chunk m 1 loaded) (\<lambda>shard.
           bindE (update_expert (\<lambda>t. copy_into t shard) (nat local_id) (moe_down_proj m)) (\<lambda>ws. Inr (m\<lparr>moe_down_proj := ws\<rparr>)))
         else
           let offset = (if proj = ''gate_proj'' then 0 else moe_intermediate_size m)
           in bindE (rank_chunk m 0 loaded) (\<lambda>shard.
              bindE (update_expert (\<lambda>t. narrow_copy offset (moe_intermediate_size m) t shard) (nat local_id) (moe_gate_up_proj m)) (\<lambda>ws.
              Inr (m\<lparr>moe_gate_up_proj := ws\<rparr>))))"

text \<open>A checkpoint's experts, each with its three projections, as \<open>load_model\<close> meets them.\<close>

definition load_expert :: "nat \<times> matrix \<times> matrix \<times> matrix \<Rightarrow> fused_moe \<Rightarrow> fused_moe res" where
  "load_expert = (\<lambda>(e, gate, up, down) m.
     bindE (moe_weight_loader e ''down_proj'' (Mat down) m) (\<lambda>m.
     bindE (moe_weight_loader e ''gate_proj'' (Mat gate) m) (moe_weight_loader e ''up_proj'' (Mat up))))"

definition load_experts :: "(matrix \<times> matrix \<times> matrix) list \<Rightarrow> fused_moe \<Rightarrow> fused_moe res" where
  "load_experts ckpt = foldE load_expert (List.enumerate 0 ckpt)"

section \<open>The experts\<close>

definition local_ids :: "nat \<Rightarrow> int list option \<Rightarrow> int list list \<Rightarrow> int list list" where
  "local_ids num_experts expert_map topk_ids =
     (case expert_map of
        None \<Rightarrow> topk_ids
      | Some em \<Rightarrow> map (map (\<lambda>e. let l = em ! nat e in if l < 0 then int num_experts else l)) topk_ids)"

definition grouped_mm :: "memory \<Rightarrow> matrix \<Rightarrow> matrix list \<Rightarrow> nat list \<Rightarrow> matrix" where
  "grouped_mm mem xs ws offs =
     map (\<lambda>(i, row). let e = length (takeWhile (\<lambda>end. end \<le> i) offs)
        in if e < length ws then matvec (ws ! e) row else map (mem i) [0..<length (hd ws)]) (List.enumerate 0 xs)"

definition index_add :: "nat list \<Rightarrow> matrix \<Rightarrow> matrix \<Rightarrow> matrix" where
  "index_add is rows m = fold (\<lambda>(i, row) m. m[i := map2 (+) (m ! i) row]) (zip is rows) m"

definition torch_experts ::
  "(int list \<Rightarrow> nat list) \<Rightarrow> memory \<Rightarrow> memory \<Rightarrow> (rat \<Rightarrow> rat) \<Rightarrow> matrix \<Rightarrow> matrix list \<Rightarrow> matrix list \<Rightarrow> matrix \<Rightarrow> int list list \<Rightarrow> int list option \<Rightarrow> matrix res" where
  "torch_experts argsort mem mem' silu x gate_up down topk_weights topk_ids expert_map =
     (let num_experts = length gate_up; top_k = length (hd topk_ids);
          flat = concat (local_ids num_experts expert_map topk_ids);
          order = argsort flat; expert_ids = gather flat order; token_ids = map (\<lambda>f. f div top_k) order;
          offsets = map (\<lambda>e. searchsorted_right expert_ids (int e)) [0..<num_experts]
      in bindE (silu_and_mul silu (grouped_mm mem (gather x token_ids) gate_up offsets)) (\<lambda>a.
         let h = map2 (\<lambda>row s. map ((*) s) row) (grouped_mm mem' a down offsets) (gather (concat topk_weights) order);
             h1 = (if expert_map = None then h
                   else map2 (\<lambda>e row. if e < int num_experts then row else map (\<lambda>_. 0) row) expert_ids h)
         in Inr (index_add token_ids h1 (map (map (\<lambda>_. 0)) x))))"

definition shared_mlp :: "(rat \<Rightarrow> rat) \<Rightarrow> matrix \<Rightarrow> matrix \<Rightarrow> matrix \<Rightarrow> matrix res" where
  "shared_mlp silu x gate_up down = bindE (f_linear x gate_up None) (\<lambda>h. bindE (silu_and_mul silu h) (\<lambda>a. f_linear a down None))"

definition moe_experts ::
  "(int list \<Rightarrow> nat list) \<Rightarrow> memory \<Rightarrow> memory \<Rightarrow> (rat \<Rightarrow> rat) \<Rightarrow> matrix \<Rightarrow> fused_moe \<Rightarrow> matrix \<Rightarrow> int list list \<Rightarrow> (matrix \<times> matrix) option \<Rightarrow> matrix res" where
  "moe_experts argsort mem mem' silu x m topk_weights topk_ids shared =
     bindE (torch_experts argsort mem mem' silu x (moe_gate_up_proj m) (moe_down_proj m) topk_weights topk_ids (moe_expert_map m)) (\<lambda>out.
     case shared of
       None \<Rightarrow> Inr out
     | Some (gate_up, down) \<Rightarrow> bindE (shared_mlp silu x gate_up down) (\<lambda>s. Inr (map2 (map2 (+)) out s)))"

text \<open>\<open>FusedMoE.forward\<close> on all ranks, each with its shared experts' weights, if any.\<close>

definition fused_moe_forward ::
  "(int list \<Rightarrow> nat list) \<Rightarrow> (nat \<Rightarrow> memory) \<Rightarrow> (nat \<Rightarrow> memory) \<Rightarrow> (rat \<Rightarrow> rat) \<Rightarrow> fused_moe list \<Rightarrow> matrix \<Rightarrow> matrix \<Rightarrow> int list list \<Rightarrow> (matrix \<times> matrix) option list \<Rightarrow> matrix list res" where
  "fused_moe_forward argsort mem mem' silu ms x topk_weights topk_ids shareds =
     bindE (mapE (\<lambda>(r, m, shared). moe_experts argsort (mem r) (mem' r) silu x m topk_weights topk_ids shared) (List.enumerate 0 (zip ms shareds))) (\<lambda>outs.
     Inr (if 1 < moe_tp_size (hd ms) \<or> 1 < moe_ep_size (hd ms) then all_reduce outs else outs))"

section \<open>Sorted pairs\<close>

lemma less_takeWhile_sorted:
  "sorted xs \<Longrightarrow> i < length xs \<Longrightarrow> i < length (takeWhile (\<lambda>x. x \<le> (t :: int)) xs) \<longleftrightarrow> xs ! i \<le> t"
proof (induction xs arbitrary: i)
  case (Cons x xs)
  show ?case
  proof (cases i)
    case (Suc j)
    have "x \<le> xs ! j" using Cons.prems Suc by simp
    then have "xs ! j \<le> t \<longrightarrow> x \<le> t" by simp
    then show ?thesis using Cons Suc by auto
  qed auto
qed simp

lemma length_takeWhile_upt: "length (takeWhile (\<lambda>e. e < v) [0..<n]) = min v n"
proof (induction n)
  case (Suc n)
  show ?case
  proof (cases "n < v")
    case True
    then have "takeWhile (\<lambda>e. e < v) ([0..<n] @ [n]) = [0..<n] @ [n]" by (subst takeWhile_append2) auto
    from arg_cong [OF this, of length] show ?thesis using True by simp
  next
    case False
    then show ?thesis using Suc.IH by (cases "takeWhile (\<lambda>e. e < v) [0..<n] = [0..<n]") (auto simp: takeWhile_append split: if_splits)
  qed
qed simp

text \<open>The group of a sorted row is its expert.\<close>

lemma group_of_row:
  assumes "sorted ids" "i < length ids" "0 \<le> ids ! i"
  shows "length (takeWhile (\<lambda>end. end \<le> i) (map (\<lambda>e. searchsorted_right ids (int e)) [0..<E])) = min (nat (ids ! i)) E"
proof -
  have "searchsorted_right ids (int e) \<le> i \<longleftrightarrow> e < nat (ids ! i)" for e
    using less_takeWhile_sorted [OF assms(1,2), of "int e"] assms(3) unfolding searchsorted_right_def by linarith
  then have "takeWhile (\<lambda>end. end \<le> i) (map (\<lambda>e. searchsorted_right ids (int e)) [0..<E]) =
      map (\<lambda>e. searchsorted_right ids (int e)) (takeWhile (\<lambda>e. e < nat (ids ! i)) [0..<E])"
    by (simp add: takeWhile_map comp_def)
  then show ?thesis by (simp add: length_takeWhile_upt)
qed

lemma grouped_mm_nth:
  assumes "sorted ids" "i < length ids" "0 \<le> ids ! i" "length xs = length ids"
  shows "grouped_mm mem xs ws (map (\<lambda>e. searchsorted_right ids (int e)) [0..<length ws]) ! i =
    (if nat (ids ! i) < length ws then matvec (ws ! nat (ids ! i)) (xs ! i) else map (mem i) [0..<length (hd ws)])"
  using assms group_of_row [OF assms(1-3), of "length ws"] by (simp add: grouped_mm_def nth_enumerate_eq Let_def)

lemma length_grouped_mm [simp]: "length (grouped_mm mem xs ws offs) = length xs"
  by (simp add: grouped_mm_def)

section \<open>Adding back\<close>

lemma index_add_shape:
  "list_all (\<lambda>row. length row = H) rows \<Longrightarrow> mat_shape N H m \<Longrightarrow> \<forall>i \<in> set is. i < N \<Longrightarrow> length is = length rows \<Longrightarrow> mat_shape N H (index_add is rows m)"
  unfolding index_add_def
proof (induction "is" arbitrary: rows m)
  case (Cons i "is")
  then obtain row rest where r: "rows = row # rest" by (cases rows) auto
  have "mat_shape N H (m[i := map2 (+) (m ! i) row])"
    using Cons.prems r by (auto simp: mat_shape_def list_all_length nth_list_update)
  then show ?case using Cons r by simp
qed simp

lemma index_add_nth:
  assumes "t < N" "c < H"
  shows "list_all (\<lambda>row. length row = H) rows \<Longrightarrow> mat_shape N H m \<Longrightarrow> \<forall>i \<in> set is. i < N \<Longrightarrow> length is = length rows \<Longrightarrow>
    index_add is rows m ! t ! c = m ! t ! c + sum_list (map2 (\<lambda>i row. of_bool (i = t) * row ! c) is rows)"
  unfolding index_add_def
proof (induction "is" arbitrary: rows m)
  case (Cons i "is")
  then obtain row rest where r: "rows = row # rest" by (cases rows) auto
  have "mat_shape N H (m[i := map2 (+) (m ! i) row])"
    using Cons.prems r by (auto simp: mat_shape_def list_all_length nth_list_update)
  moreover have "m[i := map2 (+) (m ! i) row] ! t ! c = m ! t ! c + of_bool (i = t) * row ! c"
    using Cons.prems r assms by (auto simp: mat_shape_def list_all_length nth_list_update)
  ultimately show ?case using Cons r by (simp add: add.assoc)
qed simp

text \<open>Sums over the pairs do not depend on their order, and a token's pairs are those of its row.\<close>

lemma sum_perm: "mset xs = mset ys \<Longrightarrow> sum_list (map f xs) = (sum_list (map f ys) :: rat)"
  by (metis mset_map sum_mset_sum_list)

lemma sum_of_row:
  assumes "t < N" "0 < k"
  shows "sum_list (map (\<lambda>f. of_bool (f div k = t) * g f) [0..<N * k]) = (sum_list (map (\<lambda>j. g (t * k + j)) [0..<k]) :: rat)"
proof -
  have blocks: "[0..<N * k] = concat (map (\<lambda>r. map (\<lambda>j. r * k + j) [0..<k]) [0..<N])"
  proof -
    have "shard k r [0..<N * k] = map (\<lambda>j. r * k + j) [0..<k]" if "r < N" for r
      using rank_le [OF that, of k] by - (rule nth_equalityI, simp_all)
    then have "map (\<lambda>r. shard k r [0..<N * k]) [0..<N] = map (\<lambda>r. map (\<lambda>j. r * k + j) [0..<k]) [0..<N]" by simp
    then show ?thesis using shards_concat [of "[0..<N * k]" N k] by (metis length_upt diff_zero)
  qed
  have "sum_list (map (\<lambda>j. of_bool ((r * k + j) div k = t) * g (r * k + j)) [0..<k]) = of_bool (t = r) * sum_list (map (\<lambda>j. g (t * k + j)) [0..<k])" for r
  proof -
    have "map (\<lambda>j. of_bool ((r * k + j) div k = t) * g (r * k + j)) [0..<k] = map (\<lambda>j. of_bool (t = r) * g (t * k + j)) [0..<k]"
      using assms(2) by auto
    then show ?thesis by (simp only: sum_list_const_mult)
  qed
  then have "sum_list (map (\<lambda>f. of_bool (f div k = t) * g f) [0..<N * k]) = sum_list (map (\<lambda>r. of_bool (t = r) * sum_list (map (\<lambda>j. g (t * k + j)) [0..<k])) [0..<N])"
    unfolding blocks by (simp add: map_concat sum_concat_map comp_def)
  then show ?thesis using sum_one_rank [OF assms(1)] by simp
qed

section \<open>What a rank adds up\<close>

definition expert_order_ok :: "(int list \<Rightarrow> nat list) \<Rightarrow> bool" where
  "expert_order_ok argsort \<longleftrightarrow> (\<forall>xs. mset (argsort xs) = mset [0..<length xs] \<and> sorted (gather xs (argsort xs)))"

definition expert_out :: "(rat \<Rightarrow> rat) \<Rightarrow> nat \<Rightarrow> matrix \<Rightarrow> matrix \<Rightarrow> rat list \<Rightarrow> rat list" where
  "expert_out silu I gate_up down x =
     matvec down (map2 (\<lambda>u v. silu u * v) (take I (matvec gate_up x)) (drop I (matvec gate_up x)))"

definition weights_ok :: "nat \<Rightarrow> nat \<Rightarrow> nat \<Rightarrow> matrix list \<Rightarrow> matrix list \<Rightarrow> bool" where
  "weights_ok E H I gate_up down \<longleftrightarrow> 0 < E \<and> 0 < I \<and> length gate_up = E \<and> length down = E \<and>
     (\<forall>l < E. mat_shape (I + I) H (gate_up ! l) \<and> mat_shape H I (down ! l))"

text \<open>\<open>N\<close> tokens of \<open>k\<close> pairs each.\<close>

definition pairs_ok :: "nat \<Rightarrow> nat \<Rightarrow> nat \<Rightarrow> matrix \<Rightarrow> matrix \<Rightarrow> int list list \<Rightarrow> bool" where
  "pairs_ok N k H x w ids \<longleftrightarrow> 0 < N \<and> 0 < k \<and> mat_shape N H x \<and> mat_shape N k w \<and> length ids = N \<and> (\<forall>r \<in> set ids. length r = k)"

lemma flat_pair:
  assumes "length xss = N" "\<forall>xs \<in> set xss. length xs = k" "t < N" "j < k"
  shows "concat xss ! (t * k + j) = xss ! t ! j" "t * k + j < N * k"
proof -
  show le: "t * k + j < N * k" using assms(3,4) mult_le_mono1 [of "Suc t" N k] by simp
  have "(t * k + j) div k = t" using assms(4) by (auto intro: div_nat_eqI)
  then show "concat xss ! (t * k + j) = xss ! t ! j" using concat_same_length [of xss k "t * k + j"] assms le by simp
qed

lemma silu_and_mul_rows:
  assumes "0 < I" "\<forall>r \<in> set rows. length r = I + I"
  shows "silu_and_mul silu rows = Inr (map (\<lambda>r. map2 (\<lambda>u v. silu u * v) (take I r) (drop I r)) rows)"
  using silu_and_mul_halves [of I rows "take I" "drop I" silu] assms by simp

lemma weights_okD:
  assumes "weights_ok E H I gate_up down"
  shows "length gate_up = E" "length down = E" "0 < I" "length (hd gate_up) = I + I" "length (hd down) = H"
    "l < E \<Longrightarrow> length (gate_up ! l) = I + I" "l < E \<Longrightarrow> length (down ! l) = H"
proof -
  have "0 < E" "length gate_up = E" "length down = E" "0 < I" "\<And>l. l < E \<Longrightarrow> length (gate_up ! l) = I + I \<and> length (down ! l) = H"
    using assms by (auto simp: weights_ok_def mat_shape_def)
  moreover from this have "gate_up \<noteq> []" "down \<noteq> []" by auto
  ultimately show "length gate_up = E" "length down = E" "0 < I" "length (hd gate_up) = I + I" "length (hd down) = H"
    "l < E \<Longrightarrow> length (gate_up ! l) = I + I" "l < E \<Longrightarrow> length (down ! l) = H"
    by (auto simp: hd_conv_nth)
qed

text \<open>Both multiplies, on rows sorted by expert.\<close>

lemma expert_rows:
  assumes wts: "weights_ok E H I gate_up down" and ids: "sorted ids" "\<forall>v \<in> set ids. 0 \<le> v" "length xs = length ids"
  shows "\<exists>a. silu_and_mul silu (grouped_mm mem xs gate_up (map (\<lambda>e. searchsorted_right ids (int e)) [0..<E])) = Inr a \<and> length a = length ids \<and>
    (\<forall>i < length ids. grouped_mm mem' a down (map (\<lambda>e. searchsorted_right ids (int e)) [0..<E]) ! i =
      (if nat (ids ! i) < E then expert_out silu I (gate_up ! nat (ids ! i)) (down ! nat (ids ! i)) (xs ! i) else map (mem' i) [0..<H]))"
proof -
  note w = weights_okD [OF wts]
  let ?offs = "map (\<lambda>e. searchsorted_right ids (int e)) [0..<E]" let ?h = "grouped_mm mem xs gate_up ?offs"
  let ?a = "map (\<lambda>r. map2 (\<lambda>u v. silu u * v) (take I r) (drop I r)) ?h"
  have h: "?h ! i = (if nat (ids ! i) < E then matvec (gate_up ! nat (ids ! i)) (xs ! i) else map (mem i) [0..<I + I])" if "i < length ids" for i
    using that ids grouped_mm_nth [of ids i xs mem gate_up] w(1,4) by simp
  then have "\<forall>r \<in> set ?h. length r = I + I" using w(6) ids(3) by (auto simp: in_set_conv_nth)
  then have "silu_and_mul silu ?h = Inr ?a" using w(3) by (intro silu_and_mul_rows) auto
  moreover have "grouped_mm mem' ?a down ?offs ! i =
      (if nat (ids ! i) < E then expert_out silu I (gate_up ! nat (ids ! i)) (down ! nat (ids ! i)) (xs ! i) else map (mem' i) [0..<H])" if i: "i < length ids" for i
    using i ids grouped_mm_nth [of ids i ?a mem' down] w(2,5) h [OF i] by (simp add: expert_out_def)
  ultimately show ?thesis using ids(3) by (intro exI [of _ ?a]) auto
qed

lemma index_add_pairs:
  assumes "mset order = mset [0..<N * k]" "0 < k" "\<And>f. length (G f) = H" "mat_shape N H x"
  shows "index_add (map (\<lambda>f. f div k) order) (map G order) (map (map (\<lambda>_. 0)) x) =
    map (\<lambda>t. map (\<lambda>c. sum_list (map (\<lambda>j. G (t * k + j) ! c) [0..<k])) [0..<H]) [0..<N]"
proof -
  let ?res = "index_add (map (\<lambda>f. f div k) order) (map G order) (map (map (\<lambda>_. 0)) x)"
  have "set order = {0..<N * k}" using mset_eq_setD [OF assms(1)] by simp
  then have tok: "\<forall>i \<in> set (map (\<lambda>f. f div k) order). i < N" by (auto simp: less_mult_imp_div_less)
  have lenG: "list_all (\<lambda>row. length row = H) (map G order)" using assms(3) by (simp add: list_all_iff)
  have zero: "mat_shape N H (map (map (\<lambda>_. 0)) x)" using assms(4) by (auto simp: mat_shape_def list_all_iff)
  have sum: "?res ! t ! c = sum_list (map (\<lambda>j. G (t * k + j) ! c) [0..<k])" if tc: "t < N" "c < H" for t c
  proof -
    have "?res ! t ! c = sum_list (map (\<lambda>f. of_bool (f div k = t) * G f ! c) order)"
      using index_add_nth [OF tc lenG zero tok] tc assms(4) by (simp add: map2_maps mat_shape_def list_all_length)
    also have "\<dots> = sum_list (map (\<lambda>f. of_bool (f div k = t) * G f ! c) [0..<N * k])" by (rule sum_perm [OF assms(1)])
    also have "\<dots> = sum_list (map (\<lambda>j. G (t * k + j) ! c) [0..<k])" by (rule sum_of_row [OF tc(1) assms(2)])
    finally show ?thesis .
  qed
  have "mat_shape N H ?res" using index_add_shape [OF lenG zero tok] by simp
  then have "?res = map (\<lambda>t. map (\<lambda>c. ?res ! t ! c) [0..<H]) [0..<N]"
    by - (rule nth_equalityI, auto simp: mat_shape_def list_all_length map_nth intro!: nth_equalityI)
  also have "\<dots> = map (\<lambda>t. map (\<lambda>c. sum_list (map (\<lambda>j. G (t * k + j) ! c) [0..<k])) [0..<H]) [0..<N]" using sum by simp
  finally show ?thesis .
qed

lemma torch_experts_sum:
  assumes srt: "expert_order_ok argsort" and wts: "weights_ok E H I gate_up down" and prs: "pairs_ok N k H x w ids"
    and lids: "lids = local_ids E emap ids" "\<forall>r \<in> set lids. \<forall>v \<in> set r. 0 \<le> v" "emap = None \<Longrightarrow> \<forall>r \<in> set lids. \<forall>v \<in> set r. v < int E"
  shows "torch_experts argsort mem mem' silu x gate_up down w ids emap =
    Inr (map (\<lambda>t. map (\<lambda>c. sum_list (map (\<lambda>j. if nat (lids ! t ! j) < E then w ! t ! j * expert_out silu I (gate_up ! nat (lids ! t ! j)) (down ! nat (lids ! t ! j)) (x ! t) ! c else 0)
      [0..<k])) [0..<H]) [0..<N])"
proof -
  let ?flat = "concat lids" and ?n = "N * k" let ?order = "argsort ?flat" let ?ids = "gather ?flat ?order"
  let ?out = "\<lambda>v t. expert_out silu I (gate_up ! v) (down ! v) (x ! t)"
  let ?G = "\<lambda>f. if nat (?flat ! f) < E then map ((*) (concat w ! f)) (?out (nat (?flat ! f)) (f div k)) else map (\<lambda>_. 0) [0..<H]"
  note W = weights_okD [OF wts]
  have p: "0 < N" "0 < k" "mat_shape N H x" "length w = N" "\<forall>r \<in> set w. length r = k" "length ids = N" "\<forall>r \<in> set ids. length r = k"
    using prs by (auto simp: pairs_ok_def mat_shape_def list_all_iff)
  have l: "length lids = N" "\<forall>r \<in> set lids. length r = k" using p(6,7) by (auto simp: lids(1) local_ids_def split: option.splits)
  have k: "length (hd ids) = k" using p(1,6,7) by (cases ids) auto
  have n: "length ?flat = ?n" "length (concat w) = ?n"
    using l p(4,5) by (simp_all add: length_concat sum_list_triv cong: map_cong)
  have ord: "mset ?order = mset [0..<?n]" "sorted ?ids" using srt n(1) by (simp_all add: expert_order_ok_def)
  then have o: "length ?order = ?n" "set ?order = {0..<?n}" using mset_eq_length mset_eq_setD by fastforce+
  have ids: "length ?ids = ?n" "set ?ids = set ?flat" using o n(1) nth_image [of ?n ?flat] by (simp_all add: gather_def)
  have at: "?order ! i < ?n" "?ids ! i = ?flat ! (?order ! i)" if "i < ?n" for i
    using that o nth_mem [of i ?order] by (auto simp: gather_def)
  let ?offs = "map (\<lambda>e. searchsorted_right ?ids (int e)) [0..<E]" and ?xs = "gather x (map (\<lambda>f. f div k) ?order)"
  have xs: "length ?xs = ?n" "\<And>i. i < ?n \<Longrightarrow> ?xs ! i = x ! (?order ! i div k)" using o(1) by (simp_all add: gather_def)
  obtain a where a: "silu_and_mul silu (grouped_mm mem ?xs gate_up ?offs) = Inr a" "length a = ?n"
      "\<And>i. i < ?n \<Longrightarrow> grouped_mm mem' a down ?offs ! i =
        (if nat (?ids ! i) < E then expert_out silu I (gate_up ! nat (?ids ! i)) (down ! nat (?ids ! i)) (?xs ! i) else map (mem' i) [0..<H])"
    using expert_rows [OF wts ord(2), of ?xs silu mem mem'] lids(2) xs(1) unfolding ids by auto
  let ?h = "map2 (\<lambda>row s. map ((*) s) row) (grouped_mm mem' a down ?offs) (gather (concat w) ?order)"
  let ?h1 = "if emap = None then ?h else map2 (\<lambda>e row. if e < int E then row else map (\<lambda>_. 0) row) ?ids ?h"
  have lenh: "length ?h = ?n" "length (gather (concat w) ?order) = ?n" using a(2) o(1) by (simp_all add: gather_def)
  have wo: "gather (concat w) ?order ! i = concat w ! (?order ! i)" if "i < ?n" for i using that o(1) by (simp add: gather_def)
  have nn: "0 \<le> ?ids ! i" "emap = None \<Longrightarrow> nat (?ids ! i) < E" if "i < ?n" for i
  proof -
    have "?ids ! i \<in> set ?flat" using that ids nth_mem by metis
    then show "0 \<le> ?ids ! i" "emap = None \<Longrightarrow> nat (?ids ! i) < E" using lids(2,3) by (auto simp: nat_less_iff)
  qed
  have rows: "?h1 = map ?G ?order"
  proof (rule nth_equalityI)
    show "length ?h1 = length (map ?G ?order)" using lenh ids o(1) by simp
    fix i assume "i < length ?h1"
    then have i: "i < ?n" using lenh ids by (auto split: if_splits)
    show "?h1 ! i = map ?G ?order ! i"
      using i o(1) a(3) [OF i] wo [OF i] at(2) [OF i] xs(2) [OF i] nn [OF i] lenh a(2) ids(1) by (auto simp: nat_less_iff map_replicate_const comp_def)
  qed
  have "length (?G f) = H" for f using W(7) by (simp add: expert_out_def)
  from index_add_pairs [OF ord(1) p(2) this p(3)]
  have "index_add (map (\<lambda>f. f div k) ?order) ?h1 (map (map (\<lambda>_. 0)) x) = map (\<lambda>t. map (\<lambda>c. sum_list (map (\<lambda>j. ?G (t * k + j) ! c) [0..<k])) [0..<H]) [0..<N]"
    unfolding rows .
  also have "map (\<lambda>j. ?G (t * k + j) ! c) [0..<k] = map (\<lambda>j. if nat (lids ! t ! j) < E then w ! t ! j * ?out (nat (lids ! t ! j)) t ! c else 0) [0..<k]"
    if "t < N" "c < H" for t c
    using flat_pair [OF l that(1)] flat_pair [OF p(4,5) that(1)] that(2) W(7) p(2) by (auto simp: expert_out_def)
  then have "map (\<lambda>t. map (\<lambda>c. sum_list (map (\<lambda>j. ?G (t * k + j) ! c) [0..<k])) [0..<H]) [0..<N] =
      map (\<lambda>t. map (\<lambda>c. sum_list (map (\<lambda>j. if nat (lids ! t ! j) < E then w ! t ! j * ?out (nat (lids ! t ! j)) t ! c else 0) [0..<k])) [0..<H]) [0..<N]"
    by (intro map_cong refl arg_cong [where f = sum_list]) auto
  finally show ?thesis using a(1) unfolding torch_experts_def Let_def k W(1) lids(1) [symmetric] by simp
qed

section \<open>Loaded experts\<close>

lemma narrow_copy_shape:
  assumes "mat_shape R c d" "mat_shape n c s" "off + n \<le> R" "0 < n"
  shows "narrow_copy off n (Mat d) (Mat s) = Inr (Mat (take off d @ s @ drop (off + n) d))"
proof -
  have "mat_shape n c (part off n d)" using assms(1,3) by (auto simp: mat_shape_def part_def list_all_iff dest!: in_set_takeD in_set_dropD)
  from copy_into_shape [OF this assms(2,4)] show ?thesis using assms by (simp add: narrow_copy_def mat_shape_def del: copy_into.simps)
qed

definition local_id :: "int list option \<Rightarrow> nat \<Rightarrow> int" where
  "local_id em e = (case em of None \<Rightarrow> int e | Some xs \<Rightarrow> xs ! e)"

definition map_covers :: "nat \<Rightarrow> int list option \<Rightarrow> bool" where
  "map_covers n em = (case em of None \<Rightarrow> True | Some xs \<Rightarrow> n \<le> length xs)"

lemma local_id_read:
  "map_covers (Suc e) em \<Longrightarrow> (case em of None \<Rightarrow> Inr (int e) | Some xs \<Rightarrow> py_get xs (int e)) = Inr (local_id em e)"
  by (cases em) (simp_all add: map_covers_def local_id_def)

definition loaded_gate_up :: "fused_moe \<Rightarrow> matrix \<times> matrix \<times> matrix \<Rightarrow> matrix" where
  "loaded_gate_up m = (\<lambda>(gate, up, down). shard (moe_intermediate_size m) (moe_tp_rank m) gate @ shard (moe_intermediate_size m) (moe_tp_rank m) up)"

definition loaded_down :: "fused_moe \<Rightarrow> matrix \<times> matrix \<times> matrix \<Rightarrow> matrix" where
  "loaded_down m = (\<lambda>(gate, up, down). map (shard (moe_intermediate_size m) (moe_tp_rank m)) down)"

definition expert_shape :: "nat \<Rightarrow> nat \<Rightarrow> matrix \<times> matrix \<times> matrix \<Rightarrow> bool" where
  "expert_shape J H = (\<lambda>(gate, up, down). mat_shape J H gate \<and> mat_shape J H up \<and> mat_shape H J down)"

text \<open>Fields a load leaves alone, and the shape of the weights.\<close>

definition moe_ok :: "nat \<Rightarrow> nat \<Rightarrow> fused_moe \<Rightarrow> bool" where
  "moe_ok H L m \<longleftrightarrow> 0 < H \<and> moe_tp_rank m < moe_tp_size m \<and> weights_ok L H (moe_intermediate_size m) (moe_gate_up_proj m) (moe_down_proj m)"

lemma loaded_shape:
  assumes "moe_tp_rank m < moe_tp_size m" "expert_shape (moe_tp_size m * moe_intermediate_size m) H ew"
  shows "mat_shape (moe_intermediate_size m + moe_intermediate_size m) H (loaded_gate_up m ew)" "mat_shape H (moe_intermediate_size m) (loaded_down m ew)"
proof -
  obtain gate up down where e: "ew = (gate, up, down)" by (metis prod.collapse)
  have sh: "mat_shape (moe_tp_size m * moe_intermediate_size m) H gate" "mat_shape (moe_tp_size m * moe_intermediate_size m) H up" "mat_shape H (moe_tp_size m * moe_intermediate_size m) down"
    using assms(2) by (auto simp: expert_shape_def e)
  from mat_shape_shard [OF sh(1) assms(1)] mat_shape_shard [OF sh(2) assms(1)]
  show "mat_shape (moe_intermediate_size m + moe_intermediate_size m) H (loaded_gate_up m ew)"
    by (auto simp: loaded_gate_up_def e mat_shape_def)
  show "mat_shape H (moe_intermediate_size m) (loaded_down m ew)"
    using sh(3) rank_le [OF assms(1), of "moe_intermediate_size m"] by (auto simp: loaded_down_def e mat_shape_def list_all_iff)
qed

lemma rank_chunk_shape:
  assumes "moe_tp_rank m < moe_tp_size m" "0 < moe_intermediate_size m"
  shows "mat_shape (moe_tp_size m * moe_intermediate_size m) c w \<Longrightarrow> rank_chunk m 0 (Mat w) = Inr (Mat (shard (moe_intermediate_size m) (moe_tp_rank m) w))"
    "mat_shape R (moe_tp_size m * moe_intermediate_size m) w \<Longrightarrow> 0 < R \<Longrightarrow> rank_chunk m 1 (Mat w) = Inr (Mat (map (shard (moe_intermediate_size m) (moe_tp_rank m)) w))"
proof -
  have n: "0 < moe_tp_size m" using assms(1) by simp
  show "rank_chunk m 0 (Mat w) = Inr (Mat (shard (moe_intermediate_size m) (moe_tp_rank m) w))" if "mat_shape (moe_tp_size m * moe_intermediate_size m) c w"
    using that assms by (simp add: rank_chunk_def mat_shape_def chunk_list_exact [OF n assms(2)] py_simps)
  show "rank_chunk m 1 (Mat w) = Inr (Mat (map (shard (moe_intermediate_size m) (moe_tp_rank m)) w))" if "mat_shape R (moe_tp_size m * moe_intermediate_size m) w" "0 < R"
  proof -
    have "length (hd w) = moe_tp_size m * moe_intermediate_size m" using that by (cases w) (auto simp: mat_shape_def)
    then show ?thesis using assms by (simp add: rank_chunk_def chunk_starts_exact [OF n assms(2)] py_simps comp_def shard_def [abs_def])
  qed
qed

lemma load_expert_own:
  assumes "moe_ok H L m" "expert_shape (moe_tp_size m * moe_intermediate_size m) H (gate, up, down)" "local_id (moe_expert_map m) e = int l" "l < L"
    and "map_covers (Suc e) (moe_expert_map m)"
  shows "load_expert (e, gate, up, down) m = Inr (m\<lparr>moe_gate_up_proj := (moe_gate_up_proj m)[l := loaded_gate_up m (gate, up, down)],
     moe_down_proj := (moe_down_proj m)[l := loaded_down m (gate, up, down)]\<rparr>)"
proof -
  let ?I = "moe_intermediate_size m" and ?r = "moe_tp_rank m"
  have m: "0 < H" "?r < moe_tp_size m" "0 < ?I" "length (moe_gate_up_proj m) = L" "length (moe_down_proj m) = L"
      "mat_shape (?I + ?I) H (moe_gate_up_proj m ! l)" "mat_shape H ?I (moe_down_proj m ! l)"
    using assms(1,4) by (auto simp: moe_ok_def weights_ok_def)
  have e: "mat_shape (moe_tp_size m * ?I) H gate" "mat_shape (moe_tp_size m * ?I) H up" "mat_shape H (moe_tp_size m * ?I) down"
    using assms(2) by (auto simp: expert_shape_def)
  note sg = mat_shape_shard [OF e(1) m(2)] and su = mat_shape_shard [OF e(2) m(2)]
  note ch = rank_chunk_shape [OF m(2,3)]
  have id: "(case moe_expert_map m of None \<Rightarrow> Inr (int e) | Some em \<Rightarrow> py_get em (int e)) = Inr (int l)" using local_id_read [OF assms(5)] assms(3) by simp
  have d: "copy_into (Mat (moe_down_proj m ! l)) (Mat (map (shard ?I ?r) down)) = Inr (Mat (map (shard ?I ?r) down))"
    using copy_into_shape [OF m(7) _ m(1)] loaded_shape(2) [OF m(2) assms(2)] by (simp add: loaded_down_def)
  let ?m1 = "m\<lparr>moe_down_proj := (moe_down_proj m)[l := map (shard ?I ?r) down]\<rparr>"
  have 1: "moe_weight_loader e ''down_proj'' (Mat down) m = Inr ?m1"
    using ch(2) [OF e(3) m(1)] d m assms(4) by (simp add: moe_weight_loader_def id update_expert_def del: copy_into.simps)
  let ?mid = "shard ?I ?r gate @ drop ?I (moe_gate_up_proj m ! l)"
  let ?m2 = "?m1\<lparr>moe_gate_up_proj := (moe_gate_up_proj m)[l := ?mid]\<rparr>"
  have rc: "rank_chunk m' d t = rank_chunk m d t" if "moe_tp_size m' = moe_tp_size m" "moe_tp_rank m' = moe_tp_rank m" for m' d t
    using that by (simp add: rank_chunk_def)
  have 2: "moe_weight_loader e ''gate_proj'' (Mat gate) ?m1 = Inr ?m2"
    using ch(1) [OF e(1)] narrow_copy_shape [OF m(6) sg, of 0] m assms(4) by (simp add: moe_weight_loader_def id update_expert_def rc [of ?m1])
  have mid: "mat_shape (?I + ?I) H ?mid" using sg m(6) by (auto simp: mat_shape_def list_all_iff dest: in_set_dropD)
  have len: "length (shard ?I ?r gate) = ?I" "length (moe_gate_up_proj m ! l) = ?I + ?I" using sg m(6) by (auto simp: mat_shape_def)
  have 3: "moe_weight_loader e ''up_proj'' (Mat up) ?m2 = Inr (?m2\<lparr>moe_gate_up_proj := (moe_gate_up_proj m)[l := shard ?I ?r gate @ shard ?I ?r up]\<rparr>)"
    using ch(1) [OF e(2)] narrow_copy_shape [OF mid su, of ?I] m assms(4) len by (simp add: moe_weight_loader_def id update_expert_def rc [of ?m2])
  show ?thesis unfolding load_expert_def split_conv 1 bindE.simps 2 3 by (simp add: loaded_gate_up_def loaded_down_def)
qed

lemma load_expert_other:
  "local_id (moe_expert_map m) e = -1 \<Longrightarrow> map_covers (Suc e) (moe_expert_map m) \<Longrightarrow> load_expert (e, gate, up, down) m = Inr m"
  by (simp add: load_expert_def moe_weight_loader_def local_id_read)

definition loaded_upto :: "nat \<Rightarrow> nat \<Rightarrow> (matrix \<times> matrix \<times> matrix) list \<Rightarrow> fused_moe \<Rightarrow> nat \<Rightarrow> fused_moe \<Rightarrow> bool" where
  "loaded_upto H L ckpt m n m' \<longleftrightarrow> moe_ok H L m' \<and> m' = m\<lparr>moe_gate_up_proj := moe_gate_up_proj m', moe_down_proj := moe_down_proj m'\<rparr> \<and>
     (\<forall>e < n. local_id (moe_expert_map m) e \<noteq> -1 \<longrightarrow>
        moe_gate_up_proj m' ! nat (local_id (moe_expert_map m) e) = loaded_gate_up m (ckpt ! e) \<and>
        moe_down_proj m' ! nat (local_id (moe_expert_map m) e) = loaded_down m (ckpt ! e))"

text \<open>Every expert has a place of its own, or is another rank's.\<close>

definition places_ok :: "nat \<Rightarrow> nat \<Rightarrow> int list option \<Rightarrow> bool" where
  "places_ok L n em \<longleftrightarrow> map_covers n em \<and> (\<forall>e < n. local_id em e = -1 \<or> 0 \<le> local_id em e \<and> local_id em e < int L) \<and>
     (\<forall>e < n. \<forall>e' < n. local_id em e = local_id em e' \<longrightarrow> local_id em e \<noteq> -1 \<longrightarrow> e = e')"

lemma load_expert_step:
  assumes ok: "loaded_upto H L ckpt m n m'" and n: "n < length ckpt" "places_ok L (length ckpt) (moe_expert_map m)"
    and sh: "expert_shape (moe_tp_size m * moe_intermediate_size m) H (ckpt ! n)"
  shows "okE (load_expert (n, ckpt ! n) m') (loaded_upto H L ckpt m (Suc n))"
proof -
  obtain gate up down where ew: "ckpt ! n = (gate, up, down)" by (metis prod.collapse)
  have cov: "map_covers (Suc n) (moe_expert_map m)" using n by (auto simp: places_ok_def map_covers_def split: option.splits)
  let ?id = "local_id (moe_expert_map m)"
  have m': "moe_ok H L m'" "m' = m\<lparr>moe_gate_up_proj := moe_gate_up_proj m', moe_down_proj := moe_down_proj m'\<rparr>" using ok by (auto simp: loaded_upto_def)
  have f: "moe_expert_map m' = moe_expert_map m" "moe_tp_size m' = moe_tp_size m" "moe_tp_rank m' = moe_tp_rank m" "moe_intermediate_size m' = moe_intermediate_size m"
    using m'(2) by (cases m; cases m'; simp)+
  show ?thesis
  proof (cases "?id n = -1")
    case True
    then show ?thesis using ok load_expert_other [of m' n gate up down] f(1) cov by (auto simp: ew loaded_upto_def less_Suc_eq)
  next
    case False
    define l where "l = nat (?id n)"
    have l: "?id n = int l" "l < L" using False n by (auto simp: places_ok_def l_def)
    let ?new = "m'\<lparr>moe_gate_up_proj := (moe_gate_up_proj m')[l := loaded_gate_up m' (ckpt ! n)], moe_down_proj := (moe_down_proj m')[l := loaded_down m' (ckpt ! n)]\<rparr>"
    have load: "load_expert (n, ckpt ! n) m' = Inr ?new"
      unfolding ew using load_expert_own [OF m'(1), of gate up down n l] sh l f cov by (simp add: ew)
    have ld: "loaded_gate_up m' = loaded_gate_up m" "loaded_down m' = loaded_down m" by (auto simp: loaded_gate_up_def loaded_down_def f fun_eq_iff)
    have "moe_ok H L ?new"
      using m'(1) loaded_shape [of m' H "ckpt ! n"] sh f l(2) by (auto simp: moe_ok_def weights_ok_def nth_list_update)
    moreover have "?new = m\<lparr>moe_gate_up_proj := moe_gate_up_proj ?new, moe_down_proj := moe_down_proj ?new\<rparr>"
      using m'(2) by (cases m; cases m') simp
    moreover have "moe_gate_up_proj ?new ! nat (?id e) = loaded_gate_up m (ckpt ! e) \<and> moe_down_proj ?new ! nat (?id e) = loaded_down m (ckpt ! e)"
      if e: "e < Suc n" "?id e \<noteq> -1" for e
    proof (cases "e = n")
      case True
      have "length (moe_gate_up_proj m') = L" "length (moe_down_proj m') = L" using m'(1) by (auto simp: moe_ok_def weights_ok_def)
      then show ?thesis using True l by (simp add: ld)
    next
      case False
      then have lt: "e < n" "e < length ckpt" using e(1) n(1) by simp_all
      then have "0 \<le> ?id e" using e(2) n(2) unfolding places_ok_def by blast
      moreover have "?id e \<noteq> ?id n" using lt e(2) n False unfolding places_ok_def by metis
      ultimately have "nat (?id e) \<noteq> l" using l(1) by simp
      moreover have "moe_gate_up_proj m' ! nat (?id e) = loaded_gate_up m (ckpt ! e) \<and> moe_down_proj m' ! nat (?id e) = loaded_down m (ckpt ! e)"
        using ok lt(1) e(2) unfolding loaded_upto_def by blast
      ultimately show ?thesis by simp
    qed
    ultimately have "loaded_upto H L ckpt m (Suc n) ?new" unfolding loaded_upto_def by blast
    then show ?thesis unfolding load by simp
  qed
qed

lemma load_experts_ok:
  assumes "moe_ok H L m" "places_ok L (length ckpt) (moe_expert_map m)"
    and "\<forall>ew \<in> set ckpt. expert_shape (moe_tp_size m * moe_intermediate_size m) H ew"
  shows "okE (load_experts ckpt m) (loaded_upto H L ckpt m (length ckpt))"
proof -
  have "okE (foldE load_expert (List.enumerate 0 ckpt) m) (\<lambda>m'. loaded_upto H L ckpt m (length (List.enumerate 0 ckpt)) m')"
  proof (rule okE_foldE [where I = "\<lambda>ys m'. loaded_upto H L ckpt m (length ys) m'"])
    show "loaded_upto H L ckpt m (length []) m" using assms(1) by (simp add: loaded_upto_def)
    fix ys x zs m' assume xs: "List.enumerate 0 ckpt = ys @ x # zs" and ok: "loaded_upto H L ckpt m (length ys) m'"
    have n: "length ys < length ckpt" using arg_cong [OF xs, of length] by simp
    have "x = (length ys, ckpt ! length ys)" using n xs by (metis add_0 nth_append_length nth_enumerate_eq)
    then show "okE (load_expert x m') (loaded_upto H L ckpt m (length (ys @ [x])))"
      using load_expert_step [OF ok n assms(2)] assms(3) n by simp
  qed
  then show ?thesis by (simp add: load_experts_def)
qed

section \<open>Placement over the ranks\<close>

text \<open>Where a rank's experts start.\<close>

definition expert_start :: "nat \<Rightarrow> nat \<Rightarrow> nat \<Rightarrow> nat" where
  "expert_start world n r = r * (n div world) + min r (n mod world)"

lemma expert_start_Suc: "expert_start world n (Suc r) = expert_start world n r + (if r < n mod world then n div world + 1 else n div world)"
  by (auto simp: expert_start_def)

lemma expert_start_end: "0 < world \<Longrightarrow> expert_start world n world = n"
  by (simp add: expert_start_def min_absorb2 less_imp_le)

lemma expert_start_mono: "r \<le> r' \<Longrightarrow> expert_start world n r \<le> expert_start world n r'"
  by (induction r' rule: dec_induct) (auto simp: expert_start_Suc)

lemma expert_map_nth:
  assumes "1 < world" "r < world" "determine_expert_map world r n = (L, em)"
  shows "em \<noteq> None" "L = expert_start world n (Suc r) - expert_start world n r"
    "e < n \<Longrightarrow> local_id em e = (if expert_start world n r \<le> e \<and> e < expert_start world n (Suc r) then int (e - expert_start world n r) else -1)"
    "map_covers n em"
proof -
  let ?s = "expert_start world n r" and ?t = "expert_start world n (Suc r)"
  have le: "?t \<le> n" using expert_start_mono [of "Suc r" world world n] expert_start_end [of world n] assms(1,2) by simp
  have L: "L = ?t - ?s" "?s \<le> ?t" and em: "em = Some (replicate ?s (-1) @ map int [0..<L] @ replicate (n - (?s + L)) (-1))"
    using assms(1,3) unfolding expert_start_Suc by (auto simp: determine_expert_map_def Let_def expert_start_def)
  show "em \<noteq> None" "L = ?t - ?s" "map_covers n em" using L em le by (simp_all add: map_covers_def)
  show "local_id em e = (if ?s \<le> e \<and> e < ?t then int (e - ?s) else -1)" if "e < n"
    using that L le by (auto simp: em local_id_def nth_append)
qed

lemma sum_owner:
  assumes "\<And>r. s r \<le> s (Suc r)" "s 0 = (0 :: nat)"
  shows "sum_list (map (\<lambda>r. if s r \<le> e \<and> e < s (Suc r) then x else 0) [0..<n]) = (if e < s n then x else (0 :: rat))"
proof (induction n)
  case (Suc n)
  show ?case using Suc.IH assms(1) [of n] by (cases "e < s n") auto
qed (simp add: assms(2))

lemma sum_list_swap: "sum_list (map (\<lambda>r. sum_list (map (\<lambda>j. g r j) ys)) xs) = sum_list (map (\<lambda>j. sum_list (map (\<lambda>r. g r j) xs)) ys)"
  for g :: "'a \<Rightarrow> 'b \<Rightarrow> rat"
  by (induction xs) (simp_all add: sum_list_addf)

section \<open>The experts over all ranks\<close>

text \<open>What rank \<open>r\<close> computes for expert \<open>e\<close>: its shard, or all or nothing of it.\<close>

definition rank_share :: "bool \<Rightarrow> nat \<Rightarrow> nat \<Rightarrow> nat \<Rightarrow> (rat \<Rightarrow> rat) \<Rightarrow> (matrix \<times> matrix \<times> matrix) list \<Rightarrow> nat \<Rightarrow> nat \<Rightarrow> rat list \<Rightarrow> nat \<Rightarrow> rat" where
  "rank_share ep world n J silu ckpt r e y c =
     (let (gate, up, down) = ckpt ! e; act = map2 (\<lambda>u v. silu u * v) (matvec gate y) (matvec up y)
      in if ep then if expert_start world n r \<le> e \<and> e < expert_start world n (Suc r) then dot (down ! c) act else 0
         else dot (shard (J div world) r (down ! c)) (shard (J div world) r act))"

lemma sum_rank_share:
  assumes "0 < world" "e < n" "length ckpt = n" "expert_shape J H (ckpt ! e)" "\<not> ep \<Longrightarrow> world dvd J" "c < H"
  shows "sum_list (map (\<lambda>r. rank_share ep world n J silu ckpt r e y c) [0..<world]) =
    (case ckpt ! e of (gate, up, down) \<Rightarrow> mlp_reference silu gate up down y ! c)"
proof -
  obtain gate up down where ew: "ckpt ! e = (gate, up, down)" by (metis prod.collapse)
  have sh: "length gate = J" "length up = J" "length down = H" "length (down ! c) = J"
    using assms(4,6) by (auto simp: ew expert_shape_def mat_shape_def list_all_length)
  let ?act = "map2 (\<lambda>u v. silu u * v) (matvec gate y) (matvec up y)"
  have ref: "(case ckpt ! e of (gate, up, down) \<Rightarrow> mlp_reference silu gate up down y ! c) = dot (down ! c) ?act"
    using sh assms(6) by (simp add: ew mlp_reference_def matvec_def)
  show ?thesis
  proof (cases ep)
    case True
    have "sum_list (map (\<lambda>r. if expert_start world n r \<le> e \<and> e < expert_start world n (Suc r) then dot (down ! c) ?act else 0) [0..<world]) = dot (down ! c) ?act"
      using sum_owner [of "expert_start world n" e "dot (down ! c) ?act" world] expert_start_end [OF assms(1), of n] assms(2)
      by (simp add: expert_start_Suc expert_start_def [of world n 0])
    then show ?thesis unfolding ref by (simp add: rank_share_def ew True)
  next
    case False
    have J: "world * (J div world) = J" using assms(5) False by simp
    have "sum_list (map (\<lambda>r. dot (shard (J div world) r (down ! c)) (shard (J div world) r ?act)) [0..<world]) = dot (down ! c) ?act"
      using sh J by (intro dot_shards) simp_all
    then show ?thesis unfolding ref by (simp add: rank_share_def ew False)
  qed
qed

lemma expert_out_loaded:
  assumes "moe_tp_rank m < moe_tp_size m" "expert_shape (moe_tp_size m * moe_intermediate_size m) H (gate, up, down)" "c < H"
  shows "expert_out silu (moe_intermediate_size m) (loaded_gate_up m (gate, up, down)) (loaded_down m (gate, up, down)) y ! c =
    dot (shard (moe_intermediate_size m) (moe_tp_rank m) (down ! c))
      (shard (moe_intermediate_size m) (moe_tp_rank m) (map2 (\<lambda>u v. silu u * v) (matvec gate y) (matvec up y)))"
proof -
  have "length (shard (moe_intermediate_size m) (moe_tp_rank m) gate) = moe_intermediate_size m" "length down = H"
    using assms mat_shape_shard [of "moe_tp_size m" "moe_intermediate_size m" H gate "moe_tp_rank m"] by (auto simp: expert_shape_def mat_shape_def)
  then show ?thesis using assms(3)
    by (simp add: expert_out_def loaded_gate_up_def loaded_down_def matvec_append) (simp add: matvec_def shard_map shard_zip)
qed

definition experts_input :: "bool \<Rightarrow> nat \<Rightarrow> nat \<Rightarrow> nat \<Rightarrow> nat \<Rightarrow> (matrix \<times> matrix \<times> matrix) list \<Rightarrow> int list list \<Rightarrow> bool" where
  "experts_input use_ep world n H J ckpt ids \<longleftrightarrow> 0 < H \<and> 0 < J \<and> 0 < n \<and> 0 < world \<and> length ckpt = n \<and> (\<forall>ew \<in> set ckpt. expert_shape J H ew) \<and>
     (\<forall>r \<in> set ids. \<forall>e \<in> set r. 0 \<le> e \<and> e < int n) \<and> (if use_ep then 1 < world \<and> world \<le> n else world dvd J)"

text \<open>A new layer on rank \<open>r\<close>.\<close>

lemma new_fused_moe_ok:
  assumes inp: "experts_input use_ep world n H J ckpt ids" and ep: "use_ep = (ep \<and> 1 < world)" and r: "r < world"
  shows "\<exists>L m. new_fused_moe mem mem' r world n H J ep = Inr m \<and> moe_ok H L m \<and> places_ok L n (moe_expert_map m) \<and>
    moe_tp_size m * moe_intermediate_size m = J \<and> (1 < moe_tp_size m \<or> 1 < moe_ep_size m \<longleftrightarrow> 1 < world) \<and>
    (if use_ep then moe_tp_rank m = 0 \<and> moe_intermediate_size m = J \<and> (\<exists>em. determine_expert_map world r n = (L, em) \<and> moe_expert_map m = em)
     else moe_tp_rank m = r \<and> moe_intermediate_size m = J div world \<and> L = n \<and> moe_expert_map m = None)"
proof (cases use_ep)
  case True
  obtain L em where d: "determine_expert_map world r n = (L, em)" by fastforce
  have w: "1 < world" "world \<le> n" "0 < H" "0 < J" using inp True by (auto simp: experts_input_def)
  note e = expert_map_nth [OF w(1) r d]
  have "0 < n div world" using w by (simp add: div_greater_zero_iff)
  then have L: "0 < L" "expert_start world n (Suc r) = expert_start world n r + L" using e(2) by (auto simp: expert_start_Suc)
  have "new_fused_moe mem mem' r world n H J ep = Inr \<lparr>moe_tp_rank = 0, moe_tp_size = 1, moe_ep_size = world, moe_num_experts = n, moe_intermediate_size = J,
      moe_expert_map = em, moe_gate_up_proj = map (\<lambda>e. empty_matrix (mem e) (2 * J) H) [0..<L], moe_down_proj = map (\<lambda>e. empty_matrix (mem' e) H J) [0..<L]\<rparr>"
    using True ep d by (simp add: new_fused_moe_def divide_exact_def assertE_def)
  moreover have "places_ok L n em" using e(3,4) L by (auto simp: places_ok_def)
  moreover have "mat_shape (J + J) H (empty_matrix (mem e) (2 * J) H)" for e using mat_shape_empty [of "2 * J" H "mem e"] by (simp add: mult_2)
  ultimately show ?thesis using True w L(1) d by (auto simp: moe_ok_def weights_ok_def)
next
  case False
  have w: "0 < world" "0 < n" "0 < H" "0 < J" "world dvd J" using inp False by (auto simp: experts_input_def)
  then have J: "world * (J div world) = J" "0 < J div world" by (auto simp: dvd_div_eq_0_iff intro!: Nat.gr0I)
  have "new_fused_moe mem mem' r world n H J ep = Inr \<lparr>moe_tp_rank = r, moe_tp_size = world, moe_ep_size = 1, moe_num_experts = n, moe_intermediate_size = J div world,
      moe_expert_map = None, moe_gate_up_proj = map (\<lambda>e. empty_matrix (mem e) (2 * (J div world)) H) [0..<n], moe_down_proj = map (\<lambda>e. empty_matrix (mem' e) H (J div world)) [0..<n]\<rparr>"
    using False ep w(5) by (auto simp: new_fused_moe_def divide_exact_def assertE_def determine_expert_map_def)
  moreover have "places_ok n n None" by (simp add: places_ok_def local_id_def map_covers_def)
  moreover have "mat_shape (J div world + J div world) H (empty_matrix (mem e) (2 * (J div world)) H)" for e
    using mat_shape_empty [of "2 * (J div world)" H "mem e"] by (simp add: mult_2)
  ultimately show ?thesis using False w J r by (auto simp: moe_ok_def weights_ok_def)
qed

text \<open>The local ids of the pairs, by the expert's place.\<close>

lemma id_range:
  assumes "\<forall>r \<in> set ids. \<forall>e \<in> set r. 0 \<le> e \<and> e < int n" "t < length ids" "j < length (ids ! t)"
  shows "0 \<le> ids ! t ! j" "nat (ids ! t ! j) < n"
proof -
  have "0 \<le> ids ! t ! j \<and> ids ! t ! j < int n" using assms(1) nth_mem [OF assms(2)] nth_mem [OF assms(3)] by blast
  then show "0 \<le> ids ! t ! j" "nat (ids ! t ! j) < n" by auto
qed

lemma local_ids_nth:
  assumes "\<forall>r \<in> set ids. \<forall>e \<in> set r. 0 \<le> e \<and> e < int n" "places_ok L n em" "t < length ids" "j < length (ids ! t)"
    and "em = None \<Longrightarrow> L = n"
  shows "local_ids L em ids ! t ! j = (if local_id em (nat (ids ! t ! j)) = -1 then int L else local_id em (nat (ids ! t ! j)))"
    "0 \<le> local_ids L em ids ! t ! j" "nat (local_ids L em ids ! t ! j) < L \<longleftrightarrow> local_id em (nat (ids ! t ! j)) \<noteq> -1"
proof -
  let ?e = "nat (ids ! t ! j)"
  note e = id_range [OF assms(1,3,4)]
  then have p: "local_id em ?e = -1 \<or> 0 \<le> local_id em ?e \<and> local_id em ?e < int L" using assms(2) unfolding places_ok_def by blast
  show eq: "local_ids L em ids ! t ! j = (if local_id em ?e = -1 then int L else local_id em ?e)"
    using p e assms(3,4) by (auto simp: local_ids_def local_id_def Let_def split: option.splits)
  show "0 \<le> local_ids L em ids ! t ! j" "nat (local_ids L em ids ! t ! j) < L \<longleftrightarrow> local_id em ?e \<noteq> -1"
    using p unfolding eq by auto
qed

lemma rank_share_loaded:
  assumes inp: "experts_input use_ep world n H J ckpt ids" and r: "r < world" and e: "e < n" "c < H"
    and m: "moe_tp_rank m < moe_tp_size m" "moe_tp_size m * moe_intermediate_size m = J"
    and mode: "if use_ep then moe_tp_rank m = 0 \<and> moe_intermediate_size m = J \<and> (\<exists>em. determine_expert_map world r n = (L, em) \<and> moe_expert_map m = em)
      else moe_tp_rank m = r \<and> moe_intermediate_size m = J div world \<and> L = n \<and> moe_expert_map m = None"
  shows "(if local_id (moe_expert_map m) e \<noteq> -1 then expert_out silu (moe_intermediate_size m) (loaded_gate_up m (ckpt ! e)) (loaded_down m (ckpt ! e)) y ! c else 0) =
    rank_share use_ep world n J silu ckpt r e y c"
proof -
  obtain gate up down where ew: "ckpt ! e = (gate, up, down)" by (metis prod.collapse)
  have sh: "expert_shape J H (gate, up, down)" using inp e(1) nth_mem [of e ckpt] by (auto simp: experts_input_def ew)
  then have len: "length gate = J" "length up = J" "length (down ! c) = J" using e(2) by (auto simp: expert_shape_def mat_shape_def list_all_length)
  note out = expert_out_loaded [OF m(1), of H gate up down c silu y] 
  show ?thesis
  proof (cases use_ep)
    case True
    then obtain em where d: "determine_expert_map world r n = (L, em)" "moe_expert_map m = em" "moe_tp_rank m = 0" "moe_intermediate_size m = J" using mode by auto
    have "1 < world" using inp True by (simp add: experts_input_def)
    note id = expert_map_nth(3) [OF this r d(1) e(1)]
    have "shard J 0 xs = xs" if "length xs = J" for xs :: "rat list" using that by (simp add: shard_def part_def)
    then show ?thesis using out sh m(2) e(2) d id len True by (auto simp: rank_share_def ew Let_def)
  next
    case False
    then show ?thesis using out sh m(2) e(2) mode by (simp add: rank_share_def ew Let_def local_id_def)
  qed
qed

lemma rank_forward:
  assumes srt: "expert_order_ok argsort" and prs: "pairs_ok N k H x w ids"
    and inp: "experts_input use_ep world n H J ckpt ids" and ep: "use_ep = (ep \<and> 1 < world)" and r: "r < world"
  shows "\<exists>m. bindE (new_fused_moe mem mem' r world n H J ep) (load_experts ckpt) = Inr m \<and> (1 < moe_tp_size m \<or> 1 < moe_ep_size m \<longleftrightarrow> 1 < world) \<and>
    moe_experts argsort junk junk' silu x m w ids None =
      Inr (map (\<lambda>t. map (\<lambda>c. sum_list (map (\<lambda>j. w ! t ! j * rank_share use_ep world n J silu ckpt r (nat (ids ! t ! j)) (x ! t) c) [0..<k])) [0..<H]) [0..<N])"
proof -
  obtain L m0 where new: "new_fused_moe mem mem' r world n H J ep = Inr m0" "moe_ok H L m0" "places_ok L n (moe_expert_map m0)"
      "moe_tp_size m0 * moe_intermediate_size m0 = J" "1 < moe_tp_size m0 \<or> 1 < moe_ep_size m0 \<longleftrightarrow> 1 < world"
    and mode: "if use_ep then moe_tp_rank m0 = 0 \<and> moe_intermediate_size m0 = J \<and> (\<exists>em. determine_expert_map world r n = (L, em) \<and> moe_expert_map m0 = em)
      else moe_tp_rank m0 = r \<and> moe_intermediate_size m0 = J div world \<and> L = n \<and> moe_expert_map m0 = None"
    using new_fused_moe_ok [OF inp ep r, of mem mem'] by blast
  have ck: "length ckpt = n" "\<forall>ew \<in> set ckpt. expert_shape J H ew" "\<forall>r \<in> set ids. \<forall>e \<in> set r. 0 \<le> e \<and> e < int n"
    using inp by (auto simp: experts_input_def)
  obtain m where m: "load_experts ckpt m0 = Inr m" "loaded_upto H L ckpt m0 n m"
    using load_experts_ok [OF new(2), of ckpt] new(3,4) ck(1,2) by (auto simp: okE_iff)
  have same: "moe_expert_map m = moe_expert_map m0" "moe_ep_size m = moe_ep_size m0" "moe_tp_size m = moe_tp_size m0" "moe_intermediate_size m = moe_intermediate_size m0"
    using m(2) unfolding loaded_upto_def by (cases m; cases m0; simp)+
  let ?em = "moe_expert_map m0" let ?lids = "local_ids L ?em ids"
  have none: "?em = None \<Longrightarrow> L = n" using mode expert_map_nth(1) [of world r n L] r inp by (auto simp: experts_input_def split: if_splits)
  have p: "length ids = N" "\<And>t. t < N \<Longrightarrow> length (ids ! t) = k" using prs by (auto simp: pairs_ok_def)
  have len: "length ?lids = N" "\<And>t. t < N \<Longrightarrow> length (?lids ! t) = k" using p by (auto simp: local_ids_def split: option.splits)
  note lid = local_ids_nth [OF ck(3) new(3) _ _ none, unfolded p(1)]
  have nn: "\<forall>r \<in> set ?lids. \<forall>v \<in> set r. 0 \<le> v" using lid(2) len p(2) by (auto simp: in_set_conv_nth)
  have lt: "\<forall>r \<in> set ?lids. \<forall>v \<in> set r. v < int L" if "?em = None"
    using that none ck(3) by (simp add: local_ids_def)
  have wts: "weights_ok L H (moe_intermediate_size m0) (moe_gate_up_proj m) (moe_down_proj m)" using m(2) same(4) by (auto simp: loaded_upto_def moe_ok_def)
  have tp: "moe_tp_rank m0 < moe_tp_size m0" using new(2) by (simp add: moe_ok_def)
  have entry: "(if nat (?lids ! t ! j) < L then w ! t ! j * expert_out silu (moe_intermediate_size m0) (moe_gate_up_proj m ! nat (?lids ! t ! j)) (moe_down_proj m ! nat (?lids ! t ! j)) (x ! t) ! c else 0) =
      w ! t ! j * rank_share use_ep world n J silu ckpt r (nat (ids ! t ! j)) (x ! t) c" if tjc: "t < N" "j < k" "c < H" for t j c
  proof -
    have e: "nat (ids ! t ! j) < n" using id_range(2) [OF ck(3), of t j] tjc p by simp
    have "moe_gate_up_proj m ! nat (local_id ?em (nat (ids ! t ! j))) = loaded_gate_up m0 (ckpt ! nat (ids ! t ! j)) \<and>
        moe_down_proj m ! nat (local_id ?em (nat (ids ! t ! j))) = loaded_down m0 (ckpt ! nat (ids ! t ! j))" if "local_id ?em (nat (ids ! t ! j)) \<noteq> -1"
      using m(2) that e unfolding loaded_upto_def by blast
    then show ?thesis using rank_share_loaded [OF inp r e tjc(3) tp new(4) mode, of silu "x ! t"] lid(1,3) [of t j] tjc p by auto
  qed
  have "moe_experts argsort junk junk' silu x m w ids None = torch_experts argsort junk junk' silu x (moe_gate_up_proj m) (moe_down_proj m) w ids ?em"
    by (cases "torch_experts argsort junk junk' silu x (moe_gate_up_proj m) (moe_down_proj m) w ids ?em") (simp_all add: moe_experts_def same(1))
  also have "\<dots> = Inr (map (\<lambda>t. map (\<lambda>c. sum_list (map (\<lambda>j. w ! t ! j * rank_share use_ep world n J silu ckpt r (nat (ids ! t ! j)) (x ! t) c) [0..<k])) [0..<H]) [0..<N])"
    by (rule trans [OF torch_experts_sum [OF srt wts prs refl nn lt]], assumption)
      (intro arg_cong [where f = Inr] map_cong refl arg_cong [where f = sum_list], use entry in auto)
  finally show ?thesis using new(1,5) m(1) same by auto
qed

text \<open>What the routed experts should give a token: the weighted sum of the experts it was sent to.\<close>

definition experts_reference :: "(rat \<Rightarrow> rat) \<Rightarrow> nat \<Rightarrow> nat \<Rightarrow> (matrix \<times> matrix \<times> matrix) list \<Rightarrow> rat list \<Rightarrow> rat list \<Rightarrow> int list \<Rightarrow> rat list" where
  "experts_reference silu H k ckpt y ws es =
     map (\<lambda>c. sum_list (map (\<lambda>j. ws ! j * (case ckpt ! nat (es ! j) of (gate, up, down) \<Rightarrow> mlp_reference silu gate up down y ! c)) [0..<k])) [0..<H]"

lemma sum_shares:
  assumes "experts_input (ep \<and> 1 < world) world n H J ckpt ids" "pairs_ok N k H x w ids" "t < N" "c < H"
  shows "sum_list (map (\<lambda>r. sum_list (map (\<lambda>j. w ! t ! j * rank_share (ep \<and> 1 < world) world n J silu ckpt r (nat (ids ! t ! j)) (x ! t) c) [0..<k])) [0..<world]) =
    experts_reference silu H k ckpt (x ! t) (w ! t) (ids ! t) ! c"
proof -
  have i: "0 < world" "length ckpt = n" "\<forall>ew \<in> set ckpt. expert_shape J H ew" "\<forall>r \<in> set ids. \<forall>e \<in> set r. 0 \<le> e \<and> e < int n"
      "\<not> (ep \<and> 1 < world) \<Longrightarrow> world dvd J" "length ids = N" "\<And>t. t < N \<Longrightarrow> length (ids ! t) = k"
    using assms(1,2) unfolding experts_input_def pairs_ok_def by simp_all
  have "sum_list (map (\<lambda>r. w ! t ! j * rank_share (ep \<and> 1 < world) world n J silu ckpt r (nat (ids ! t ! j)) (x ! t) c) [0..<world]) =
      w ! t ! j * (case ckpt ! nat (ids ! t ! j) of (gate, up, down) \<Rightarrow> mlp_reference silu gate up down (x ! t) ! c)" if "j < k" for j
  proof -
    have "nat (ids ! t ! j) < n" using id_range(2) [OF i(4), of t j] i(6,7) assms(3) that by simp
    then show ?thesis unfolding sum_list_const_mult using i by (subst sum_rank_share [OF i(1) _ i(2) _ i(5) assms(4)]) auto
  qed
  then have "map (\<lambda>j. sum_list (map (\<lambda>r. w ! t ! j * rank_share (ep \<and> 1 < world) world n J silu ckpt r (nat (ids ! t ! j)) (x ! t) c) [0..<world])) [0..<k] =
      map (\<lambda>j. w ! t ! j * (case ckpt ! nat (ids ! t ! j) of (gate, up, down) \<Rightarrow> mlp_reference silu gate up down (x ! t) ! c)) [0..<k]"
    by (intro map_cong refl) simp
  from trans [OF sum_list_swap arg_cong [OF this, of sum_list]] show ?thesis using assms(4) by (simp add: experts_reference_def)
qed

text \<open>
  C31: the routed experts do not depend on how they are placed.  With whole experts spread over the
  ranks or every expert cut into shards, built and loaded on each rank, whatever order \<open>sort\<close> gives
  the pairs of one expert and whatever memory holds where \<open>grouped_mm\<close> writes nothing, every rank
  ends with the weighted sum, for each token, of the experts it was sent to.
\<close>

theorem experts_placed:
  assumes "expert_order_ok argsort" "pairs_ok N k H x w ids" "experts_input (ep \<and> 1 < world) world n H J ckpt ids"
  shows "bindE (mapE (\<lambda>r. bindE (new_fused_moe (mem r) (mem' r) r world n H J ep) (load_experts ckpt)) [0..<world])
      (\<lambda>ms. fused_moe_forward argsort junk junk' silu ms x w ids (replicate world None)) =
    Inr (replicate world (map (\<lambda>t. experts_reference silu H k ckpt (x ! t) (w ! t) (ids ! t)) [0..<N]))"
proof -
  let ?f = "\<lambda>r t c. sum_list (map (\<lambda>j. w ! t ! j * rank_share (ep \<and> 1 < world) world n J silu ckpt r (nat (ids ! t ! j)) (x ! t) c) [0..<k])"
  have world: "0 < world" using assms(3) by (simp add: experts_input_def)
  have "\<forall>r. \<exists>m. r < world \<longrightarrow> bindE (new_fused_moe (mem r) (mem' r) r world n H J ep) (load_experts ckpt) = Inr m \<and>
      (1 < moe_tp_size m \<or> 1 < moe_ep_size m \<longleftrightarrow> 1 < world) \<and>
      moe_experts argsort (junk r) (junk' r) silu x m w ids None = Inr (map (\<lambda>t. map (?f r t) [0..<H]) [0..<N])"
    using rank_forward [OF assms refl] by blast
  from choice [OF this] obtain g where g: "\<And>r. r < world \<Longrightarrow> bindE (new_fused_moe (mem r) (mem' r) r world n H J ep) (load_experts ckpt) = Inr (g r)"
      "\<And>r. r < world \<Longrightarrow> 1 < moe_tp_size (g r) \<or> 1 < moe_ep_size (g r) \<longleftrightarrow> 1 < world"
      "\<And>r. r < world \<Longrightarrow> moe_experts argsort (junk r) (junk' r) silu x (g r) w ids None = Inr (map (\<lambda>t. map (?f r t) [0..<H]) [0..<N])"
    by blast
  have loaded: "mapE (\<lambda>r. bindE (new_fused_moe (mem r) (mem' r) r world n H J ep) (load_experts ckpt)) [0..<world] = Inr (map g [0..<world])"
    using g(1) by (intro mapE_total) simp
  have ranks: "List.enumerate 0 (zip (map g [0..<world]) (replicate world None)) = map (\<lambda>r. (r, g r, None)) [0..<world]"
    by (rule nth_equalityI) (simp_all add: nth_enumerate_eq)
  have outs: "mapE (\<lambda>(r, m, shared). moe_experts argsort (junk r) (junk' r) silu x m w ids shared) (map (\<lambda>r. (r, g r, None)) [0..<world]) =
      Inr (map (\<lambda>r. map (\<lambda>t. map (?f r t) [0..<H]) [0..<N]) [0..<world])"
    unfolding mapE_map split_conv using g(3) by (intro mapE_total) simp
  have hd: "1 < moe_tp_size (hd (map g [0..<world])) \<or> 1 < moe_ep_size (hd (map g [0..<world])) \<longleftrightarrow> 1 < world"
    using g(2) [OF world] world by (simp add: hd_map)
  have "map (\<lambda>t. map (\<lambda>c. sum_list (map (\<lambda>r. ?f r t c) [0..<world])) [0..<H]) [0..<N] = map (\<lambda>t. experts_reference silu H k ckpt (x ! t) (w ! t) (ids ! t)) [0..<N]"
    using sum_shares [OF assms(3,2), of _ _ silu] by (intro map_cong refl) (auto simp: experts_reference_def intro!: nth_equalityI)
  then show ?thesis using all_reduce_ranks [OF world refl, of ?f "\<lambda>_. [0..<H]" "[0..<N]"]
    unfolding loaded bindE.simps fused_moe_forward_def ranks outs hd by simp
qed

text \<open>Two ranks with one whole expert each, and one token sent to both.\<close>

definition demo_ckpt :: "(matrix \<times> matrix \<times> matrix) list" where
  "demo_ckpt = [([[1], [2]], [[3], [4]], [[1, 10]]), ([[2], [1]], [[1], [1]], [[5, 1]])]"

definition demo_argsort :: "int list \<Rightarrow> nat list" where
  "demo_argsort xs = map snd (sort (zip xs [0..<length xs]))"

lemma demo_argsort_ok: "expert_order_ok demo_argsort"
  unfolding expert_order_ok_def
proof (intro allI conjI)
  fix xs :: "int list"
  let ?ps = "zip xs [0..<length xs]"
  have "mset (demo_argsort xs) = image_mset snd (mset ?ps)" by (simp add: demo_argsort_def)
  also have "\<dots> = mset (map snd ?ps)" by (simp only: mset_map)
  finally show "mset (demo_argsort xs) = mset [0..<length xs]" by simp
  have "xs ! snd p = fst p" if "p \<in> set (sort ?ps)" for p using that by (auto simp: set_zip)
  then have "gather xs (demo_argsort xs) = map fst (sort ?ps)" by (simp add: gather_def demo_argsort_def)
  moreover have "sorted (map fst (sort ?ps))" by (rule sorted_map_mono [OF sorted_sort]) (auto simp: mono_on_def less_eq_prod_def)
  ultimately show "sorted (gather xs (demo_argsort xs))" by simp
qed

theorem experts_placed_witness:
  "bindE (mapE (\<lambda>r. bindE (new_fused_moe (\<lambda>_ _ _. 7) (\<lambda>_ _ _. 8) r 2 2 1 2 True) (load_experts demo_ckpt)) [0..<2])
      (\<lambda>ms. fused_moe_forward demo_argsort (\<lambda>_ _ _. 9) (\<lambda>_ _ _. 6) (\<lambda>v. v) ms [[1]] [[1, 2]] [[0, 1]] (replicate 2 None)) =
    Inr (replicate 2 [[105]])"
proof -
  have p: "pairs_ok 1 2 1 [[1]] [[1, 2]] [[0, 1]]" by (simp add: pairs_ok_def mat_shape_def)
  have i: "experts_input (True \<and> 1 < (2 :: nat)) 2 2 1 2 demo_ckpt [[0, 1]]"
    by (simp add: experts_input_def demo_ckpt_def expert_shape_def mat_shape_def)
  have "experts_reference (\<lambda>v. v) 1 2 demo_ckpt [1] [1, 2] [0, 1] = [105]" by code_simp
  then show ?thesis
    using experts_placed [OF demo_argsort_ok p i, of "\<lambda>_ _ _ _. 7" "\<lambda>_ _ _ _. 8" "\<lambda>_ _ _. 9" "\<lambda>_ _ _. 6" "\<lambda>v. v"] by simp
qed

end
