(* ===== verification/Spec2Isabelle.thy ===== *)
theory Spec2Isabelle
  imports Block_Properties Scheduler_Properties Metrics Engine_Properties Drafting Configuration Nixl_Properties Api_Server
    Context_Chunks Experts
begin

text \<open>
  A verification of lean-vllm, an LLM serving engine.  Paths below are relative to
  \<open>src/lean_vllm/\<close>.

  \<^bold>\<open>The program.\<close>  An HTTP server (\<open>entrypoints/api_server.py\<close>) hands requests to an asynchronous front
  end (\<open>engine/async_llm.py\<close>), which owns the clients' streams (\<open>engine/output_processor.py\<close>) and
  talks over two sockets, through \<open>engine/core_client.py\<close>, to an engine core in another process
  (\<open>engine/core.py\<close>).  The core serves an \<open>LLMEngine\<close> (\<open>engine/llm_engine.py\<close>): in each step a scheduler
  (\<open>engine/scheduler.py\<close>) chooses sequences under a policy (\<open>engine/policy.py\<close>) and gives them blocks of
  the KV cache (\<open>engine/block_manager.py\<close>), a model runner (\<open>engine/model_runner.py\<close>) makes one batch
  of them, runs the model's layers (\<open>layers/\<close>, \<open>attention/\<close>), samples (\<open>layers/sampler.py\<close>) or verifies
  drafts (\<open>spec_decode/\<close>), and the results are reconciled with the sequences, one step later when
  scheduling is asynchronous.  With
  disaggregated prefill the blocks of a prompt come from another instance
  (\<open>kv_transfer/nixl_connector.py\<close>).

  \<^bold>\<open>State and errors.\<close>  Objects are records, passed explicitly; objects that are shared (the sequences
  of the scheduler, the queues of streams, the futures of the client) live in a store under a
  number.  A raised exception is the left of a sum (\<open>py_error\<close>, type \<open>res\<close>).  Python integers are \<open>int\<close>,
  times and floats \<open>rat\<close>, a dict an association list in insertion order, a set a list without
  duplicates.  Coroutines are cut at their awaits, threads at their locks, so that what runs
  concurrently is the order of the operations in an inductive relation.

  \<^bold>\<open>Theories.\<close>
  \<^item> \<open>Prelude\<close>: errors, slices, indexing, dicts and JSON values, with the rules proofs share.
  \<^item> \<open>Sequences\<close>: \<open>sampling_params.py\<close>, \<open>engine/sequence.py\<close>.  Committing tokens keeps the chained block
    hashes; equal hashes mean equal prefixes; pickling keeps what a worker reads.
  \<^item> \<open>Block_Manager\<close>, \<open>Block_Properties\<close>: allocation, prefix caching and release of blocks.  Every block's
    reference count is its number of holders; admission is exact; a block that is written is in no
    other table, and a shared one means the same tokens.
  \<^item> \<open>Policy\<close>: both queues, with \<open>heapq\<close> written out, as interpretations of one locale of a waiting queue.
  \<^item> \<open>Kv_Transfer\<close>: the engine's side of disaggregation and the aggregation of the ranks' reports.
  \<^item> \<open>Scheduler\<close> and \<open>Scheduler_Inv, _Ops, _Steps, _Commit, _Reconcile, _Requests, _Machine, _Properties\<close>:
    every operation, the invariant of its state, that each operation keeps it and raises nothing,
    the machine of what a caller may do, and what holds in every reachable state.
  \<^item> \<open>Tensors\<close>, \<open>Sampling\<close>, \<open>Spec_Decode\<close>: the index arithmetic of the sampler and the rejection sampler on
    lists; greedy verification loses nothing.
  \<^item> \<open>Model_Runner\<close>, \<open>Runner_Properties\<close>: batch preparation, graph choice and the bookkeeping between
    steps; the runner's rows are the scheduler's, and no two tokens share a cache slot.
  \<^item> \<open>Drafting\<close>: \<open>spec_decode/mtp_proposer.py\<close> and the contexts of \<open>utils/context.py\<close>; in the first pass each
    kept token stands beside the one after it.
  \<^item> \<open>Paged_Attention\<close>: \<open>attention/torch_backend.py\<close>, \<open>AttentionBackend.forward\<close> and \<open>Attention.attend\<close>; over the
    slots the runner computes, a layer is causal attention over each sequence's own tokens.
  \<^item> \<open>Context_Chunks\<close>: \<open>plan_context_chunks\<close> and \<open>context_chunks\<close> of \<open>layers/attention.py\<close>; the plan ends and
    holds every cached key once, within its budget.
  \<^item> \<open>Tensor_Parallel\<close>: \<open>layers/linear.py\<close>, \<open>layers/embed_head.py\<close> and the MLP of \<open>models/qwen3.py\<close>, with their
    weight loaders; the ranks together compute what the whole weights give.
  \<^item> \<open>Experts\<close>: placement, loading and the portable path of \<open>layers/moe.py\<close>; the result does not depend on
    how experts are placed, on the order of equal ids or on what unwritten memory holds.
  \<^item> \<open>Stop_Checker\<close>, \<open>Output_Processor\<close>, \<open>Metrics\<close>: stop strings over chunked text, streams that end once,
    counters that agree.
  \<^item> \<open>Scheduler_Ids\<close>, \<open>Engine_Machine\<close>, \<open>Engine_Properties\<close>: the engine with its scheduler and its runner.  The
    contract of a model runner is the locale \<open>model_worker\<close>, interpreted on the runner without drafts;
    over it every engine a caller reaches simulates the scheduler's machine, with the rows of the
    step in flight, and raises nothing but refusals.
  \<^item> \<open>Llm_Engine\<close>, \<open>Engine_Core\<close>, \<open>Core_Client\<close>, \<open>Async_Llm\<close>, \<open>Api_Server\<close>: the way of a request from HTTP to the
    engine and back.  Every request sent to the core is answered once; no caller and no stream is
    left waiting once the core is gone; a streamed reply says what a whole one says.
  \<^item> \<open>Nixl_Worker\<close>, \<open>Nixl_Properties\<close>: the worker half of the connector; each head is read once, from the
    rank that holds it, and each transfer is reported once.
  \<^item> \<open>Configuration\<close>: \<open>config.py\<close>, command line flags, environment booleans and input buffers.

  \<^bold>\<open>Bounds and loops.\<close>  Loops are structural recursion over what the source iterates, or functions with
  a measure (\<open>siftdown\<close>, the admission loops); nothing is fuelled.  \<open>generate_loop\<close>, which runs until
  the engine is idle, is a partial function into \<open>option\<close>; so are the two loops of the chunk plan, which
  are proved to return.  Sums over ranks, experts and keys are exact, on rationals.  Addresses and lengths of reads are
  unbounded integers, as Python computes them, up to the conversion to \<open>uint64\<close>.

  \<^bold>\<open>Parameters.\<close>  What is not source of this repository is an argument: hash functions, the tokenizers
  library, pydantic, sockets and pickling, the NIXL agent, the random draws and softmax of the
  sampler, the logits of a forward pass, the layers of the drafter, scaled dot-product attention under a mask,
  the activation function, the order a sort gives equal ids, and what \<open>torch.empty\<close> finds in memory.

  \<^bold>\<open>Not modelled.\<close>  Rounding of floats; the attention backends over CUDA libraries, the Triton
  kernels, latent attention with its merge by log-sum-exp, the routing of experts, norms and rotary
  embeddings, and how the models compose the layers.  Compilation, graph capture, CUDA streams,
  the files of a checkpoint and process start-up are calls into torch and the operating system; \<open>uvicorn\<close>, \<open>fastapi\<close> and \<open>argparse\<close> are libraries.  Rendering of
  metrics is the prometheus library's.
\<close>

end
